(* ===== verification/Go_Prelude.thy ===== *)
theory Go_Prelude
  imports Main
begin

section \<open>Shared vocabulary: Go strings, maps, numbers and three-way comparison\<close>

text \<open>
  What every component of the model uses.

  A Go \<open>string\<close> is its list of bytes, an Isabelle \<open>string\<close>; positions and lengths count bytes, as
  \<open>len\<close> and slicing do in the source. The functions of the package \<open>strings\<close> the source calls
  (\<open>HasPrefix\<close>, \<open>TrimPrefix\<close>, \<open>Index\<close>, \<open>Split\<close>, \<open>Fields\<close>, \<open>Compare\<close> and others) are defined here
  for the separators and cut sets it passes. White space is the ASCII white space of
  \<open>unicode.IsSpace\<close>. A loop \<open>for _, r := range s\<close> sees the runes \<^theory_text>\<open>utf8_runes s\<close>.

  A Go \<open>map\<close> is a partial function. The order in which \<open>range\<close> visits a map is not determined by
  the language, so an operation that ranges over a map takes the visiting order as an argument, a
  list that \<^theory_text>\<open>enumerates\<close> the map's domain; a theorem about it holds for every such list.

  A three-way comparison (\<open>CompareTo\<close> and the functions it calls) returns an \<open>int\<close> whose sign is
  the answer. The locale \<open>comparator\<close> states its contract, a total preorder on a carrier, and the
  combinators of the section prove that contract for lexicographic and padded comparisons once.
\<close>

named_theorems go_str \<open>unfolding the functions of the package strings\<close>
named_theorems go_map \<open>reading and updating Go maps\<close>

subsection \<open>Bytes and characters\<close>

definition byte :: "char \<Rightarrow> nat" where
  "byte c = of_char c"

lemma byte_inj [simp]: "byte a = byte b \<longleftrightarrow> a = b"
  by (simp add: byte_def)

lemma byte_less_256 [simp]: "byte c < 256"
  by (simp add: byte_def)

definition is_digit :: "char \<Rightarrow> bool" where
  "is_digit c \<longleftrightarrow> byte CHR ''0'' \<le> byte c \<and> byte c \<le> byte CHR ''9''"

definition is_lower :: "char \<Rightarrow> bool" where
  "is_lower c \<longleftrightarrow> byte CHR ''a'' \<le> byte c \<and> byte c \<le> byte CHR ''z''"

definition is_upper :: "char \<Rightarrow> bool" where
  "is_upper c \<longleftrightarrow> byte CHR ''A'' \<le> byte c \<and> byte c \<le> byte CHR ''Z''"

definition is_alpha :: "char \<Rightarrow> bool" where
  "is_alpha c \<longleftrightarrow> is_lower c \<or> is_upper c"

definition is_space :: "char \<Rightarrow> bool" where
  "is_space c \<longleftrightarrow> byte c = 32 \<or> (9 \<le> byte c \<and> byte c \<le> 13)"

definition digit_val :: "char \<Rightarrow> int" where
  "digit_val c = int (byte c) - 48"

lemma byte_Char [simp]: "byte (Char b0 b1 b2 b3 b4 b5 b6 b7) = of_char (Char b0 b1 b2 b3 b4 b5 b6 b7)"
  by (simp only: byte_def)

subsection \<open>Runes\<close>

text \<open>
  \<open>utf8.DecodeRuneInString\<close> as \<open>range\<close> uses it: the rune at the head and its width in bytes. An
  invalid sequence yields the replacement rune with width one. The tests are those of RFC 3629
  (no overlong forms, no surrogates, at most 10FFFF).
\<close>

definition byte_at :: "string \<Rightarrow> nat \<Rightarrow> nat" where
  "byte_at s i = (if i < length s then byte (s ! i) else 0)"

definition utf8_cont :: "nat \<Rightarrow> bool" where
  "utf8_cont b \<longleftrightarrow> 128 \<le> b \<and> b < 192"

definition utf8_head :: "string \<Rightarrow> nat \<times> nat" where
  "utf8_head s =
     (let x = byte_at s 0; b = byte_at s 1; c = byte_at s 2; d = byte_at s 3 in
      if s = [] then (65533, 0)
      else if x < 128 then (x, 1)
      else if 194 \<le> x \<and> x < 224 \<and> utf8_cont b then ((x - 192) * 64 + (b - 128), 2)
      else if 224 \<le> x \<and> x < 240 \<and> utf8_cont b \<and> utf8_cont c \<and>
              (x = 224 \<longrightarrow> 160 \<le> b) \<and> (x = 237 \<longrightarrow> b < 160)
      then ((x - 224) * 4096 + (b - 128) * 64 + (c - 128), 3)
      else if 240 \<le> x \<and> x < 245 \<and> utf8_cont b \<and> utf8_cont c \<and> utf8_cont d \<and>
              (x = 240 \<longrightarrow> 144 \<le> b) \<and> (x = 244 \<longrightarrow> b < 144)
      then ((x - 240) * 262144 + (b - 128) * 4096 + (c - 128) * 64 + (d - 128), 4)
      else (65533, 1))"

lemma utf8_head_ascii: "byte a < 128 \<Longrightarrow> utf8_head (a # s) = (byte a, 1)"
  by (simp add: utf8_head_def byte_at_def)

lemma utf8_head_width: "0 < snd (utf8_head (a # s))"
  by (simp add: utf8_head_def Let_def)

text \<open>An ASCII byte is never a continuation byte, so it is never swallowed by a longer sequence.\<close>

lemma utf8_head_cont:
  "0 < i \<Longrightarrow> i < snd (utf8_head s) \<Longrightarrow> utf8_cont (byte_at s i)"
proof -
  assume i: "0 < i" and lt: "i < snd (utf8_head s)"
  have "snd (utf8_head s) \<le> 4" by (simp add: utf8_head_def Let_def)
  with i lt consider "i = 1" | "i = 2" | "i = 3" by linarith
  then show ?thesis
    by cases (use lt in \<open>simp_all add: utf8_head_def Let_def split: if_splits\<close>)
qed

lemma utf8_head_tail_non_ascii:
  "i < snd (utf8_head s) \<Longrightarrow> 0 < i \<Longrightarrow> i < length s \<Longrightarrow> 128 \<le> byte (s ! i)"
  using utf8_head_cont [of i s] by (simp add: utf8_cont_def byte_at_def)

function utf8_runes :: "string \<Rightarrow> nat list" where
  "utf8_runes [] = []"
| "utf8_runes (a # s) = (let (r, n) = utf8_head (a # s) in r # utf8_runes (drop n (a # s)))"
  by pat_completeness auto
termination
proof (relation "measure length", goal_cases)
  case (2 a s x r n)
  then have "n = snd (utf8_head (a # s))" by (metis snd_conv)
  with utf8_head_width [of a s] show ?case by simp
qed simp

declare utf8_runes.simps [simp del]

lemma utf8_runes_Nil [simp]: "utf8_runes [] = []"
  by (simp add: utf8_runes.simps)

lemma utf8_runes_ascii [simp]: "byte a < 128 \<Longrightarrow> utf8_runes (a # s) = byte a # utf8_runes s"
  by (simp add: utf8_runes.simps utf8_head_ascii)

text \<open>Every ASCII byte of a string is one of its runes.\<close>

lemma ascii_byte_is_rune: "a \<in> set s \<Longrightarrow> byte a < 128 \<Longrightarrow> byte a \<in> set (utf8_runes s)"
proof (induction s rule: utf8_runes.induct)
  case 1
  then show ?case by simp
next
  case (2 b s)
  obtain r n where rn: "utf8_head (b # s) = (r, n)" by (cases "utf8_head (b # s)")
  have runes: "utf8_runes (b # s) = r # utf8_runes (drop n (b # s))"
    by (simp add: utf8_runes.simps rn)
  obtain i where i: "i < length (b # s)" "(b # s) ! i = a"
    using \<open>a \<in> set (b # s)\<close> by (metis in_set_conv_nth)
  consider "i = 0" | "0 < i" "i < n" | "n \<le> i" by linarith
  then show ?case
  proof cases
    case 1
    with i rn 2(3) show ?thesis by (simp add: runes)
  next
    case 2
    with utf8_head_tail_non_ascii [of i "b # s"] rn i \<open>byte a < 128\<close> show ?thesis by simp
  next
    case 3
    with i have "drop n (b # s) ! (i - n) = a" "i - n < length (drop n (b # s))" by auto
    then have "a \<in> set (drop n (b # s))" by (metis nth_mem)
    then show ?thesis using 2(1) [OF rn [symmetric] refl] \<open>byte a < 128\<close> by (simp add: runes)
  qed
qed

subsection \<open>The package strings\<close>

definition has_prefix :: "string \<Rightarrow> string \<Rightarrow> bool" where
  "has_prefix s p \<longleftrightarrow> take (length p) s = p"

definition has_suffix :: "string \<Rightarrow> string \<Rightarrow> bool" where
  "has_suffix s p \<longleftrightarrow> length p \<le> length s \<and> drop (length s - length p) s = p"

definition trim_prefix :: "string \<Rightarrow> string \<Rightarrow> string" where
  "trim_prefix s p = (if has_prefix s p then drop (length p) s else s)"

definition trim_suffix :: "string \<Rightarrow> string \<Rightarrow> string" where
  "trim_suffix s p = (if has_suffix s p then take (length s - length p) s else s)"

text \<open>\<open>strings.Index\<close> for a one-byte needle: the first position, if any.\<close>

fun index_byte :: "string \<Rightarrow> char \<Rightarrow> nat option" where
  "index_byte [] c = None"
| "index_byte (a # s) c = (if a = c then Some 0 else map_option Suc (index_byte s c))"

text \<open>\<open>strings.LastIndex\<close>: the last position at which the needle starts.\<close>

fun last_index :: "string \<Rightarrow> string \<Rightarrow> nat option" where
  "last_index [] p = (if p = [] then Some 0 else None)"
| "last_index (a # s) p =
     (case last_index s p of
        Some i \<Rightarrow> Some (Suc i)
      | None \<Rightarrow> if has_prefix (a # s) p then Some 0 else None)"

text \<open>\<open>strings.Split\<close> with a one-byte separator, and \<open>strings.SplitN\<close> with limit two.\<close>

fun split_byte :: "char \<Rightarrow> string \<Rightarrow> string list" where
  "split_byte c [] = [[]]"
| "split_byte c (a # s) =
     (if a = c then [] # split_byte c s
      else case split_byte c s of [] \<Rightarrow> [[a]] | w # ws \<Rightarrow> (a # w) # ws)"

definition splitn2_byte :: "char \<Rightarrow> string \<Rightarrow> string list" where
  "splitn2_byte c s = (case index_byte s c of None \<Rightarrow> [s] | Some i \<Rightarrow> [take i s, drop (Suc i) s])"

text \<open>\<open>strings.TrimSpace\<close> and \<open>strings.Fields\<close> over ASCII white space.\<close>

definition trim_space :: "string \<Rightarrow> string" where
  "trim_space s = rev (dropWhile is_space (rev (dropWhile is_space s)))"

fun str_fields_aux :: "string \<Rightarrow> string \<Rightarrow> string list" where
  "str_fields_aux acc [] = (if acc = [] then [] else [rev acc])"
| "str_fields_aux acc (a # s) =
     (if is_space a then (if acc = [] then str_fields_aux [] s else rev acc # str_fields_aux [] s)
      else str_fields_aux (a # acc) s)"

definition str_fields :: "string \<Rightarrow> string list" where
  "str_fields s = str_fields_aux [] s"

text \<open>\<open>strings.ToLower\<close> on ASCII letters.\<close>

definition to_lower_char :: "char \<Rightarrow> char" where
  "to_lower_char c = (if is_upper c then char_of (byte c + 32) else c)"

definition to_lower :: "string \<Rightarrow> string" where
  "to_lower s = map to_lower_char s"

text \<open>\<open>strings.Join\<close>.\<close>

fun join :: "string \<Rightarrow> string list \<Rightarrow> string" where
  "join sep [] = []"
| "join sep [x] = x"
| "join sep (x # y # ys) = x @ sep @ join sep (y # ys)"

lemma has_prefix_append [simp]: "has_prefix (p @ s) p"
  by (simp add: has_prefix_def)

lemma has_prefix_iff: "has_prefix s p \<longleftrightarrow> (\<exists>t. s = p @ t)"
  by (metis append_take_drop_id has_prefix_append has_prefix_def)

lemma has_prefix_Nil [simp]: "has_prefix s []"
  by (simp add: has_prefix_def)

lemma has_prefix_Cons [simp]: "has_prefix (a # s) (b # p) \<longleftrightarrow> a = b \<and> has_prefix s p"
  by (auto simp: has_prefix_def)

lemma has_prefix_Nil_Cons [simp]: "\<not> has_prefix [] (b # p)"
  by (simp add: has_prefix_def)

lemma has_suffix_iff: "has_suffix s p \<longleftrightarrow> (\<exists>t. s = t @ p)"
  unfolding has_suffix_def
  by (metis append_eq_conv_conj append_take_drop_id diff_le_self le_add2 length_append length_drop
      diff_diff_cancel add_diff_cancel_right')

lemma has_suffix_append [simp]: "has_suffix (t @ p) p"
  by (auto simp: has_suffix_iff)

lemma has_suffix_snoc [simp]: "has_suffix (s @ [a]) [b] \<longleftrightarrow> a = b"
  by (auto simp: has_suffix_iff)

lemma has_suffix_Nil_single [simp]: "\<not> has_suffix [] [b]"
  by (simp add: has_suffix_def)

lemma has_suffix_single: "has_suffix s [b] \<longleftrightarrow> s \<noteq> [] \<and> last s = b"
  by (cases s rule: rev_cases) auto

lemma trim_prefix_append [simp]: "trim_prefix (p @ s) p = s"
  by (simp add: trim_prefix_def)

lemma trim_prefix_Cons [simp]: "trim_prefix (a # s) [a] = s"
  by (simp add: trim_prefix_def)

lemma trim_suffix_append [simp]: "trim_suffix (s @ p) p = s"
  by (simp add: trim_suffix_def)

lemma trim_suffix_none [simp]: "\<not> has_suffix s p \<Longrightarrow> trim_suffix s p = s"
  by (simp add: trim_suffix_def)

lemma trim_prefix_none [simp]: "\<not> has_prefix s p \<Longrightarrow> trim_prefix s p = s"
  by (simp add: trim_prefix_def)

lemma index_byte_None [simp]: "index_byte s c = None \<longleftrightarrow> c \<notin> set s"
  by (induction s) auto

lemma index_byte_append: "c \<notin> set s \<Longrightarrow> index_byte (s @ c # t) c = Some (length s)"
  by (induction s) auto

lemma index_byte_SomeD:
  "index_byte s c = Some i \<Longrightarrow> i < length s \<and> s ! i = c \<and> c \<notin> set (take i s)"
  by (induction s arbitrary: i) (auto split: if_splits)

lemma index_byte_split:
  "index_byte s c = Some i \<Longrightarrow> s = take i s @ c # drop (Suc i) s"
  by (metis id_take_nth_drop index_byte_SomeD)

lemma split_byte_nonempty [simp]: "split_byte c s \<noteq> []"
  by (induction s) (auto split: list.splits)

lemma split_byte_none: "c \<notin> set s \<Longrightarrow> split_byte c s = [s]"
  by (induction s) auto

lemma split_byte_append: "c \<notin> set s \<Longrightarrow> split_byte c (s @ c # t) = s # split_byte c t"
  by (induction s) auto

lemma split_byte_members: "w \<in> set (split_byte c s) \<Longrightarrow> c \<notin> set w"
  by (induction s arbitrary: w) (auto split: if_splits list.splits)

lemma join_split_byte: "join [c] (split_byte c s) = s"
proof (induction s)
  case (Cons a s)
  obtain w ws where ws: "split_byte c s = w # ws" by (cases "split_byte c s") auto
  with Cons show ?case by (cases ws) auto
qed simp

lemma split_byte_join:
  "xs \<noteq> [] \<Longrightarrow> \<forall>x \<in> set xs. c \<notin> set x \<Longrightarrow> split_byte c (join [c] xs) = xs"
  by (induction "[c]" xs rule: join.induct) (auto simp: split_byte_none split_byte_append)

lemma splitn2_byte_append: "c \<notin> set s \<Longrightarrow> splitn2_byte c (s @ c # t) = [s, t]"
  by (simp add: splitn2_byte_def index_byte_append)

lemma splitn2_byte_none: "c \<notin> set s \<Longrightarrow> splitn2_byte c s = [s]"
  by (simp add: splitn2_byte_def index_byte_None [THEN iffD2])

lemma last_index_SomeD:
  "last_index s p = Some i \<Longrightarrow> i \<le> length s \<and> has_prefix (drop i s) p"
  by (induction s p arbitrary: i rule: last_index.induct) (auto split: option.splits if_splits)

lemmas go_strings [go_str] =
  has_prefix_def has_suffix_def trim_prefix_def trim_suffix_def splitn2_byte_def

subsection \<open>Numbers\<close>

text \<open>
  \<open>strconv.Atoi\<close>: it fails on a string that is not a decimal number and on a value that does not
  fit the 64-bit \<open>int\<close>. The source only gives it strings of digits or of letters, so the signs it
  also accepts are left out.
\<close>

definition max_int :: int where
  "max_int = 2 ^ 63 - 1"

lemma max_int_nonneg [simp]: "0 \<le> max_int"
  by (simp add: max_int_def)

definition digits_value :: "string \<Rightarrow> int" where
  "digits_value s = foldl (\<lambda>n c. 10 * n + digit_val c) 0 s"

definition atoi :: "string \<Rightarrow> int option" where
  "atoi s = (if s \<noteq> [] \<and> list_all is_digit s \<and> digits_value s \<le> max_int
             then Some (digits_value s) else None)"

lemma digit_val_range: "is_digit c \<Longrightarrow> 0 \<le> digit_val c \<and> digit_val c \<le> 9"
  by (auto simp: is_digit_def digit_val_def)

lemma digits_fold_mono: "list_all is_digit s \<Longrightarrow> 0 \<le> n \<Longrightarrow> n \<le> foldl (\<lambda>n c. 10 * n + digit_val c) n s"
proof (induction s arbitrary: n)
  case (Cons c s)
  then have "0 \<le> digit_val c" using digit_val_range by simp
  then have "n \<le> 10 * n + digit_val c" "0 \<le> 10 * n + digit_val c" using Cons.prems(2) by linarith+
  moreover have "10 * n + digit_val c \<le> foldl (\<lambda>n c. 10 * n + digit_val c) (10 * n + digit_val c) s"
    by (rule Cons.IH) (use Cons.prems(1) calculation in auto)
  ultimately show ?case by simp
qed simp

lemma digits_value_nonneg: "list_all is_digit s \<Longrightarrow> 0 \<le> digits_value s"
  unfolding digits_value_def by (rule digits_fold_mono) simp_all

lemma digits_value_pos:
  assumes "list_all is_digit s" "s \<noteq> []" "hd s \<noteq> CHR ''0''"
  shows "0 < digits_value s"
proof -
  obtain c t where s: "s = c # t" using assms(2) by (cases s) auto
  have "byte c \<noteq> 48" using assms(3) s byte_inj [of c "CHR ''0''"] by simp
  then have "0 < digit_val c" using assms(1) s by (simp add: is_digit_def digit_val_def)
  then show ?thesis
    using digits_fold_mono [of t "digit_val c"] assms(1) s by (simp add: digits_value_def)
qed

lemma atoi_SomeD: "atoi s = Some n \<Longrightarrow> n = digits_value s \<and> 0 \<le> n \<and> n \<le> max_int"
  by (auto simp: atoi_def digits_value_nonneg split: if_splits)

subsection \<open>Maps\<close>

text \<open>Reading a \<open>map[string]bool\<close>: an absent key reads as \<open>false\<close>.\<close>

definition flag_on :: "('k \<rightharpoonup> bool) \<Rightarrow> 'k \<Rightarrow> bool" where
  "flag_on m k \<longleftrightarrow> m k = Some True"

lemma flag_on_upd [simp, go_map]: "flag_on (m(k \<mapsto> b)) x = (if x = k then b else flag_on m x)"
  by (simp add: flag_on_def)

lemma flag_on_del [simp, go_map]: "flag_on (m(k := None)) x = (x \<noteq> k \<and> flag_on m x)"
  by (simp add: flag_on_def)

lemma flag_on_empty [simp, go_map]: "\<not> flag_on (\<lambda>_. None) x"
  by (simp add: flag_on_def)

text \<open>A visiting order of a map: each key of the domain once.\<close>

definition enumerates :: "'k list \<Rightarrow> ('k \<rightharpoonup> 'v) \<Rightarrow> bool" where
  "enumerates ks m \<longleftrightarrow> distinct ks \<and> set ks = dom m"

lemma enumerates_set: "enumerates ks m \<Longrightarrow> k \<in> set ks \<longleftrightarrow> (\<exists>v. m k = Some v)"
  by (auto simp: enumerates_def dom_def)

lemma enumerates_upd_old: "enumerates ks m \<Longrightarrow> m k \<noteq> None \<Longrightarrow> enumerates ks (m(k \<mapsto> v))"
  by (auto simp: enumerates_def dom_def)

lemma enumerates_upd_new: "enumerates ks m \<Longrightarrow> m k = None \<Longrightarrow> enumerates (ks @ [k]) (m(k \<mapsto> v))"
  by (auto simp: enumerates_def dom_def)

text \<open>Appending to the list stored under a key, \<open>m[k] = append(m[k], x)\<close>.\<close>

definition map_append :: "('k \<Rightarrow> 'v list) \<Rightarrow> 'k \<Rightarrow> 'v \<Rightarrow> ('k \<Rightarrow> 'v list)" where
  "map_append m k x = m(k := m k @ [x])"

lemma map_append_apply [simp, go_map]:
  "map_append m k x j = (if j = k then m k @ [x] else m j)"
  by (simp add: map_append_def)

subsection \<open>Three-way comparison\<close>

locale comparator =
  fixes cmp :: "'a \<Rightarrow> 'a \<Rightarrow> int"
    and carrier :: "'a \<Rightarrow> bool"
  assumes antisym: "carrier x \<Longrightarrow> carrier y \<Longrightarrow> sgn (cmp y x) = - sgn (cmp x y)"
    and trans: "carrier x \<Longrightarrow> carrier y \<Longrightarrow> carrier z \<Longrightarrow> cmp x y \<le> 0 \<Longrightarrow> cmp y z \<le> 0 \<Longrightarrow> cmp x z \<le> 0"
begin

lemma cmp_refl: "carrier x \<Longrightarrow> cmp x x = 0"
  using antisym [of x x] by (simp add: sgn_if split: if_splits)

lemma flip_le: "carrier x \<Longrightarrow> carrier y \<Longrightarrow> cmp y x \<le> 0 \<longleftrightarrow> 0 \<le> cmp x y"
  using antisym [of x y] by (auto simp: sgn_if split: if_splits)

lemma flip_lt: "carrier x \<Longrightarrow> carrier y \<Longrightarrow> cmp y x < 0 \<longleftrightarrow> 0 < cmp x y"
  using antisym [of x y] by (auto simp: sgn_if split: if_splits)

lemma flip_eq: "carrier x \<Longrightarrow> carrier y \<Longrightarrow> cmp y x = 0 \<longleftrightarrow> cmp x y = 0"
  using antisym [of x y] by (auto simp: sgn_if split: if_splits)

lemma total: "carrier x \<Longrightarrow> carrier y \<Longrightarrow> cmp x y \<le> 0 \<or> cmp y x \<le> 0"
  using flip_le [of x y] by linarith

lemma eq_trans:
  "carrier x \<Longrightarrow> carrier y \<Longrightarrow> carrier z \<Longrightarrow> cmp x y = 0 \<Longrightarrow> cmp y z = 0 \<Longrightarrow> cmp x z = 0"
  using trans [of x y z] trans [of z y x] flip_le [of x y] flip_le [of y z] flip_le [of x z]
    flip_le [of y x] flip_le [of z y]
  by linarith

lemma lt_le_trans:
  "carrier x \<Longrightarrow> carrier y \<Longrightarrow> carrier z \<Longrightarrow> cmp x y < 0 \<Longrightarrow> cmp y z \<le> 0 \<Longrightarrow> cmp x z < 0"
  using trans [of x y z] trans [of y z x] flip_le [of x y] flip_le [of x z] by linarith

lemma le_lt_trans:
  "carrier x \<Longrightarrow> carrier y \<Longrightarrow> carrier z \<Longrightarrow> cmp x y \<le> 0 \<Longrightarrow> cmp y z < 0 \<Longrightarrow> cmp x z < 0"
  using trans [of x y z] trans [of z x y] flip_le [of y z] flip_le [of x z] by linarith

end

text \<open>A comparison through a projection.\<close>

lemma comparator_inv_image:
  assumes "comparator c D" and "\<And>x. E x \<Longrightarrow> D (h x)"
  shows "comparator (\<lambda>x y. c (h x) (h y)) E"
proof
  show "sgn (c (h y) (h x)) = - sgn (c (h x) (h y))" if "E x" "E y" for x y
    by (rule comparator.antisym [OF assms(1)]) (use assms(2) that in auto)
  show "c (h x) (h z) \<le> 0"
    if "E x" "E y" "E z" "c (h x) (h y) \<le> 0" "c (h y) (h z) \<le> 0" for x y z
    by (rule comparator.trans [OF assms(1), of "h x" "h y" "h z"]) (use assms(2) that in auto)
qed

text \<open>Only the sign of an answer matters.\<close>

lemma comparator_sgn:
  assumes c: "comparator c D" and eq: "\<And>x y. D x \<Longrightarrow> D y \<Longrightarrow> sgn (c' x y) = sgn (c x y)"
  shows "comparator c' D"
proof
  have le: "c' x y \<le> 0 \<longleftrightarrow> c x y \<le> 0" if "D x" "D y" for x y
    using eq [OF that] by (auto simp: sgn_if split: if_splits)
  show "sgn (c' y x) = - sgn (c' x y)" if "D x" "D y" for x y
    using comparator.antisym [OF c that] eq that by simp
  show "c' x z \<le> 0" if "D x" "D y" "D z" "c' x y \<le> 0" "c' y z \<le> 0" for x y z
    using comparator.trans [OF c that(1-3)] le that by simp
qed

text \<open>First one comparison, then the other where the first sees no difference.\<close>

definition then_cmp :: "int \<Rightarrow> int \<Rightarrow> int" where
  "then_cmp a b = (if a \<noteq> 0 then a else b)"

lemma comparator_then:
  assumes f: "comparator f D" and g: "comparator g D"
  shows "comparator (\<lambda>x y. then_cmp (f x y) (g x y)) D"
proof
  fix x y
  assume D: "D x" "D y"
  show "sgn (then_cmp (f y x) (g y x)) = - sgn (then_cmp (f x y) (g x y))"
  proof (cases "f x y = 0")
    case True
    then have "f y x = 0" using comparator.flip_eq [OF f D] by blast
    with True show ?thesis using comparator.antisym [OF g D] by (simp only: then_cmp_def) simp
  next
    case False
    then have "f y x \<noteq> 0" using comparator.flip_eq [OF f D] by blast
    with False show ?thesis using comparator.antisym [OF f D] by (simp only: then_cmp_def) simp
  qed
next
  fix x y z
  assume D: "D x" "D y" "D z"
    and xy: "then_cmp (f x y) (g x y) \<le> 0" and yz: "then_cmp (f y z) (g y z) \<le> 0"
  from xy yz have le: "f x y \<le> 0" "f y z \<le> 0" by (auto simp: then_cmp_def split: if_splits)
  show "then_cmp (f x z) (g x z) \<le> 0"
  proof (cases "f x y = 0 \<and> f y z = 0")
    case True
    then have "f x z = 0" using comparator.eq_trans [OF f D] by simp
    moreover have "g x z \<le> 0"
      using comparator.trans [OF g D] xy yz True by (simp add: then_cmp_def)
    ultimately show ?thesis by (simp add: then_cmp_def)
  next
    case False
    then have "f x z < 0"
      using comparator.lt_le_trans [OF f D] comparator.le_lt_trans [OF f D] le by linarith
    then show ?thesis by (simp add: then_cmp_def)
  qed
qed

text \<open>
  A loop over two slices up to the longer one's length, reading a default value past an end:
  the first difference decides.
\<close>

fun pad_cmp :: "('a \<Rightarrow> 'a \<Rightarrow> int) \<Rightarrow> 'a \<Rightarrow> 'a list \<Rightarrow> 'a list \<Rightarrow> int" where
  "pad_cmp c d [] [] = 0"
| "pad_cmp c d (x # xs) [] = then_cmp (c x d) (pad_cmp c d xs [])"
| "pad_cmp c d [] (y # ys) = then_cmp (c d y) (pad_cmp c d [] ys)"
| "pad_cmp c d (x # xs) (y # ys) = then_cmp (c x y) (pad_cmp c d xs ys)"

definition hd_pad :: "'a \<Rightarrow> 'a list \<Rightarrow> 'a" where
  "hd_pad d xs = (case xs of [] \<Rightarrow> d | x # _ \<Rightarrow> x)"

lemma pad_cmp_step:
  assumes "c d d = 0"
  shows "pad_cmp c d xs ys = then_cmp (c (hd_pad d xs) (hd_pad d ys)) (pad_cmp c d (tl xs) (tl ys))"
  using assms by (cases xs; cases ys) (simp_all add: hd_pad_def then_cmp_def)

lemma comparator_pad:
  assumes c: "comparator c D" and d: "D d"
  shows "comparator (pad_cmp c d) (\<lambda>xs. \<forall>x \<in> set xs. D x)"
proof -
  let ?E = "\<lambda>xs. \<forall>x \<in> set xs. D x"
  have dd: "c d d = 0" by (rule comparator.cmp_refl [OF c d])
  have hd: "?E xs \<Longrightarrow> D (hd_pad d xs)" and tl: "?E xs \<Longrightarrow> ?E (tl xs)" for xs
    using d by (cases xs; simp add: hd_pad_def)+
  have anti: "?E xs \<Longrightarrow> ?E ys \<Longrightarrow> length xs \<le> n \<Longrightarrow> length ys \<le> n \<Longrightarrow>
    sgn (pad_cmp c d ys xs) = - sgn (pad_cmp c d xs ys)" for n xs ys
  proof (induction n arbitrary: xs ys)
    case 0
    then show ?case by simp
  next
    case (Suc n)
    note st = pad_cmp_step [of c d, OF dd]
    have D: "D (hd_pad d xs)" "D (hd_pad d ys)" using hd Suc.prems by blast+
    have "sgn (pad_cmp c d (tl ys) (tl xs)) = - sgn (pad_cmp c d (tl xs) (tl ys))"
      by (rule Suc.IH) (use Suc.prems tl in auto)
    moreover have "c (hd_pad d ys) (hd_pad d xs) = 0 \<longleftrightarrow> c (hd_pad d xs) (hd_pad d ys) = 0"
      by (rule comparator.flip_eq [OF c D])
    ultimately show ?case
      using comparator.antisym [OF c D] unfolding st [of xs ys] st [of ys xs] then_cmp_def
      by (cases "c (hd_pad d xs) (hd_pad d ys) = 0") simp_all
  qed
  have tr: "?E xs \<Longrightarrow> ?E ys \<Longrightarrow> ?E zs \<Longrightarrow> length xs \<le> n \<Longrightarrow> length ys \<le> n \<Longrightarrow> length zs \<le> n \<Longrightarrow>
    pad_cmp c d xs ys \<le> 0 \<Longrightarrow> pad_cmp c d ys zs \<le> 0 \<Longrightarrow> pad_cmp c d xs zs \<le> 0" for n xs ys zs
  proof (induction n arbitrary: xs ys zs)
    case 0
    then show ?case by simp
  next
    case (Suc n)
    let ?x = "hd_pad d xs" and ?y = "hd_pad d ys" and ?z = "hd_pad d zs"
    note st = pad_cmp_step [of c d, OF dd]
    have D: "D ?x" "D ?y" "D ?z" using hd Suc.prems by blast+
    have le: "c ?x ?y \<le> 0" "c ?y ?z \<le> 0"
      using Suc.prems(7,8) st [of xs ys] st [of ys zs] by (auto simp: then_cmp_def split: if_splits)
    show ?case
    proof (cases "c ?x ?y = 0 \<and> c ?y ?z = 0")
      case True
      have rest: "pad_cmp c d (tl xs) (tl ys) \<le> 0" "pad_cmp c d (tl ys) (tl zs) \<le> 0"
        using Suc.prems(7,8) st [of xs ys] st [of ys zs] True by (simp_all add: then_cmp_def)
      have "pad_cmp c d (tl xs) (tl zs) \<le> 0"
        by (rule Suc.IH [of "tl xs" "tl ys" "tl zs"]) (use Suc.prems tl rest in auto)
      moreover have "c ?x ?z = 0" using True comparator.eq_trans [OF c D] by simp
      ultimately show ?thesis using st [of xs zs] by (simp add: then_cmp_def)
    next
      case False
      then have "c ?x ?z < 0"
        using comparator.lt_le_trans [OF c D] comparator.le_lt_trans [OF c D] le by linarith
      then show ?thesis using st [of xs zs] by (simp add: then_cmp_def)
    qed
  qed
  show ?thesis
  proof
    show "sgn (pad_cmp c d ys xs) = - sgn (pad_cmp c d xs ys)" if "?E xs" "?E ys" for xs ys
      by (rule anti [of _ _ "max (length xs) (length ys)"]) (use that in auto)
    show "pad_cmp c d xs zs \<le> 0"
      if "?E xs" "?E ys" "?E zs" "pad_cmp c d xs ys \<le> 0" "pad_cmp c d ys zs \<le> 0" for xs ys zs
      by (rule tr [of xs ys zs "max (length xs) (max (length ys) (length zs))"]) (use that in auto)
  qed
qed

text \<open>\<open>strings.Compare\<close>: byte-wise lexicographic order, with answers -1, 0 and 1.\<close>

fun str_compare :: "string \<Rightarrow> string \<Rightarrow> int" where
  "str_compare [] [] = 0"
| "str_compare [] (b # t) = - 1"
| "str_compare (a # s) [] = 1"
| "str_compare (a # s) (b # t) =
     (if byte a < byte b then - 1 else if byte b < byte a then 1 else str_compare s t)"

lemma str_compare_range: "str_compare s t \<in> {- 1, 0, 1}"
  by (induction s t rule: str_compare.induct) auto

lemma str_compare_eq_0 [simp]: "str_compare s t = 0 \<longleftrightarrow> s = t"
  by (induction s t rule: str_compare.induct) auto

lemma str_compare_refl [simp]: "str_compare s s = 0"
  by (induction s) auto

lemma str_compare_antisym: "str_compare t s = - str_compare s t"
  by (induction s t rule: str_compare.induct) auto

lemma str_compare_trans: "str_compare s t \<le> 0 \<Longrightarrow> str_compare t u \<le> 0 \<Longrightarrow> str_compare s u \<le> 0"
proof (induction s t arbitrary: u rule: str_compare.induct)
  case 1
  then show ?case by simp
next
  case (2 b t)
  then show ?case by (cases u) simp_all
next
  case (3 a s)
  then show ?case by simp
next
  case (4 a s b t)
  show ?case
  proof (cases u)
    case Nil
    with "4.prems" show ?thesis by simp
  next
    case (Cons c v)
    have bc: "byte b \<le> byte c" using "4.prems"(2) Cons by (simp split: if_splits)
    have ab: "byte a \<le> byte b" using "4.prems"(1) by (simp split: if_splits)
    show ?thesis
    proof (cases "byte a = byte c")
      case True
      with ab bc have "a = b" "b = c" by simp_all
      with "4.prems" "4.IH" Cons show ?thesis by simp
    next
      case False
      with ab bc have "byte a < byte c" by linarith
      with Cons show ?thesis by simp
    qed
  qed
qed

interpretation str_cmp: comparator str_compare "\<lambda>_. True"
proof
  show "sgn (str_compare y x) = - sgn (str_compare x y)" for x y
    by (subst str_compare_antisym) simp
  show "str_compare x z \<le> 0" if "str_compare x y \<le> 0" "str_compare y z \<le> 0" for x y z
    using that by (rule str_compare_trans)
qed

text \<open>Difference of two machine integers of one sign: no overflow, and the sign orders them.\<close>

lemma comparator_diff: "comparator (\<lambda>x y :: int. x - y) (\<lambda>_. True)"
  by unfold_locales (auto simp: sgn_if)

end
