(* ===== verification/Versions.thy ===== *)
theory Versions
  imports Go_Prelude
begin

section \<open>Package versions: parsing and comparison\<close>

text \<open>
  \<open>internal/pkg/version.go\<close> and the string comparison \<open>CompareVersions\<close> of
  \<open>internal/pkg/constraint.go\<close>. A parsed \<open>Version\<close> is the record \<open>version\<close>; the comparison
  functions keep the source's names and order.

  The regular expressions are matched by the package \<open>coregex\<close>, which is not part of the
  repository: its matching functions, one per pattern, are the record \<open>coregex\<close>, an argument of
  the parser. The locale \<open>coregex_lib\<close> states what those patterns mean. \<open>ref_coregex\<close> is a concrete
  matcher, and the interpretation \<open>ref_rx\<close> shows it satisfies the laws.

  \<open>pms_compare\<close> transcribes Algorithms 3.1 to 3.7 of \<open>docs/pms/chapter3-names-versions.md\<close>, the
  specification the comparison cites.
\<close>

subsection \<open>Data\<close>

record version_component =
  vc_Value :: int
  vc_HasLeadingZero :: bool
  vc_Original :: string

record version_suffix =
  vs_Type :: string
  vs_Number :: int

record version =
  v_raw :: string
  v_components :: "version_component list"
  v_letterSuffix :: string
  v_suffixes :: "version_suffix list"
  v_revision :: int

datatype version_error =
  ErrEmptyVersion
| ErrVersionNoDigit
| ErrVersionRevision string
| ErrVersionSuffixNumber string
| ErrVersionMain
| ErrVersionComponent string
| ErrVersionNoComponents
| ErrVersionInvalid string

subsection \<open>The patterns\<close>

text \<open>
  One field per call of the library: \<open>versionDigitRe.MatchString\<close>; the match and the group of
  \<open>versionRevisionRe.FindStringSubmatch\<close>; the start of the first match of
  \<open>versionSuffixRe.FindAllStringSubmatchIndex\<close>; the groups of all matches of
  \<open>versionSuffixRe.FindAllStringSubmatch\<close>; the groups of \<open>versionMainRe.FindStringSubmatch\<close>; and
  the matches of the pattern of \<open>legacyParseComponents\<close>.
\<close>

record coregex =
  rx_digit :: "string \<Rightarrow> bool"
  rx_revision :: "string \<Rightarrow> (string \<times> string) option"
  rx_suffix_start :: "string \<Rightarrow> nat option"
  rx_suffix_all :: "string \<Rightarrow> (string \<times> string) list"
  rx_main :: "string \<Rightarrow> (string \<times> string) option"
  rx_legacy :: "string \<Rightarrow> string list"

definition suffix_types :: "string list" where
  "suffix_types = [''alpha'', ''beta'', ''pre'', ''rc'', ''p'']"

definition digits :: "string \<Rightarrow> bool" where
  "digits s \<longleftrightarrow> s \<noteq> [] \<and> list_all is_digit s"

definition number_parts :: "string list \<Rightarrow> bool" where
  "number_parts ps \<longleftrightarrow> ps \<noteq> [] \<and> list_all digits ps"

definition letter_part :: "string \<Rightarrow> bool" where
  "letter_part l \<longleftrightarrow> l = [] \<or> (\<exists>c. l = [c] \<and> is_lower c)"

definition suffix_part :: "string \<times> string \<Rightarrow> bool" where
  "suffix_part p \<longleftrightarrow> fst p \<in> set suffix_types \<and> list_all is_digit (snd p)"

definition suffix_text :: "string \<times> string \<Rightarrow> string" where
  "suffix_text p = ''_'' @ fst p @ snd p"

definition suffixes_text :: "(string \<times> string) list \<Rightarrow> string" where
  "suffixes_text ps = concat (map suffix_text ps)"

locale coregex_lib =
  fixes rx :: coregex
  assumes digit_law: "rx_digit rx s \<longleftrightarrow> s \<noteq> [] \<and> is_digit (hd s)"
    and revision_law:
      "rx_revision rx s = Some (m, d) \<longleftrightarrow> m = ''-r'' @ d \<and> digits d \<and> has_suffix s m"
    and suffix_start_none: "CHR ''_'' \<notin> set s \<Longrightarrow> rx_suffix_start rx s = None"
    and suffix_start_some:
      "CHR ''_'' \<notin> set s \<Longrightarrow> suffix_part p \<Longrightarrow>
       rx_suffix_start rx (s @ suffix_text p @ t) = Some (length s)"
    and suffix_start_bound: "rx_suffix_start rx s = Some i \<Longrightarrow> i < length s"
    and suffix_all_sound: "p \<in> set (rx_suffix_all rx s) \<Longrightarrow> suffix_part p"
    and suffix_all_complete:
      "list_all suffix_part ps \<Longrightarrow> rx_suffix_all rx (suffixes_text ps) = ps"
    and main_sound:
      "rx_main rx s = Some (n, l) \<Longrightarrow>
       (\<exists>ns. number_parts ns \<and> n = join ''.'' ns) \<and> letter_part l \<and> has_prefix s (n @ l)"
    and main_complete:
      "number_parts ns \<Longrightarrow> letter_part l \<Longrightarrow>
       rx_main rx (join ''.'' ns @ l) = Some (join ''.'' ns, l)"

subsection \<open>Parsing\<close>

definition parse_component :: "string \<Rightarrow> version_error + version_component" where
  "parse_component part =
     (case atoi part of
        None \<Rightarrow> Inl (ErrVersionComponent part)
      | Some num \<Rightarrow> Inr \<lparr>vc_Value = num,
                     vc_HasLeadingZero = (1 < length part \<and> hd part = CHR ''0''),
                     vc_Original = part\<rparr>)"

fun parse_components :: "string list \<Rightarrow> version_error + version_component list" where
  "parse_components [] = Inr []"
| "parse_components (part # parts) =
     (if part = [] then parse_components parts
      else case parse_component part of
        Inl e \<Rightarrow> Inl e
      | Inr c \<Rightarrow> (case parse_components parts of Inl e \<Rightarrow> Inl e | Inr cs \<Rightarrow> Inr (c # cs)))"

fun parse_suffixes :: "(string \<times> string) list \<Rightarrow> version_error + version_suffix list" where
  "parse_suffixes [] = Inr []"
| "parse_suffixes ((t, n) # ms) =
     (case (if n = [] then Some 0 else atoi n) of
        None \<Rightarrow> Inl (ErrVersionSuffixNumber n)
      | Some num \<Rightarrow>
          (case parse_suffixes ms of
             Inl e \<Rightarrow> Inl e
           | Inr ss \<Rightarrow> Inr (\<lparr>vs_Type = t, vs_Number = num\<rparr> # ss)))"

text \<open>Step 1 of \<open>parseVersion\<close>: the revision and what is left of the string.\<close>

definition parse_revision :: "coregex \<Rightarrow> string \<Rightarrow> version_error + int \<times> string" where
  "parse_revision rx s =
     (case rx_revision rx s of
        None \<Rightarrow> Inr (0, s)
      | Some (m, d) \<Rightarrow>
          (case atoi d of
             None \<Rightarrow> Inl (ErrVersionRevision d)
           | Some n \<Rightarrow> Inr (n, take (length s - length m) s)))"

text \<open>Step 2: the suffixes and what is left.\<close>

definition parse_suffix_part ::
  "coregex \<Rightarrow> string \<Rightarrow> version_error + version_suffix list \<times> string" where
  "parse_suffix_part rx s =
     (case rx_suffix_start rx s of
        None \<Rightarrow> Inr ([], s)
      | Some i \<Rightarrow>
          (case parse_suffixes (rx_suffix_all rx (drop i s)) of
             Inl e \<Rightarrow> Inl e
           | Inr ss \<Rightarrow> Inr (ss, take i s)))"

text \<open>Step 3: the numeric components and the letter.\<close>

definition parse_main ::
  "coregex \<Rightarrow> string \<Rightarrow> version_error + version_component list \<times> string" where
  "parse_main rx s =
     (case rx_main rx s of
        None \<Rightarrow> Inl ErrVersionMain
      | Some (n, l) \<Rightarrow>
          (case parse_components (split_byte CHR ''.'' n) of
             Inl e \<Rightarrow> Inl e
           | Inr cs \<Rightarrow> if cs = [] then Inl ErrVersionNoComponents else Inr (cs, l)))"

definition parse_version :: "coregex \<Rightarrow> string \<Rightarrow> version_error + version" where
  "parse_version rx s =
     (if s = [] then Inl ErrEmptyVersion
      else if \<not> rx_digit rx s then Inl ErrVersionNoDigit
      else case parse_revision rx s of
        Inl e \<Rightarrow> Inl e
      | Inr (r, s1) \<Rightarrow>
          (case parse_suffix_part rx s1 of
             Inl e \<Rightarrow> Inl e
           | Inr (sfx, s2) \<Rightarrow>
               (case parse_main rx s2 of
                  Inl e \<Rightarrow> Inl e
                | Inr (cs, l) \<Rightarrow>
                    Inr \<lparr>v_raw = s, v_components = cs, v_letterSuffix = l,
                         v_suffixes = sfx, v_revision = r\<rparr>)))"

definition new_version :: "coregex \<Rightarrow> string \<Rightarrow> version_error + version" where
  "new_version rx s =
     (if s = [] then Inl ErrEmptyVersion
      else case parse_version rx s of
        Inl _ \<Rightarrow> Inl (ErrVersionInvalid s)
      | Inr v \<Rightarrow> Inr v)"

definition version_equals :: "version \<Rightarrow> version \<Rightarrow> bool" where
  "version_equals v w \<longleftrightarrow> v_raw v = v_raw w"

subsection \<open>Comparison\<close>

definition trim_right_zeros :: "string \<Rightarrow> string" where
  "trim_right_zeros s = rev (dropWhile (\<lambda>c. c = CHR ''0'') (rev s))"

definition compare_with_leading_zeros :: "string \<Rightarrow> string \<Rightarrow> int" where
  "compare_with_leading_zeros s1 s2 =
     (let t1 = trim_right_zeros s1; t2 = trim_right_zeros s2;
          u1 = (if t1 = [] then ''0'' else t1); u2 = (if t2 = [] then ''0'' else t2)
      in str_compare u1 u2)"

definition compare_components :: "version_component \<Rightarrow> version_component \<Rightarrow> int" where
  "compare_components c1 c2 =
     (if vc_HasLeadingZero c1 \<or> vc_HasLeadingZero c2
      then compare_with_leading_zeros (vc_Original c1) (vc_Original c2)
      else vc_Value c1 - vc_Value c2)"

definition missing_component :: version_component where
  "missing_component = \<lparr>vc_Value = 0, vc_HasLeadingZero = False, vc_Original = ''0''\<rparr>"

definition compare_letter_suffix :: "string \<Rightarrow> string \<Rightarrow> int" where
  "compare_letter_suffix l1 l2 =
     (if l1 = [] \<and> l2 = [] then 0
      else if l1 = [] \<and> l2 \<noteq> [] then 1
      else if l1 \<noteq> [] \<and> l2 = [] then - 1
      else str_compare l1 l2)"

definition suffix_priority :: "string \<Rightarrow> int" where
  "suffix_priority t =
     (if t = ''alpha'' then - 4 else if t = ''beta'' then - 3 else if t = ''pre'' then - 2
      else if t = ''rc'' then - 1 else if t = '''' then 0 else if t = ''p'' then 1 else 0)"

definition compare_suffix :: "version_suffix \<Rightarrow> version_suffix \<Rightarrow> int" where
  "compare_suffix s1 s2 =
     then_cmp (suffix_priority (vs_Type s1) - suffix_priority (vs_Type s2))
              (vs_Number s1 - vs_Number s2)"

definition missing_suffix :: version_suffix where
  "missing_suffix = \<lparr>vs_Type = '''', vs_Number = 0\<rparr>"

definition compare_suffixes :: "version_suffix list \<Rightarrow> version_suffix list \<Rightarrow> int" where
  "compare_suffixes s1 s2 = pad_cmp compare_suffix missing_suffix s1 s2"

definition compare_versions :: "version \<Rightarrow> version \<Rightarrow> int" where
  "compare_versions v1 v2 =
     then_cmp (pad_cmp compare_components missing_component (v_components v1) (v_components v2))
    (then_cmp (compare_letter_suffix (v_letterSuffix v1) (v_letterSuffix v2))
    (then_cmp (compare_suffixes (v_suffixes v1) (v_suffixes v2))
              (v_revision v1 - v_revision v2)))"

text \<open>\<open>CompareTo\<close> and the four predicates over it.\<close>

definition is_greater_than :: "version \<Rightarrow> version \<Rightarrow> bool" where
  "is_greater_than v w \<longleftrightarrow> compare_versions v w > 0"

definition is_less_than :: "version \<Rightarrow> version \<Rightarrow> bool" where
  "is_less_than v w \<longleftrightarrow> compare_versions v w < 0"

definition is_greater_than_or_equal :: "version \<Rightarrow> version \<Rightarrow> bool" where
  "is_greater_than_or_equal v w \<longleftrightarrow> compare_versions v w \<ge> 0"

definition is_less_than_or_equal :: "version \<Rightarrow> version \<Rightarrow> bool" where
  "is_less_than_or_equal v w \<longleftrightarrow> compare_versions v w \<le> 0"

text \<open>The fallback for strings that do not parse.\<close>

datatype legacy_part = LInt int | LStr string

definition legacy_parse_components :: "coregex \<Rightarrow> string \<Rightarrow> legacy_part list" where
  "legacy_parse_components rx v =
     map (\<lambda>p. case atoi p of Some n \<Rightarrow> LInt n | None \<Rightarrow> LStr p) (rx_legacy rx v)"

fun legacy_compare_parts :: "legacy_part list \<Rightarrow> legacy_part list \<Rightarrow> int option" where
  "legacy_compare_parts (LInt a # ps) (LInt b # qs) =
     (if a \<noteq> b then Some (a - b) else legacy_compare_parts ps qs)"
| "legacy_compare_parts (LInt a # ps) (LStr b # qs) = Some 1"
| "legacy_compare_parts (LStr a # ps) (LStr b # qs) =
     (if str_compare a b \<noteq> 0 then Some (str_compare a b) else legacy_compare_parts ps qs)"
| "legacy_compare_parts (LStr a # ps) (LInt b # qs) = Some (- 1)"
| "legacy_compare_parts _ _ = None"

definition legacy_compare_versions :: "coregex \<Rightarrow> string \<Rightarrow> string \<Rightarrow> int" where
  "legacy_compare_versions rx v1 v2 =
     (let p1 = legacy_parse_components rx v1; p2 = legacy_parse_components rx v2 in
      case legacy_compare_parts p1 p2 of
        Some r \<Rightarrow> r
      | None \<Rightarrow> int (length p1) - int (length p2))"

definition compare_version_strings :: "coregex \<Rightarrow> string \<Rightarrow> string \<Rightarrow> int" where
  "compare_version_strings rx v1 v2 =
     (case (parse_version rx v1, parse_version rx v2) of
        (Inr a, Inr b) \<Rightarrow> compare_versions a b
      | _ \<Rightarrow> legacy_compare_versions rx v1 v2)"

subsection \<open>Well-formed versions\<close>

text \<open>What the parser guarantees of the values it builds (\<open>parse_version_wf\<close> below).\<close>

definition wf_component :: "version_component \<Rightarrow> bool" where
  "wf_component c \<longleftrightarrow>
     digits (vc_Original c) \<and> vc_Value c = digits_value (vc_Original c) \<and> vc_Value c \<le> max_int \<and>
     (vc_HasLeadingZero c \<longleftrightarrow> 1 < length (vc_Original c) \<and> hd (vc_Original c) = CHR ''0'')"

definition wf_suffix :: "version_suffix \<Rightarrow> bool" where
  "wf_suffix x \<longleftrightarrow> (vs_Type x = [] \<or> vs_Type x \<in> set suffix_types) \<and> 0 \<le> vs_Number x \<and> vs_Number x \<le> max_int"

definition wf_version :: "version \<Rightarrow> bool" where
  "wf_version v \<longleftrightarrow>
     v_raw v \<noteq> [] \<and> v_components v \<noteq> [] \<and>
     (\<forall>c \<in> set (v_components v). wf_component c) \<and> letter_part (v_letterSuffix v) \<and>
     (\<forall>x \<in> set (v_suffixes v). wf_suffix x \<and> vs_Type x \<in> set suffix_types) \<and>
     0 \<le> v_revision v \<and> v_revision v \<le> max_int"

subsection \<open>The comparison is a total preorder\<close>

text \<open>
  Components compare numerically or, when one has a leading zero, as strings without their trailing
  zeros. Mixing the two rules still gives an order: a component that starts with 0 lies below
  every other, those that start with 0 are ordered as trimmed strings, the others by value.
\<close>

definition starts_zero :: "version_component \<Rightarrow> bool" where
  "starts_zero c \<longleftrightarrow> hd (vc_Original c) = CHR ''0''"

definition trimmed :: "version_component \<Rightarrow> string" where
  "trimmed c = (let t = trim_right_zeros (vc_Original c) in if t = [] then ''0'' else t)"

definition component_order :: "version_component \<Rightarrow> version_component \<Rightarrow> int" where
  "component_order c1 c2 =
     (if starts_zero c1 then if starts_zero c2 then str_compare (trimmed c1) (trimmed c2) else - 1
      else if starts_zero c2 then 1 else vc_Value c1 - vc_Value c2)"

lemma trim_right_zeros_Cons:
  "c \<noteq> CHR ''0'' \<Longrightarrow> trim_right_zeros (c # s) = c # trim_right_zeros s"
  by (simp add: trim_right_zeros_def dropWhile_append)

lemma trim_right_zeros_zero_Cons:
  "trim_right_zeros (CHR ''0'' # s) = (let t = trim_right_zeros s in if t = [] then [] else CHR ''0'' # t)"
  by (auto simp: trim_right_zeros_def dropWhile_append Let_def)

lemma trimmed_hd:
  assumes "wf_component c"
  shows "\<exists>d t. trimmed c = d # t \<and> is_digit d \<and> (d = CHR ''0'' \<longleftrightarrow> starts_zero c)"
proof -
  obtain d t where o: "vc_Original c = d # t" and d: "is_digit d"
    using assms by (cases "vc_Original c") (auto simp: wf_component_def digits_def)
  have z: "is_digit CHR ''0''" by (simp add: is_digit_def)
  show ?thesis
  proof (cases "d = CHR ''0''")
    case True
    with o z show ?thesis by (auto simp: trimmed_def trim_right_zeros_zero_Cons starts_zero_def Let_def)
  next
    case False
    with o d show ?thesis by (auto simp: trimmed_def trim_right_zeros_Cons starts_zero_def Let_def)
  qed
qed

lemma starts_zero_trimmed_less:
  assumes "wf_component c1" "wf_component c2" "starts_zero c1" "\<not> starts_zero c2"
  shows "str_compare (trimmed c1) (trimmed c2) = - 1 \<and> str_compare (trimmed c2) (trimmed c1) = 1"
proof -
  obtain d t where 1: "trimmed c1 = CHR ''0'' # t" using trimmed_hd [OF assms(1)] assms(3) by auto
  obtain e u where 2: "trimmed c2 = e # u" "is_digit e" "e \<noteq> CHR ''0''"
    using trimmed_hd [OF assms(2)] assms(4) by auto
  have "byte e \<noteq> 48" using 2(3) byte_inj [of e "CHR ''0''"] by simp
  with 2(2) have "48 < byte e" by (simp add: is_digit_def)
  with 1 2 show ?thesis by simp
qed

lemma no_leading_zero_value:
  assumes "wf_component c" "\<not> vc_HasLeadingZero c"
  shows "if starts_zero c then vc_Value c = 0 \<and> trimmed c = ''0'' else 0 < vc_Value c"
proof (cases "starts_zero c")
  case True
  with assms have "vc_Original c = ''0''"
    by (cases "vc_Original c") (auto simp: wf_component_def digits_def starts_zero_def)
  with True assms(1) show ?thesis
    by (simp add: wf_component_def digits_value_def digit_val_def trimmed_def
        trim_right_zeros_zero_Cons trim_right_zeros_def)
next
  case False
  with assms digits_value_pos [of "vc_Original c"] show ?thesis
    by (auto simp: wf_component_def digits_def starts_zero_def)
qed

lemma compare_components_order:
  assumes "wf_component c1" "wf_component c2"
  shows "sgn (compare_components c1 c2) = sgn (component_order c1 c2)"
proof (cases "vc_HasLeadingZero c1 \<or> vc_HasLeadingZero c2")
  case False
  with no_leading_zero_value [OF assms(1)] no_leading_zero_value [OF assms(2)] show ?thesis
    by (auto simp: compare_components_def component_order_def split: if_splits)
next
  case True
  then have "compare_components c1 c2 = str_compare (trimmed c1) (trimmed c2)"
    by (simp add: compare_components_def compare_with_leading_zeros_def trimmed_def Let_def)
  moreover have "starts_zero c1 \<or> starts_zero c2"
    using True assms by (auto simp: wf_component_def starts_zero_def)
  ultimately show ?thesis
    using starts_zero_trimmed_less [OF assms] starts_zero_trimmed_less [OF assms(2,1)]
    by (auto simp: component_order_def)
qed

lemma comparator_component_order: "comparator component_order wf_component"
proof
  show "sgn (component_order y x) = - sgn (component_order x y)" for x y
    using str_cmp.antisym [of "trimmed x" "trimmed y"]
      comparator.antisym [OF comparator_diff, of "vc_Value x" "vc_Value y"]
    by (simp add: component_order_def)
next
  fix x y z
  assume "component_order x y \<le> 0" "component_order y z \<le> 0"
  then show "component_order x z \<le> 0"
    using str_cmp.trans [of "trimmed x" "trimmed y" "trimmed z"]
    by (auto simp: component_order_def split: if_splits)
qed

lemma comparator_components: "comparator compare_components wf_component"
  by (rule comparator_sgn [OF comparator_component_order]) (rule compare_components_order)

lemma comparator_letter: "comparator compare_letter_suffix (\<lambda>_. True)"
proof
  show "sgn (compare_letter_suffix y x) = - sgn (compare_letter_suffix x y)" for x y
    using str_cmp.antisym [of x y] by (simp add: compare_letter_suffix_def)
  show "compare_letter_suffix x z \<le> 0"
    if "compare_letter_suffix x y \<le> 0" "compare_letter_suffix y z \<le> 0" for x y z
    using that str_cmp.trans [of x y z] by (auto simp: compare_letter_suffix_def split: if_splits)
qed

lemma comparator_suffix: "comparator compare_suffix (\<lambda>_. True)"
  unfolding compare_suffix_def
  by (intro comparator_then comparator_inv_image [OF comparator_diff]) simp_all

lemma wf_missing_component [simp]: "wf_component missing_component"
  by (simp add: wf_component_def missing_component_def digits_def is_digit_def digits_value_def
      digit_val_def max_int_def)

lemma comparator_suffixes: "comparator compare_suffixes (\<lambda>_. True)"
  unfolding compare_suffixes_def
  using comparator_pad [OF comparator_suffix, of missing_suffix] by simp

lemma comparator_versions: "comparator compare_versions wf_version"
  unfolding compare_versions_def
proof (intro comparator_then)
  show "comparator (\<lambda>x y. pad_cmp compare_components missing_component (v_components x) (v_components y)) wf_version"
    by (rule comparator_inv_image [OF comparator_pad [OF comparator_components wf_missing_component]])
       (simp add: wf_version_def)
  show "comparator (\<lambda>x y. compare_letter_suffix (v_letterSuffix x) (v_letterSuffix y)) wf_version"
    by (rule comparator_inv_image [OF comparator_letter]) simp
  show "comparator (\<lambda>x y. compare_suffixes (v_suffixes x) (v_suffixes y)) wf_version"
    by (rule comparator_inv_image [OF comparator_suffixes]) simp
  show "comparator (\<lambda>x y. v_revision x - v_revision y) wf_version"
    by (rule comparator_inv_image [OF comparator_diff]) simp
qed

interpretation ver: comparator compare_versions wf_version
  by (rule comparator_versions)

subsection \<open>What the parser returns\<close>

text \<open>The text of a version of the form of PMS 3.2, in its parts.\<close>

record version_text =
  vt_numbers :: "string list"
  vt_letter :: string
  vt_suffixes :: "(string \<times> string) list"
  vt_revision :: "string option"

definition revision_text :: "string option \<Rightarrow> string" where
  "revision_text r = (case r of None \<Rightarrow> [] | Some d \<Rightarrow> ''-r'' @ d)"

definition version_string :: "version_text \<Rightarrow> string" where
  "version_string t =
     join ''.'' (vt_numbers t) @ vt_letter t @ suffixes_text (vt_suffixes t) @
     revision_text (vt_revision t)"

definition wf_text :: "version_text \<Rightarrow> bool" where
  "wf_text t \<longleftrightarrow>
     number_parts (vt_numbers t) \<and> list_all (\<lambda>n. digits_value n \<le> max_int) (vt_numbers t) \<and>
     letter_part (vt_letter t) \<and>
     list_all (\<lambda>p. suffix_part p \<and> digits_value (snd p) \<le> max_int) (vt_suffixes t) \<and>
     (case vt_revision t of None \<Rightarrow> True | Some d \<Rightarrow> digits d \<and> digits_value d \<le> max_int)"

definition component_of :: "string \<Rightarrow> version_component" where
  "component_of n = \<lparr>vc_Value = digits_value n,
     vc_HasLeadingZero = (1 < length n \<and> hd n = CHR ''0''), vc_Original = n\<rparr>"

definition suffix_of :: "string \<times> string \<Rightarrow> version_suffix" where
  "suffix_of p = \<lparr>vs_Type = fst p, vs_Number = digits_value (snd p)\<rparr>"

definition version_of :: "version_text \<Rightarrow> version" where
  "version_of t = \<lparr>v_raw = version_string t, v_components = map component_of (vt_numbers t),
     v_letterSuffix = vt_letter t, v_suffixes = map suffix_of (vt_suffixes t),
     v_revision = (case vt_revision t of None \<Rightarrow> 0 | Some d \<Rightarrow> digits_value d)\<rparr>"

lemma digits_atoi: "digits n \<Longrightarrow> digits_value n \<le> max_int \<Longrightarrow> atoi n = Some (digits_value n)"
  by (simp add: atoi_def digits_def)

lemma digit_not_special:
  "is_digit c \<Longrightarrow> c \<noteq> CHR ''.'' \<and> c \<noteq> CHR ''_'' \<and> c \<noteq> CHR ''-'' \<and> c \<noteq> CHR ''r'' \<and> \<not> is_lower c"
  by (auto simp: is_digit_def is_lower_def byte_def)

lemma digits_no_special:
  "list_all is_digit d \<Longrightarrow> CHR ''.'' \<notin> set d \<and> CHR ''_'' \<notin> set d \<and> CHR ''-'' \<notin> set d"
  by (induction d) (auto dest: digit_not_special)

lemma number_parts_split: "number_parts ns \<Longrightarrow> split_byte CHR ''.'' (join ''.'' ns) = ns"
  unfolding number_parts_def list_all_iff
  by (rule split_byte_join) (auto simp: digits_def dest: digits_no_special)

lemma parse_components_ok:
  "list_all digits ns \<Longrightarrow> list_all (\<lambda>n. digits_value n \<le> max_int) ns \<Longrightarrow>
   parse_components ns = Inr (map component_of ns)"
  by (induction ns) (auto simp: parse_component_def digits_atoi component_of_def digits_def)

lemma parse_components_wf:
  "parse_components ns = Inr cs \<Longrightarrow> c \<in> set cs \<Longrightarrow> wf_component c"
  by (induction ns arbitrary: cs)
     (auto simp: parse_component_def wf_component_def digits_def atoi_def
           split: if_splits option.splits sum.splits)

lemma parse_suffixes_ok:
  "list_all (\<lambda>p. suffix_part p \<and> digits_value (snd p) \<le> max_int) ps \<Longrightarrow>
   parse_suffixes ps = Inr (map suffix_of ps)"
proof (induction ps)
  case (Cons p ps)
  obtain t n where p: "p = (t, n)" by (cases p)
  have "(if n = [] then Some 0 else atoi n) = Some (digits_value n)"
    using Cons.prems p by (auto simp: suffix_part_def atoi_def digits_value_def)
  with Cons p show ?case by (simp add: suffix_of_def)
qed simp

lemma parse_suffixes_wf:
  "parse_suffixes ps = Inr ss \<Longrightarrow> list_all suffix_part ps \<Longrightarrow> x \<in> set ss \<Longrightarrow>
   wf_suffix x \<and> vs_Type x \<in> set suffix_types"
proof (induction ps arbitrary: ss)
  case (Cons p ps)
  obtain t n where p: "p = (t, n)" by (cases p)
  from Cons.prems(1) p obtain num ss' where
    num: "(if n = [] then Some 0 else atoi n) = Some num" and
    ss: "parse_suffixes ps = Inr ss'" "ss = \<lparr>vs_Type = t, vs_Number = num\<rparr> # ss'"
    by (auto split: option.splits sum.splits)
  have "0 \<le> num \<and> num \<le> max_int"
    using num by (auto dest: atoi_SomeD simp: max_int_def split: if_splits)
  with Cons p ss show ?case by (auto simp: wf_suffix_def suffix_part_def)
qed simp

lemma join_numbers_chars:
  "number_parts ns \<Longrightarrow> c \<in> set (join ''.'' ns) \<Longrightarrow> is_digit c \<or> c = CHR ''.''"
  unfolding number_parts_def
  by (induction "''.''" ns rule: join.induct) (auto simp: digits_def list_all_iff)

lemma join_numbers_hd:
  "number_parts ns \<Longrightarrow> join ''.'' ns \<noteq> [] \<and> is_digit (hd (join ''.'' ns))"
  by (cases ns; cases "tl ns")
     (auto simp: number_parts_def digits_def list_all_iff neq_Nil_conv)

lemma suffixes_text_last_digit_or_letter:
  "list_all suffix_part ps \<Longrightarrow> CHR ''-'' \<notin> set (suffixes_text ps)"
  by (induction ps)
     (auto simp: suffixes_text_def suffix_text_def suffix_part_def suffix_types_def
           dest: digits_no_special)

context coregex_lib begin

lemma revision_none: "CHR ''-'' \<notin> set s \<Longrightarrow> rx_revision rx s = None"
proof (rule ccontr)
  assume s: "CHR ''-'' \<notin> set s" and "rx_revision rx s \<noteq> None"
  then obtain m d where "rx_revision rx s = Some (m, d)" by auto
  then have "m = ''-r'' @ d" "has_suffix s m" using revision_law by auto
  with s show False by (auto simp: has_suffix_iff)
qed

lemma parse_revision_ok:
  assumes s: "CHR ''-'' \<notin> set s"
    and r: "case r of None \<Rightarrow> True | Some d \<Rightarrow> digits d \<and> digits_value d \<le> max_int"
  shows "parse_revision rx (s @ revision_text r) =
         Inr ((case r of None \<Rightarrow> 0 | Some d \<Rightarrow> digits_value d), s)"
proof (cases r)
  case None
  with s show ?thesis by (simp add: parse_revision_def revision_text_def revision_none)
next
  case (Some d)
  have "rx_revision rx (s @ ''-r'' @ d) = Some (''-r'' @ d, d)"
    using revision_law [of "s @ ''-r'' @ d" "''-r'' @ d" d] r Some has_suffix_append [of s "''-r'' @ d"]
    by simp
  with r Some show ?thesis by (simp add: parse_revision_def revision_text_def digits_atoi)
qed

lemma parse_suffix_part_ok:
  assumes s: "CHR ''_'' \<notin> set s"
    and ps: "list_all (\<lambda>p. suffix_part p \<and> digits_value (snd p) \<le> max_int) ps"
  shows "parse_suffix_part rx (s @ suffixes_text ps) = Inr (map suffix_of ps, s)"
proof (cases ps)
  case Nil
  with s show ?thesis by (simp add: parse_suffix_part_def suffixes_text_def suffix_start_none)
next
  case (Cons p qs)
  have "rx_suffix_start rx (s @ suffixes_text ps) = Some (length s)"
    using suffix_start_some [OF s, of p "suffixes_text qs"] ps Cons by (simp add: suffixes_text_def)
  moreover have "rx_suffix_all rx (suffixes_text ps) = ps"
    by (rule suffix_all_complete) (use ps in \<open>simp add: list_all_iff\<close>)
  ultimately show ?thesis by (simp add: parse_suffix_part_def parse_suffixes_ok [OF ps])
qed

lemma parse_main_ok:
  assumes "number_parts ns" "list_all (\<lambda>n. digits_value n \<le> max_int) ns" "letter_part l"
  shows "parse_main rx (join ''.'' ns @ l) = Inr (map component_of ns, l)"
  using assms main_complete [OF assms(1,3)]
  by (simp add: parse_main_def number_parts_split parse_components_ok number_parts_def)

lemma parse_text:
  assumes t: "wf_text t"
  shows "parse_version rx (version_string t) = Inr (version_of t)"
proof -
  let ?main = "join ''.'' (vt_numbers t) @ vt_letter t"
  let ?body = "?main @ suffixes_text (vt_suffixes t)"
  have np: "number_parts (vt_numbers t)" and lp: "letter_part (vt_letter t)"
    and sp: "list_all (\<lambda>p. suffix_part p \<and> digits_value (snd p) \<le> max_int) (vt_suffixes t)"
    using t by (simp_all add: wf_text_def)
  have chars: "c \<in> set ?main \<Longrightarrow> is_digit c \<or> c = CHR ''.'' \<or> is_lower c" for c
    using join_numbers_chars [OF np] lp by (auto simp: letter_part_def)
  have no_: "CHR ''_'' \<notin> set ?main" and nom: "CHR ''-'' \<notin> set ?main"
    using chars [of "CHR ''_''"] chars [of "CHR ''-''"]
    by (auto simp: is_digit_def is_lower_def byte_def)
  have "list_all suffix_part (vt_suffixes t)" using sp by (simp add: list_all_iff)
  with nom have nob: "CHR ''-'' \<notin> set ?body"
    using suffixes_text_last_digit_or_letter by auto
  have str: "version_string t = ?body @ revision_text (vt_revision t)"
    by (simp add: version_string_def)
  have hd: "version_string t \<noteq> []" "rx_digit rx (version_string t)"
    using join_numbers_hd [OF np] by (auto simp: version_string_def digit_law)
  have 1: "parse_revision rx (version_string t) =
      Inr ((case vt_revision t of None \<Rightarrow> 0 | Some d \<Rightarrow> digits_value d), ?body)"
    unfolding str by (rule parse_revision_ok [OF nob]) (use t in \<open>simp add: wf_text_def\<close>)
  have 2: "parse_suffix_part rx ?body = Inr (map suffix_of (vt_suffixes t), ?main)"
    using parse_suffix_part_ok [OF no_ sp] by simp
  have 3: "parse_main rx ?main = Inr (map component_of (vt_numbers t), vt_letter t)"
    by (rule parse_main_ok) (use t in \<open>simp_all add: wf_text_def\<close>)
  show ?thesis using hd 1 2 3 by (simp add: parse_version_def version_of_def)
qed

lemma parse_wf:
  assumes "parse_version rx s = Inr v"
  shows "wf_version v \<and> v_raw v = s"
proof -
  from assms obtain r s1 sfx s2 cs l where
    s: "s \<noteq> []" and
    1: "parse_revision rx s = Inr (r, s1)" and
    2: "parse_suffix_part rx s1 = Inr (sfx, s2)" and
    3: "parse_main rx s2 = Inr (cs, l)" and
    v: "v = \<lparr>v_raw = s, v_components = cs, v_letterSuffix = l, v_suffixes = sfx, v_revision = r\<rparr>"
    by (auto simp: parse_version_def split: if_splits sum.splits)
  have r: "0 \<le> r \<and> r \<le> max_int"
    using 1 by (auto simp: parse_revision_def dest: atoi_SomeD split: option.splits)
  have sfx: "wf_suffix x \<and> vs_Type x \<in> set suffix_types" if "x \<in> set sfx" for x
    using 2 that suffix_all_sound
    by (auto simp: parse_suffix_part_def list_all_iff split: option.splits sum.splits
        dest!: parse_suffixes_wf)
  from 3 obtain n where n: "rx_main rx s2 = Some (n, l)"
    and cs: "parse_components (split_byte CHR ''.'' n) = Inr cs" "cs \<noteq> []"
    by (auto simp: parse_main_def split: option.splits sum.splits if_splits)
  have "letter_part l" using main_sound [OF n] by simp
  then show ?thesis
    using r s sfx cs parse_components_wf [OF cs(1)] by (simp add: v wf_version_def)
qed

end

subsection \<open>A concrete matcher for the patterns\<close>

definition ref_digit :: "string \<Rightarrow> bool" where
  "ref_digit s \<longleftrightarrow> s \<noteq> [] \<and> is_digit (hd s)"

definition ref_revision :: "string \<Rightarrow> (string \<times> string) option" where
  "ref_revision s =
     (let d = rev (takeWhile is_digit (rev s)) in
      if d \<noteq> [] \<and> has_suffix s (''-r'' @ d) then Some (''-r'' @ d, d) else None)"

definition suffix_at :: "string \<Rightarrow> (string \<times> string) option" where
  "suffix_at s =
     (case s of
        [] \<Rightarrow> None
      | a # s' \<Rightarrow>
          if a \<noteq> CHR ''_'' then None
          else case find (has_prefix s') suffix_types of
            None \<Rightarrow> None
          | Some t \<Rightarrow> Some (t, takeWhile is_digit (drop (length t) s')))"

fun ref_suffix_start :: "string \<Rightarrow> nat option" where
  "ref_suffix_start [] = None"
| "ref_suffix_start (a # s) =
     (if suffix_at (a # s) \<noteq> None then Some 0 else map_option Suc (ref_suffix_start s))"

function ref_suffix_all :: "string \<Rightarrow> (string \<times> string) list" where
  "ref_suffix_all [] = []"
| "ref_suffix_all (a # s) =
     (case suffix_at (a # s) of
        None \<Rightarrow> ref_suffix_all s
      | Some p \<Rightarrow> p # ref_suffix_all (drop (length (suffix_text p)) (a # s)))"
  by pat_completeness auto
termination
  by (relation "measure length") (auto simp: suffix_text_def)

function scan_numbers :: "string \<Rightarrow> string list \<times> string" where
  "scan_numbers s =
     (let d = takeWhile is_digit s; r = dropWhile is_digit s in
      if 2 \<le> length r \<and> hd r = CHR ''.'' \<and> is_digit (r ! 1)
      then let (ds, rest) = scan_numbers (tl r) in (d # ds, rest)
      else ([d], r))"
  by pat_completeness auto
termination
proof (relation "measure length", goal_cases)
  case (2 s d r)
  have "length (dropWhile is_digit s) \<le> length s" by (rule length_dropWhile_le)
  with 2 show ?case by auto
qed simp

declare scan_numbers.simps [simp del]

definition ref_main :: "string \<Rightarrow> (string \<times> string) option" where
  "ref_main s =
     (if \<not> ref_digit s then None
      else let (ns, rest) = scan_numbers s in
        Some (join ''.'' ns,
              (case rest of [] \<Rightarrow> [] | c # _ \<Rightarrow> if is_lower c then [c] else [])))"

function ref_legacy :: "string \<Rightarrow> string list" where
  "ref_legacy [] = []"
| "ref_legacy (a # s) =
     (if is_digit a then takeWhile is_digit (a # s) # ref_legacy (dropWhile is_digit s)
      else if is_alpha a then takeWhile is_alpha (a # s) # ref_legacy (dropWhile is_alpha s)
      else ref_legacy s)"
  by pat_completeness auto
termination
  by (relation "measure length") (auto simp: le_imp_less_Suc length_dropWhile_le)

definition ref_coregex :: coregex where
  "ref_coregex = \<lparr>rx_digit = ref_digit, rx_revision = ref_revision,
     rx_suffix_start = ref_suffix_start, rx_suffix_all = ref_suffix_all,
     rx_main = ref_main, rx_legacy = ref_legacy\<rparr>"

lemma takeWhile_digits_append:
  "list_all is_digit d \<Longrightarrow> t = [] \<or> \<not> is_digit (hd t) \<Longrightarrow>
   takeWhile is_digit (d @ t) = d \<and> dropWhile is_digit (d @ t) = t"
proof (induction d)
  case Nil
  then show ?case by (cases t) auto
qed auto

lemma list_all_takeWhile: "list_all P (takeWhile P s)"
  by (auto simp: list_all_iff dest: set_takeWhileD)

lemma ref_revision_law:
  "ref_revision s = Some (m, d) \<longleftrightarrow> m = ''-r'' @ d \<and> digits d \<and> has_suffix s m"
proof
  assume "ref_revision s = Some (m, d)"
  then show "m = ''-r'' @ d \<and> digits d \<and> has_suffix s m"
    using list_all_takeWhile [of is_digit "rev s"]
    by (auto simp: ref_revision_def digits_def Let_def split: if_splits)
next
  assume a: "m = ''-r'' @ d \<and> digits d \<and> has_suffix s m"
  then obtain t where "s = t @ ''-r'' @ d" by (auto simp: has_suffix_iff)
  then have "takeWhile is_digit (rev s) = rev d"
    using a takeWhile_digits_append [of "rev d" "CHR ''r'' # CHR ''-'' # rev t"]
    by (simp add: digits_def is_digit_def byte_def)
  with a show "ref_revision s = Some (m, d)" by (auto simp: ref_revision_def digits_def)
qed

lemma suffix_at_part: "suffix_at s = Some p \<Longrightarrow> suffix_part p"
  using list_all_takeWhile
  by (auto simp: suffix_at_def suffix_part_def find_Some_iff split: list.splits if_splits option.splits)

lemma suffix_at_some:
  assumes "suffix_part p"
  shows "suffix_at (suffix_text p @ t) \<noteq> None"
proof -
  have "has_prefix (fst p @ snd p @ t) (fst p)" "fst p \<in> set suffix_types"
    using assms by (simp_all add: suffix_part_def)
  then have "find (has_prefix (fst p @ snd p @ t)) suffix_types \<noteq> None"
    unfolding find_None_iff by blast
  then show ?thesis by (auto simp: suffix_at_def suffix_text_def)
qed

lemma suffix_at_exact:
  assumes p: "suffix_part p" and t: "t = [] \<or> hd t = CHR ''_''"
  shows "suffix_at (suffix_text p @ t) = Some p"
proof -
  have d: "takeWhile is_digit (snd p @ t) = snd p"
    using takeWhile_digits_append [of "snd p" t] p t by (auto simp: suffix_part_def is_digit_def byte_def)
  have np: "\<not> has_prefix (snd p @ t) (CHR ''r'' # r)" for r
    using p t by (cases "snd p"; cases t) (auto simp: suffix_part_def is_digit_def byte_def)
  have "find (has_prefix (fst p @ snd p @ t)) suffix_types = Some (fst p)"
    using p np by (auto simp: suffix_part_def suffix_types_def)
  with d show ?thesis by (auto simp: suffix_at_def suffix_text_def)
qed

lemma ref_suffix_all_complete: "list_all suffix_part ps \<Longrightarrow> ref_suffix_all (suffixes_text ps) = ps"
proof (induction ps)
  case (Cons p ps)
  let ?t = "suffixes_text ps"
  have t: "?t = [] \<or> hd ?t = CHR ''_''" by (cases ps) (auto simp: suffixes_text_def suffix_text_def)
  have eq: "suffixes_text (p # ps) = suffix_text p @ ?t" by (simp add: suffixes_text_def)
  obtain s where s: "suffix_text p @ ?t = CHR ''_'' # s" by (simp add: suffix_text_def)
  have "suffix_at (suffix_text p @ ?t) = Some p" using Cons.prems suffix_at_exact [OF _ t] by simp
  then have "ref_suffix_all (suffixes_text (p # ps)) =
      p # ref_suffix_all (drop (length (suffix_text p)) (suffix_text p @ ?t))"
    unfolding eq s by simp
  with Cons show ?case by simp
qed (simp add: suffixes_text_def)

lemma ref_suffix_start_none: "CHR ''_'' \<notin> set s \<Longrightarrow> ref_suffix_start s = None"
  by (induction s) (auto simp: suffix_at_def)

lemma ref_suffix_start_some:
  "CHR ''_'' \<notin> set s \<Longrightarrow> suffix_part p \<Longrightarrow> ref_suffix_start (s @ suffix_text p @ t) = Some (length s)"
proof (induction s)
  case Nil
  then show ?case using suffix_at_some [of p t] by (auto simp: suffix_text_def)
next
  case (Cons a s)
  then show ?case by (auto simp: suffix_at_def)
qed

lemma ref_suffix_start_bound: "ref_suffix_start s = Some i \<Longrightarrow> i < length s"
  by (induction s arbitrary: i) (auto split: if_splits)

lemma ref_suffix_all_sound: "p \<in> set (ref_suffix_all s) \<Longrightarrow> suffix_part p"
  by (induction s rule: ref_suffix_all.induct) (auto split: option.splits dest: suffix_at_part)

lemma scan_numbers_sound:
  "scan_numbers s = (ns, rest) \<Longrightarrow> s = join ''.'' ns @ rest \<and> ns \<noteq> [] \<and>
   (ref_digit s \<longrightarrow> list_all digits ns)"
proof (induction s arbitrary: ns rest rule: scan_numbers.induct)
  case (1 s)
  let ?d = "takeWhile is_digit s" and ?r = "dropWhile is_digit s"
  have d: "ref_digit s \<Longrightarrow> digits ?d"
    using list_all_takeWhile [of is_digit s] by (cases s) (auto simp: ref_digit_def digits_def)
  show ?case
  proof (cases "2 \<le> length ?r \<and> hd ?r = CHR ''.'' \<and> is_digit (?r ! 1)")
    case True
    obtain ds rest' where rec: "scan_numbers (tl ?r) = (ds, rest')" by (cases "scan_numbers (tl ?r)")
    have res: "ns = ?d # ds" "rest = rest'"
      using 1(2) True rec by (simp_all add: scan_numbers.simps [of s] Let_def)
    have ih: "tl ?r = join ''.'' ds @ rest' \<and> ds \<noteq> [] \<and> (ref_digit (tl ?r) \<longrightarrow> list_all digits ds)"
      by (rule 1(1) [OF refl refl True rec])
    have r: "?r = CHR ''.'' # tl ?r" using True by (cases ?r) auto
    have "ref_digit (tl ?r)" using True by (cases ?r; cases "tl ?r") (auto simp: ref_digit_def)
    moreover have "s = ?d @ CHR ''.'' # tl ?r" using r by (metis takeWhile_dropWhile_id)
    ultimately show ?thesis using ih d res by (cases ds) auto
  next
    case False
    then have "ns = [?d]" "rest = ?r" using 1(2) by (auto simp: scan_numbers.simps [of s] Let_def)
    with d show ?thesis by simp
  qed
qed

lemma scan_numbers_complete:
  assumes "number_parts ns" "l = [] \<or> (\<not> is_digit (hd l) \<and> hd l \<noteq> CHR ''.'')"
  shows "scan_numbers (join ''.'' ns @ l) = (ns, l)"
  using assms(1)
proof (induction ns)
  case Nil
  then show ?case by (simp add: number_parts_def)
next
  case (Cons n ns)
  have n: "list_all is_digit n" using Cons.prems by (simp add: number_parts_def digits_def)
  show ?case
  proof (cases "ns = []")
    case True
    have "takeWhile is_digit (n @ l) = n \<and> dropWhile is_digit (n @ l) = l"
      by (rule takeWhile_digits_append [OF n]) (use assms(2) in auto)
    then show ?thesis using True assms(2) by (auto simp: scan_numbers.simps [of "n @ l"] Let_def)
  next
    case False
    then have np: "number_parts ns" using Cons.prems by (simp add: number_parts_def)
    let ?t = "join ''.'' ns @ l"
    have j: "join ''.'' (n # ns) @ l = n @ CHR ''.'' # ?t" using False by (cases ns) auto
    have "takeWhile is_digit (n @ CHR ''.'' # ?t) = n \<and> dropWhile is_digit (n @ CHR ''.'' # ?t) = CHR ''.'' # ?t"
      by (rule takeWhile_digits_append [OF n]) (simp add: is_digit_def byte_def)
    moreover obtain c u where cu: "?t = c # u" "is_digit c"
      using join_numbers_hd [OF np] by (cases "join ''.'' ns") auto
    moreover have "scan_numbers ?t = (ns, l)" by (rule Cons.IH [OF np])
    ultimately show ?thesis unfolding j by (simp add: scan_numbers.simps [of "n @ CHR ''.'' # _"] Let_def)
  qed
qed

interpretation ref_rx: coregex_lib ref_coregex
proof
  show "rx_digit ref_coregex s \<longleftrightarrow> s \<noteq> [] \<and> is_digit (hd s)" for s
    by (simp add: ref_coregex_def ref_digit_def)
  show "rx_revision ref_coregex s = Some (m, d) \<longleftrightarrow> m = ''-r'' @ d \<and> digits d \<and> has_suffix s m" for s m d
    by (simp only: ref_coregex_def coregex.simps ref_revision_law)
  show "rx_suffix_start ref_coregex s = None" if "CHR ''_'' \<notin> set s" for s
    using that by (simp add: ref_coregex_def ref_suffix_start_none)
  show "rx_suffix_start ref_coregex (s @ suffix_text p @ t) = Some (length s)"
    if "CHR ''_'' \<notin> set s" "suffix_part p" for s p t
    using that by (simp add: ref_coregex_def ref_suffix_start_some)
  show "i < length s" if "rx_suffix_start ref_coregex s = Some i" for s i
    using that by (simp add: ref_coregex_def ref_suffix_start_bound)
  show "suffix_part p" if "p \<in> set (rx_suffix_all ref_coregex s)" for p s
    using that by (simp add: ref_coregex_def ref_suffix_all_sound)
  show "rx_suffix_all ref_coregex (suffixes_text ps) = ps" if "list_all suffix_part ps" for ps
    using that by (simp add: ref_coregex_def ref_suffix_all_complete)
next
  fix s n l
  assume "rx_main ref_coregex s = Some (n, l)"
  then obtain ns rest where sc: "scan_numbers s = (ns, rest)" and dg: "ref_digit s"
    and n: "n = join ''.'' ns"
    and l: "l = (case rest of [] \<Rightarrow> [] | c # _ \<Rightarrow> if is_lower c then [c] else [])"
    by (auto simp: ref_coregex_def ref_main_def split: if_splits prod.splits)
  have "letter_part l \<and> has_prefix rest l" using l by (cases rest) (auto simp: letter_part_def)
  then show "(\<exists>ns. number_parts ns \<and> n = join ''.'' ns) \<and> letter_part l \<and> has_prefix s (n @ l)"
    using scan_numbers_sound [OF sc] dg n by (auto simp: number_parts_def has_prefix_iff)
next
  fix ns l
  assume ns: "number_parts ns" and l: "letter_part l"
  have "scan_numbers (join ''.'' ns @ l) = (ns, l)"
    by (rule scan_numbers_complete [OF ns])
       (use l in \<open>auto simp: letter_part_def is_lower_def is_digit_def byte_def\<close>)
  moreover have "ref_digit (join ''.'' ns @ l)"
    using join_numbers_hd [OF ns] by (simp add: ref_digit_def)
  ultimately show "rx_main ref_coregex (join ''.'' ns @ l) = Some (join ''.'' ns, l)"
    using l by (auto simp: ref_coregex_def ref_main_def letter_part_def)
qed

subsection \<open>The algorithm of the specification\<close>

definition pms_component :: "version_component \<Rightarrow> version_component \<Rightarrow> int" where
  "pms_component a b =
     (if starts_zero a \<or> starts_zero b
      then str_compare (trim_right_zeros (vc_Original a)) (trim_right_zeros (vc_Original b))
      else vc_Value a - vc_Value b)"

fun pms_rest :: "version_component list \<Rightarrow> version_component list \<Rightarrow> int" where
  "pms_rest [] [] = 0"
| "pms_rest (a # as) [] = 1"
| "pms_rest [] (b # bs) = - 1"
| "pms_rest (a # as) (b # bs) = then_cmp (pms_component a b) (pms_rest as bs)"

fun pms_numeric :: "version_component list \<Rightarrow> version_component list \<Rightarrow> int" where
  "pms_numeric (a # as) (b # bs) = then_cmp (vc_Value a - vc_Value b) (pms_rest as bs)"
| "pms_numeric as bs = pms_rest as bs"

definition pms_suffix :: "version_suffix \<Rightarrow> version_suffix \<Rightarrow> int" where
  "pms_suffix a b =
     (if vs_Type a = vs_Type b then vs_Number a - vs_Number b
      else suffix_priority (vs_Type a) - suffix_priority (vs_Type b))"

fun pms_suffixes :: "version_suffix list \<Rightarrow> version_suffix list \<Rightarrow> int" where
  "pms_suffixes [] [] = 0"
| "pms_suffixes (a # as) [] = (if vs_Type a = ''p'' then 1 else - 1)"
| "pms_suffixes [] (b # bs) = (if vs_Type b = ''p'' then - 1 else 1)"
| "pms_suffixes (a # as) (b # bs) = then_cmp (pms_suffix a b) (pms_suffixes as bs)"

definition pms_compare :: "version \<Rightarrow> version \<Rightarrow> int" where
  "pms_compare v w =
     then_cmp (pms_numeric (v_components v) (v_components w))
    (then_cmp (str_compare (v_letterSuffix v) (v_letterSuffix w))
    (then_cmp (pms_suffixes (v_suffixes v) (v_suffixes w))
              (v_revision v - v_revision w)))"

lemma sgn_then_cmp: "sgn (then_cmp a b) = then_cmp (sgn a) (sgn b)"
  by (simp add: then_cmp_def sgn_if)

lemma trim_right_zeros_neq_zero: "trim_right_zeros s \<noteq> ''0''"
proof
  assume "trim_right_zeros s = ''0''"
  then have "dropWhile (\<lambda>c. c = CHR ''0'') (rev s) = ''0''"
    by (simp add: trim_right_zeros_def)
  then show False using hd_dropWhile [of "\<lambda>c. c = CHR ''0''" "rev s"] by simp
qed

lemma pms_component_agrees:
  assumes a: "wf_component a" and b: "wf_component b"
  shows "sgn (pms_component a b) = sgn (compare_components a b)"
proof -
  let ?t = "\<lambda>c. trim_right_zeros (vc_Original c)"
  have tr: "trimmed c = (if ?t c = [] then ''0'' else ?t c)" for c
    by (simp add: trimmed_def Let_def)
  have zero: "?t c = [] \<or> (\<exists>d t. ?t c = CHR ''0'' # d # t)" if c: "wf_component c" "starts_zero c" for c
  proof (cases "?t c = []")
    case False
    with tr [of c] trimmed_hd [OF c(1)] c(2) obtain t where "?t c = CHR ''0'' # t" by auto
    with trim_right_zeros_neq_zero [of "vc_Original c"] show ?thesis by (cases t) auto
  qed simp
  have nonzero: "\<exists>d t. ?t c = d # t \<and> 48 < byte d" if c: "wf_component c" "\<not> starts_zero c" for c
  proof -
    from trimmed_hd [OF c(1)] c(2) obtain d t
      where d: "trimmed c = d # t" "is_digit d" "d \<noteq> CHR ''0''" by auto
    then have "?t c = d # t" using tr [of c] by (auto split: if_splits)
    moreover have "byte d \<noteq> 48" using d(3) byte_inj [of d "CHR ''0''"] by simp
    ultimately show ?thesis using d(2) by (auto simp: is_digit_def)
  qed
  have "sgn (pms_component a b) = sgn (component_order a b)"
  proof (cases "starts_zero a"; cases "starts_zero b")
    assume z: "starts_zero a" "starts_zero b"
    with zero [OF a] zero [OF b] show ?thesis
      by (auto simp: pms_component_def component_order_def tr)
  next
    assume z: "starts_zero a" "\<not> starts_zero b"
    with zero [OF a] nonzero [OF b] show ?thesis
      by (auto simp: pms_component_def component_order_def)
  next
    assume z: "\<not> starts_zero a" "starts_zero b"
    with nonzero [OF a] zero [OF b] show ?thesis
      by (auto simp: pms_component_def component_order_def)
  next
    assume "\<not> starts_zero a" "\<not> starts_zero b"
    then show ?thesis by (simp add: pms_component_def component_order_def)
  qed
  with compare_components_order [OF a b] show ?thesis by simp
qed

lemma pms_rest_agrees:
  "length as = length bs \<Longrightarrow> \<forall>c \<in> set as \<union> set bs. wf_component c \<Longrightarrow>
   sgn (pms_rest as bs) = sgn (pad_cmp compare_components missing_component as bs)"
  by (induction as bs rule: pms_rest.induct) (auto simp: sgn_then_cmp pms_component_agrees)

lemma pad_suffixes_Nil:
  "a \<in> set suffix_types \<Longrightarrow> sgn (pad_cmp compare_suffix missing_suffix (\<lparr>vs_Type = a, vs_Number = n\<rparr> # as) [])
     = (if a = ''p'' then 1 else - 1)"
  "b \<in> set suffix_types \<Longrightarrow> sgn (pad_cmp compare_suffix missing_suffix [] (\<lparr>vs_Type = b, vs_Number = n\<rparr> # bs))
     = (if b = ''p'' then - 1 else 1)"
  by (auto simp: compare_suffix_def missing_suffix_def suffix_priority_def suffix_types_def then_cmp_def)

lemma suffix_priority_inj:
  "a \<in> set suffix_types \<Longrightarrow> b \<in> set suffix_types \<Longrightarrow> suffix_priority a = suffix_priority b \<longleftrightarrow> a = b"
  by (auto simp: suffix_types_def suffix_priority_def)

lemma pms_suffixes_agrees:
  "\<forall>x \<in> set as \<union> set bs. vs_Type x \<in> set suffix_types \<Longrightarrow>
   sgn (pms_suffixes as bs) = sgn (compare_suffixes as bs)"
  unfolding compare_suffixes_def
proof (induction as bs rule: pms_suffixes.induct)
  case (2 a as)
  then show ?case using pad_suffixes_Nil(1) [of "vs_Type a" "vs_Number a" as] by (cases a) simp
next
  case (3 b bs)
  then show ?case using pad_suffixes_Nil(2) [of "vs_Type b" "vs_Number b" bs] by (cases b) simp
next
  case (4 a as b bs)
  then have "pms_suffix a b = compare_suffix a b"
    using suffix_priority_inj [of "vs_Type a" "vs_Type b"]
    by (auto simp: pms_suffix_def compare_suffix_def then_cmp_def)
  with 4 show ?case by (simp add: sgn_then_cmp)
qed simp

lemma compare_agrees:
  assumes wf: "wf_version v" "wf_version w"
    and len: "length (v_components v) = length (v_components w)"
    and first: "\<not> vc_HasLeadingZero (hd (v_components v))" "\<not> vc_HasLeadingZero (hd (v_components w))"
    and letters: "v_letterSuffix v = [] \<longleftrightarrow> v_letterSuffix w = []"
  shows "sgn (compare_versions v w) = sgn (pms_compare v w)"
proof -
  obtain a as b bs where cs: "v_components v = a # as" "v_components w = b # bs"
    using wf by (cases "v_components v"; cases "v_components w") (auto simp: wf_version_def)
  have rest: "sgn (pms_rest as bs) = sgn (pad_cmp compare_components missing_component as bs)"
    by (rule pms_rest_agrees) (use wf len cs in \<open>auto simp: wf_version_def\<close>)
  have "compare_components a b = vc_Value a - vc_Value b"
    using first cs by (simp add: compare_components_def)
  with rest have num: "sgn (pad_cmp compare_components missing_component (v_components v) (v_components w))
      = sgn (pms_numeric (v_components v) (v_components w))"
    by (simp add: cs sgn_then_cmp)
  have ltr: "compare_letter_suffix (v_letterSuffix v) (v_letterSuffix w) =
      str_compare (v_letterSuffix v) (v_letterSuffix w)"
    using letters by (auto simp: compare_letter_suffix_def)
  have sfx: "sgn (compare_suffixes (v_suffixes v) (v_suffixes w)) = sgn (pms_suffixes (v_suffixes v) (v_suffixes w))"
    by (rule pms_suffixes_agrees [symmetric]) (use wf in \<open>auto simp: wf_version_def\<close>)
  show ?thesis by (simp add: compare_versions_def pms_compare_def sgn_then_cmp num ltr sfx)
qed

subsection \<open>Properties\<close>

text \<open>
  Claim C15: the parser accepts every version of the form of PMS 3.2 whose numbers fit the machine
  integer, and returns exactly its components with their leading-zero marks, its letter, its
  suffixes and its revision, whatever library matches the patterns as documented.
\<close>

theorem parse_version_roundtrip:
  assumes "coregex_lib rx" and "wf_text t"
  shows "parse_version rx (version_string t) = Inr (version_of t)"
  by (rule coregex_lib.parse_text [OF assms])

definition sample_text :: version_text where
  "sample_text = \<lparr>vt_numbers = [''1'', ''02'', ''30''], vt_letter = ''b'',
     vt_suffixes = [(''pre'', ''4''), (''p'', '''')], vt_revision = Some ''7''\<rparr>"

lemma sample_text_wf: "wf_text sample_text"
  by code_simp

lemma sample_text_string: "version_string sample_text = ''1.02.30b_pre4_p-r7''"
  by code_simp

theorem parse_version_roundtrip_witness:
  "wf_text sample_text \<and>
   parse_version ref_coregex ''1.02.30b_pre4_p-r7'' = Inr (version_of sample_text)"
  using parse_version_roundtrip [OF ref_rx.coregex_lib_axioms sample_text_wf] sample_text_wf
  by (simp add: sample_text_string)

text \<open>
  Every version the parser returns is well formed: at least one component, each with
  its digits, their value and the leading-zero mark in agreement, at most one lower-case letter,
  suffixes of the five types only, and no number above the machine integer.
\<close>

theorem parse_version_wf:
  assumes "coregex_lib rx" and "parse_version rx s = Inr v"
  shows "wf_version v \<and> v_raw v = s"
  by (rule coregex_lib.parse_wf [OF assms])

definition sample_parsed :: version where
  "sample_parsed = \<lparr>v_raw = ''2.0_rc1'',
    v_components = [\<lparr>vc_Value = 2, vc_HasLeadingZero = False, vc_Original = ''2''\<rparr>,
                    \<lparr>vc_Value = 0, vc_HasLeadingZero = False, vc_Original = ''0''\<rparr>],
    v_letterSuffix = '''', v_suffixes = [\<lparr>vs_Type = ''rc'', vs_Number = 1\<rparr>], v_revision = 0\<rparr>"

lemma parse_ref_ok: "parse_version ref_coregex ''2.0_rc1'' = Inr sample_parsed"
  by code_simp

theorem parse_version_wf_witness:
  "parse_version ref_coregex ''2.0_rc1'' = Inr sample_parsed \<and> wf_version sample_parsed"
  using parse_version_wf [OF ref_rx.coregex_lib_axioms parse_ref_ok] parse_ref_ok by blast

text \<open>
  Claim C18: on well-formed versions \<open>CompareTo\<close> is a total preorder, although components with a
  leading zero compare as strings and the others as numbers: swapping the arguments flips the
  sign, the relation "not greater" is transitive, and two versions are always comparable.
\<close>

theorem compare_versions_total_preorder:
  assumes "wf_version u" and "wf_version v" and "wf_version w"
  shows "sgn (compare_versions v u) = - sgn (compare_versions u v) \<and>
    (is_less_than_or_equal u v \<and> is_less_than_or_equal v w \<longrightarrow> is_less_than_or_equal u w) \<and>
    (is_less_than_or_equal u v \<or> is_less_than_or_equal v u)"
  using ver.antisym [OF assms(1,2)] ver.trans [OF assms] ver.total [OF assms(1,2)]
  by (auto simp: is_less_than_or_equal_def)

lemma sample_parsed_wf: "wf_version sample_parsed"
  by code_simp

lemma sample_version_wf: "wf_version (version_of sample_text)"
  by code_simp

theorem compare_versions_total_preorder_witness:
  "sgn (compare_versions sample_parsed (version_of sample_text)) =
     - sgn (compare_versions (version_of sample_text) sample_parsed) \<and>
   is_less_than_or_equal (version_of sample_text) sample_parsed"
proof -
  have "is_less_than_or_equal (version_of sample_text) sample_parsed" by code_simp
  then show ?thesis
    using compare_versions_total_preorder [OF sample_version_wf sample_parsed_wf sample_parsed_wf]
    by blast
qed

text \<open>
  Claim C31: the comparison decides as Algorithms 3.1 to 3.7 of the PMS do for versions with equally
  many components, no leading zero in the first component, and either both or none with a letter.
\<close>

theorem compare_versions_refines_pms:
  assumes "wf_version v" and "wf_version w"
    and "length (v_components v) = length (v_components w)"
    and "\<not> vc_HasLeadingZero (hd (v_components v))" and "\<not> vc_HasLeadingZero (hd (v_components w))"
    and "v_letterSuffix v = [] \<longleftrightarrow> v_letterSuffix w = []"
  shows "sgn (compare_versions v w) = sgn (pms_compare v w)"
  by (rule compare_agrees [OF assms])

definition sample_text2 :: version_text where
  "sample_text2 = sample_text\<lparr>vt_numbers := [''1'', ''10'', ''3''], vt_letter := ''c''\<rparr>"

theorem compare_versions_refines_pms_witness:
  "sgn (compare_versions (version_of sample_text) (version_of sample_text2)) =
     sgn (pms_compare (version_of sample_text) (version_of sample_text2))"
  by (rule compare_versions_refines_pms) code_simp+

text \<open>
  With equal numeric parts, a version with a letter is older than the one without for the
  code and newer for the PMS; so the three side conditions above cannot all be dropped.
\<close>

theorem compare_versions_letter_reversed:
  assumes "wf_version v" and "wf_version w" and "v_components v = v_components w"
    and "v_letterSuffix v = []" and "v_letterSuffix w \<noteq> []"
  shows "is_greater_than v w \<and> pms_compare v w < 0"
proof -
  let ?c = "v_components w"
  have wf: "\<forall>c \<in> set ?c. wf_component c" using assms(2) by (simp add: wf_version_def)
  have "pad_cmp compare_components missing_component ?c ?c = 0"
    by (rule comparator.cmp_refl [OF comparator_pad [OF comparator_components wf_missing_component] wf])
  moreover have "pms_rest cs cs = 0" for cs
    by (induction cs) (simp_all add: then_cmp_def pms_component_def)
  then have "pms_numeric ?c ?c = 0" by (cases ?c) (simp_all add: then_cmp_def)
  moreover have "str_compare [] (v_letterSuffix w) = - 1" using assms(5) by (cases "v_letterSuffix w") auto
  ultimately show ?thesis
    using assms(3-5)
    by (simp add: is_greater_than_def compare_versions_def pms_compare_def then_cmp_def
        compare_letter_suffix_def)
qed

definition sample_plain :: version_text where
  "sample_plain = sample_text\<lparr>vt_letter := ''''\<rparr>"

theorem compare_versions_letter_reversed_witness:
  "is_greater_than (version_of sample_plain) (version_of sample_text) \<and>
   pms_compare (version_of sample_plain) (version_of sample_text) < 0"
  by (rule compare_versions_letter_reversed) code_simp+

text \<open>
  \<open>CompareVersions\<close> on strings is not transitive, because a string that does not parse is
  compared by the fallback rule even with strings that do: three strings each below the next in a
  circle. A component above the machine integer also takes the fallback, where it counts as a
  word and so as less than any number.
\<close>

theorem compare_version_strings_not_transitive:
  "compare_version_strings ref_coregex ''1_alpha'' ''1'' < 0 \<and>
   compare_version_strings ref_coregex ''1'' ''-1a'' < 0 \<and>
   compare_version_strings ref_coregex ''-1a'' ''1_alpha'' < 0 \<and>
   compare_version_strings ref_coregex ''99999999999999999999'' ''1'' < 0"
  by code_simp

end
