(* ===== verification/Constraints.thy ===== *)
theory Constraints
  imports Versions
begin

section \<open>Version and USE constraints\<close>

text \<open>
  \<open>internal/pkg/constraint.go\<close>: version constraints with their seven operators, and the record
  \<open>Constraint\<close> with the USE requirements a dependency puts on its provider.
  \<open>*VersionConstraint\<close> is an option, \<open>None\<close> for \<open>nil\<close>; the optional argument \<open>dependentUSE\<close> of
  \<open>PackageSatisfiesUseDeps\<close> is an option too, \<open>None\<close> when it is absent or \<open>nil\<close>. The comparison
  of version strings comes from \<open>Versions\<close>.

  \<open>use_spec\<close> states the table of PMS 8.2.6.4 for the six forms of USE dependency.
\<close>

subsection \<open>Data\<close>

datatype constraint_type = ConstraintTypeVersion | ConstraintTypeSlot | ConstraintTypeUseFlag

datatype dep_type = DepTypeRuntime | DepTypeBuild | DepTypeBuildHost | DepTypeInstall | DepTypePostMerge

datatype status = StatusIndet | StatusSat | StatusUnsat

datatype version_operator =
  OpEqual | OpGreater | OpGreaterEqual | OpLess | OpLessEqual | OpEqualGlob | OpRevisionMatch

record version_constraint =
  vcn_operator :: version_operator
  vcn_version :: string

record pkg_constraint =
  c_Type :: constraint_type
  c_Name :: string
  c_Version :: "version_constraint option"
  c_Slot :: string
  c_Flag :: string
  c_Required :: bool
  c_Condition :: string
  c_Conditions :: "string list"
  c_OrGroupID :: int
  c_DepType :: dep_type
  c_UseRequire :: "string list"
  c_UseBlock :: "string list"
  c_UseDefault :: "string \<rightharpoonup> bool"
  c_UseEqual :: "string list"
  c_UseEqualInverse :: "string list"
  c_UseConditionalIf :: "string list"
  c_UseConditionalUnless :: "string list"

text \<open>The zero value of the struct; a composite literal updates the fields it names.\<close>

definition zero_constraint :: pkg_constraint where
  "zero_constraint = \<lparr>c_Type = ConstraintTypeVersion, c_Name = [], c_Version = None, c_Slot = [],
     c_Flag = [], c_Required = False, c_Condition = [], c_Conditions = [], c_OrGroupID = 0,
     c_DepType = DepTypeRuntime, c_UseRequire = [], c_UseBlock = [], c_UseDefault = (\<lambda>_. None),
     c_UseEqual = [], c_UseEqualInverse = [], c_UseConditionalIf = [], c_UseConditionalUnless = []\<rparr>"

definition new_simple_constraint :: "string \<Rightarrow> pkg_constraint" where
  "new_simple_constraint name = zero_constraint\<lparr>c_Type := ConstraintTypeVersion, c_Name := name\<rparr>"

definition new_version_constraint :: "version_operator \<Rightarrow> string \<Rightarrow> version_constraint" where
  "new_version_constraint op v = \<lparr>vcn_operator = op, vcn_version = v\<rparr>"

definition new_exact_version_constraint :: "string \<Rightarrow> version_constraint" where
  "new_exact_version_constraint v = new_version_constraint OpEqual v"

definition new_min_version_constraint :: "string \<Rightarrow> version_constraint" where
  "new_min_version_constraint v = new_version_constraint OpGreaterEqual v"

definition new_max_version_constraint :: "string \<Rightarrow> version_constraint" where
  "new_max_version_constraint v = new_version_constraint OpLessEqual v"

subsection \<open>USE dependencies\<close>

definition has_use_deps :: "pkg_constraint \<Rightarrow> bool" where
  "has_use_deps c \<longleftrightarrow>
     0 < length (c_UseRequire c) \<or> 0 < length (c_UseBlock c) \<or>
     0 < length (c_UseEqual c) \<or> 0 < length (c_UseEqualInverse c) \<or>
     0 < length (c_UseConditionalIf c) \<or> 0 < length (c_UseConditionalUnless c)"

definition flag_enabled :: "pkg_constraint \<Rightarrow> string \<Rightarrow> (string \<rightharpoonup> bool) \<Rightarrow> bool" where
  "flag_enabled c flag provider =
     (case provider flag of
        None \<Rightarrow> (case c_UseDefault c flag of Some dflt \<Rightarrow> dflt | None \<Rightarrow> False)
      | Some enabled \<Rightarrow> enabled)"

definition package_satisfies_use_deps ::
  "pkg_constraint \<Rightarrow> (string \<rightharpoonup> bool) \<Rightarrow> (string \<rightharpoonup> bool) option \<Rightarrow> bool" where
  "package_satisfies_use_deps c provider dep_use =
     (if list_ex (\<lambda>f. \<not> flag_enabled c f provider) (c_UseRequire c) then False
      else if list_ex (\<lambda>f. flag_enabled c f provider) (c_UseBlock c) then False
      else case dep_use of
        None \<Rightarrow> True
      | Some dep \<Rightarrow>
          if list_ex (\<lambda>f. flag_enabled c f provider \<noteq> flag_on dep f) (c_UseEqual c) then False
          else if list_ex (\<lambda>f. flag_enabled c f provider = flag_on dep f) (c_UseEqualInverse c) then False
          else if list_ex (\<lambda>f. flag_on dep f \<and> \<not> flag_enabled c f provider) (c_UseConditionalIf c)
          then False
          else if list_ex (\<lambda>f. \<not> flag_on dep f \<and> flag_enabled c f provider) (c_UseConditionalUnless c)
          then False
          else True)"

subsection \<open>Version constraints\<close>

definition strip_revision :: "string \<Rightarrow> string" where
  "strip_revision v =
     (case last_index v ''-r'' of
        None \<Rightarrow> v
      | Some idx \<Rightarrow> if list_all is_digit (drop (idx + 2) v) then take idx v else v)"

definition version_constraint_string :: "version_constraint option \<Rightarrow> string" where
  "version_constraint_string vc =
     (case vc of
        None \<Rightarrow> ''any''
      | Some c \<Rightarrow>
          (case vcn_operator c of
             OpEqual \<Rightarrow> vcn_version c
           | OpGreater \<Rightarrow> ''>'' @ vcn_version c
           | OpGreaterEqual \<Rightarrow> ''>='' @ vcn_version c
           | OpLess \<Rightarrow> ''<'' @ vcn_version c
           | OpLessEqual \<Rightarrow> ''<='' @ vcn_version c
           | OpEqualGlob \<Rightarrow> ''='' @ vcn_version c @ ''*''
           | _ \<Rightarrow> ''unknown''))"

definition constraint_string :: "pkg_constraint \<Rightarrow> string" where
  "constraint_string c =
     (case c_Version c of
        None \<Rightarrow> c_Name c
      | Some vc \<Rightarrow> c_Name c @ '' '' @ version_constraint_string (Some vc))"

definition glob_match :: "string \<Rightarrow> string \<Rightarrow> bool" where
  "glob_match pat v =
     (if v = pat then True
      else if \<not> has_prefix v pat then False
      else (let next = v ! length pat in next = CHR ''.'' \<or> next = CHR ''_'' \<or> next = CHR ''-''))"

definition satisfies :: "coregex \<Rightarrow> version_constraint option \<Rightarrow> string \<Rightarrow> bool" where
  "satisfies rx vc v =
     (case vc of
        None \<Rightarrow> True
      | Some c \<Rightarrow>
          (case vcn_operator c of
             OpEqual \<Rightarrow> v = vcn_version c
           | OpGreater \<Rightarrow> compare_version_strings rx v (vcn_version c) > 0
           | OpGreaterEqual \<Rightarrow> compare_version_strings rx v (vcn_version c) \<ge> 0
           | OpLess \<Rightarrow> compare_version_strings rx v (vcn_version c) < 0
           | OpLessEqual \<Rightarrow> compare_version_strings rx v (vcn_version c) \<le> 0
           | OpEqualGlob \<Rightarrow> glob_match (vcn_version c) v
           | OpRevisionMatch \<Rightarrow> strip_revision v = strip_revision (vcn_version c)))"

text \<open>The function never returns a non-nil error, so its result is the constraint alone.\<close>

definition parse_version_constraint :: "string \<Rightarrow> version_constraint option" where
  "parse_version_constraint s =
     (if s = [] then None
      else if has_prefix s ''>='' then
        Some \<lparr>vcn_operator = OpGreaterEqual, vcn_version = trim_space (trim_prefix s ''>='')\<rparr>
      else if has_prefix s ''<='' then
        Some \<lparr>vcn_operator = OpLessEqual, vcn_version = trim_space (trim_prefix s ''<='')\<rparr>
      else if has_prefix s ''>'' then
        Some \<lparr>vcn_operator = OpGreater, vcn_version = trim_space (trim_prefix s ''>'')\<rparr>
      else if has_prefix s ''<'' then
        Some \<lparr>vcn_operator = OpLess, vcn_version = trim_space (trim_prefix s ''<'')\<rparr>
      else if has_prefix s ''='' then
        Some \<lparr>vcn_operator = OpEqual, vcn_version = trim_space (trim_prefix s ''='')\<rparr>
      else Some \<lparr>vcn_operator = OpEqual, vcn_version = s\<rparr>)"

subsection \<open>Facts about the operators\<close>

lemma last_index_append_some: "last_index u p = Some i \<Longrightarrow> last_index (s @ u) p = Some (length s + i)"
  by (induction s) auto

lemma last_index_absent: "c \<notin> set s \<Longrightarrow> last_index s (c # p) = None"
  by (induction s) auto

lemma base_no_dash:
  assumes "wf_text t"
  shows "CHR ''-'' \<notin> set (version_string (t\<lparr>vt_revision := None\<rparr>))"
proof -
  have "CHR ''-'' \<notin> set (join ''.'' (vt_numbers t))"
    using join_numbers_chars [of "vt_numbers t" "CHR ''-''"] assms
    by (auto simp: wf_text_def is_digit_def)
  moreover have "CHR ''-'' \<notin> set (vt_letter t)"
    using assms by (auto simp: wf_text_def letter_part_def is_lower_def)
  moreover have "CHR ''-'' \<notin> set (suffixes_text (vt_suffixes t))"
    using assms by (intro suffixes_text_last_digit_or_letter) (auto simp: wf_text_def list_all_iff)
  ultimately show ?thesis by (simp add: version_string_def revision_text_def)
qed

lemma version_string_split:
  "version_string t = version_string (t\<lparr>vt_revision := None\<rparr>) @ revision_text (vt_revision t)"
  by (simp add: version_string_def revision_text_def)

lemma strip_revision_text:
  assumes "wf_text t"
  shows "strip_revision (version_string t) = version_string (t\<lparr>vt_revision := None\<rparr>)"
proof (cases "vt_revision t")
  case None
  then have "version_string t = version_string (t\<lparr>vt_revision := None\<rparr>)"
    using version_string_split [of t] by (simp add: revision_text_def)
  with base_no_dash [OF assms] show ?thesis by (simp add: strip_revision_def last_index_absent)
next
  case (Some d)
  let ?b = "version_string (t\<lparr>vt_revision := None\<rparr>)"
  have d: "list_all is_digit d" using assms Some by (simp add: wf_text_def digits_def)
  then have "CHR ''-'' \<notin> set d" by (auto simp: list_all_iff is_digit_def)
  then have "last_index (''-r'' @ d) ''-r'' = Some 0"
    by (simp add: last_index_absent)
  then have "last_index (?b @ ''-r'' @ d) ''-r'' = Some (length ?b)"
    using last_index_append_some [of "''-r'' @ d" "''-r''" 0 ?b] by simp
  then show ?thesis
    using d version_string_split [of t] Some by (simp add: strip_revision_def revision_text_def)
qed

text \<open>The boundary rule of \<open>=ver*\<close>, component by component.\<close>

definition glob_sep :: "string \<Rightarrow> bool" where
  "glob_sep r \<longleftrightarrow> r = [] \<or> hd r \<in> {CHR ''.'', CHR ''_'', CHR ''-''}"

lemma glob_match_iff: "glob_match p v \<longleftrightarrow> (\<exists>r. v = p @ r \<and> glob_sep r)"
proof
  assume g: "glob_match p v"
  then obtain r where r: "v = p @ r" by (auto simp: glob_match_def has_prefix_iff split: if_splits)
  with g show "\<exists>r. v = p @ r \<and> glob_sep r"
    by (cases r) (auto simp: glob_match_def glob_sep_def Let_def split: if_splits)
next
  assume "\<exists>r. v = p @ r \<and> glob_sep r"
  then obtain r where "v = p @ r" "glob_sep r" by blast
  then show "glob_match p v"
    by (cases r) (auto simp: glob_match_def glob_sep_def Let_def)
qed

definition no_digit_head :: "string \<Rightarrow> bool" where
  "no_digit_head r \<longleftrightarrow> r = [] \<or> \<not> is_digit (hd r)"

lemma glob_sep_no_digit_head: "glob_sep r \<Longrightarrow> no_digit_head r"
  by (auto simp: glob_sep_def no_digit_head_def is_digit_def)

lemma digit_run_unique:
  "list_all is_digit n \<Longrightarrow> list_all is_digit m \<Longrightarrow> no_digit_head r \<Longrightarrow> no_digit_head q \<Longrightarrow>
   n @ r = m @ q \<longleftrightarrow> n = m \<and> r = q"
proof (induction n arbitrary: m)
  case Nil
  then show ?case by (cases m) (auto simp: no_digit_head_def)
next
  case (Cons c n)
  then show ?case by (cases m) (auto simp: no_digit_head_def)
qed

lemma glob_numbers:
  assumes "number_parts ns" "number_parts ms" "no_digit_head r" "r \<noteq> [] \<longrightarrow> hd r \<noteq> CHR ''.''"
  shows "glob_match (join ''.'' ns) (join ''.'' ms @ r) \<longleftrightarrow>
         take (length ns) ms = ns \<and> (length ns < length ms \<or> glob_sep r)"
  using assms(1,2)
proof (induction "''.''" ns arbitrary: ms rule: join.induct)
  case 1
  then show ?case by (simp add: number_parts_def)
next
  case (2 n)
  then obtain m mt where ms: "ms = m # mt" and m: "list_all is_digit m" and n: "list_all is_digit n"
    by (cases ms) (auto simp: number_parts_def digits_def)
  have u: "m @ q = n @ x \<longleftrightarrow> m = n \<and> q = x" if "no_digit_head q" "glob_sep x" for q x
    by (rule digit_run_unique [OF m n that(1) glob_sep_no_digit_head [OF that(2)]])
  show ?case
  proof (cases mt)
    case Nil
    with u [OF assms(3)] ms show ?thesis by (auto simp: glob_match_iff)
  next
    case (Cons m2 mt2)
    let ?q = "''.'' @ join ''.'' (m2 # mt2) @ r"
    have q: "no_digit_head ?q" "glob_sep ?q"
      by (simp_all add: no_digit_head_def glob_sep_def is_digit_def)
    have "glob_match n (m @ ?q) \<longleftrightarrow> m = n"
      using u [OF q(1)] q(2) by (auto simp: glob_match_iff)
    with Cons ms show ?thesis by (auto simp: append_assoc)
  qed
next
  case (3 n n2 nt)
  from 3(3) obtain m mt where ms: "ms = m # mt" and m: "list_all is_digit m"
    by (cases ms) (auto simp: number_parts_def digits_def)
  have n: "list_all is_digit n" and ns2: "number_parts (n2 # nt)"
    using 3(2) by (auto simp: number_parts_def digits_def)
  have d: "no_digit_head (CHR ''.'' # z)" for z by (simp add: no_digit_head_def is_digit_def)
  show ?case
  proof (cases mt)
    case Nil
    have "m @ r = n @ CHR ''.'' # z \<longleftrightarrow> m = n \<and> r = CHR ''.'' # z" for z
      by (rule digit_run_unique [OF m n assms(3) d])
    with assms(4) have "\<not> glob_match (n @ CHR ''.'' # z) (m @ r)" for z
      by (auto simp: glob_match_iff)
    with Nil ms show ?thesis by simp
  next
    case (Cons m2 mt2)
    have "number_parts mt" using 3(3) ms Cons by (simp add: number_parts_def)
    from 3(1) [OF ns2 this]
    have IH: "glob_match (join ''.'' (n2 # nt)) (join ''.'' mt @ r) \<longleftrightarrow>
      take (length (n2 # nt)) mt = n2 # nt \<and> (length (n2 # nt) < length mt \<or> glob_sep r)" .
    have "m @ CHR ''.'' # y = n @ CHR ''.'' # z \<longleftrightarrow> m = n \<and> CHR ''.'' # y = CHR ''.'' # z" for y z
      by (rule digit_run_unique [OF m n d d])
    then have "glob_match (n @ CHR ''.'' # p) (m @ CHR ''.'' # y) \<longleftrightarrow> m = n \<and> glob_match p y" for p y
      by (auto simp: glob_match_iff)
    then have "glob_match (join ''.'' (n # n2 # nt)) (join ''.'' ms @ r) \<longleftrightarrow>
      m = n \<and> glob_match (join ''.'' (n2 # nt)) (join ''.'' mt @ r)"
      using ms Cons by simp
    with IH ms show ?thesis by auto
  qed
qed

text \<open>The text after the numbers never continues a component, and separates unless a letter starts it.\<close>

definition text_tail :: "version_text \<Rightarrow> string" where
  "text_tail t = vt_letter t @ suffixes_text (vt_suffixes t) @ revision_text (vt_revision t)"

lemma text_tail:
  assumes "wf_text t"
  shows "no_digit_head (text_tail t) \<and> (text_tail t \<noteq> [] \<longrightarrow> hd (text_tail t) \<noteq> CHR ''.'') \<and>
    (glob_sep (text_tail t) \<longleftrightarrow> vt_letter t = [])"
proof (cases "vt_letter t")
  case Nil
  have "text_tail t = [] \<or> hd (text_tail t) \<in> {CHR ''_'', CHR ''-''}"
    by (cases "vt_suffixes t"; cases "vt_revision t")
       (simp_all add: text_tail_def Nil suffixes_text_def suffix_text_def revision_text_def)
  with Nil show ?thesis by (auto simp: no_digit_head_def glob_sep_def is_digit_def)
next
  case (Cons c l)
  with assms have "is_lower c" by (auto simp: wf_text_def letter_part_def)
  with Cons show ?thesis
    by (auto simp: text_tail_def no_digit_head_def glob_sep_def is_digit_def is_lower_def)
qed

text \<open>Trimming leaves a text without outer white space alone.\<close>

definition tight :: "string \<Rightarrow> bool" where
  "tight s \<longleftrightarrow> s \<noteq> [] \<and> \<not> is_space (hd s) \<and> \<not> is_space (last s)"

lemma trim_space_tight: "tight s \<Longrightarrow> trim_space s = s"
proof -
  assume t: "tight s"
  then have "dropWhile is_space s = s" by (cases s) (auto simp: tight_def)
  moreover have "dropWhile is_space (rev s) = rev s"
    using t by (cases "rev s") (auto simp: tight_def last_rev [symmetric])
  ultimately show ?thesis by (simp add: trim_space_def)
qed

text \<open>
  The table of PMS 8.2.6.4. A flag the provider does not declare has the default the dependency
  names, and counts as off without one.
\<close>

datatype use_dep_form =
  Enabled | Disabled | SameAs | OppositeOf | EnabledIf | DisabledUnless

fun use_form_holds :: "use_dep_form \<Rightarrow> bool \<Rightarrow> bool \<Rightarrow> bool" where
  "use_form_holds Enabled prov dep = prov"
| "use_form_holds Disabled prov dep = (\<not> prov)"
| "use_form_holds SameAs prov dep = (prov = dep)"
| "use_form_holds OppositeOf prov dep = (prov \<noteq> dep)"
| "use_form_holds EnabledIf prov dep = (dep \<longrightarrow> prov)"
| "use_form_holds DisabledUnless prov dep = (\<not> dep \<longrightarrow> \<not> prov)"

definition use_requirements :: "pkg_constraint \<Rightarrow> (use_dep_form \<times> string) list" where
  "use_requirements c =
     map (Pair Enabled) (c_UseRequire c) @ map (Pair Disabled) (c_UseBlock c) @
     map (Pair SameAs) (c_UseEqual c) @ map (Pair OppositeOf) (c_UseEqualInverse c) @
     map (Pair EnabledIf) (c_UseConditionalIf c) @ map (Pair DisabledUnless) (c_UseConditionalUnless c)"

definition provided :: "(string \<rightharpoonup> bool) \<Rightarrow> (string \<rightharpoonup> bool) \<Rightarrow> string \<rightharpoonup> bool" where
  "provided dflt iuse = dflt ++ iuse"

lemma flag_enabled_provided: "flag_enabled c f prov = flag_on (provided (c_UseDefault c) prov) f"
  by (auto simp: flag_enabled_def flag_on_def provided_def map_add_def split: option.splits)

lemma use_deps_table:
  "package_satisfies_use_deps c prov (Some dep) \<longleftrightarrow>
   list_all (\<lambda>(form, f). use_form_holds form (flag_on (provided (c_UseDefault c) prov) f) (flag_on dep f))
     (use_requirements c)"
  unfolding package_satisfies_use_deps_def use_requirements_def flag_enabled_provided
  by (auto simp: list_all_iff list_ex_iff ball_Un)

subsection \<open>Properties\<close>

text \<open>
  \<open>~ver\<close> accepts exactly the versions that agree with \<open>ver\<close> in everything but the revision,
  whether either of the two names a revision or not.
\<close>

theorem revision_match_iff:
  assumes "wf_text t" and "wf_text u"
  shows "satisfies rx (Some (new_version_constraint OpRevisionMatch (version_string t))) (version_string u) \<longleftrightarrow>
    version_string (u\<lparr>vt_revision := None\<rparr>) = version_string (t\<lparr>vt_revision := None\<rparr>)"
  by (simp add: satisfies_def new_version_constraint_def strip_revision_text [OF assms(1)]
      strip_revision_text [OF assms(2)])

theorem revision_match_iff_witness:
  "satisfies ref_coregex
     (Some (new_version_constraint OpRevisionMatch (version_string sample_text)))
     (version_string (sample_text\<lparr>vt_revision := Some ''12''\<rparr>))"
proof -
  have "wf_text (sample_text\<lparr>vt_revision := Some ''12''\<rparr>)" by code_simp
  from revision_match_iff [OF sample_text_wf this, of ref_coregex] show ?thesis by simp
qed

text \<open>
  \<open>=ver*\<close> with a dotted number matches at component boundaries only: it accepts a version
  exactly when its numbers are the first components of that version and no letter follows them.
\<close>

theorem glob_component_boundary:
  assumes "number_parts ns" and "wf_text t"
  shows "satisfies rx (Some (new_version_constraint OpEqualGlob (join ''.'' ns))) (version_string t) \<longleftrightarrow>
    take (length ns) (vt_numbers t) = ns \<and> (length ns < length (vt_numbers t) \<or> vt_letter t = [])"
proof -
  have "number_parts (vt_numbers t)" using assms(2) by (simp add: wf_text_def)
  from glob_numbers [OF assms(1) this, of "text_tail t"] text_tail [OF assms(2)]
  show ?thesis
    by (simp add: satisfies_def new_version_constraint_def version_string_def text_tail_def)
qed

theorem glob_component_boundary_witness:
  "satisfies ref_coregex (Some (new_version_constraint OpEqualGlob ''1.02'')) (version_string sample_text) \<and>
   \<not> satisfies ref_coregex (Some (new_version_constraint OpEqualGlob ''1.02.30'')) (version_string sample_text) \<and>
   \<not> satisfies ref_coregex (Some (new_version_constraint OpEqualGlob ''1.0'')) (version_string sample_text)"
proof -
  have "number_parts [''1'', ''02'']" "number_parts [''1'', ''02'', ''30'']" "number_parts [''1'', ''0'']"
    by code_simp+
  from this [THEN glob_component_boundary, OF sample_text_wf] show ?thesis
    by (simp add: sample_text_def)
qed

text \<open>
  the four range operators denote intervals: what a lower bound accepts stays accepted for
  every newer version and what an upper bound accepts for every older one, and of the constraints
  \<open><b\<close>, \<open>>=b\<close> (and \<open>>b\<close>, \<open><=b\<close>) each version satisfies exactly one.
\<close>

theorem range_constraints_intervals:
  assumes "coregex_lib rx"
    and "parse_version rx b = Inr vb" and "parse_version rx x = Inr vx" and "parse_version rx y = Inr vy"
    and "compare_version_strings rx x y \<le> 0"
  shows
    "(op \<in> {OpGreater, OpGreaterEqual} \<longrightarrow>
        satisfies rx (Some (new_version_constraint op b)) x \<longrightarrow>
        satisfies rx (Some (new_version_constraint op b)) y) \<and>
     (op \<in> {OpLess, OpLessEqual} \<longrightarrow>
        satisfies rx (Some (new_version_constraint op b)) y \<longrightarrow>
        satisfies rx (Some (new_version_constraint op b)) x) \<and>
     (satisfies rx (Some (new_version_constraint OpLess b)) x \<longleftrightarrow>
        \<not> satisfies rx (Some (new_version_constraint OpGreaterEqual b)) x) \<and>
     (satisfies rx (Some (new_version_constraint OpGreater b)) x \<longleftrightarrow>
        \<not> satisfies rx (Some (new_version_constraint OpLessEqual b)) x)"
proof -
  note wf = assms(2-4) [THEN coregex_lib.parse_wf [OF assms(1)], THEN conjunct1]
  have c: "compare_version_strings rx x y = compare_versions vx vy"
    "compare_version_strings rx x b = compare_versions vx vb"
    "compare_version_strings rx y b = compare_versions vy vb"
    using assms(2-4) by (simp_all add: compare_version_strings_def)
  have le: "compare_versions vx vy \<le> 0" using assms(5) c by simp
  have t: "0 < compare_versions vx vb \<Longrightarrow> 0 < compare_versions vy vb"
    "0 \<le> compare_versions vx vb \<Longrightarrow> 0 \<le> compare_versions vy vb"
    using ver.trans [OF wf(2,3,1) le] ver.le_lt_trans [OF wf(2,3,1) le] by linarith+
  have up: "satisfies rx (Some (new_version_constraint op b)) x \<longrightarrow>
      satisfies rx (Some (new_version_constraint op b)) y" if "op \<in> {OpGreater, OpGreaterEqual}"
    using that t by (auto simp: satisfies_def new_version_constraint_def c)
  have down: "satisfies rx (Some (new_version_constraint op b)) y \<longrightarrow>
      satisfies rx (Some (new_version_constraint op b)) x" if "op \<in> {OpLess, OpLessEqual}"
    using that ver.trans [OF wf(2,3,1) le] ver.le_lt_trans [OF wf(2,3,1) le]
    by (auto simp: satisfies_def new_version_constraint_def c)
  show ?thesis
    using up down by (auto simp: satisfies_def new_version_constraint_def c)
qed

theorem range_constraints_intervals_witness:
  "satisfies ref_coregex (Some (new_version_constraint OpGreaterEqual ''1.9'')) ''1.10'' \<and>
   satisfies ref_coregex (Some (new_version_constraint OpGreaterEqual ''1.9'')) ''2.0_rc1''"
proof -
  have p: "case parse_version ref_coregex ''1.9'' of Inl _ \<Rightarrow> False | Inr _ \<Rightarrow> True"
    "case parse_version ref_coregex ''1.10'' of Inl _ \<Rightarrow> False | Inr _ \<Rightarrow> True"
    "case parse_version ref_coregex ''2.0_rc1'' of Inl _ \<Rightarrow> False | Inr _ \<Rightarrow> True"
    by code_simp+
  then obtain b x y where "parse_version ref_coregex ''1.9'' = Inr b"
    "parse_version ref_coregex ''1.10'' = Inr x" "parse_version ref_coregex ''2.0_rc1'' = Inr y"
    by (auto split: sum.splits)
  moreover have "compare_version_strings ref_coregex ''1.10'' ''2.0_rc1'' \<le> 0" by code_simp
  moreover have "satisfies ref_coregex (Some (new_version_constraint OpGreaterEqual ''1.9'')) ''1.10''"
    by code_simp
  ultimately show ?thesis
    using range_constraints_intervals [OF ref_rx.coregex_lib_axioms, of "''1.9''" b "''1.10''" x "''2.0_rc1''" y]
    by blast
qed

text \<open>
  Printing and parsing a version constraint is the identity for the five operators
  \<open>ParseVersionConstraint\<close> knows, and loses the two others: \<open>=ver*\<close> comes back as equality with the
  version \<open>ver*\<close>, and \<open>~ver\<close> as equality with the version \<open>unknown\<close>.
\<close>

theorem version_constraint_roundtrip:
  assumes "tight v" and "hd v \<notin> {CHR ''<'', CHR ''>'', CHR ''=''}"
  shows "parse_version_constraint (version_constraint_string (Some (new_version_constraint op v))) =
    Some (case op of
      OpEqualGlob \<Rightarrow> new_version_constraint OpEqual (v @ ''*'')
    | OpRevisionMatch \<Rightarrow> new_version_constraint OpEqual ''unknown''
    | _ \<Rightarrow> new_version_constraint op v)"
proof -
  obtain c w where v: "v = c # w" using assms(1) by (cases v) (auto simp: tight_def)
  have "tight (v @ ''*'')" using assms(1) by (auto simp: tight_def is_space_def)
  then show ?thesis
    using assms v trim_space_tight [of v] trim_space_tight [of "v @ ''*''"]
    by (cases op) (simp_all add: parse_version_constraint_def version_constraint_string_def
        new_version_constraint_def trim_prefix_def)
qed

theorem version_constraint_roundtrip_witness:
  "parse_version_constraint ''>=2.0_rc1'' = Some (new_version_constraint OpGreaterEqual ''2.0_rc1'') \<and>
   parse_version_constraint (version_constraint_string
     (Some (new_version_constraint OpRevisionMatch ''2.0_rc1''))) =
     Some (new_version_constraint OpEqual ''unknown'')"
proof -
  have "tight ''2.0_rc1''" by code_simp
  from version_constraint_roundtrip [OF this, of OpGreaterEqual]
    version_constraint_roundtrip [OF this, of OpRevisionMatch]
  show ?thesis by (simp add: version_constraint_string_def new_version_constraint_def)
qed

text \<open>
  with the dependent's flags at hand, a provider is accepted exactly when each of the six
  forms of USE dependency holds as the table of PMS 8.2.6.4 says, a flag missing in the provider's
  IUSE reading as the default of the dependency, and as off without one.
\<close>

theorem use_dependencies_table:
  "package_satisfies_use_deps c prov (Some dep) \<longleftrightarrow>
   list_all (\<lambda>(form, f). use_form_holds form (flag_on (provided (c_UseDefault c) prov) f) (flag_on dep f))
     (use_requirements c)"
  by (rule use_deps_table)

end
