(* ===== verification/Atoms.thy ===== *)
theory Atoms
  imports Constraints
begin

section \<open>Package atoms: parsing, validation, printing\<close>

text \<open>
  \<open>internal/pkg/atom.go\<close>, but for \<open>Atom.Matches\<close>, which needs the packages of the theory
  \<open>Packages\<close>. The parser of the source moves a position through one string and fills an atom in
  place; here each step takes the rest of the string from that position and the atom so far, and
  returns both. Errors are the values of \<open>atom_error\<close>, one per \<open>Err...\<close> variable of the source.

  \<open>isAlphaNum\<close> asks the Unicode tables. For ASCII the answer is written out; for other runes it is
  the argument \<open>ul\<close> of the validators, and every theorem holds for each such table.
\<close>

subsection \<open>Data\<close>

record atom =
  a_Blocker :: string
  a_Operator :: string
  a_Category :: string
  a_Package :: string
  a_Version :: string
  a_Slot :: string
  a_Subslot :: string
  a_Repository :: string
  a_UseRequire :: "string list"
  a_UseBlock :: "string list"
  a_UseConditional :: "string list"
  a_UseDefault :: "string list"

definition empty_atom :: atom where
  "empty_atom = \<lparr>a_Blocker = [], a_Operator = [], a_Category = [], a_Package = [], a_Version = [],
     a_Slot = [], a_Subslot = [], a_Repository = [], a_UseRequire = [], a_UseBlock = [],
     a_UseConditional = [], a_UseDefault = []\<rparr>"

datatype atom_error =
  ErrEmptyAtom
| ErrNoCategory
| ErrEmptyCategory
| ErrEmptyPackage
| ErrInvalidCategory string
| ErrInvalidPackage string
| ErrInvalidSlot string
| ErrInvalidRepository string
| ErrInvalidUseDeps string
| ErrVersionWithoutOp
| ErrOperatorWithoutVer
| ErrUnmatchedBracket
| ErrGlobWithoutOperator

subsection \<open>Validators\<close>

definition is_alnum_rune :: "(nat \<Rightarrow> bool) \<Rightarrow> nat \<Rightarrow> bool" where
  "is_alnum_rune ul r =
     (if r < 128 then (97 \<le> r \<and> r \<le> 122) \<or> (65 \<le> r \<and> r \<le> 90) \<or> (48 \<le> r \<and> r \<le> 57) else ul r)"

text \<open>
  The five validators are one loop with different extra characters: the first byte, read as a
  rune, is alphanumeric, and so is each later rune unless it is one of the extra ones.
\<close>

definition valid_name :: "(nat \<Rightarrow> bool) \<Rightarrow> string \<Rightarrow> string \<Rightarrow> bool" where
  "valid_name ul extra s =
     (if length s = 0 then False
      else if \<not> is_alnum_rune ul (byte (hd s)) then False
      else list_all (\<lambda>r. is_alnum_rune ul r \<or> r \<in> byte ` set extra) (utf8_runes (tl s)))"

definition is_valid_category :: "(nat \<Rightarrow> bool) \<Rightarrow> string \<Rightarrow> bool" where
  "is_valid_category ul s = valid_name ul ''+_.-'' s"

definition is_valid_package_name :: "(nat \<Rightarrow> bool) \<Rightarrow> string \<Rightarrow> bool" where
  "is_valid_package_name ul s = valid_name ul ''+_-'' s"

definition is_valid_slot :: "(nat \<Rightarrow> bool) \<Rightarrow> string \<Rightarrow> bool" where
  "is_valid_slot ul s = valid_name ul ''+_.-'' s"

definition is_valid_repository :: "(nat \<Rightarrow> bool) \<Rightarrow> string \<Rightarrow> bool" where
  "is_valid_repository ul s = valid_name ul ''_-'' s"

definition is_valid_use_flag :: "(nat \<Rightarrow> bool) \<Rightarrow> string \<Rightarrow> bool" where
  "is_valid_use_flag ul s = valid_name ul ''+_@-'' s"

subsection \<open>The parser\<close>

definition parse_blocker :: "string \<Rightarrow> atom \<Rightarrow> string \<times> atom" where
  "parse_blocker s atm =
     (if has_prefix s ''!'' then
        (if has_prefix (drop 1 s) ''!'' then (drop 2 s, atm\<lparr>a_Blocker := ''!!''\<rparr>)
         else (drop 1 s, atm\<lparr>a_Blocker := ''!''\<rparr>))
      else (s, atm))"

definition parse_operator :: "string \<Rightarrow> atom \<Rightarrow> string \<times> atom" where
  "parse_operator s atm =
     (if has_prefix s ''>='' then (drop 2 s, atm\<lparr>a_Operator := ''>=''\<rparr>)
      else if has_prefix s ''<='' then (drop 2 s, atm\<lparr>a_Operator := ''<=''\<rparr>)
      else if has_prefix s ''>'' then (drop 1 s, atm\<lparr>a_Operator := ''>''\<rparr>)
      else if has_prefix s ''<'' then (drop 1 s, atm\<lparr>a_Operator := ''<''\<rparr>)
      else if has_prefix s ''~'' then (drop 1 s, atm\<lparr>a_Operator := ''~''\<rparr>)
      else if has_prefix s ''='' then (drop 1 s, atm\<lparr>a_Operator := ''=''\<rparr>)
      else (s, atm))"

text \<open>
  The backward loop of \<open>splitPackageVersion\<close>: the last dash that a digit follows. \<open>split_dash\<close> is
  \<open>None\<close> when there is none.
\<close>

fun split_dash :: "string \<Rightarrow> (string \<times> string) option" where
  "split_dash [] = None"
| "split_dash (a # s) =
     (case split_dash s of
        Some (p, v) \<Rightarrow> Some (a # p, v)
      | None \<Rightarrow> if a = CHR ''-'' \<and> s \<noteq> [] \<and> is_digit (hd s) then Some ([], s) else None)"

definition split_package_version :: "string \<Rightarrow> string \<times> string" where
  "split_package_version s = (case split_dash s of Some r \<Rightarrow> r | None \<Rightarrow> (s, []))"

definition cpv_stop :: "char \<Rightarrow> bool" where
  "cpv_stop c \<longleftrightarrow> c = CHR '':'' \<or> c = CHR ''[''"

text \<open>The part of \<open>parseCPV\<close> that splits the version off when there is an operator.\<close>

definition parse_pkg_ver :: "string \<Rightarrow> atom \<Rightarrow> atom_error + atom" where
  "parse_pkg_ver pkg_ver atm =
     (if a_Operator atm \<noteq> [] then
        (let (name, version) = split_package_version pkg_ver in
         if name = [] then Inl ErrEmptyPackage
         else if version = [] then Inl ErrOperatorWithoutVer
         else if has_suffix version ''*'' then
           (if a_Operator atm \<noteq> ''='' then Inl ErrGlobWithoutOperator
            else Inr (atm\<lparr>a_Package := name, a_Operator := ''=*'',
                          a_Version := trim_suffix version ''*''\<rparr>))
         else Inr (atm\<lparr>a_Package := name, a_Version := version\<rparr>))
      else Inr (atm\<lparr>a_Package := pkg_ver\<rparr>))"

definition parse_cpv :: "(nat \<Rightarrow> bool) \<Rightarrow> string \<Rightarrow> atom \<Rightarrow> atom_error + string \<times> atom" where
  "parse_cpv ul s atm =
     (let cpv = takeWhile (\<lambda>c. \<not> cpv_stop c) s; rest = dropWhile (\<lambda>c. \<not> cpv_stop c) s in
      if cpv = [] then Inl ErrNoCategory
      else case index_byte cpv CHR ''/'' of
        None \<Rightarrow> Inl ErrNoCategory
      | Some slash \<Rightarrow>
          (let category = take slash cpv; pkg_ver = drop (slash + 1) cpv in
           if category = [] then Inl ErrEmptyCategory
           else if \<not> is_valid_category ul category then Inl (ErrInvalidCategory category)
           else if pkg_ver = [] then Inl ErrEmptyPackage
           else case parse_pkg_ver pkg_ver (atm\<lparr>a_Category := category\<rparr>) of
             Inl e \<Rightarrow> Inl e
           | Inr atm' \<Rightarrow>
               if \<not> is_valid_package_name ul (a_Package atm') then Inl (ErrInvalidPackage (a_Package atm'))
               else Inr (rest, atm')))"

definition parse_repository :: "(nat \<Rightarrow> bool) \<Rightarrow> string \<Rightarrow> atom \<Rightarrow> atom_error + string \<times> atom" where
  "parse_repository ul s atm =
     (let repo = takeWhile (\<lambda>c. c \<noteq> CHR ''['') s; rest = dropWhile (\<lambda>c. c \<noteq> CHR ''['') s in
      if repo = [] then Inl (ErrInvalidRepository [])
      else if \<not> is_valid_repository ul repo then Inl (ErrInvalidRepository repo)
      else Inr (rest, atm\<lparr>a_Repository := repo\<rparr>))"

definition strip_slot_operator :: "string \<Rightarrow> string" where
  "strip_slot_operator s = (if has_suffix s ''='' \<and> s \<noteq> ''='' then take (length s - 1) s else s)"

definition set_slot :: "string \<Rightarrow> atom \<Rightarrow> atom" where
  "set_slot slot_str atm =
     (case index_byte slot_str CHR ''/'' of
        Some i \<Rightarrow> atm\<lparr>a_Slot := take i slot_str, a_Subslot := drop (i + 1) slot_str\<rparr>
      | None \<Rightarrow> atm\<lparr>a_Slot := slot_str\<rparr>)"

definition parse_slot_and_repo ::
  "(nat \<Rightarrow> bool) \<Rightarrow> string \<Rightarrow> atom \<Rightarrow> atom_error + string \<times> atom" where
  "parse_slot_and_repo ul s atm =
     (if \<not> has_prefix s '':'' then Inr (s, atm)
      else
        (let s1 = drop 1 s in
         if has_prefix s1 '':'' then parse_repository ul (drop 1 s1) atm
         else
           (let slot_str = takeWhile (\<lambda>c. \<not> cpv_stop c) s1; rest = dropWhile (\<lambda>c. \<not> cpv_stop c) s1;
                atm' = set_slot (strip_slot_operator slot_str) atm in
            if a_Slot atm' \<noteq> [] \<and> a_Slot atm' \<noteq> ''*'' \<and> a_Slot atm' \<noteq> ''='' \<and>
               \<not> is_valid_slot ul (a_Slot atm')
            then Inl (ErrInvalidSlot (a_Slot atm'))
            else if has_prefix rest ''::'' then parse_repository ul (drop 2 rest) atm'
            else Inr (rest, atm'))))"

text \<open>The marks around a flag, and the flag: default, \<open>?\<close>, \<open>=\<close>, negation, name.\<close>

definition use_flag_parts :: "string \<Rightarrow> string \<times> bool \<times> bool \<times> bool \<times> string" where
  "use_flag_parts f0 =
     (let (default, f1) =
        (if has_suffix f0 ''(+)'' then (''+'', trim_suffix f0 ''(+)'')
         else if has_suffix f0 ''(-)'' then (''-'', trim_suffix f0 ''(-)'')
         else ([], f0));
        is_conditional = has_suffix f1 ''?''; f2 = (if is_conditional then trim_suffix f1 ''?'' else f1);
        is_equality = has_suffix f2 ''=''; f3 = (if is_equality then trim_suffix f2 ''='' else f2);
        is_blocked = has_prefix f3 ''-''; f4 = (if is_blocked then trim_prefix f3 ''-'' else f3);
        is_negated = has_prefix f4 ''!''; f5 = (if is_negated then trim_prefix f4 ''!'' else f4)
      in (default, is_conditional, is_equality, is_blocked \<or> is_negated, f5))"

definition parse_use_flag :: "(nat \<Rightarrow> bool) \<Rightarrow> string \<Rightarrow> atom \<Rightarrow> atom_error + atom" where
  "parse_use_flag ul flag0 atm =
     (if trim_space flag0 = [] then Inr atm
      else
        (let (default, is_conditional, is_equality, negated, flag) = use_flag_parts (trim_space flag0) in
         if \<not> is_valid_use_flag ul flag then Inl (ErrInvalidUseDeps flag)
         else
           (let atm1 = (if default \<noteq> []
                        then atm\<lparr>a_UseDefault := a_UseDefault atm @ [flag @ ''('' @ default @ '')'']\<rparr>
                        else atm) in
            Inr (if is_equality \<and> negated then
                   atm1\<lparr>a_UseConditional := a_UseConditional atm1 @ [''!'' @ flag @ ''='']\<rparr>
                 else if is_equality then
                   atm1\<lparr>a_UseConditional := a_UseConditional atm1 @ [flag @ ''='']\<rparr>
                 else if is_conditional \<and> negated then
                   atm1\<lparr>a_UseConditional := a_UseConditional atm1 @ [''!'' @ flag @ ''?'']\<rparr>
                 else if is_conditional then
                   atm1\<lparr>a_UseConditional := a_UseConditional atm1 @ [flag @ ''?'']\<rparr>
                 else if negated then atm1\<lparr>a_UseBlock := a_UseBlock atm1 @ [flag]\<rparr>
                 else atm1\<lparr>a_UseRequire := a_UseRequire atm1 @ [flag]\<rparr>))))"

fun parse_use_flags :: "(nat \<Rightarrow> bool) \<Rightarrow> string list \<Rightarrow> atom \<Rightarrow> atom_error + atom" where
  "parse_use_flags ul [] atm = Inr atm"
| "parse_use_flags ul (f # fs) atm =
     (case parse_use_flag ul f atm of Inl e \<Rightarrow> Inl e | Inr atm' \<Rightarrow> parse_use_flags ul fs atm')"

definition parse_use_deps :: "(nat \<Rightarrow> bool) \<Rightarrow> string \<Rightarrow> atom \<Rightarrow> atom_error + atom" where
  "parse_use_deps ul s atm =
     (if \<not> has_prefix s ''['' then Inr atm
      else case index_byte (drop 1 s) CHR '']'' of
        None \<Rightarrow> Inl ErrUnmatchedBracket
      | Some i \<Rightarrow>
          (let use_str = take i (drop 1 s) in
           if use_str = [] then Inr atm else parse_use_flags ul (split_byte CHR '','' use_str) atm))"

definition parse_atom :: "(nat \<Rightarrow> bool) \<Rightarrow> string \<Rightarrow> atom_error + atom" where
  "parse_atom ul s =
     (if s = [] then Inl ErrEmptyAtom
      else
        (let (s1, a1) = parse_blocker s empty_atom; (s2, a2) = parse_operator s1 a1 in
         case parse_cpv ul s2 a2 of
           Inl e \<Rightarrow> Inl e
         | Inr (s3, a3) \<Rightarrow>
             (case parse_slot_and_repo ul s3 a3 of
                Inl e \<Rightarrow> Inl e
              | Inr (s4, a4) \<Rightarrow>
                  (case parse_use_deps ul s4 a4 of
                     Inl e \<Rightarrow> Inl e
                   | Inr a5 \<Rightarrow>
                       if a_Version a5 \<noteq> [] \<and> a_Operator a5 = [] then Inl ErrVersionWithoutOp
                       else Inr a5))))"

subsection \<open>Printing and reading an atom\<close>

text \<open>\<open>Atom.String\<close>; the flags between the brackets carry a comma before all but the first.\<close>

definition use_items :: "atom \<Rightarrow> string list" where
  "use_items atm = a_UseRequire atm @ map ((#) CHR ''-'') (a_UseBlock atm) @ a_UseConditional atm"

definition atom_string :: "atom \<Rightarrow> string" where
  "atom_string atm =
     a_Blocker atm
     @ (if a_Operator atm = ''=*'' then ''='' else a_Operator atm)
     @ a_Category atm @ ''/'' @ a_Package atm
     @ (if a_Version atm \<noteq> []
        then ''-'' @ a_Version atm @ (if a_Operator atm = ''=*'' then ''*'' else []) else [])
     @ (if a_Slot atm \<noteq> []
        then '':'' @ a_Slot atm @ (if a_Subslot atm \<noteq> [] then ''/'' @ a_Subslot atm else []) else [])
     @ (if a_Repository atm \<noteq> [] then ''::'' @ a_Repository atm else [])
     @ (if 0 < length (a_UseRequire atm) \<or> 0 < length (a_UseBlock atm) \<or> 0 < length (a_UseConditional atm)
        then ''['' @ join '','' (use_items atm) @ '']'' else [])"

definition atom_cpv :: "atom \<Rightarrow> string" where
  "atom_cpv atm =
     (if a_Version atm = [] then a_Category atm @ ''/'' @ a_Package atm
      else a_Category atm @ ''/'' @ a_Package atm @ ''-'' @ a_Version atm)"

definition atom_cp :: "atom \<Rightarrow> string" where
  "atom_cp atm = a_Category atm @ ''/'' @ a_Package atm"

text \<open>The predicates on a possibly nil atom.\<close>

definition is_blocker :: "atom option \<Rightarrow> bool" where
  "is_blocker atm = (case atm of None \<Rightarrow> False | Some b \<Rightarrow> a_Blocker b \<noteq> [])"

definition is_strong_blocker :: "atom option \<Rightarrow> bool" where
  "is_strong_blocker atm = (case atm of None \<Rightarrow> False | Some b \<Rightarrow> a_Blocker b = ''!!'')"

definition is_weak_blocker :: "atom option \<Rightarrow> bool" where
  "is_weak_blocker atm = (case atm of None \<Rightarrow> False | Some b \<Rightarrow> a_Blocker b = ''!'')"

definition has_version :: "atom option \<Rightarrow> bool" where
  "has_version atm = (case atm of None \<Rightarrow> False | Some b \<Rightarrow> a_Version b \<noteq> [])"

definition has_slot :: "atom option \<Rightarrow> bool" where
  "has_slot atm = (case atm of None \<Rightarrow> False | Some b \<Rightarrow> a_Slot b \<noteq> [])"

definition has_repository :: "atom option \<Rightarrow> bool" where
  "has_repository atm = (case atm of None \<Rightarrow> False | Some b \<Rightarrow> a_Repository b \<noteq> [])"

subsection \<open>Matching versions\<close>

definition strip_numbered_revision :: "string \<Rightarrow> string" where
  "strip_numbered_revision v =
     (case last_index v ''-r'' of
        None \<Rightarrow> v
      | Some idx \<Rightarrow>
          (let sfx = drop (idx + 2) v in
           if list_all is_digit sfx \<and> 0 < length sfx then take idx v else v))"

definition matches_revision :: "string \<Rightarrow> string \<Rightarrow> bool" where
  "matches_revision v1 v2 \<longleftrightarrow> strip_numbered_revision v1 = strip_numbered_revision v2"

definition matches_version :: "coregex \<Rightarrow> atom \<Rightarrow> string \<Rightarrow> bool" where
  "matches_version rx atm v =
     (if a_Version atm = [] then True
      else if a_Operator atm = ''='' then v = a_Version atm
      else if a_Operator atm = ''=*'' then has_prefix v (a_Version atm)
      else if a_Operator atm = ''>'' then compare_version_strings rx v (a_Version atm) > 0
      else if a_Operator atm = ''>='' then compare_version_strings rx v (a_Version atm) \<ge> 0
      else if a_Operator atm = ''<'' then compare_version_strings rx v (a_Version atm) < 0
      else if a_Operator atm = ''<='' then compare_version_strings rx v (a_Version atm) \<le> 0
      else if a_Operator atm = ''~'' then matches_revision v (a_Version atm)
      else False)"

subsection \<open>From atoms to constraints\<close>

definition operator_of :: "string \<Rightarrow> version_operator" where
  "operator_of op =
     (if op = ''='' then OpEqual else if op = ''=*'' then OpEqualGlob
      else if op = ''~'' then OpRevisionMatch else if op = ''>'' then OpGreater
      else if op = ''>='' then OpGreaterEqual else if op = ''<'' then OpLess
      else if op = ''<='' then OpLessEqual else OpEqual)"

fun add_defaults :: "string list \<Rightarrow> (string \<rightharpoonup> bool) \<Rightarrow> (string \<rightharpoonup> bool)" where
  "add_defaults [] m = m"
| "add_defaults (e # es) m =
     add_defaults es
       (if has_suffix e ''(+)'' then m(trim_suffix e ''(+)'' \<mapsto> True)
        else if has_suffix e ''(-)'' then m(trim_suffix e ''(-)'' \<mapsto> False) else m)"

definition add_conditional :: "pkg_constraint \<Rightarrow> string \<Rightarrow> pkg_constraint" where
  "add_conditional c cond =
     (if has_suffix cond ''='' \<and> has_prefix cond ''!'' then
        c\<lparr>c_UseEqualInverse := c_UseEqualInverse c @ [trim_prefix (trim_suffix cond ''='') ''!'']\<rparr>
      else if has_suffix cond ''='' then c\<lparr>c_UseEqual := c_UseEqual c @ [trim_suffix cond ''='']\<rparr>
      else if has_suffix cond ''?'' \<and> has_prefix cond ''!'' then
        c\<lparr>c_UseConditionalUnless := c_UseConditionalUnless c @ [trim_prefix (trim_suffix cond ''?'') ''!'']\<rparr>
      else if has_suffix cond ''?'' then
        c\<lparr>c_UseConditionalIf := c_UseConditionalIf c @ [trim_suffix cond ''?'']\<rparr>
      else c)"

definition to_constraint :: "atom \<Rightarrow> pkg_constraint" where
  "to_constraint atm =
     foldl add_conditional
       (zero_constraint\<lparr>c_Type := ConstraintTypeVersion, c_Name := atom_cp atm,
          c_Version := (if a_Version atm \<noteq> []
            then Some (new_version_constraint (operator_of (a_Operator atm)) (a_Version atm)) else None),
          c_Slot := a_Slot atm, c_UseRequire := a_UseRequire atm, c_UseBlock := a_UseBlock atm,
          c_UseDefault := add_defaults (a_UseDefault atm) (\<lambda>_. None)\<rparr>)
       (a_UseConditional atm)"

subsection \<open>What the validators exclude\<close>

lemma valid_name_ascii:
  assumes "valid_name ul extra s" "a \<in> set s" "byte a < 128" "a \<notin> set extra"
  shows "is_alnum_rune ul (byte a)"
proof (cases s)
  case (Cons b t)
  show ?thesis
  proof (cases "a = b")
    case True
    with assms(1) Cons show ?thesis by (simp add: valid_name_def split: if_splits)
  next
    case False
    then have "byte a \<in> set (utf8_runes t)" using assms Cons ascii_byte_is_rune [of a t] by auto
    moreover have "byte a \<notin> byte ` set extra" using assms(4) byte_inj by auto
    ultimately show ?thesis
      using assms(1) Cons by (auto simp: valid_name_def list_all_iff split: if_splits)
  qed
qed (use assms in simp)

lemma valid_name_not_in:
  "valid_name ul extra s \<Longrightarrow> byte a < 128 \<Longrightarrow> a \<notin> set extra \<Longrightarrow> \<not> is_alnum_rune ul (byte a) \<Longrightarrow> a \<notin> set s"
  using valid_name_ascii by blast

lemma valid_name_nonempty: "valid_name ul extra s \<Longrightarrow> s \<noteq> [] \<and> is_alnum_rune ul (byte (hd s))"
  by (auto simp: valid_name_def split: if_splits)

lemmas valid_defs =
  is_valid_category_def is_valid_package_name_def is_valid_slot_def is_valid_repository_def
  is_valid_use_flag_def

text \<open>No separator of the atom syntax, and no path separator, occurs in a valid name.\<close>

lemma valid_chars:
  "is_valid_category ul s \<Longrightarrow> {CHR ''/'', CHR '':'', CHR ''['', CHR ''!'', CHR ''<'', CHR ''>'', CHR ''='', CHR ''~''} \<inter> set s = {}"
  "is_valid_package_name ul p \<Longrightarrow> {CHR ''/'', CHR ''.'', CHR '':'', CHR ''['', CHR ''*''} \<inter> set p = {}"
  "is_valid_slot ul t \<Longrightarrow> {CHR ''/'', CHR '':'', CHR ''['', CHR ''='', CHR ''*''} \<inter> set t = {}"
  "is_valid_repository ul r \<Longrightarrow> {CHR ''/'', CHR '':'', CHR ''[''} \<inter> set r = {}"
  "is_valid_use_flag ul f \<Longrightarrow> {CHR '','', CHR '']'', CHR ''!'', CHR ''?'', CHR ''='', CHR ''('', CHR '')''} \<inter> set f = {}"
  using valid_name_ascii by (fastforce simp: valid_defs is_alnum_rune_def)+

subsection \<open>The atoms the parser builds\<close>

definition atom_operators :: "string list" where
  "atom_operators = [''='', ''=*'', ''>'', ''>='', ''<'', ''<='', ''~'']"

definition version_shape :: "string \<Rightarrow> bool" where
  "version_shape v \<longleftrightarrow> v \<noteq> [] \<and> is_digit (hd v) \<and> split_dash v = None \<and> list_all (\<lambda>c. \<not> cpv_stop c) v"

definition conditional_shape :: "(nat \<Rightarrow> bool) \<Rightarrow> string \<Rightarrow> bool" where
  "conditional_shape ul s \<longleftrightarrow>
     is_valid_use_flag ul (trim_prefix (butlast s) ''!'') \<and> s \<noteq> [] \<and> last s \<in> {CHR ''='', CHR ''?''}"

definition wf_atom :: "(nat \<Rightarrow> bool) \<Rightarrow> atom \<Rightarrow> bool" where
  "wf_atom ul a \<longleftrightarrow>
     a_Blocker a \<in> {'''', ''!'', ''!!''} \<and>
     is_valid_category ul (a_Category a) \<and> is_valid_package_name ul (a_Package a) \<and>
     (if a_Operator a = [] then a_Version a = []
      else a_Operator a \<in> set atom_operators \<and> version_shape (a_Version a)) \<and>
     (a_Slot a \<in> {'''', ''*'', ''=''} \<or> is_valid_slot ul (a_Slot a)) \<and>
     (a_Repository a = [] \<or> is_valid_repository ul (a_Repository a)) \<and>
     (\<forall>f \<in> set (a_UseRequire a) \<union> set (a_UseBlock a). is_valid_use_flag ul f) \<and>
     (\<forall>f \<in> set (a_UseConditional a). conditional_shape ul f)"

lemma takeWhile_stop: "list_all Q x \<Longrightarrow> y = [] \<or> \<not> Q (hd y) \<Longrightarrow> takeWhile Q (x @ y) = x"
  by (induction x) (auto, cases y, auto)

lemma dropWhile_stop: "list_all Q x \<Longrightarrow> y = [] \<or> \<not> Q (hd y) \<Longrightarrow> dropWhile Q (x @ y) = y"
  by (induction x) (auto, cases y, auto)

lemma split_dash_SomeD:
  "split_dash s = Some (p, v) \<Longrightarrow> s = p @ CHR ''-'' # v \<and> v \<noteq> [] \<and> is_digit (hd v) \<and> split_dash v = None"
  by (induction s arbitrary: p) (auto split: option.splits if_splits)

lemma split_dash_append:
  "v \<noteq> [] \<Longrightarrow> is_digit (hd v) \<Longrightarrow> split_dash v = None \<Longrightarrow> split_dash (p @ CHR ''-'' # v) = Some (p, v)"
  by (induction p) auto

lemma split_dash_star: "split_dash v = None \<Longrightarrow> split_dash (v @ ''*'') = None"
proof (induction v)
  case (Cons a v)
  then show ?case by (cases v) (auto simp: is_digit_def split: option.splits if_splits)
qed simp

lemma split_dash_butlast: "split_dash (v @ [c]) = None \<Longrightarrow> split_dash v = None"
proof (induction v)
  case (Cons a v)
  then show ?case by (cases v) (auto split: option.splits if_splits)
qed simp

lemma parse_pkg_ver_wf:
  assumes "parse_pkg_ver pv a = Inr b" "list_all (\<lambda>c. \<not> cpv_stop c) pv"
    and "a_Operator a \<in> {'''', ''='', ''>'', ''>='', ''<'', ''<='', ''~''}" "a_Version a = []"
  shows "b = a\<lparr>a_Package := a_Package b, a_Operator := a_Operator b, a_Version := a_Version b\<rparr> \<and>
    (if a_Operator b = [] then a_Version b = []
     else a_Operator b \<in> set atom_operators \<and> version_shape (a_Version b))"
proof (cases "a_Operator a = []")
  case True
  with assms show ?thesis by (auto simp: parse_pkg_ver_def)
next
  case False
  obtain p v where pv: "split_package_version pv = (p, v)" by (cases "split_package_version pv")
  have v: "v \<noteq> []" "p \<noteq> []" using assms(1) False pv by (auto simp: parse_pkg_ver_def split: if_splits)
  with pv have "split_dash pv = Some (p, v)" by (auto simp: split_package_version_def split: option.splits)
  from split_dash_SomeD [OF this] assms(2) have sh: "version_shape v" by (auto simp: version_shape_def)
  show ?thesis
  proof (cases "has_suffix v ''*''")
    case True
    then obtain w where w: "v = w @ ''*''" by (auto simp: has_suffix_iff)
    with sh have "w \<noteq> []" by (cases w) (auto simp: version_shape_def is_digit_def)
    moreover from w sh have "split_dash w = None"
      by (auto simp: version_shape_def intro: split_dash_butlast)
    ultimately have "version_shape w" using w sh by (cases w) (auto simp: version_shape_def)
    with assms(1) False pv v True w show ?thesis
      by (auto simp: parse_pkg_ver_def atom_operators_def split: if_splits)
  next
    case no: False
    with assms False pv v sh show ?thesis
      by (auto simp: parse_pkg_ver_def atom_operators_def split: if_splits)
  qed
qed

lemma parse_cpv_wf:
  assumes "parse_cpv ul s a = Inr (r, b)"
    and "a_Operator a \<in> {'''', ''='', ''>'', ''>='', ''<'', ''<='', ''~''}" "a_Version a = []"
  shows "b = a\<lparr>a_Category := a_Category b, a_Package := a_Package b, a_Operator := a_Operator b,
      a_Version := a_Version b\<rparr> \<and>
    is_valid_category ul (a_Category b) \<and> is_valid_package_name ul (a_Package b) \<and>
    (if a_Operator b = [] then a_Version b = []
     else a_Operator b \<in> set atom_operators \<and> version_shape (a_Version b))"
proof -
  let ?cpv = "takeWhile (\<lambda>c. \<not> cpv_stop c) s"
  from assms(1) obtain i c where i: "index_byte ?cpv CHR ''/'' = Some i"
    and c: "is_valid_category ul (take i ?cpv)"
    and pv: "parse_pkg_ver (drop (i + 1) ?cpv) (a\<lparr>a_Category := take i ?cpv\<rparr>) = Inr b"
    and p: "is_valid_package_name ul (a_Package b)"
    by (auto simp: parse_cpv_def Let_def split: if_splits option.splits sum.splits)
  have "list_all (\<lambda>c. \<not> cpv_stop c) (drop (i + 1) ?cpv)"
    by (auto simp: list_all_iff dest!: in_set_dropD set_takeWhileD)
  from parse_pkg_ver_wf [OF pv this] assms(2,3)
  have b: "b = a\<lparr>a_Category := take i ?cpv, a_Package := a_Package b, a_Operator := a_Operator b,
      a_Version := a_Version b\<rparr>"
    and "if a_Operator b = [] then a_Version b = []
     else a_Operator b \<in> set atom_operators \<and> version_shape (a_Version b)" by auto
  moreover have "a_Category b = take i ?cpv" by (subst b) simp
  ultimately show ?thesis using c p by simp
qed

lemma parse_repository_wf:
  "parse_repository ul s a = Inr (r, b) \<Longrightarrow>
   b = a\<lparr>a_Repository := a_Repository b\<rparr> \<and> is_valid_repository ul (a_Repository b)"
  by (auto simp: parse_repository_def Let_def split: if_splits)

lemma set_slot_eq: "set_slot t a = a\<lparr>a_Slot := a_Slot (set_slot t a), a_Subslot := a_Subslot (set_slot t a)\<rparr>"
  by (simp add: set_slot_def split: option.split)

lemma parse_slot_and_repo_wf:
  assumes "parse_slot_and_repo ul s a = Inr (r, b)" "a_Slot a = []" "a_Repository a = []"
  shows "b = a\<lparr>a_Slot := a_Slot b, a_Subslot := a_Subslot b, a_Repository := a_Repository b\<rparr> \<and>
    (a_Slot b \<in> {'''', ''*'', ''=''} \<or> is_valid_slot ul (a_Slot b)) \<and>
    (a_Repository b = [] \<or> is_valid_repository ul (a_Repository b))"
proof -
  define t where
    "t = set_slot (strip_slot_operator (takeWhile (\<lambda>c. \<not> cpv_stop c) (drop 1 s))) a"
  have t: "t = a\<lparr>a_Slot := a_Slot t, a_Subslot := a_Subslot t\<rparr>"
    unfolding t_def by (rule set_slot_eq)
  let ?rest = "dropWhile (\<lambda>c. \<not> cpv_stop c) (drop 1 s)"
  have eq: "parse_slot_and_repo ul s a =
    (if \<not> has_prefix s '':'' then Inr (s, a)
     else if has_prefix (drop 1 s) '':'' then parse_repository ul (drop 1 (drop 1 s)) a
     else if \<not> (a_Slot t \<in> {'''', ''*'', ''=''} \<or> is_valid_slot ul (a_Slot t))
     then Inl (ErrInvalidSlot (a_Slot t))
     else if has_prefix ?rest ''::'' then parse_repository ul (drop 2 ?rest) t else Inr (?rest, t))"
    by (simp add: parse_slot_and_repo_def Let_def t_def del: drop_drop)
  consider
    "r = s" "b = a"
  | q where "parse_repository ul q a = Inr (r, b)"
  | q where "a_Slot t \<in> {'''', ''*'', ''=''} \<or> is_valid_slot ul (a_Slot t)" "parse_repository ul q t = Inr (r, b)"
  | "a_Slot t \<in> {'''', ''*'', ''=''} \<or> is_valid_slot ul (a_Slot t)" "b = t"
    using assms(1) unfolding eq
    by (cases "has_prefix s '':''"; cases "has_prefix (drop 1 s) '':''"; cases "has_prefix ?rest ''::''";
        cases "a_Slot t \<in> {'''', ''*'', ''=''} \<or> is_valid_slot ul (a_Slot t)") (simp_all del: insert_iff)
  then show ?thesis
  proof cases
    case 1
    with assms show ?thesis by simp
  next
    case 2
    from parse_repository_wf [OF 2] have b: "b = a\<lparr>a_Repository := a_Repository b\<rparr>"
      and v: "is_valid_repository ul (a_Repository b)" by auto
    have "a_Slot b = []" "a_Subslot b = a_Subslot a" by (subst b, use assms(2) in simp)+
    with b v assms(2) show ?thesis by (cases a; cases b) simp
  next
    case 3
    from parse_repository_wf [OF 3(2)] have b: "b = t\<lparr>a_Repository := a_Repository b\<rparr>"
      and v: "is_valid_repository ul (a_Repository b)" by auto
    have "a_Slot b = a_Slot t" "a_Subslot b = a_Subslot t" by (subst b, simp)+
    moreover from t have "t\<lparr>a_Repository := x\<rparr> =
      a\<lparr>a_Slot := a_Slot t, a_Subslot := a_Subslot t, a_Repository := x\<rparr>" for x by metis
    ultimately show ?thesis using b v 3(1) by metis
  next
    case 4
    have "a_Repository t = []" by (subst t) (simp add: assms(3))
    moreover from this t have "t = a\<lparr>a_Slot := a_Slot t, a_Subslot := a_Subslot t, a_Repository := a_Repository t\<rparr>"
      using assms(3) by (metis atom.surjective atom.update_convs(8))
    ultimately show ?thesis using 4 by simp
  qed
qed

definition use_lists_ok :: "(nat \<Rightarrow> bool) \<Rightarrow> atom \<Rightarrow> bool" where
  "use_lists_ok ul a \<longleftrightarrow>
     (\<forall>f \<in> set (a_UseRequire a) \<union> set (a_UseBlock a). is_valid_use_flag ul f) \<and>
     (\<forall>f \<in> set (a_UseConditional a). conditional_shape ul f)"

lemma valid_flag_shape:
  assumes "is_valid_use_flag ul f"
  shows "\<not> has_prefix f ''!''" "\<not> has_prefix f ''-''" "\<not> has_suffix f ''=''" "\<not> has_suffix f ''?''"
    "\<not> has_suffix f ''(+)''" "\<not> has_suffix f ''(-)''" "tight f"
proof -
  have n: "{CHR ''!'', CHR ''='', CHR ''?'', CHR '')''} \<inter> set f = {}" using valid_chars(5) [OF assms] by auto
  then show "\<not> has_prefix f ''!''" "\<not> has_suffix f ''=''" "\<not> has_suffix f ''?''"
    "\<not> has_suffix f ''(+)''" "\<not> has_suffix f ''(-)''"
    by (auto simp: has_prefix_iff has_suffix_iff)
  have f: "f \<noteq> []" "is_alnum_rune ul (byte (hd f))"
    using assms valid_name_nonempty by (auto simp: is_valid_use_flag_def)
  then show "\<not> has_prefix f ''-''" by (auto simp: has_prefix_iff is_alnum_rune_def)
  have "\<not> is_space c" if "c \<in> set f" for c
  proof
    assume s: "is_space c"
    then have "byte c < 128" and ns: "\<not> is_alnum_rune ul (byte c)" by (auto simp: is_space_def is_alnum_rune_def)
    moreover have "c \<notin> set ''+_@-''" using s by (auto simp: is_space_def)
    ultimately show False using valid_name_ascii [of ul "''+_@-''" f c] assms that by (simp add: is_valid_use_flag_def)
  qed
  with f(1) show "tight f" by (simp add: tight_def)
qed

lemma conditional_shape_marks:
  assumes "is_valid_use_flag ul f"
  shows "conditional_shape ul (f @ ''='')" "conditional_shape ul (f @ ''?'')"
    "conditional_shape ul (''!'' @ f @ ''='')" "conditional_shape ul (''!'' @ f @ ''?'')"
  using assms valid_flag_shape(1) [OF assms]
  by (auto simp: conditional_shape_def butlast_append)

lemma parse_use_flag_wf:
  assumes "parse_use_flag ul f a = Inr b" "use_lists_ok ul a"
  shows "b = a\<lparr>a_UseRequire := a_UseRequire b, a_UseBlock := a_UseBlock b,
      a_UseConditional := a_UseConditional b, a_UseDefault := a_UseDefault b\<rparr> \<and> use_lists_ok ul b"
proof (cases "trim_space f = []")
  case True
  with assms show ?thesis by (simp add: parse_use_flag_def)
next
  case False
  obtain d c e n g where p: "use_flag_parts (trim_space f) = (d, c, e, n, g)"
    by (cases "use_flag_parts (trim_space f)")
  with assms(1) False have "is_valid_use_flag ul g" by (auto simp: parse_use_flag_def split: if_splits)
  with assms False p conditional_shape_marks [OF this] show ?thesis
    by (auto simp: parse_use_flag_def use_lists_ok_def Let_def split: if_splits)
qed

lemma parse_use_flags_wf:
  "parse_use_flags ul fs a = Inr b \<Longrightarrow> use_lists_ok ul a \<Longrightarrow>
   b = a\<lparr>a_UseRequire := a_UseRequire b, a_UseBlock := a_UseBlock b,
      a_UseConditional := a_UseConditional b, a_UseDefault := a_UseDefault b\<rparr> \<and> use_lists_ok ul b"
proof (induction fs arbitrary: a)
  case (Cons f fs)
  then obtain c where c: "parse_use_flag ul f a = Inr c" "parse_use_flags ul fs c = Inr b"
    by (auto split: sum.splits)
  from parse_use_flag_wf [OF c(1) Cons.prems(2)] have
    ca: "c = a\<lparr>a_UseRequire := a_UseRequire c, a_UseBlock := a_UseBlock c,
      a_UseConditional := a_UseConditional c, a_UseDefault := a_UseDefault c\<rparr>" and ok: "use_lists_ok ul c"
    by auto
  from Cons.IH [OF c(2) ok] have
    b: "b = c\<lparr>a_UseRequire := a_UseRequire b, a_UseBlock := a_UseBlock b,
      a_UseConditional := a_UseConditional b, a_UseDefault := a_UseDefault b\<rparr>" and "use_lists_ok ul b"
    by auto
  moreover have "c\<lparr>a_UseRequire := x, a_UseBlock := y, a_UseConditional := z, a_UseDefault := w\<rparr> =
    a\<lparr>a_UseRequire := x, a_UseBlock := y, a_UseConditional := z, a_UseDefault := w\<rparr>" for x y z w
    by (subst ca) simp
  ultimately show ?case by metis
qed simp

lemma parse_use_deps_wf:
  assumes "parse_use_deps ul s a = Inr b" "use_lists_ok ul a"
  shows "b = a\<lparr>a_UseRequire := a_UseRequire b, a_UseBlock := a_UseBlock b,
      a_UseConditional := a_UseConditional b, a_UseDefault := a_UseDefault b\<rparr> \<and> use_lists_ok ul b"
  using assms parse_use_flags_wf [OF _ assms(2)]
  by (auto simp: parse_use_deps_def Let_def split: if_splits option.splits)

lemma parse_blocker_wf:
  "snd (parse_blocker s a) = a\<lparr>a_Blocker := a_Blocker (snd (parse_blocker s a))\<rparr> \<and>
   (a_Blocker a = [] \<longrightarrow> a_Blocker (snd (parse_blocker s a)) \<in> {'''', ''!'', ''!!''})"
  by (auto simp: parse_blocker_def)

lemma parse_operator_wf:
  "snd (parse_operator s a) = a\<lparr>a_Operator := a_Operator (snd (parse_operator s a))\<rparr> \<and>
   (a_Operator a = [] \<longrightarrow>
    a_Operator (snd (parse_operator s a)) \<in> {'''', ''='', ''>'', ''>='', ''<'', ''<='', ''~''})"
  by (auto simp: parse_operator_def)

lemma parse_atom_steps:
  assumes "parse_atom ul s = Inr a"
  obtains bl op r1 a3 r2 a4 where
    "bl \<in> {'''', ''!'', ''!!''}" "op \<in> {'''', ''='', ''>'', ''>='', ''<'', ''<='', ''~''}"
    "parse_cpv ul (fst (parse_operator (fst (parse_blocker s empty_atom)) (empty_atom\<lparr>a_Blocker := bl\<rparr>)))
       (empty_atom\<lparr>a_Blocker := bl, a_Operator := op\<rparr>) = Inr (r1, a3)"
    "parse_slot_and_repo ul r1 a3 = Inr (r2, a4)" "parse_use_deps ul r2 a4 = Inr a"
proof -
  obtain s1 a1 where 1: "parse_blocker s empty_atom = (s1, a1)" by (cases "parse_blocker s empty_atom")
  obtain s2 a2 where 2: "parse_operator s1 a1 = (s2, a2)" by (cases "parse_operator s1 a1")
  have a1: "a1 = empty_atom\<lparr>a_Blocker := a_Blocker a1\<rparr>" "a_Blocker a1 \<in> {'''', ''!'', ''!!''}"
    using parse_blocker_wf [of s empty_atom] 1 by (simp_all add: empty_atom_def)
  have "a_Operator a1 = []" by (subst a1(1)) (simp add: empty_atom_def)
  then have a2: "a2 = a1\<lparr>a_Operator := a_Operator a2\<rparr>"
    "a_Operator a2 \<in> {'''', ''='', ''>'', ''>='', ''<'', ''<='', ''~''}"
    using parse_operator_wf [of s1 a1] 2 by simp_all
  from assms 1 2 obtain r1 a3 r2 a4 where
    "parse_cpv ul s2 a2 = Inr (r1, a3)" "parse_slot_and_repo ul r1 a3 = Inr (r2, a4)"
    "parse_use_deps ul r2 a4 = Inr a"
    by (auto simp: parse_atom_def Let_def split: if_splits sum.splits prod.splits)
  moreover have "a2 = empty_atom\<lparr>a_Blocker := a_Blocker a1, a_Operator := a_Operator a2\<rparr>"
    using a1(1) a2(1) by metis
  moreover have "s2 = fst (parse_operator (fst (parse_blocker s empty_atom)) (empty_atom\<lparr>a_Blocker := a_Blocker a1\<rparr>))"
    using 1 2 a1(1) by simp
  ultimately show ?thesis using that [of "a_Blocker a1" "a_Operator a2"] a1(2) a2(2) by metis
qed

lemma parse_atom_is_wf:
  assumes "parse_atom ul s = Inr a"
  shows "wf_atom ul a"
proof -
  obtain bl op s2 r1 a3 r2 a4 where
    bl: "bl \<in> {'''', ''!'', ''!!''}" and op: "op \<in> {'''', ''='', ''>'', ''>='', ''<'', ''<='', ''~''}"
    and 3: "parse_cpv ul s2 (empty_atom\<lparr>a_Blocker := bl, a_Operator := op\<rparr>) = Inr (r1, a3)"
    and 4: "parse_slot_and_repo ul r1 a3 = Inr (r2, a4)" and 5: "parse_use_deps ul r2 a4 = Inr a"
    by (rule parse_atom_steps [OF assms]) blast
  from parse_cpv_wf [OF 3] op
  have a3: "a3 = empty_atom\<lparr>a_Blocker := bl, a_Category := a_Category a3, a_Package := a_Package a3,
      a_Operator := a_Operator a3, a_Version := a_Version a3\<rparr>"
    and cpv: "is_valid_category ul (a_Category a3)" "is_valid_package_name ul (a_Package a3)"
    "if a_Operator a3 = [] then a_Version a3 = []
     else a_Operator a3 \<in> set atom_operators \<and> version_shape (a_Version a3)"
    by (simp_all add: empty_atom_def)
  have e3: "a_Blocker a3 = bl" "a_Slot a3 = []" "a_Repository a3 = []" "a_UseRequire a3 = []"
    "a_UseBlock a3 = []" "a_UseConditional a3 = []"
    by (subst a3, simp add: empty_atom_def)+
  note w4 = parse_slot_and_repo_wf [OF 4 e3(2,3)]
  then have a4: "a4 = a3\<lparr>a_Slot := a_Slot a4, a_Subslot := a_Subslot a4, a_Repository := a_Repository a4\<rparr>" by simp
  have e4: "a_Blocker a4 = bl" "a_Category a4 = a_Category a3" "a_Package a4 = a_Package a3"
    "a_Operator a4 = a_Operator a3" "a_Version a4 = a_Version a3" "a_UseRequire a4 = []"
    "a_UseBlock a4 = []" "a_UseConditional a4 = []"
    by (subst a4, simp add: e3)+
  have "use_lists_ok ul a4" using e4 by (simp add: use_lists_ok_def)
  from parse_use_deps_wf [OF 5 this] have
    a: "a = a4\<lparr>a_UseRequire := a_UseRequire a, a_UseBlock := a_UseBlock a,
      a_UseConditional := a_UseConditional a, a_UseDefault := a_UseDefault a\<rparr>" and ok: "use_lists_ok ul a"
    by simp_all
  have e: "a_Blocker a = bl" "a_Category a = a_Category a3" "a_Package a = a_Package a3"
    "a_Operator a = a_Operator a3" "a_Version a = a_Version a3" "a_Slot a = a_Slot a4"
    "a_Repository a = a_Repository a4"
    by (subst a, simp add: e4)+
  show ?thesis using bl cpv w4 ok by (auto simp: wf_atom_def e use_lists_ok_def)
qed

subsection \<open>Parsing what was printed\<close>

definition plain_conditional :: "(nat \<Rightarrow> bool) \<Rightarrow> string \<Rightarrow> bool" where
  "plain_conditional ul s \<longleftrightarrow>
     (\<exists>f. is_valid_use_flag ul f \<and> s \<in> {f @ ''='', f @ ''?'', ''!'' @ f @ ''='', ''!'' @ f @ ''?''})"

definition printable_atom :: "(nat \<Rightarrow> bool) \<Rightarrow> atom \<Rightarrow> bool" where
  "printable_atom ul a \<longleftrightarrow>
     wf_atom ul a \<and>
     (a_Operator a \<noteq> ''=*'' \<longrightarrow> \<not> has_suffix (a_Version a) ''*'') \<and>
     list_all (\<lambda>c. \<not> cpv_stop c) (a_Subslot a) \<and> \<not> has_suffix (a_Subslot a) ''='' \<and>
     (a_Slot a = [] \<longrightarrow> a_Subslot a = []) \<and> a_UseDefault a = [] \<and>
     (\<forall>s \<in> set (a_UseConditional a). plain_conditional ul s)"

lemma parse_use_flag_require:
  "is_valid_use_flag ul f \<Longrightarrow> parse_use_flag ul f a = Inr (a\<lparr>a_UseRequire := a_UseRequire a @ [f]\<rparr>)"
  using valid_flag_shape [of ul f] trim_space_tight [of f]
  by (auto simp: parse_use_flag_def use_flag_parts_def Let_def tight_def)

lemma tight_marked:
  assumes "tight f"
  shows "tight (''-'' @ f)" "tight (f @ ''='')" "tight (f @ ''?'')" "tight (''!'' @ f @ ''='')"
    "tight (''!'' @ f @ ''?'')"
  using assms by (auto simp: tight_def is_space_def)

lemma has_suffix3_single: "has_suffix (s @ [a]) [x, y, b] \<Longrightarrow> a = b"
  by (auto simp: has_suffix_iff)

lemma not_default_suffix:
  "a \<noteq> CHR '')'' \<Longrightarrow> \<not> has_suffix (s @ [a]) ''(+)'' \<and> \<not> has_suffix (s @ [a]) ''(-)''"
  using has_suffix3_single by blast

lemma parse_use_flag_block:
  assumes "is_valid_use_flag ul f"
  shows "parse_use_flag ul (CHR ''-'' # f) a = Inr (a\<lparr>a_UseBlock := a_UseBlock a @ [f]\<rparr>)"
proof -
  have "f \<noteq> []" using valid_flag_shape(7) [OF assms] by (simp add: tight_def)
  then have "\<not> has_suffix (CHR ''-'' # f) p" if "\<not> has_suffix f p" "hd p \<noteq> CHR ''-''" "p \<noteq> []" for p
    using that by (auto simp: has_suffix_iff Cons_eq_append_conv)
  then show ?thesis
    using assms valid_flag_shape [OF assms] tight_marked(1) [OF valid_flag_shape(7) [OF assms]]
      trim_space_tight [of "CHR ''-'' # f"]
    by (simp add: parse_use_flag_def use_flag_parts_def Let_def trim_prefix_def)
qed

lemma parse_use_flag_conditional:
  assumes "plain_conditional ul s"
  shows "parse_use_flag ul s a = Inr (a\<lparr>a_UseConditional := a_UseConditional a @ [s]\<rparr>)"
proof -
  obtain f where f: "is_valid_use_flag ul f"
    and s: "s \<in> {f @ ''='', f @ ''?'', ''!'' @ f @ ''='', ''!'' @ f @ ''?''}"
    using assms by (auto simp: plain_conditional_def)
  note sh = valid_flag_shape [OF f]
  have ne: "f \<noteq> []" using sh(7) by (simp add: tight_def)
  have t: "trim_space s = s" using s tight_marked [OF sh(7)] trim_space_tight by auto
  have sn: "s \<noteq> []" using s by auto
  have p: "use_flag_parts (f @ ''='') = ([], False, True, False, f)"
    "use_flag_parts (f @ ''?'') = ([], True, False, False, f)"
    using sh not_default_suffix [of _ f] by (simp_all add: use_flag_parts_def)
  have "\<not> has_suffix (CHR ''!'' # f) ''=''" "\<not> has_suffix (CHR ''!'' # f) ''?''"
    using sh(3,4) ne by (auto simp: has_suffix_single)
  then have q: "use_flag_parts (CHR ''!'' # f @ ''='') = ([], False, True, True, f)"
    "use_flag_parts (CHR ''!'' # f @ ''?'') = ([], True, False, True, f)"
    using sh not_default_suffix [of _ "CHR ''!'' # f"] has_suffix_snoc [of "CHR ''!'' # f"]
      trim_suffix_append [of "CHR ''!'' # f"]
    by (simp_all add: use_flag_parts_def trim_prefix_def)
  from s p q t sn f show ?thesis by (auto simp: parse_use_flag_def)
qed

lemma parse_use_flags_append:
  "parse_use_flags ul (xs @ ys) a =
   (case parse_use_flags ul xs a of Inl e \<Rightarrow> Inl e | Inr b \<Rightarrow> parse_use_flags ul ys b)"
  by (induction xs arbitrary: a) (auto split: sum.splits)

lemma parse_use_flags_require:
  "\<forall>f \<in> set fs. is_valid_use_flag ul f \<Longrightarrow>
   parse_use_flags ul fs a = Inr (a\<lparr>a_UseRequire := a_UseRequire a @ fs\<rparr>)"
  by (induction fs arbitrary: a) (simp_all add: parse_use_flag_require)

lemma parse_use_flags_block:
  "\<forall>f \<in> set fs. is_valid_use_flag ul f \<Longrightarrow>
   parse_use_flags ul (map ((#) CHR ''-'') fs) a = Inr (a\<lparr>a_UseBlock := a_UseBlock a @ fs\<rparr>)"
  by (induction fs arbitrary: a) (simp_all add: parse_use_flag_block)

lemma parse_use_flags_conditional:
  "\<forall>f \<in> set fs. plain_conditional ul f \<Longrightarrow>
   parse_use_flags ul fs a = Inr (a\<lparr>a_UseConditional := a_UseConditional a @ fs\<rparr>)"
  by (induction fs arbitrary: a) (simp_all add: parse_use_flag_conditional)

text \<open>The use list in brackets, after anything that follows the closing bracket.\<close>

definition use_text :: "atom \<Rightarrow> string" where
  "use_text atm = (if use_items atm = [] then [] else ''['' @ join '','' (use_items atm) @ '']'')"

lemma use_items_chars:
  assumes "printable_atom ul a" "x \<in> set (use_items a)"
  shows "x \<noteq> [] \<and> CHR '','' \<notin> set x \<and> CHR '']'' \<notin> set x"
proof -
  have v: "CHR '','' \<notin> set f \<and> CHR '']'' \<notin> set f \<and> f \<noteq> []" if "is_valid_use_flag ul f" for f
    using valid_chars(5) [OF that] valid_flag_shape(7) [OF that] by (auto simp: tight_def)
  from assms consider f where "is_valid_use_flag ul f" "x \<in> {f, CHR ''-'' # f}"
    | "plain_conditional ul x"
    by (auto simp: printable_atom_def wf_atom_def use_items_def)
  then show ?thesis
  proof cases
    case 1
    with v [OF 1(1)] show ?thesis by auto
  next
    case 2
    then obtain f where "is_valid_use_flag ul f" "x \<in> {f @ ''='', f @ ''?'', ''!'' @ f @ ''='', ''!'' @ f @ ''?''}"
      by (auto simp: plain_conditional_def)
    with v [of f] show ?thesis by auto
  qed
qed

lemma join_no_char: "c \<notin> set sep \<Longrightarrow> \<forall>x \<in> set xs. c \<notin> set x \<Longrightarrow> c \<notin> set (join sep xs)"
  by (induction sep xs rule: join.induct) auto

lemma join_nonempty: "xs \<noteq> [] \<Longrightarrow> \<forall>x \<in> set xs. x \<noteq> [] \<Longrightarrow> join sep xs \<noteq> []"
  by (cases xs; cases "tl xs") auto

lemma parse_use_deps_text:
  assumes "printable_atom ul a" "a_UseRequire b = []" "a_UseBlock b = []" "a_UseConditional b = []"
  shows "parse_use_deps ul (use_text a) b =
    Inr (b\<lparr>a_UseRequire := a_UseRequire a, a_UseBlock := a_UseBlock a, a_UseConditional := a_UseConditional a\<rparr>)"
proof (cases "use_items a = []")
  case True
  then have "a_UseRequire a = []" "a_UseBlock a = []" "a_UseConditional a = []"
    by (simp_all add: use_items_def)
  with assms True show ?thesis by (simp add: use_text_def parse_use_deps_def)
next
  case False
  let ?j = "join '','' (use_items a)"
  note ch = use_items_chars [OF assms(1)]
  have j: "CHR '']'' \<notin> set ?j" using ch by (intro join_no_char) auto
  have ne: "?j \<noteq> []" using False ch by (intro join_nonempty) auto
  have "parse_use_deps ul (use_text a) b = parse_use_flags ul (split_byte CHR '','' ?j) b"
    using False ne index_byte_append [OF j, of "[]"] by (simp add: use_text_def parse_use_deps_def)
  also have "split_byte CHR '','' ?j = use_items a"
    using False ch by (intro split_byte_join) auto
  also have "parse_use_flags ul (use_items a) b =
    Inr (b\<lparr>a_UseRequire := a_UseRequire a, a_UseBlock := a_UseBlock a, a_UseConditional := a_UseConditional a\<rparr>)"
    using assms
    by (simp add: use_items_def parse_use_flags_append parse_use_flags_require parse_use_flags_block
        parse_use_flags_conditional printable_atom_def wf_atom_def)
  finally show ?thesis .
qed

definition repo_text :: "atom \<Rightarrow> string" where
  "repo_text atm = (if a_Repository atm \<noteq> [] then ''::'' @ a_Repository atm else [])"

definition slot_text :: "atom \<Rightarrow> string" where
  "slot_text atm = (if a_Slot atm \<noteq> []
     then '':'' @ a_Slot atm @ (if a_Subslot atm \<noteq> [] then ''/'' @ a_Subslot atm else []) else [])"

definition opens_use :: "string \<Rightarrow> bool" where
  "opens_use u \<longleftrightarrow> u = [] \<or> hd u = CHR ''[''"

lemma parse_repository_text:
  assumes "is_valid_repository ul r" "opens_use u"
  shows "parse_repository ul (r @ u) b = Inr (u, b\<lparr>a_Repository := r\<rparr>)"
proof -
  have r: "list_all (\<lambda>c. c \<noteq> CHR ''['') r" using valid_chars(4) [OF assms(1)] by (auto simp: list_all_iff)
  have u: "u = [] \<or> \<not> (hd u \<noteq> CHR ''['')" using assms(2) by (simp add: opens_use_def)
  have "r \<noteq> []" using assms(1) by (auto simp: is_valid_repository_def valid_name_def)
  with assms(1) show ?thesis
    by (simp add: parse_repository_def takeWhile_stop [OF r u] dropWhile_stop [OF r u])
qed

lemma parse_slot_and_repo_Cons:
  assumes "list_all (\<lambda>c. \<not> cpv_stop c) t" "v = [] \<or> \<not> \<not> cpv_stop (hd v)" "t \<noteq> []"
    and "set_slot (strip_slot_operator t) b = b'"
    and "a_Slot b' = [] \<or> a_Slot b' = ''*'' \<or> a_Slot b' = ''='' \<or> is_valid_slot ul (a_Slot b')"
  shows "parse_slot_and_repo ul (CHR '':'' # t @ v) b =
    (if has_prefix v ''::'' then parse_repository ul (drop 2 v) b' else Inr (v, b'))"
proof -
  have "\<not> has_prefix (t @ v) '':''" using assms(1,3) by (cases t) (auto simp: cpv_stop_def)
  with assms(4,5) show ?thesis
    by (auto simp: parse_slot_and_repo_def takeWhile_stop [OF assms(1,2)] dropWhile_stop [OF assms(1,2)])
qed

lemma parse_slot_text:
  assumes "printable_atom ul a" "opens_use u" "a_Slot b = []" "a_Subslot b = []" "a_Repository b = []"
  shows "parse_slot_and_repo ul (slot_text a @ repo_text a @ u) b =
    Inr (u, b\<lparr>a_Slot := a_Slot a, a_Subslot := a_Subslot a, a_Repository := a_Repository a\<rparr>)"
proof (cases "a_Slot a = []")
  case True
  then have s: "a_Subslot a = []" using assms(1) by (simp add: printable_atom_def)
  have nc: "\<not> has_prefix u '':''" using assms(2) by (cases u) (auto simp: opens_use_def)
  have "b\<lparr>a_Slot := [], a_Subslot := [], a_Repository := x\<rparr> = b\<lparr>a_Repository := x\<rparr>" for x
    using assms(3,4) by (cases b) simp
  moreover have "b\<lparr>a_Repository := []\<rparr> = b" using assms(5) by (cases b) simp
  moreover have "is_valid_repository ul (a_Repository a)" if "a_Repository a \<noteq> []"
    using assms(1) that by (simp add: printable_atom_def wf_atom_def)
  ultimately show ?thesis
    using True s nc parse_repository_text [OF _ assms(2), of ul "a_Repository a" b]
    by (cases "a_Repository a = []") (simp_all add: slot_text_def repo_text_def parse_slot_and_repo_def)
next
  case False
  let ?t = "a_Slot a @ (if a_Subslot a \<noteq> [] then ''/'' @ a_Subslot a else [])"
  let ?v = "repo_text a @ u"
  have slot: "a_Slot a \<in> {''*'', ''=''} \<or> is_valid_slot ul (a_Slot a)"
    using assms(1) False by (simp add: printable_atom_def wf_atom_def)
  then have nslash: "CHR ''/'' \<notin> set (a_Slot a)" and nstop: "list_all (\<lambda>c. \<not> cpv_stop c) (a_Slot a)"
    using valid_chars(3) by (auto simp: list_all_iff cpv_stop_def)
  have t: "list_all (\<lambda>c. \<not> cpv_stop c) ?t"
    using nstop assms(1) by (auto simp: printable_atom_def cpv_stop_def)
  have v: "?v = [] \<or> \<not> \<not> cpv_stop (hd ?v)"
    using assms(2) by (cases u) (auto simp: repo_text_def cpv_stop_def opens_use_def)
  have noeq: "\<not> has_suffix (a_Slot a) ''='' \<or> a_Slot a = ''=''"
    using slot valid_chars(3) [of ul "a_Slot a"] by (auto simp: has_suffix_iff)
  then have strip: "strip_slot_operator ?t = ?t"
    using assms(1) False by (auto simp: strip_slot_operator_def printable_atom_def has_suffix_single)
  have set: "set_slot ?t b = b\<lparr>a_Slot := a_Slot a, a_Subslot := a_Subslot a\<rparr>"
    using index_byte_append [OF nslash] index_byte_None [THEN iffD2, OF nslash] assms(4)
    by (cases b) (auto simp: set_slot_def simp del: index_byte_None)
  have ok: "a_Slot a = [] \<or> a_Slot a = ''*'' \<or> a_Slot a = ''='' \<or> is_valid_slot ul (a_Slot a)" using slot by auto
  let ?b = "b\<lparr>a_Slot := a_Slot a, a_Subslot := a_Subslot a\<rparr>"
  have "slot_text a = CHR '':'' # ?t" using False by (simp add: slot_text_def)
  then have eq: "parse_slot_and_repo ul (slot_text a @ ?v) b =
    (if has_prefix ?v ''::'' then parse_repository ul (drop 2 ?v) ?b else Inr (?v, ?b))"
    using parse_slot_and_repo_Cons [OF t v, of b ?b ul] False ok strip set by simp
  show ?thesis
  proof (cases "a_Repository a = []")
    case True
    then have "\<not> has_prefix ?v ''::''" using assms(2) by (cases u) (auto simp: repo_text_def opens_use_def)
    with True eq assms(5) show ?thesis by (cases b) (simp add: repo_text_def)
  next
    case rep: False
    then have "is_valid_repository ul (a_Repository a)" using assms(1) by (simp add: printable_atom_def wf_atom_def)
    from parse_repository_text [OF this assms(2)] rep eq show ?thesis by (simp add: repo_text_def)
  qed
qed

definition version_text_of :: "atom \<Rightarrow> string" where
  "version_text_of atm = (if a_Version atm \<noteq> []
     then ''-'' @ a_Version atm @ (if a_Operator atm = ''=*'' then ''*'' else []) else [])"

definition shown_operator :: "atom \<Rightarrow> string" where
  "shown_operator atm = (if a_Operator atm = ''=*'' then ''='' else a_Operator atm)"

lemma atom_string_parts:
  "atom_string a = a_Blocker a @ shown_operator a @ a_Category a @ ''/'' @ a_Package a @
     version_text_of a @ slot_text a @ repo_text a @ use_text a"
  by (simp add: atom_string_def shown_operator_def version_text_of_def slot_text_def repo_text_def
      use_text_def use_items_def)

lemma parse_pkg_ver_text:
  assumes "printable_atom ul a" "a_Operator b = shown_operator a" "a_Version b = []"
  shows "parse_pkg_ver (a_Package a @ version_text_of a) b =
    Inr (b\<lparr>a_Package := a_Package a, a_Operator := a_Operator a, a_Version := a_Version a\<rparr>)"
proof (cases "a_Operator a = []")
  case True
  then have "a_Version a = []" using assms(1) by (simp add: printable_atom_def wf_atom_def)
  with True assms(2,3) show ?thesis
    by (cases b) (simp add: parse_pkg_ver_def version_text_of_def shown_operator_def)
next
  case False
  have sh: "version_shape (a_Version a)" using assms(1) False by (simp add: printable_atom_def wf_atom_def)
  then have v: "a_Version a \<noteq> []" "is_digit (hd (a_Version a))" "split_dash (a_Version a) = None"
    by (simp_all add: version_shape_def)
  have p: "a_Package a \<noteq> []"
    using assms(1) valid_name_nonempty by (auto simp: printable_atom_def wf_atom_def is_valid_package_name_def)
  show ?thesis
  proof (cases "a_Operator a = ''=*''")
    case True
    have "split_package_version (a_Package a @ version_text_of a) = (a_Package a, a_Version a @ ''*'')"
      using split_dash_append [OF _ _ split_dash_star [OF v(3)], of "a_Package a"] v True
      by (simp add: split_package_version_def version_text_of_def)
    with True p v assms(2) show ?thesis by (simp add: parse_pkg_ver_def shown_operator_def)
  next
    case nostar: False
    have "split_package_version (a_Package a @ version_text_of a) = (a_Package a, a_Version a)"
      using split_dash_append [OF v, of "a_Package a"] v nostar
      by (simp add: split_package_version_def version_text_of_def)
    moreover have "\<not> has_suffix (a_Version a) ''*''" using assms(1) nostar by (simp add: printable_atom_def)
    ultimately show ?thesis using nostar p v assms(2) False
      by (cases b) (simp add: parse_pkg_ver_def shown_operator_def)
  qed
qed

lemma parse_cpv_text:
  assumes "printable_atom ul a" "a_Operator b = shown_operator a" "a_Version b = []"
    and "w = [] \<or> \<not> \<not> cpv_stop (hd w)"
  shows "parse_cpv ul (a_Category a @ ''/'' @ a_Package a @ version_text_of a @ w) b =
    Inr (w, b\<lparr>a_Category := a_Category a, a_Package := a_Package a, a_Operator := a_Operator a,
      a_Version := a_Version a\<rparr>)"
proof -
  let ?pv = "a_Package a @ version_text_of a" and ?x = "a_Category a @ ''/'' @ a_Package a @ version_text_of a"
  have wf: "is_valid_category ul (a_Category a)" "is_valid_package_name ul (a_Package a)"
    using assms(1) by (simp_all add: printable_atom_def wf_atom_def)
  have ns: "CHR ''/'' \<notin> set (a_Category a)" using valid_chars(1) [OF wf(1)] by auto
  have ne: "a_Category a \<noteq> []" "a_Package a \<noteq> []"
    using wf valid_name_nonempty by (auto simp: is_valid_category_def is_valid_package_name_def)
  have "list_all (\<lambda>c. \<not> cpv_stop c) (version_text_of a)"
    using assms(1) by (auto simp: version_text_of_def cpv_stop_def printable_atom_def wf_atom_def
        version_shape_def split: if_splits)
  then have x: "list_all (\<lambda>c. \<not> cpv_stop c) ?x"
    using valid_chars(1) [OF wf(1)] valid_chars(2) [OF wf(2)] by (auto simp: list_all_iff cpv_stop_def)
  have tw: "takeWhile (\<lambda>c. \<not> cpv_stop c) (?x @ w) = ?x" and dw: "dropWhile (\<lambda>c. \<not> cpv_stop c) (?x @ w) = w"
    by (rule takeWhile_stop [OF x assms(4)], rule dropWhile_stop [OF x assms(4)])
  have pv: "parse_pkg_ver ?pv (b\<lparr>a_Category := a_Category a\<rparr>) =
    Inr (b\<lparr>a_Category := a_Category a, a_Package := a_Package a, a_Operator := a_Operator a,
      a_Version := a_Version a\<rparr>)"
    using parse_pkg_ver_text [OF assms(1), of "b\<lparr>a_Category := a_Category a\<rparr>"] assms(2,3) by simp
  have "parse_cpv ul (?x @ w) b = Inr (w, b\<lparr>a_Category := a_Category a, a_Package := a_Package a,
      a_Operator := a_Operator a, a_Version := a_Version a\<rparr>)"
    unfolding parse_cpv_def Let_def tw dw
    using index_byte_append [OF ns, of ?pv] ne wf pv by simp
  then show ?thesis by simp
qed

lemma parse_operator_text:
  assumes "op \<in> {'''', ''='', ''>'', ''>='', ''<'', ''<='', ''~''}" "a_Operator b = []"
    and "s \<noteq> []" "hd s \<notin> {CHR ''='', CHR ''<'', CHR ''>'', CHR ''~''}"
  shows "parse_operator (op @ s) b = (s, b\<lparr>a_Operator := op\<rparr>)"
proof -
  obtain c t where s: "s = c # t" using assms(3) by (cases s) auto
  have b: "b\<lparr>a_Operator := []\<rparr> = b" using assms(2) by (cases b) simp
  from assms(1) have "op = '''' \<or> op = ''='' \<or> op = ''>'' \<or> op = ''>='' \<or> op = ''<'' \<or> op = ''<='' \<or> op = ''~''"
    by simp
  then show ?thesis using assms(4) b by (elim disjE) (simp_all add: parse_operator_def s)
qed

lemma parse_blocker_text:
  assumes "bl \<in> {'''', ''!'', ''!!''}" "a_Blocker b = []" "s \<noteq> []" "hd s \<noteq> CHR ''!''"
  shows "parse_blocker (bl @ s) b = (s, b\<lparr>a_Blocker := bl\<rparr>)"
  using assms by (cases s; cases b) (auto simp: parse_blocker_def)

lemma opens_use_text: "opens_use (use_text a)"
  by (simp add: opens_use_def use_text_def)

lemma parse_atom_string:
  assumes "printable_atom ul a"
  shows "parse_atom ul (atom_string a) = Inr a"
proof -
  let ?w = "slot_text a @ repo_text a @ use_text a"
  let ?cpv = "a_Category a @ ''/'' @ a_Package a @ version_text_of a @ ?w"
  have cat: "is_valid_category ul (a_Category a)" using assms by (simp add: printable_atom_def wf_atom_def)
  have op: "shown_operator a \<in> {'''', ''='', ''>'', ''>='', ''<'', ''<='', ''~''}"
    using assms by (auto simp: printable_atom_def wf_atom_def atom_operators_def shown_operator_def split: if_splits)
  have bl: "a_Blocker a \<in> {'''', ''!'', ''!!''}" using assms by (simp add: printable_atom_def wf_atom_def)
  obtain c t where ct: "a_Category a = c # t"
    using cat valid_name_nonempty by (cases "a_Category a") (auto simp: is_valid_category_def)
  have hd: "hd ?cpv \<notin> {CHR ''='', CHR ''<'', CHR ''>'', CHR ''~'', CHR ''!''}"
    using valid_chars(1) [OF cat] by (auto simp: ct)
  have hd2: "hd (shown_operator a @ ?cpv) \<noteq> CHR ''!''"
    using op valid_chars(1) [OF cat] by (auto simp: ct)
  let ?a1 = "empty_atom\<lparr>a_Blocker := a_Blocker a\<rparr>"
  let ?a2 = "?a1\<lparr>a_Operator := shown_operator a\<rparr>"
  have 1: "parse_blocker (atom_string a) empty_atom = (shown_operator a @ ?cpv, ?a1)"
    unfolding atom_string_parts
    by (rule parse_blocker_text [OF bl]) (use hd2 ct in \<open>simp_all add: empty_atom_def\<close>)
  have 2: "parse_operator (shown_operator a @ ?cpv) ?a1 = (?cpv, ?a2)"
    by (rule parse_operator_text [OF op]) (use hd ct in \<open>simp_all add: empty_atom_def\<close>)
  have w: "?w = [] \<or> \<not> \<not> cpv_stop (hd ?w)"
    by (auto simp: slot_text_def repo_text_def use_text_def cpv_stop_def)
  let ?a3 = "?a2\<lparr>a_Category := a_Category a, a_Package := a_Package a, a_Operator := a_Operator a,
      a_Version := a_Version a\<rparr>"
  have 3: "parse_cpv ul ?cpv ?a2 = Inr (?w, ?a3)"
    by (rule parse_cpv_text [OF assms _ _ w]) (simp_all add: empty_atom_def)
  let ?a4 = "?a3\<lparr>a_Slot := a_Slot a, a_Subslot := a_Subslot a, a_Repository := a_Repository a\<rparr>"
  have 4: "parse_slot_and_repo ul ?w ?a3 = Inr (use_text a, ?a4)"
    by (rule parse_slot_text [OF assms opens_use_text]) (simp_all add: empty_atom_def)
  let ?a5 = "?a4\<lparr>a_UseRequire := a_UseRequire a, a_UseBlock := a_UseBlock a,
      a_UseConditional := a_UseConditional a\<rparr>"
  have 5: "parse_use_deps ul (use_text a) ?a4 = Inr ?a5"
    by (rule parse_use_deps_text [OF assms]) (simp_all add: empty_atom_def)
  have a5: "?a5 = a" using assms by (cases a) (simp add: empty_atom_def printable_atom_def)
  have ne: "atom_string a \<noteq> []" by (simp add: atom_string_parts)
  have v: "\<not> (a_Version a \<noteq> [] \<and> a_Operator a = [])"
    using assms by (auto simp: printable_atom_def wf_atom_def split: if_splits)
  show ?thesis
    unfolding parse_atom_def Let_def 1 prod.case 2 3 sum.case 4 5 a5 using ne v by (simp only: if_False)
qed

subsection \<open>The constraint of an atom\<close>

lemma add_conditional_keeps [simp]:
  "c_Version (add_conditional c x) = c_Version c" "c_Name (add_conditional c x) = c_Name c"
  "c_Slot (add_conditional c x) = c_Slot c" "c_Type (add_conditional c x) = c_Type c"
  by (simp_all add: add_conditional_def)

lemma fold_conditional_keeps [simp]:
  "c_Version (foldl add_conditional c xs) = c_Version c" "c_Name (foldl add_conditional c xs) = c_Name c"
  "c_Slot (foldl add_conditional c xs) = c_Slot c" "c_Type (foldl add_conditional c xs) = c_Type c"
  by (induction xs arbitrary: c) simp_all

lemma to_constraint_fields [simp]:
  "c_Name (to_constraint a) = atom_cp a" "c_Slot (to_constraint a) = a_Slot a"
  "c_Type (to_constraint a) = ConstraintTypeVersion"
  "c_Version (to_constraint a) =
     (if a_Version a = [] then None
      else Some (new_version_constraint (operator_of (a_Operator a)) (a_Version a)))"
  by (simp_all add: to_constraint_def)

lemma strip_same: "\<not> has_suffix v ''-r'' \<Longrightarrow> strip_numbered_revision v = strip_revision v"
proof (cases "last_index v ''-r''")
  case (Some i)
  assume n: "\<not> has_suffix v ''-r''"
  from last_index_SomeD [OF Some] obtain t where t: "drop i v = ''-r'' @ t" by (auto simp: has_prefix_iff)
  then have "drop (i + 2) v = t" by (metis add.commute append_eq_conv_conj drop_drop length_Cons list.size(3)
    numeral_2_eq_2)
  moreover have "t \<noteq> []"
  proof
    assume "t = []"
    with t have "v = take i v @ ''-r''" by (metis append_Nil2 append_take_drop_id)
    with n show False by (metis has_suffix_append)
  qed
  ultimately show ?thesis by (simp add: strip_numbered_revision_def strip_revision_def Some)
qed (simp add: strip_numbered_revision_def strip_revision_def)

subsection \<open>Properties\<close>


definition sample_atom :: atom where
  "sample_atom = \<lparr>a_Blocker = ''!!'', a_Operator = ''=*'', a_Category = ''dev-libs'', a_Package = ''gtk+-2x'',
     a_Version = ''1.2-r3'', a_Slot = ''0'', a_Subslot = ''1.1'', a_Repository = ''gentoo'',
     a_UseRequire = [''ssl''], a_UseBlock = [''debug''],
     a_UseConditional = [''doc?'', ''!x=''], a_UseDefault = []\<rparr>"

lemma sample_conditional: "plain_conditional ul ''doc?''" "plain_conditional ul ''!x=''"
proof -
  have "is_valid_use_flag ul ''doc''" "is_valid_use_flag ul ''x''"
    by (simp_all add: is_valid_use_flag_def valid_name_def is_alnum_rune_def)
  then show "plain_conditional ul ''doc?''" "plain_conditional ul ''!x=''"
    unfolding plain_conditional_def by (metis append.simps insertCI)+
qed

lemma sample_printable: "printable_atom (\<lambda>_. False) sample_atom"
proof -
  have "wf_atom (\<lambda>_. False) sample_atom" by code_simp
  then show ?thesis
    by (simp add: printable_atom_def sample_atom_def sample_conditional cpv_stop_def has_suffix_def)
qed


text \<open>
  Claim C19: whatever string is parsed, an atom that comes out is well formed: operator and version
  come together, version, slot, repository and USE flags have their shapes, and the category and
  package names are safe as path elements: no slash, no leading dot in the category, no dot in the
  package, so neither is \<open>..\<close>.
\<close>

theorem parse_atom_sound:
  assumes "parse_atom ul s = Inr a"
  shows "wf_atom ul a \<and>
    CHR ''/'' \<notin> set (a_Category a) \<and> a_Category a \<noteq> [] \<and> hd (a_Category a) \<noteq> CHR ''.'' \<and>
    CHR ''/'' \<notin> set (a_Package a) \<and> CHR ''.'' \<notin> set (a_Package a) \<and> a_Package a \<noteq> []"
proof -
  have wf: "wf_atom ul a" by (rule parse_atom_is_wf [OF assms])
  then have c: "is_valid_category ul (a_Category a)" and p: "is_valid_package_name ul (a_Package a)"
    by (simp_all add: wf_atom_def)
  have "a_Category a \<noteq> [] \<and> is_alnum_rune ul (byte (hd (a_Category a)))"
    using c valid_name_nonempty by (simp add: is_valid_category_def)
  moreover have "a_Package a \<noteq> []" using p valid_name_nonempty by (simp add: is_valid_package_name_def)
  ultimately show ?thesis
    using wf valid_chars(1) [OF c] valid_chars(2) [OF p] by (auto simp: is_alnum_rune_def)
qed

theorem parse_atom_sound_witness:
  "CHR ''/'' \<notin> set (a_Category sample_atom) \<and> wf_atom (\<lambda>_. False) sample_atom"
proof -
  have "atom_string sample_atom = ''!!=dev-libs/gtk+-2x-1.2-r3*:0/1.1::gentoo[ssl,-debug,doc?,!x=]''"
    by code_simp
  then have "parse_atom (\<lambda>_. False) ''!!=dev-libs/gtk+-2x-1.2-r3*:0/1.1::gentoo[ssl,-debug,doc?,!x=]'' = Inr sample_atom"
    using parse_atom_string [OF sample_printable] by simp
  from parse_atom_sound [OF this] show ?thesis by simp
qed

text \<open>
  The version of an atom is not validated: it may hold slashes and dots, although the category and
  package name may not. Text after the closing bracket of the USE list is ignored.
\<close>

theorem parse_atom_version_unchecked:
  "map_sum id (\<lambda>a. (a_Package a, a_Version a)) (parse_atom (\<lambda>_. False) ''=a/b-1/../../c'') =
     Inr (''b'', ''1/../../c'') \<and>
   parse_atom (\<lambda>_. False) ''a/b[ssl]tail]'' = parse_atom (\<lambda>_. False) ''a/b[ssl]''"
  by code_simp

text \<open>
  the constraint an atom turns into accepts the same versions as the atom itself, for the
  six operators other than \<open>=*\<close> and versions without a dangling \<open>-r\<close>; for \<open>=*\<close> the constraint accepts
  only versions the atom accepts, and misses those that continue the last component.
\<close>

theorem to_constraint_same_versions:
  assumes "a_Version a = [] \<or> a_Operator a \<in> set atom_operators"
    and "\<not> has_suffix v ''-r''" and "\<not> has_suffix (a_Version a) ''-r''"
  shows "(a_Operator a \<noteq> ''=*'' \<longrightarrow>
      satisfies rx (c_Version (to_constraint a)) v = matches_version rx a v) \<and>
    (a_Operator a = ''=*'' \<and> a_Version a \<noteq> [] \<longrightarrow>
      (satisfies rx (c_Version (to_constraint a)) v \<longleftrightarrow>
       matches_version rx a v \<and> glob_sep (drop (length (a_Version a)) v)))"
proof (cases "a_Version a = []")
  case True
  then show ?thesis by (simp add: satisfies_def matches_version_def)
next
  case False
  with assms(1) consider "a_Operator a = ''=*''" | "a_Operator a = ''~''"
    | "a_Operator a \<in> {''='', ''>'', ''>='', ''<'', ''<=''}"
    by (auto simp: atom_operators_def)
  then show ?thesis
  proof cases
    case 1
    with False show ?thesis
      by (auto simp: satisfies_def matches_version_def operator_of_def new_version_constraint_def
          glob_match_iff has_prefix_iff)
  next
    case 2
    with False strip_same assms(2,3) show ?thesis
      by (simp add: satisfies_def matches_version_def operator_of_def new_version_constraint_def
          matches_revision_def)
  next
    case 3
    with False show ?thesis
      by (auto simp: satisfies_def matches_version_def operator_of_def new_version_constraint_def)
  qed
qed

theorem to_constraint_same_versions_witness:
  "matches_version ref_coregex (sample_atom\<lparr>a_Version := ''1.2''\<rparr>) ''1.25'' \<and>
   \<not> satisfies ref_coregex (c_Version (to_constraint (sample_atom\<lparr>a_Version := ''1.2''\<rparr>))) ''1.25''"
proof -
  have "matches_version ref_coregex (sample_atom\<lparr>a_Version := ''1.2''\<rparr>) ''1.25''" by code_simp
  moreover have "\<not> glob_sep (drop (length ''1.2'') ''1.25'')" by code_simp
  moreover have "\<not> has_suffix ''1.25'' ''-r''" "\<not> has_suffix ''1.2'' ''-r''" by code_simp+
  ultimately show ?thesis
    using to_constraint_same_versions [of "sample_atom\<lparr>a_Version := ''1.2''\<rparr>" "''1.25''" ref_coregex]
    by (simp add: sample_atom_def atom_operators_def)
qed

end
