(* ===== verification/Packages.thy ===== *)
theory Packages
  imports Atoms
begin

section \<open>Packages and slots\<close>

text \<open>
  \<open>internal/pkg/package.go\<close>, the domain service \<open>internal/pkg/dependency_service.go\<close> and
  \<open>Atom.Matches\<close> of \<open>atom.go\<close>. A \<open>*Package\<close> is the record \<open>package\<close>; the methods that change a
  package through the pointer return the changed record. The recursion \<open>collectDependencies\<close> of the
  service follows whatever a loader returns, so it may not end: it takes fuel, and
  \<open>dependency_tree_complete\<close> shows how much is enough when the loader knows finitely many names.
\<close>

subsection \<open>Slots\<close>

record slot =
  sl_Name :: string
  sl_Subslot :: string
  sl_SubslotRebuild :: bool

definition new_slot :: "string \<Rightarrow> string \<Rightarrow> slot" where
  "new_slot name sub = \<lparr>sl_Name = name, sl_Subslot = sub, sl_SubslotRebuild = False\<rparr>"

definition slot_string :: "slot \<Rightarrow> string" where
  "slot_string s = (if sl_Subslot s \<noteq> [] then sl_Name s @ ''/'' @ sl_Subslot s else sl_Name s)"

definition slot_equals :: "slot \<Rightarrow> slot \<Rightarrow> bool" where
  "slot_equals s t \<longleftrightarrow> sl_Name s = sl_Name t \<and> sl_Subslot s = sl_Subslot t"

definition slot_compatible :: "slot \<Rightarrow> slot \<Rightarrow> bool" where
  "slot_compatible s t =
     (if sl_Name s \<noteq> sl_Name t then True
      else if sl_Subslot s = [] \<or> sl_Subslot t = [] then True
      else sl_Subslot s = sl_Subslot t)"

definition parse_slot :: "string \<Rightarrow> slot" where
  "parse_slot s =
     (if s = ''='' then \<lparr>sl_Name = [], sl_Subslot = [], sl_SubslotRebuild = True\<rparr>
      else
        (let parts = split_byte CHR ''/'' s in
         if 1 < length parts
         then \<lparr>sl_Name = parts ! 0, sl_Subslot = parts ! 1, sl_SubslotRebuild = False\<rparr>
         else \<lparr>sl_Name = s, sl_Subslot = [], sl_SubslotRebuild = False\<rparr>))"

subsection \<open>Packages\<close>

record blocker_entry =
  be_Atom :: "atom option"
  be_IsStrong :: bool

record package =
  p_Name :: string
  p_Version :: string
  p_Slot :: slot
  p_UseFlags :: "string \<rightharpoonup> bool"
  p_Keywords :: "string list"
  p_Deps :: "pkg_constraint list"
  p_Provides :: "pkg_constraint list"
  p_Blockers :: "blocker_entry list"

record slot_key =
  sk_Name :: string
  sk_Slot :: string

definition slot_key_of :: "package \<Rightarrow> slot_key" where
  "slot_key_of p = \<lparr>sk_Name = p_Name p, sk_Slot = sl_Name (p_Slot p)\<rparr>"

definition new_package :: "string \<Rightarrow> string \<Rightarrow> string \<Rightarrow> package" where
  "new_package name v slot_str = \<lparr>p_Name = name, p_Version = v, p_Slot = parse_slot slot_str,
     p_UseFlags = (\<lambda>_. None), p_Keywords = [], p_Deps = [], p_Provides = [], p_Blockers = []\<rparr>"

definition has_keyword :: "package \<Rightarrow> string \<Rightarrow> bool" where
  "has_keyword p kw \<longleftrightarrow> list_ex (\<lambda>k. k = kw) (p_Keywords p)"

definition is_keyworded :: "package \<Rightarrow> bool" where
  "is_keyworded p \<longleftrightarrow> 0 < length (p_Keywords p)"

definition has_stable_keyword :: "package \<Rightarrow> string \<Rightarrow> bool" where
  "has_stable_keyword p arch = has_keyword p arch"

definition has_testing_keyword :: "package \<Rightarrow> string \<Rightarrow> bool" where
  "has_testing_keyword p arch = has_keyword p (''~'' @ arch)"

definition is_keyword_accepted :: "package \<Rightarrow> string list \<Rightarrow> bool" where
  "is_keyword_accepted p accept =
     (if \<not> is_keyworded p then list_ex (\<lambda>ak. ak = ''**'') accept
      else list_ex (\<lambda>kw.
             if has_prefix kw ''-'' then False
             else list_ex (\<lambda>ak. (ak = ''*'' \<or> ak = ''**'') \<or> (ak = ''~*'' \<and> has_prefix kw ''~'') \<or> kw = ak) accept)
           (p_Keywords p))"

definition pkg_id :: "package \<Rightarrow> string" where
  "pkg_id p = p_Name p @ ''-'' @ p_Version p"

definition full_name :: "package \<Rightarrow> string" where
  "full_name p = p_Name p @ ''-'' @ p_Version p"

definition pkg_add_dependency :: "pkg_constraint \<Rightarrow> package \<Rightarrow> package" where
  "pkg_add_dependency c p = p\<lparr>p_Deps := p_Deps p @ [c]\<rparr>"

definition add_blocker :: "atom option \<Rightarrow> bool \<Rightarrow> package \<Rightarrow> package" where
  "add_blocker atm strong p = p\<lparr>p_Blockers := p_Blockers p @ [\<lparr>be_Atom = atm, be_IsStrong = strong\<rparr>]\<rparr>"

definition conflicts_with :: "package \<Rightarrow> package \<Rightarrow> bool" where
  "conflicts_with p q =
     (if p_Name p = p_Name q then False
      else sl_Name (p_Slot p) = sl_Name (p_Slot q) \<and> sl_Subslot (p_Slot p) \<noteq> sl_Subslot (p_Slot q))"

definition satisfies_constraint :: "coregex \<Rightarrow> package \<Rightarrow> pkg_constraint \<Rightarrow> bool" where
  "satisfies_constraint rx p c =
     (if c_Name c \<noteq> p_Name p then False
      else case c_Version c of
        Some vc \<Rightarrow> satisfies rx (Some vc) (p_Version p)
      | None \<Rightarrow>
          if c_Type c = ConstraintTypeSlot \<and> c_Slot c \<noteq> [] then sl_Name (p_Slot p) = c_Slot c
          else True)"

definition is_compatible_with :: "package \<Rightarrow> package \<Rightarrow> bool" where
  "is_compatible_with p q =
     (if p_Name p = p_Name q then slot_compatible (p_Slot p) (p_Slot q) else \<not> conflicts_with p q)"

definition has_dependency :: "package \<Rightarrow> string \<Rightarrow> bool" where
  "has_dependency p name \<longleftrightarrow> list_ex (\<lambda>d. c_Name d = name) (p_Deps p)"

definition get_dependencies_by_type :: "package \<Rightarrow> constraint_type \<Rightarrow> pkg_constraint list" where
  "get_dependencies_by_type p t = filter (\<lambda>d. c_Type d = t) (p_Deps p)"

subsection \<open>Atoms against packages\<close>

definition atom_matches :: "coregex \<Rightarrow> atom option \<Rightarrow> package option \<Rightarrow> bool" where
  "atom_matches rx atm pk =
     (case (atm, pk) of
        (Some b, Some p) \<Rightarrow>
          (case splitn2_byte CHR ''/'' (p_Name p) of
             [cat, name] \<Rightarrow>
               if a_Category b \<noteq> cat \<or> a_Package b \<noteq> name then False
               else if a_Version b \<noteq> [] \<and> \<not> matches_version rx b (p_Version p) then False
               else if a_Slot b \<noteq> [] \<and> a_Slot b \<noteq> ''*'' \<and> a_Slot b \<noteq> ''='' \<and>
                       sl_Name (p_Slot p) \<noteq> a_Slot b then False
               else if a_Subslot b \<noteq> [] \<and> sl_Subslot (p_Slot p) \<noteq> a_Subslot b then False
               else True
           | _ \<Rightarrow> False)
      | _ \<Rightarrow> False)"

subsection \<open>The dependency service\<close>

text \<open>
  \<open>collectDependencies\<close>: a package under its name once, then the packages its dependencies load to,
  in order; a dependency that does not load is skipped. The map of the source is the association
  from names to packages; \<open>None\<close> means the fuel ran out.
\<close>

fun collect_dependencies ::
  "nat \<Rightarrow> (string \<Rightarrow> package option) \<Rightarrow> package list \<Rightarrow> (string \<rightharpoonup> package) \<Rightarrow> (string \<rightharpoonup> package) option"
where
  "collect_dependencies 0 loader ps m = (if ps = [] then Some m else None)"
| "collect_dependencies (Suc n) loader [] m = Some m"
| "collect_dependencies (Suc n) loader (p # ps) m =
     (if m (p_Name p) \<noteq> None then collect_dependencies n loader ps m
      else case collect_dependencies n loader
                  (List.map_filter (\<lambda>d. loader (c_Name d)) (p_Deps p)) (m(p_Name p \<mapsto> p)) of
        None \<Rightarrow> None
      | Some m' \<Rightarrow> collect_dependencies n loader ps m')"

definition resolve_dependency_tree ::
  "nat \<Rightarrow> (string \<Rightarrow> package option) \<Rightarrow> package \<Rightarrow> (string \<rightharpoonup> package) option" where
  "resolve_dependency_tree n loader root = collect_dependencies n loader [root] (\<lambda>_. None)"

fun find_conflicts :: "package list \<Rightarrow> (package \<times> package) list" where
  "find_conflicts [] = []"
| "find_conflicts (p # ps) = map (Pair p) (filter (conflicts_with p) ps) @ find_conflicts ps"

definition filter_by_constraint :: "coregex \<Rightarrow> package list \<Rightarrow> pkg_constraint \<Rightarrow> package list" where
  "filter_by_constraint rx ps c = filter (\<lambda>p. satisfies_constraint rx p c) ps"

subsection \<open>The dependency tree is the reachable part\<close>

definition loads_to :: "(string \<Rightarrow> package option) \<Rightarrow> package \<Rightarrow> package \<Rightarrow> bool" where
  "loads_to loader p q \<longleftrightarrow> (\<exists>d \<in> set (p_Deps p). loader (c_Name d) = Some q)"

abbreviation loaded_deps :: "(string \<Rightarrow> package option) \<Rightarrow> package \<Rightarrow> package list" where
  "loaded_deps loader p \<equiv> List.map_filter (\<lambda>d. loader (c_Name d)) (p_Deps p)"

lemma set_loaded_deps: "q \<in> set (loaded_deps loader p) \<longleftrightarrow> loads_to loader p q"
  by (auto simp: map_filter_def loads_to_def) force

lemma collect_mono:
  "collect_dependencies n loader ps m = Some r \<Longrightarrow> collect_dependencies (n + k) loader ps m = Some r"
proof (induction n loader ps m arbitrary: r rule: collect_dependencies.induct)
  case (1 loader ps m)
  then have "ps = []" "r = m" by (auto split: if_splits)
  then show ?case by (cases k) simp_all
next
  case (3 n loader p ps m)
  show ?case
  proof (cases "m (p_Name p) = None")
    case True
    with "3.prems" obtain m' where
      1: "collect_dependencies n loader (loaded_deps loader p) (m(p_Name p \<mapsto> p)) = Some m'" and
      2: "collect_dependencies n loader ps m' = Some r"
      by (auto split: option.splits)
    show ?thesis using "3.IH"(2) [OF _ 1] "3.IH"(3) [OF _ 1 2] True by (simp del: fun_upd_apply)
  qed (use 3 in simp)
qed auto

lemma collect_extends:
  "collect_dependencies n loader ps m = Some r \<Longrightarrow> m \<subseteq>\<^sub>m r \<and> (\<forall>p \<in> set ps. r (p_Name p) \<noteq> None)"
proof (induction n loader ps m arbitrary: r rule: collect_dependencies.induct)
  case (3 n loader p ps m)
  show ?case
  proof (cases "m (p_Name p) = None")
    case False
    with 3 have "m \<subseteq>\<^sub>m r \<and> (\<forall>p \<in> set ps. r (p_Name p) \<noteq> None)" by simp
    then show ?thesis using False by (auto simp: map_le_def dom_def)
  next
    case True
    with "3.prems" obtain m' where
      1: "collect_dependencies n loader (loaded_deps loader p) (m(p_Name p \<mapsto> p)) = Some m'" and
      2: "collect_dependencies n loader ps m' = Some r"
      by (auto split: option.splits)
    have a: "m(p_Name p \<mapsto> p) \<subseteq>\<^sub>m m'" using "3.IH"(2) [OF _ 1] True by (simp del: fun_upd_apply)
    have b: "m' \<subseteq>\<^sub>m r \<and> (\<forall>p \<in> set ps. r (p_Name p) \<noteq> None)" using "3.IH"(3) [OF _ 1 2] True by simp
    have "m \<subseteq>\<^sub>m m(p_Name p \<mapsto> p)" using True by (auto simp: map_le_def)
    then have "m \<subseteq>\<^sub>m r" using a b map_le_trans by blast
    moreover have "r (p_Name p) = Some p"
      using a b by (metis domI fun_upd_same map_le_def)
    ultimately show ?thesis using b by auto
  qed
qed (auto split: if_splits)

lemma collect_new:
  "collect_dependencies n loader ps m = Some r \<Longrightarrow> r k = Some p \<Longrightarrow> m k = None \<Longrightarrow>
   p_Name p = k \<and> (\<exists>q \<in> set ps. (loads_to loader)\<^sup>*\<^sup>* q p) \<and>
   (\<forall>q. loads_to loader p q \<longrightarrow> r (p_Name q) \<noteq> None)"
proof (induction n loader ps m arbitrary: r rule: collect_dependencies.induct)
  case (3 n loader x ps m)
  show ?case
  proof (cases "m (p_Name x) = None")
    case False
    with 3 show ?thesis by auto
  next
    case True
    with "3.prems"(1) obtain m' where
      1: "collect_dependencies n loader (loaded_deps loader x) (m(p_Name x \<mapsto> x)) = Some m'" and
      2: "collect_dependencies n loader ps m' = Some r"
      by (auto split: option.splits)
    have le: "m' \<subseteq>\<^sub>m r" using collect_extends [OF 2] by simp
    show ?thesis
    proof (cases "m' k")
      case None
      then show ?thesis using "3.IH"(3) [OF _ 1 2] True "3.prems"(2) by auto
    next
      case (Some p')
      with le "3.prems"(2) have p': "p' = p" by (metis domI map_le_def option.inject)
      have up: "r (p_Name q) \<noteq> None" if "m' (p_Name q) \<noteq> None" for q
        using le that by (metis domIff map_le_def)
      show ?thesis
      proof (cases "k = p_Name x")
        case kx: True
        have "m(p_Name x \<mapsto> x) \<subseteq>\<^sub>m m'" using collect_extends [OF 1] by simp
        then have "m' (p_Name x) = Some x" by (metis domI fun_upd_same map_le_def)
        then have px: "p = x" using Some kx p' by simp
        have "\<forall>q. loads_to loader x q \<longrightarrow> m' (p_Name q) \<noteq> None"
          using collect_extends [OF 1] set_loaded_deps by blast
        then show ?thesis using px kx up by auto
      next
        case kx: False
        then have "p_Name p = k \<and> (\<exists>q \<in> set (loaded_deps loader x). (loads_to loader)\<^sup>*\<^sup>* q p) \<and>
            (\<forall>q. loads_to loader p q \<longrightarrow> m' (p_Name q) \<noteq> None)"
          using "3.IH"(2) [OF _ 1] True Some p' "3.prems"(3) by simp
        then show ?thesis
          using up set_loaded_deps converse_rtranclp_into_rtranclp [of "loads_to loader" x] by fastforce
      qed
    qed
  qed
qed (auto split: if_splits)

lemma collect_terminates:
  assumes "finite U" "\<And>x q. loader x = Some q \<Longrightarrow> p_Name q \<in> U"
  shows "\<forall>p \<in> set ps. p_Name p \<in> U \<Longrightarrow> \<exists>n r. collect_dependencies n loader ps m = Some r"
proof (induction "card (U - dom m)" arbitrary: m ps rule: less_induct)
  case less
  then show ?case
  proof (induction ps)
    case Nil
    have "collect_dependencies 0 loader [] m = Some m" by simp
    then show ?case by blast
  next
    case (Cons p ps)
    show ?case
    proof (cases "m (p_Name p) = None")
      case False
      from Cons obtain n r where "collect_dependencies n loader ps m = Some r" by auto
      with False have "collect_dependencies (Suc n) loader (p # ps) m = Some r" by simp
      then show ?thesis by blast
    next
      case True
      let ?m = "m(p_Name p \<mapsto> p)"
      have smaller: "card (U - dom m') < card (U - dom m)" if "p_Name p \<in> dom m'" "dom m \<subseteq> dom m'"
        for m' :: "string \<rightharpoonup> package"
        using that True Cons.prems assms(1) by (intro psubset_card_mono) auto
      have "\<forall>q \<in> set (loaded_deps loader p). p_Name q \<in> U"
        using assms(2) by (auto simp: set_loaded_deps loads_to_def)
      with Cons.prems(1) smaller [of ?m] obtain n1 m1 where
        1: "collect_dependencies n1 loader (loaded_deps loader p) ?m = Some m1" by fastforce
      then have "?m \<subseteq>\<^sub>m m1" using collect_extends by blast
      then have "dom ?m \<subseteq> dom m1" by (rule map_le_implies_dom_le)
      then have "p_Name p \<in> dom m1" "dom m \<subseteq> dom m1" by auto
      from smaller [OF this] Cons.prems obtain n2 r where
        2: "collect_dependencies n2 loader ps m1 = Some r" by fastforce
      have "collect_dependencies (Suc (n1 + n2)) loader (p # ps) m = Some r"
        using True collect_mono [OF 1, of n2] collect_mono [OF 2, of n1] by (simp add: add.commute)
      then show ?thesis by blast
    qed
  qed
qed

lemma tree_reachable:
  assumes "collect_dependencies n loader [root] (\<lambda>_. None) = Some r"
    and named: "\<And>x q. loader x = Some q \<Longrightarrow> p_Name q = x"
    and root: "loader (p_Name root) = Some root \<or> loader (p_Name root) = None"
  shows "r k = Some p \<longleftrightarrow> (loads_to loader)\<^sup>*\<^sup>* root p \<and> p_Name p = k"
proof
  assume "r k = Some p"
  then show "(loads_to loader)\<^sup>*\<^sup>* root p \<and> p_Name p = k" using collect_new [OF assms(1)] by auto
next
  assume p: "(loads_to loader)\<^sup>*\<^sup>* root p \<and> p_Name p = k"
  have name: "loader (p_Name q) = Some q \<or> q = root" if "(loads_to loader)\<^sup>*\<^sup>* root q" for q
    using that
  proof (cases rule: rtranclp.cases)
    case (rtrancl_into_rtrancl b)
    then obtain x where "loader x = Some q" by (auto simp: loads_to_def)
    with named show ?thesis by metis
  qed simp
  have same: "q = q'" if "(loads_to loader)\<^sup>*\<^sup>* root q" "(loads_to loader)\<^sup>*\<^sup>* root q'" "p_Name q = p_Name q'" for q q'
    using name [OF that(1)] name [OF that(2)] that(3) root by (metis option.distinct(1) option.inject)
  have "r (p_Name p) \<noteq> None" using p [THEN conjunct1]
  proof (induction rule: rtranclp_induct)
    case base
    then show ?case using collect_extends [OF assms(1)] by simp
  next
    case (step q p)
    then obtain q' where q': "r (p_Name q) = Some q'" by auto
    from collect_new [OF assms(1) this] have "p_Name q' = p_Name q" "(loads_to loader)\<^sup>*\<^sup>* root q'" by auto
    with same step(1) have "q' = q" by blast
    with collect_new [OF assms(1) q'] step(2) show ?case by blast
  qed
  then obtain p' where p': "r (p_Name p) = Some p'" by auto
  from collect_new [OF assms(1) this] have "p_Name p' = p_Name p" "(loads_to loader)\<^sup>*\<^sup>* root p'" by auto
  with same p p' show "r k = Some p" by metis
qed

subsection \<open>Atoms and constraints on packages\<close>

lemma splitn2_name:
  assumes "CHR ''/'' \<notin> set cat"
  shows "splitn2_byte CHR ''/'' s = [cat, name] \<longleftrightarrow> s = cat @ CHR ''/'' # name"
proof
  assume a: "splitn2_byte CHR ''/'' s = [cat, name]"
  then obtain i where i: "index_byte s CHR ''/'' = Some i" "cat = take i s" "name = drop (Suc i) s"
    by (auto simp: splitn2_byte_def split: option.splits)
  from index_byte_split [OF i(1)] i show "s = cat @ CHR ''/'' # name" by simp
next
  assume "s = cat @ CHR ''/'' # name"
  with splitn2_byte_append [OF assms] show "splitn2_byte CHR ''/'' s = [cat, name]" by simp
qed

lemma splitn2_length: "length (splitn2_byte c s) \<in> {1, 2}"
  by (simp add: splitn2_byte_def split: option.split)

definition slot_accepts :: "atom \<Rightarrow> slot \<Rightarrow> bool" where
  "slot_accepts a s \<longleftrightarrow>
     (a_Slot a \<in> {'''', ''*'', ''=''} \<or> sl_Name s = a_Slot a) \<and>
     (a_Subslot a = [] \<or> sl_Subslot s = a_Subslot a)"

lemma atom_matches_iff:
  assumes "CHR ''/'' \<notin> set (a_Category a)"
  shows "atom_matches rx (Some a) (Some p) \<longleftrightarrow>
    p_Name p = atom_cp a \<and> matches_version rx a (p_Version p) \<and> slot_accepts a (p_Slot p)"
proof -
  have v: "(a_Version a \<noteq> [] \<and> \<not> matches_version rx a v) = (\<not> matches_version rx a v)" for v
    by (auto simp: matches_version_def)
  obtain xs where xs: "splitn2_byte CHR ''/'' (p_Name p) = xs" "length xs \<in> {1, 2}"
    using splitn2_length by blast
  then have len: "length xs = Suc 0 \<or> length xs = Suc (Suc 0)" by (simp add: numeral_2_eq_2)
  consider x where "xs = [x]" | x y where "xs = [x, y]"
  proof (cases xs)
    case (Cons x ys)
    then show ?thesis using len that by (cases ys) auto
  qed (use len in simp)
  then show ?thesis
  proof cases
    case 1
    then have "p_Name p \<noteq> atom_cp a"
      using xs splitn2_byte_append [OF assms, of "a_Package a"] by (auto simp: atom_cp_def)
    with 1 xs show ?thesis by (simp add: atom_matches_def)
  next
    case 2
    have "p_Name p = atom_cp a \<longleftrightarrow> x = a_Category a \<and> y = a_Package a"
      using splitn2_name [OF assms, of "p_Name p" "a_Package a"] xs 2 by (auto simp: atom_cp_def)
    with 2 xs v show ?thesis by (auto simp: atom_matches_def slot_accepts_def)
  qed
qed

subsection \<open>Properties\<close>

text \<open>
  \<open>ResolveDependencyTree\<close> ends on every loader that knows finitely many names, cyclic
  dependencies included, and its map holds exactly the packages that are reachable from the root
  by dependencies that load, each under its own name.
\<close>

theorem dependency_tree_complete:
  assumes "finite (dom loader)" and "\<And>x q. loader x = Some q \<Longrightarrow> p_Name q = x"
    and "loader (p_Name root) = Some root \<or> loader (p_Name root) = None"
  shows "\<exists>n m. resolve_dependency_tree n loader root = Some m \<and>
    (\<forall>k p. m k = Some p \<longleftrightarrow> (loads_to loader)\<^sup>*\<^sup>* root p \<and> p_Name p = k)"
proof -
  have "\<exists>n r. collect_dependencies n loader [root] (\<lambda>_. None) = Some r"
    by (rule collect_terminates [of "insert (p_Name root) (dom loader)"]) (use assms in auto)
  then obtain n r where r: "collect_dependencies n loader [root] (\<lambda>_. None) = Some r" by blast
  from tree_reachable [OF r assms(2,3)] r show ?thesis
    unfolding resolve_dependency_tree_def by blast
qed

definition sample_dep :: "string \<Rightarrow> pkg_constraint" where
  "sample_dep n = new_simple_constraint n"

definition sample_pkg :: "string \<Rightarrow> string list \<Rightarrow> package" where
  "sample_pkg n ds = (new_package n ''1'' ''0'')\<lparr>p_Deps := map sample_dep ds\<rparr>"

definition sample_loader :: "string \<Rightarrow> package option" where
  "sample_loader = [''c/a'' \<mapsto> sample_pkg ''c/a'' [''c/b'', ''c/x''], ''c/b'' \<mapsto> sample_pkg ''c/b'' [''c/a'']]"

lemma sample_loader_names: "sample_loader x = Some q \<Longrightarrow> p_Name q = x"
  by (auto simp: sample_loader_def sample_pkg_def new_package_def split: if_splits)

theorem dependency_tree_complete_witness:
  "\<exists>n m. resolve_dependency_tree n sample_loader (sample_pkg ''c/a'' [''c/b'', ''c/x'']) = Some m \<and>
     m ''c/b'' = Some (sample_pkg ''c/b'' [''c/a''])"
proof -
  let ?a = "sample_pkg ''c/a'' [''c/b'', ''c/x'']"
  have "finite (dom sample_loader)" by (simp add: sample_loader_def)
  moreover have "p_Name ?a = ''c/a''" "p_Name (sample_pkg ''c/b'' [''c/a'']) = ''c/b''"
    by (simp_all add: sample_pkg_def new_package_def)
  moreover have "loads_to sample_loader ?a (sample_pkg ''c/b'' [''c/a''])"
    by (simp add: loads_to_def sample_loader_def sample_pkg_def sample_dep_def new_simple_constraint_def new_package_def)
  moreover have "sample_loader ''c/a'' = Some ?a" by (simp add: sample_loader_def)
  ultimately obtain n m where "resolve_dependency_tree n sample_loader ?a = Some m" and
    "\<forall>k p. m k = Some p \<longleftrightarrow> (loads_to sample_loader)\<^sup>*\<^sup>* ?a p \<and> p_Name p = k"
    using dependency_tree_complete [where loader = sample_loader, OF _ sample_loader_names, where root = ?a]
    by auto
  then show ?thesis
    using \<open>loads_to sample_loader ?a (sample_pkg ''c/b'' [''c/a''])\<close>
      \<open>p_Name (sample_pkg ''c/b'' [''c/a'']) = ''c/b''\<close>
    by (intro exI [of _ n] exI [of _ m]) auto
qed

text \<open>
  An atom matches a package exactly when the package satisfies the atom's constraint and
  lies in the slot and subslot the atom names: \<open>SatisfiesConstraint\<close> alone ignores the slot
  (for the operators other than \<open>=*\<close> and versions without a dangling \<open>-r\<close>).
\<close>

theorem atom_matches_is_constraint_and_slot:
  assumes "CHR ''/'' \<notin> set (a_Category a)"
    and "a_Version a = [] \<or> a_Operator a \<in> set atom_operators - {''=*''}"
    and "\<not> has_suffix (p_Version p) ''-r''" and "\<not> has_suffix (a_Version a) ''-r''"
  shows "atom_matches rx (Some a) (Some p) \<longleftrightarrow>
    satisfies_constraint rx p (to_constraint a) \<and> slot_accepts a (p_Slot p)"
proof (cases "a_Version a = []")
  case True
  then show ?thesis
    unfolding atom_matches_iff [OF assms(1)] by (auto simp: satisfies_constraint_def matches_version_def)
next
  case False
  then have op: "a_Operator a \<in> set atom_operators" "a_Operator a \<noteq> ''=*''" using assms(2) by auto
  have same: "satisfies rx (Some (new_version_constraint (operator_of (a_Operator a)) (a_Version a))) (p_Version p) =
      matches_version rx a (p_Version p)"
  proof -
    consider "a_Operator a = ''~''" | "a_Operator a \<in> {''='', ''>'', ''>='', ''<'', ''<=''}"
      using op by (auto simp: atom_operators_def)
    then show ?thesis
      by cases (use False strip_same assms(3,4) in \<open>auto simp: satisfies_def matches_version_def
        operator_of_def new_version_constraint_def matches_revision_def\<close>)
  qed
  show ?thesis
    unfolding atom_matches_iff [OF assms(1)]
    using False same by (auto simp: satisfies_constraint_def)
qed

theorem atom_matches_is_constraint_and_slot_witness:
  "\<exists>a p. satisfies_constraint ref_coregex p (to_constraint a) \<and> \<not> atom_matches ref_coregex (Some a) (Some p)"
proof -
  let ?a = "sample_atom\<lparr>a_Operator := '''', a_Version := ''''\<rparr>"
  let ?p = "new_package ''dev-libs/gtk+-2x'' ''2'' ''3''"
  have "\<not> has_suffix (p_Version ?p) ''-r''" by code_simp
  then have "atom_matches ref_coregex (Some ?a) (Some ?p) \<longleftrightarrow>
    satisfies_constraint ref_coregex ?p (to_constraint ?a) \<and> slot_accepts ?a (p_Slot ?p)"
    by (intro atom_matches_is_constraint_and_slot) (simp_all add: sample_atom_def has_suffix_def)
  moreover have "satisfies_constraint ref_coregex ?p (to_constraint ?a)" by code_simp
  moreover have "\<not> slot_accepts ?a (p_Slot ?p)" by code_simp
  ultimately show ?thesis by blast
qed

text \<open>
  \<open>ConflictsWith\<close> reports two packages with different names as soon as they share a slot name and
  differ in the subslot, although packages with different slot keys can coexist.
\<close>

theorem different_names_conflict:
  "conflicts_with (new_package ''app/a'' ''1'' ''0'') (new_package ''lib/b'' ''1'' ''0/2'') \<and>
   slot_key_of (new_package ''app/a'' ''1'' ''0'') \<noteq> slot_key_of (new_package ''lib/b'' ''1'' ''0/2'')"
  by code_simp

end
