(* ===== verification/Required_Use.thy ===== *)
theory Required_Use
  imports Go_Prelude
begin

section \<open>REQUIRED\_USE expressions\<close>

text \<open>
  \<open>internal/pkg/required_use.go\<close>: the tokeniser and the evaluator that runs over the tokens. A
  position in the token slice is the list of tokens from it on. The functions of the source call
  each other and move the position by what a call returns; here they take fuel, and
  \<open>validate_fuel\<close> shows that twice the number of tokens plus two is always enough. Tokens are cut
  bytewise, as in the source for any valid UTF-8 text.

  \<open>use_expr\<close> is the abstract syntax of PMS 7.2.6 and \<open>holds\<close> its meaning.
\<close>

datatype ru_error =
  RU_Operator string
| RU_Conditional string
| RU_Unbalanced
| RU_Violation string
| RU_Fuel

definition active_flags :: "string list \<Rightarrow> string \<rightharpoonup> bool" where
  "active_flags fs = foldl (\<lambda>m f. m(f \<mapsto> True)) (\<lambda>_. None) fs"

definition is_enabled :: "(string \<rightharpoonup> bool) \<Rightarrow> string \<Rightarrow> bool" where
  "is_enabled m f = flag_on m f"

subsection \<open>The tokeniser\<close>

definition flush :: "string \<Rightarrow> string list" where
  "flush cur = (if 0 < length cur then [trim_space cur] else [])"

fun tokenize_from :: "string \<Rightarrow> string \<Rightarrow> string list" where
  "tokenize_from cur [] = flush cur"
| "tokenize_from cur (ch # s) =
     (if ch = CHR ''('' \<or> ch = CHR '')'' then flush cur @ [[ch]] @ tokenize_from [] s
      else if ch = CHR '' '' \<or> ch = CHR 0x09 \<or> ch = CHR 0x0A then flush cur @ tokenize_from [] s
      else tokenize_from (cur @ [ch]) s)"

definition tokenize :: "string \<Rightarrow> string list" where
  "tokenize s = tokenize_from [] s"

subsection \<open>The evaluator\<close>

fun skip_group :: "nat \<Rightarrow> string list \<Rightarrow> string list option" where
  "skip_group 0 ts = Some ts"
| "skip_group (Suc d) [] = None"
| "skip_group (Suc d) (t # ts) =
     (if t = ''('' then skip_group (Suc (Suc d)) ts
      else if t = '')'' then skip_group d ts else skip_group (Suc d) ts)"

definition evaluate_simple_flag :: "(string \<rightharpoonup> bool) \<Rightarrow> string \<Rightarrow> bool" where
  "evaluate_simple_flag m t =
     (if has_prefix t ''!'' then \<not> is_enabled m (trim_prefix t ''!'') else is_enabled m t)"

definition condition_met :: "(string \<rightharpoonup> bool) \<Rightarrow> string \<Rightarrow> bool" where
  "condition_met m t =
     (let flag = trim_suffix t ''?'' in
      if has_prefix flag ''!'' then \<not> is_enabled m (trim_prefix flag ''!'') else is_enabled m flag)"

text \<open>The final tests of the three counting loops.\<close>

definition group_test :: "string \<Rightarrow> nat \<Rightarrow> bool" where
  "group_test op k = (if op = ''||'' then 0 < k else if op = ''^^'' then k = 1 else k \<le> 1)"

type_synonym ru_result = "ru_error + bool \<times> string list"

text \<open>
  \<open>count_members op\<close> is the loop of \<open>evaluateAnyOf\<close>, \<open>evaluateExactlyOne\<close> and \<open>evaluateAtMostOne\<close>,
  which differ only in their test; \<open>evaluate_conditional\<close> is the code of \<open>handleConditionalInParse\<close>
  and of \<open>evaluateConditional\<close>.
\<close>

function (sequential) parse_and_evaluate :: "nat \<Rightarrow> (string \<rightharpoonup> bool) \<Rightarrow> bool \<Rightarrow> string list \<Rightarrow> ru_result"
  and evaluate_token :: "nat \<Rightarrow> (string \<rightharpoonup> bool) \<Rightarrow> string \<Rightarrow> string list \<Rightarrow> ru_result"
  and evaluate_conditional :: "nat \<Rightarrow> (string \<rightharpoonup> bool) \<Rightarrow> string \<Rightarrow> string list \<Rightarrow> ru_result"
  and count_members :: "nat \<Rightarrow> (string \<rightharpoonup> bool) \<Rightarrow> string \<Rightarrow> nat \<Rightarrow> string list \<Rightarrow> ru_result"
where
  "parse_and_evaluate 0 m acc ts = Inl RU_Fuel"
| "parse_and_evaluate (Suc n) m acc [] = Inr (acc, [])"
| "parse_and_evaluate (Suc n) m acc (t # ts) =
     (if t = '')'' then Inr (acc, ts)
      else case evaluate_token n m t ts of
        Inl e \<Rightarrow> Inl e
      | Inr (sat, rest) \<Rightarrow> parse_and_evaluate n m (acc \<and> sat) rest)"
| "evaluate_token 0 m t ts = Inl RU_Fuel"
| "evaluate_token (Suc n) m t ts =
     (if t = ''('' then parse_and_evaluate n m True ts
      else if t = ''||'' \<or> t = ''^^'' \<or> t = ''??'' then
        (case ts of
           [] \<Rightarrow> Inl (RU_Operator t)
         | u # us \<Rightarrow> if u \<noteq> ''('' then Inl (RU_Operator t) else count_members n m t 0 us)
      else if has_suffix t ''?'' then evaluate_conditional n m t ts
      else Inr (evaluate_simple_flag m t, ts))"
| "evaluate_conditional 0 m t ts = Inl RU_Fuel"
| "evaluate_conditional (Suc n) m t ts =
     (case ts of
        [] \<Rightarrow> Inl (RU_Conditional t)
      | u # us \<Rightarrow>
          if u \<noteq> ''('' then Inl (RU_Conditional t)
          else if condition_met m t then parse_and_evaluate n m True us
          else (case skip_group 1 us of None \<Rightarrow> Inl RU_Unbalanced | Some rest \<Rightarrow> Inr (True, rest)))"
| "count_members 0 m op k ts = Inl RU_Fuel"
| "count_members (Suc n) m op k [] = Inr (group_test op k, [])"
| "count_members (Suc n) m op k (t # ts) =
     (if t = '')'' then Inr (group_test op k, ts)
      else if t = ''('' then
        (case parse_and_evaluate n m True ts of
           Inl e \<Rightarrow> Inl e
         | Inr (sat, rest) \<Rightarrow> count_members n m op (if sat then k + 1 else k) rest)
      else if has_suffix t ''?'' then
        (case evaluate_conditional n m t ts of
           Inl e \<Rightarrow> Inl e
         | Inr (sat, rest) \<Rightarrow> count_members n m op (if sat then k + 1 else k) rest)
      else count_members n m op (if evaluate_simple_flag m t then k + 1 else k) ts)"
  by pat_completeness auto
termination
  by (relation "measure (case_sum (case_sum fst fst) (case_sum fst fst))") simp_all

definition evaluate_any_of :: "nat \<Rightarrow> (string \<rightharpoonup> bool) \<Rightarrow> string list \<Rightarrow> ru_result" where
  "evaluate_any_of n m ts = count_members n m ''||'' 0 ts"

definition evaluate_exactly_one :: "nat \<Rightarrow> (string \<rightharpoonup> bool) \<Rightarrow> string list \<Rightarrow> ru_result" where
  "evaluate_exactly_one n m ts = count_members n m ''^^'' 0 ts"

definition evaluate_at_most_one :: "nat \<Rightarrow> (string \<rightharpoonup> bool) \<Rightarrow> string list \<Rightarrow> ru_result" where
  "evaluate_at_most_one n m ts = count_members n m ''??'' 0 ts"

definition validate_fuel :: "string list \<Rightarrow> nat" where
  "validate_fuel ts = 2 * length ts + 2"

text \<open>\<open>Validate\<close> and \<open>ValidateRequiredUse\<close>: \<open>None\<close> is the nil error.\<close>

definition validate_required_use :: "string \<Rightarrow> string list \<Rightarrow> ru_error option" where
  "validate_required_use expr enabled =
     (if expr = [] then None
      else
        (let ts = tokenize expr in
         case parse_and_evaluate (validate_fuel ts) (active_flags enabled) True ts of
           Inl e \<Rightarrow> Some e
         | Inr (sat, _) \<Rightarrow> if \<not> sat then Some (RU_Violation expr) else None))"

subsection \<open>The fuel is enough\<close>

definition settled :: "nat \<Rightarrow> ru_result \<Rightarrow> bool" where
  "settled k r = (case r of Inl e \<Rightarrow> e \<noteq> RU_Fuel | Inr (_, rest) \<Rightarrow> length rest \<le> k)"

lemma skip_group_shrinks: "skip_group d ts = Some rest \<Longrightarrow> length rest \<le> length ts"
  by (induction d ts rule: skip_group.induct) (auto split: if_splits)

lemma settled_simps [simp]:
  "settled k (Inl e) \<longleftrightarrow> e \<noteq> RU_Fuel" "settled k (Inr (b, rest)) \<longleftrightarrow> length rest \<le> k"
  by (simp_all add: settled_def)

lemma settled_mono: "settled k r \<Longrightarrow> k \<le> l \<Longrightarrow> settled l r"
  by (auto simp: settled_def split: sum.splits)

lemma settled_step:
  assumes "settled k r" "\<And>b rest. r = Inr (b, rest) \<Longrightarrow> length rest \<le> k \<Longrightarrow> settled l (f b rest)"
  shows "settled l (case r of Inl e \<Rightarrow> Inl e | Inr (b, rest) \<Rightarrow> f b rest)"
proof (cases r)
  case (Inl e)
  with assms(1) show ?thesis by simp
next
  case (Inr x)
  then obtain b rest where "r = Inr (b, rest)" by (cases x) simp
  with assms show ?thesis by simp
qed

lemma fuel_enough:
  "2 * length ts + 1 \<le> n \<Longrightarrow> settled (length ts) (parse_and_evaluate n m acc ts)"
  "2 * length ts + 2 \<le> n \<Longrightarrow> settled (length ts) (evaluate_token n m t ts)"
  "2 * length ts + 1 \<le> n \<Longrightarrow> settled (length ts) (evaluate_conditional n m t ts)"
  "2 * length ts + 1 \<le> n \<Longrightarrow> settled (length ts) (count_members n m op k ts)"
proof (induction n arbitrary: ts m acc t op k)
  case 0
  {
    case 1 then show ?case by simp
  next
    case 2 then show ?case by simp
  next
    case 3 then show ?case by simp
  next
    case 4 then show ?case by simp
  }
next
  case (Suc n)
  have parse: "settled l (parse_and_evaluate n m acc ts)" if "2 * length ts + 1 \<le> n" "length ts \<le> l" for m acc ts l
    using settled_mono [OF Suc(1) [OF that(1)] that(2)] .
  have cond: "settled (length ts) (evaluate_conditional n m t ts)" if "2 * length ts + 1 \<le> n" for m t ts
    by (rule Suc(3) [OF that])
  have count: "settled l (count_members n m op k ts)" if "2 * length ts + 1 \<le> n" "length ts \<le> l" for m op k ts l
    using settled_mono [OF Suc(4) [OF that(1)] that(2)] .
  {
    case 1
    show ?case
    proof (cases ts)
      case (Cons t us)
      have "settled (length us) (evaluate_token n m t us)" by (rule Suc(2)) (use 1 Cons in simp)
      then have "settled (length ts) (case evaluate_token n m t us of Inl e \<Rightarrow> Inl e
          | Inr (sat, rest) \<Rightarrow> parse_and_evaluate n m (acc \<and> sat) rest)"
        by (rule settled_step, intro parse) (use 1 Cons in simp_all)
      with Cons show ?thesis by simp
    qed simp
  next
    case 2
    show ?case
    proof (cases ts)
      case Nil
      with 2 parse [of "[]"] cond [of "[]"] show ?thesis by simp
    next
      case (Cons u us)
      have "settled (length ts) (parse_and_evaluate n m True ts)"
        "\<And>op. settled (length ts) (count_members n m op 0 us)"
        by (rule parse count, use 2 Cons in simp_all)+
      moreover have "settled (length ts) (evaluate_conditional n m t ts)"
        by (rule cond) (use 2 in simp)
      ultimately show ?thesis using Cons by auto
    qed
  next
    case 3
    show ?case
    proof (cases ts)
      case (Cons u us)
      have "settled (length ts) (parse_and_evaluate n m True us)" by (rule parse) (use 3 Cons in simp_all)
      with Cons show ?thesis by (auto dest: skip_group_shrinks split: option.split)
    qed simp
  next
    case 4
    show ?case
    proof (cases ts)
      case (Cons t us)
      have fit: "2 * length us + 1 \<le> n" using 4 Cons by simp
      have next1: "settled (length ts) (count_members n m g j rest)" if "length rest \<le> length us" for g j rest
        by (rule count) (use that fit Cons in simp_all)
      have "settled (length ts) (case parse_and_evaluate n m True us of Inl e \<Rightarrow> Inl e
          | Inr (b, rest) \<Rightarrow> count_members n m g (if b then j + 1 else j) rest)" for g j
        by (rule settled_step [OF parse [OF fit order_refl]]) (rule next1)
      moreover have "settled (length ts) (case evaluate_conditional n m t us of Inl e \<Rightarrow> Inl e
          | Inr (b, rest) \<Rightarrow> count_members n m g (if b then j + 1 else j) rest)" for g j
        by (rule settled_step [OF cond [OF fit]]) (rule next1)
      ultimately show ?thesis using next1 [of us] Cons by simp
    qed simp
  }
qed

lemma validate_not_fuel: "validate_required_use expr fs \<noteq> Some RU_Fuel"
proof -
  let ?r = "parse_and_evaluate (validate_fuel (tokenize expr)) (active_flags fs) True (tokenize expr)"
  have "settled (length (tokenize expr)) ?r"
    by (rule fuel_enough(1)) (simp add: validate_fuel_def)
  then show ?thesis
    by (cases ?r) (auto simp: validate_required_use_def Let_def split: if_splits)
qed

subsection \<open>Meaning of an expression\<close>

text \<open>The syntax of PMS 7.2.6; \<open>When True f\<close> is \<open>f? ( ... )\<close> and \<open>When False f\<close> is \<open>!f? ( ... )\<close>.\<close>

datatype use_expr =
  Flag string
| NotFlag string
| When bool string "use_expr list"
| AllOf "use_expr list"
| Group string "use_expr list"

fun holds :: "(string \<rightharpoonup> bool) \<Rightarrow> use_expr \<Rightarrow> bool" where
  "holds m (Flag f) = is_enabled m f"
| "holds m (NotFlag f) = (\<not> is_enabled m f)"
| "holds m (When b f es) = ((is_enabled m f = b) \<longrightarrow> list_all (holds m) es)"
| "holds m (AllOf es) = list_all (holds m) es"
| "holds m (Group op es) = group_test op (length (filter (holds m) es))"

fun tokens_of :: "use_expr \<Rightarrow> string list" where
  "tokens_of (Flag f) = [f]"
| "tokens_of (NotFlag f) = [CHR ''!'' # f]"
| "tokens_of (When b f es) =
     [(if b then f else CHR ''!'' # f) @ ''?'', ''(''] @ concat (map tokens_of es) @ ['')'']"
| "tokens_of (AllOf es) = [''(''] @ concat (map tokens_of es) @ ['')'']"
| "tokens_of (Group op es) = [op, ''(''] @ concat (map tokens_of es) @ ['')'']"

definition plain_char :: "char \<Rightarrow> bool" where
  "plain_char c \<longleftrightarrow> \<not> is_space c \<and> c \<noteq> CHR ''('' \<and> c \<noteq> CHR '')''"

definition flag_name :: "string \<Rightarrow> bool" where
  "flag_name f \<longleftrightarrow> f \<noteq> [] \<and> list_all plain_char f \<and> hd f \<noteq> CHR ''!'' \<and> \<not> has_suffix f ''?'' \<and>
     f \<noteq> ''||'' \<and> f \<noteq> ''^^''"

fun plain_member :: "use_expr \<Rightarrow> bool" where
  "plain_member (When b f es) = False"
| "plain_member (Group op es) = False"
| "plain_member _ = True"

text \<open>
  The expressions on which the evaluator is right: the members of \<open>||\<close>, \<open>^^\<close> and \<open>??\<close> are flags and
  parenthesised groups, which may contain anything again.
\<close>

fun supported :: "use_expr \<Rightarrow> bool" where
  "supported (Flag f) = flag_name f"
| "supported (NotFlag f) = flag_name f"
| "supported (When b f es) = (flag_name f \<and> list_all supported es)"
| "supported (AllOf es) = list_all supported es"
| "supported (Group op es) =
     (op \<in> {''||'', ''^^'', ''??''} \<and> list_all supported es \<and> list_all plain_member es)"

lemma flag_name_facts:
  assumes "flag_name f"
  shows "f \<noteq> ''(''" "f \<noteq> '')''" "f \<noteq> ''||''" "f \<noteq> ''^^''" "f \<noteq> ''??''" "f \<noteq> []"
    "\<not> has_suffix f ''?''" "\<not> has_prefix f ''!''" "\<not> has_suffix (CHR ''!'' # f) ''?''"
    "f @ ''?'' \<noteq> ''||''" "f @ ''?'' \<noteq> ''^^''" "f @ ''?'' \<noteq> ''??''"
proof -
  show "f \<noteq> ''(''" "f \<noteq> '')''" using assms by (auto simp: flag_name_def plain_char_def)
  show ne: "f \<noteq> []" and q: "\<not> has_suffix f ''?''" and "f \<noteq> ''||''" "f \<noteq> ''^^''"
    using assms by (simp_all add: flag_name_def)
  then show "f \<noteq> ''??''" "f @ ''?'' \<noteq> ''||''" "f @ ''?'' \<noteq> ''^^''" "f @ ''?'' \<noteq> ''??''"
    by (auto simp: has_suffix_def append_eq_Cons_conv)
  show "\<not> has_prefix f ''!''" using assms by (cases f) (auto simp: flag_name_def)
  show "\<not> has_suffix (CHR ''!'' # f) ''?''" using ne q by (simp add: has_suffix_single)
qed

lemma tokens_of_head:
  assumes "supported e"
  obtains t ts where "tokens_of e = t # ts" "t \<noteq> '')''"
  using assms flag_name_facts by (cases e) fastforce+

lemma skip_tokens: "supported e \<Longrightarrow> skip_group (Suc d) (tokens_of e @ rest) = skip_group (Suc d) rest"
proof (induction e arbitrary: d rest)
  case (When b f es)
  have "skip_group (Suc k) (concat (map tokens_of xs) @ r) = skip_group (Suc k) r"
    if "set xs \<subseteq> set es" for xs k r
    using that When by (induction xs) (auto simp: list_all_iff)
  from this [of es] show ?case using When.prems by (auto simp: flag_name_def plain_char_def)
next
  case (AllOf es)
  have "skip_group (Suc k) (concat (map tokens_of xs) @ r) = skip_group (Suc k) r"
    if "set xs \<subseteq> set es" for xs k r
    using that AllOf by (induction xs) (auto simp: list_all_iff)
  from this [of es] show ?case by simp
next
  case (Group op es)
  have "skip_group (Suc k) (concat (map tokens_of xs) @ r) = skip_group (Suc k) r"
    if "set xs \<subseteq> set es" for xs k r
    using that Group by (induction xs) (auto simp: list_all_iff)
  from this [of es] show ?case using Group.prems by auto
qed (auto dest: flag_name_facts)

lemma skip_tokens_list:
  "list_all supported es \<Longrightarrow> skip_group (Suc d) (concat (map tokens_of es) @ '')'' # rest) = skip_group d rest"
  by (induction es) (auto simp: skip_tokens)

definition evaluates :: "(string \<rightharpoonup> bool) \<Rightarrow> use_expr \<Rightarrow> bool" where
  "evaluates m e \<longleftrightarrow> (\<forall>n t ts rest. tokens_of e @ rest = t # ts \<longrightarrow> 2 * length ts + 2 \<le> n \<longrightarrow>
     evaluate_token n m t ts = Inr (holds m e, rest))"

lemma evaluates_list:
  assumes "\<And>e. e \<in> set es \<Longrightarrow> evaluates m e \<and> supported e"
    and "2 * length (concat (map tokens_of es) @ tail) + 1 \<le> n" "tail = [] \<and> rest = [] \<or> tail = '')'' # rest"
  shows "parse_and_evaluate n m acc (concat (map tokens_of es) @ tail) = Inr (acc \<and> list_all (holds m) es, rest)"
  using assms(1,2)
proof (induction es arbitrary: n acc)
  case Nil
  then obtain k where "n = Suc k" by (cases n) auto
  then show ?case using assms(3) by auto
next
  case (Cons e es)
  let ?r = "concat (map tokens_of es) @ tail"
  obtain t us where t: "tokens_of e = t # us" "t \<noteq> '')''" using Cons.prems(1) tokens_of_head by (metis list.set_intros(1))
  obtain k where k: "n = Suc k" using Cons.prems(2) by (cases n) auto
  have "evaluate_token k m t (us @ ?r) = Inr (holds m e, ?r)"
    using Cons.prems t k by (simp add: evaluates_def)
  moreover have "parse_and_evaluate k m (acc \<and> holds m e) ?r =
      Inr ((acc \<and> holds m e) \<and> list_all (holds m) es, rest)"
    by (rule Cons.IH) (use Cons.prems t k in auto)
  ultimately show ?case using t k by simp
qed

lemma evaluates_members:
  assumes "\<And>e. e \<in> set es \<Longrightarrow> evaluates m e \<and> supported e \<and> plain_member e"
    and "2 * length (concat (map tokens_of es) @ '')'' # rest) + 1 \<le> n"
  shows "count_members n m op k (concat (map tokens_of es) @ '')'' # rest) =
    Inr (group_test op (k + length (filter (holds m) es)), rest)"
  using assms
proof (induction es arbitrary: n k)
  case Nil
  then obtain j where "n = Suc j" by (cases n) auto
  then show ?case by simp
next
  case (Cons e es)
  let ?r = "concat (map tokens_of es) @ '')'' # rest"
  have e: "evaluates m e" "supported e" "plain_member e" using Cons.prems(1) by auto
  obtain j where j: "n = Suc j" using Cons.prems(2) by (cases n) auto
  have rec: "count_members j m op k' ?r = Inr (group_test op (k' + length (filter (holds m) es)), rest)" for k'
    by (rule Cons.IH) (use Cons.prems j in \<open>auto intro: tokens_of_head [OF e(2)]\<close>)
  show ?case
  proof (cases e)
    case (Flag f)
    with e(2) rec j flag_name_facts [of f] show ?thesis by (simp add: evaluate_simple_flag_def)
  next
    case (NotFlag f)
    with e(2) rec j flag_name_facts [of f] show ?thesis by (simp add: evaluate_simple_flag_def)
  next
    case (AllOf us)
    have "evaluate_token (Suc j) m ''('' (concat (map tokens_of us) @ '')'' # ?r) = Inr (holds m e, ?r)"
      using e(1) [unfolded evaluates_def, rule_format, of ?r "''(''" "concat (map tokens_of us) @ '')'' # ?r" "Suc j"]
        Cons.prems(2) j AllOf by simp
    then have "parse_and_evaluate j m True (concat (map tokens_of us) @ '')'' # ?r) = Inr (holds m e, ?r)"
      by simp
    then show ?thesis using rec j AllOf by simp
  qed (use e in simp_all)
qed

lemma evaluates_supported: "supported e \<Longrightarrow> evaluates m e"
proof (induction e)
  case (Flag f)
  then show ?case
    unfolding evaluates_def
  proof (intro allI impI)
    fix n t ts rest
    assume "tokens_of (Flag f) @ rest = t # ts" "2 * length ts + 2 \<le> n"
    with Flag flag_name_facts [of f] show "evaluate_token n m t ts = Inr (holds m (Flag f), rest)"
      by (cases n) (auto simp: evaluate_simple_flag_def)
  qed
next
  case (NotFlag f)
  then show ?case
    unfolding evaluates_def
  proof (intro allI impI)
    fix n t ts rest
    assume a: "tokens_of (NotFlag f) @ rest = t # ts" "2 * length ts + 2 \<le> n"
    then obtain j where n: "n = Suc j" by (cases n) auto
    have q: "\<not> has_suffix (CHR ''!'' # f) ''?''" using NotFlag flag_name_facts(9) by simp
    have "t = CHR ''!'' # f" "ts = rest" using a(1) by auto
    with q show "evaluate_token n m t ts = Inr (holds m (NotFlag f), rest)"
      by (simp add: n evaluate_simple_flag_def)
  qed
next
  case (When b f es)
  have f: "flag_name f" and es: "list_all supported es" using When.prems by simp_all
  have ev: "\<And>e. e \<in> set es \<Longrightarrow> evaluates m e \<and> supported e" using When.IH es by (auto simp: list_all_iff)
  let ?t = "(if b then f else CHR ''!'' # f) @ ''?''"
  have q: "has_suffix ?t ''?''" by (rule has_suffix_append)
  have "\<not> has_suffix ''('' ''?''" "\<not> has_suffix ''||'' ''?''" "\<not> has_suffix ''^^'' ''?''"
    by (simp_all add: has_suffix_def)
  with q have "?t \<noteq> ''(''" "?t \<noteq> ''||''" "?t \<noteq> ''^^''" by metis+
  moreover have "?t \<noteq> ''??''" using flag_name_facts(12) [OF f] by (cases b) simp_all
  ultimately have t: "?t \<notin> {''('', ''||'', ''^^'', ''??''}" "has_suffix ?t ''?''" using q by simp_all
  have met: "condition_met m ?t \<longleftrightarrow> is_enabled m f = b"
    using flag_name_facts [OF f] trim_suffix_append [of "CHR ''!'' # f" "''?''"]
    by (auto simp: condition_met_def Let_def)
  show ?case
    unfolding evaluates_def
  proof (intro allI impI)
    fix n s ts rest
    assume a: "tokens_of (When b f es) @ rest = s # ts" "2 * length ts + 2 \<le> n"
    let ?body = "concat (map tokens_of es) @ '')'' # rest"
    from a(1) have s: "s = ?t" "ts = ''('' # ?body" by auto
    obtain j where n: "n = Suc (Suc j)" using a(2) s by (cases n; cases "n - 1") auto
    have "parse_and_evaluate j m True ?body = Inr (True \<and> list_all (holds m) es, rest)"
      by (rule evaluates_list [OF ev]) (use a(2) s n in auto)
    then show "evaluate_token n m s ts = Inr (holds m (When b f es), rest)"
      using t met skip_tokens_list [OF es, of 0 rest] by (auto simp: s n)
  qed
next
  case (AllOf es)
  have ev: "\<And>e. e \<in> set es \<Longrightarrow> evaluates m e \<and> supported e" using AllOf by (auto simp: list_all_iff)
  show ?case
    unfolding evaluates_def
  proof (intro allI impI)
    fix n s ts rest
    assume a: "tokens_of (AllOf es) @ rest = s # ts" "2 * length ts + 2 \<le> n"
    let ?body = "concat (map tokens_of es) @ '')'' # rest"
    from a(1) have s: "s = ''(''" "ts = ?body" by auto
    obtain j where n: "n = Suc j" using a(2) by (cases n) auto
    have "parse_and_evaluate j m True ?body = Inr (True \<and> list_all (holds m) es, rest)"
      by (rule evaluates_list [OF ev]) (use a(2) s n in auto)
    then show "evaluate_token n m s ts = Inr (holds m (AllOf es), rest)" by (simp add: s n)
  qed
next
  case (Group op es)
  have ev: "\<And>e. e \<in> set es \<Longrightarrow> evaluates m e \<and> supported e \<and> plain_member e"
    using Group by (auto simp: list_all_iff)
  show ?case
    unfolding evaluates_def
  proof (intro allI impI)
    fix n s ts rest
    assume a: "tokens_of (Group op es) @ rest = s # ts" "2 * length ts + 2 \<le> n"
    let ?body = "concat (map tokens_of es) @ '')'' # rest"
    from a(1) have s: "s = op" "ts = ''('' # ?body" by auto
    obtain j where n: "n = Suc j" using a(2) by (cases n) auto
    have "count_members j m op 0 ?body = Inr (group_test op (0 + length (filter (holds m) es)), rest)"
      by (rule evaluates_members [OF ev]) (use a(2) s n in auto)
    then show "evaluate_token n m s ts = Inr (holds m (Group op es), rest)"
      using Group.prems by (auto simp: s n)
  qed
qed

subsection \<open>Reading the text back\<close>

definition token_text :: "string \<Rightarrow> bool" where
  "token_text t \<longleftrightarrow> t = ''('' \<or> t = '')'' \<or> (t \<noteq> [] \<and> list_all plain_char t)"

lemma plain_trim: "list_all plain_char t \<Longrightarrow> trim_space t = t"
proof (cases "t = []")
  case False
  assume p: "list_all plain_char t"
  have a: "dropWhile is_space t = t" using False p by (cases t) (auto simp: plain_char_def)
  have "dropWhile is_space (rev t) = rev t"
    using False p by (cases t rule: rev_cases) (auto simp: plain_char_def)
  with a show ?thesis by (simp add: trim_space_def)
qed (simp add: trim_space_def)

lemma tokenize_plain:
  "list_all plain_char w \<Longrightarrow> tokenize_from cur (w @ s) = tokenize_from (cur @ w) s"
  by (induction w arbitrary: cur) (auto simp: plain_char_def is_space_def)

lemma tokenize_word:
  assumes "token_text t" "s = [] \<or> (\<exists>r. s = CHR '' '' # r)"
  shows "tokenize_from [] (t @ s) = t # tokenize_from [] (drop 1 s)"
proof (cases "t = ''('' \<or> t = '')''")
  case True
  with assms(2) show ?thesis by (auto simp: flush_def)
next
  case False
  with assms(1) have t: "t \<noteq> []" "list_all plain_char t" by (auto simp: token_text_def)
  from tokenize_plain [OF t(2), of "[]" s] assms(2) t plain_trim [OF t(2)]
  show ?thesis by (auto simp: flush_def)
qed

lemma tokenize_join: "list_all token_text ts \<Longrightarrow> tokenize_from [] (join '' '' ts) = ts"
proof (induction "'' ''" ts rule: join.induct)
  case (2 x)
  then show ?case using tokenize_word [of x "[]"] by (simp add: flush_def)
next
  case (3 x y ys)
  then show ?case using tokenize_word [of x "'' '' @ join '' '' (y # ys)"] by simp
qed (simp add: flush_def)

lemma tokens_of_text: "supported e \<Longrightarrow> list_all token_text (tokens_of e)"
proof (induction e)
  case (Flag f)
  then show ?case by (simp add: token_text_def flag_name_def)
next
  case (NotFlag f)
  then show ?case by (auto simp: token_text_def flag_name_def plain_char_def is_space_def)
qed (auto simp: list_all_iff token_text_def flag_name_def plain_char_def is_space_def)

subsection \<open>Properties\<close>

definition use_expr_string :: "use_expr list \<Rightarrow> string" where
  "use_expr_string es = join '' '' (concat (map tokens_of es))"



text \<open>
  outside those expressions the evaluator departs from the PMS: an operator group inside an
  operator group is read as a flag followed by a parenthesised group, a nested \<open>??\<close> group always
  counts as satisfied, an inactive conditional member counts as a satisfied one, and a stray
  closing parenthesis hides everything after it.
\<close>

theorem required_use_divergences:
  "validate_required_use ''^^ ( || ( a b ) c )'' [''a''] \<noteq> None \<and>
     holds (active_flags [''a'']) (Group ''^^'' [Group ''||'' [Flag ''a'', Flag ''b''], Flag ''c'']) \<and>
   validate_required_use ''|| ( ?? ( a b ) )'' [''a'', ''b''] = None \<and>
     \<not> holds (active_flags [''a'', ''b'']) (Group ''||'' [Group ''??'' [Flag ''a'', Flag ''b'']]) \<and>
   validate_required_use ''|| ( x? ( a ) b )'' [] = None \<and>
   validate_required_use ''a ) b'' [''a''] = None"
  by code_simp

text \<open>
  validation always ends: for every text and every list of flags it returns no error or one
  of the four errors of the source, never running out of steps.
\<close>

theorem required_use_total:
  "validate_required_use expr fs \<noteq> Some RU_Fuel"
  by (rule validate_not_fuel)

end
