(* ===== verification/Use_Flags.thy ===== *)
theory Use_Flags
  imports Packages
begin

section \<open>Effective USE flags\<close>

text \<open>
  \<open>internal/pkg/use_resolver.go\<close> and \<open>internal/solver/useflag_solver.go\<close>. The interface
  \<open>USEResolverConfig\<close> is the record \<open>use_config\<close> of what its methods return; \<open>ufs_config\<close> is the
  implementation the solver passes. Loops over Go maps take the visiting order as a list.
\<close>

subsection \<open>The canonical resolver\<close>

record use_config =
  uc_ProfileUSEFlags :: "string list"
  uc_GlobalUSEFlags :: "string list"
  uc_PackageUSEFlags :: "string \<Rightarrow> string \<Rightarrow> string \<Rightarrow> string \<Rightarrow> string list"
  uc_USEExpandValue :: "string \<Rightarrow> string"
  uc_ForcedUSE :: "string list"
  uc_MaskedUSE :: "string list"

definition use_expand_vars :: "string list" where
  "use_expand_vars = [''PYTHON_SINGLE_TARGET'', ''PYTHON_TARGETS'', ''LUA_SINGLE_TARGET'',
     ''LUA_TARGETS'', ''RUBY_TARGETS'']"

fun apply_use_flag_list :: "(string \<rightharpoonup> bool) \<Rightarrow> string list \<Rightarrow> string \<rightharpoonup> bool" where
  "apply_use_flag_list m [] = m"
| "apply_use_flag_list m (f # fs) =
     apply_use_flag_list (if has_prefix f ''-'' then m(drop 1 f := None) else m(f \<mapsto> True)) fs"

fun apply_iuse_defaults :: "(string \<rightharpoonup> bool) \<Rightarrow> string list \<Rightarrow> (string \<rightharpoonup> bool) \<Rightarrow> string \<rightharpoonup> bool" where
  "apply_iuse_defaults iuse [] m = m"
| "apply_iuse_defaults iuse (f # fs) m =
     apply_iuse_defaults iuse fs (if flag_on iuse f then m(f \<mapsto> True) else m)"

definition expand_flags :: "string \<Rightarrow> string \<Rightarrow> string list" where
  "expand_flags var value = map (\<lambda>v. to_lower var @ ''_'' @ to_lower v) (str_fields value)"

fun set_flags :: "string list \<Rightarrow> (string \<rightharpoonup> bool) \<Rightarrow> string \<rightharpoonup> bool" where
  "set_flags [] m = m"
| "set_flags (f # fs) m = set_flags fs (m(f \<mapsto> True))"

fun apply_expand_vars :: "use_config \<Rightarrow> string list \<Rightarrow> (string \<rightharpoonup> bool) \<Rightarrow> string \<rightharpoonup> bool" where
  "apply_expand_vars cfg [] m = m"
| "apply_expand_vars cfg (v # vs) m =
     (let value = uc_USEExpandValue cfg v in
      apply_expand_vars cfg vs (if value = [] then m else set_flags (expand_flags v value) m))"

fun delete_flags :: "string list \<Rightarrow> (string \<rightharpoonup> bool) \<Rightarrow> string \<rightharpoonup> bool" where
  "delete_flags [] m = m"
| "delete_flags (f # fs) m = delete_flags fs (m(f := None))"

definition resolve_effective_use ::
  "string list \<Rightarrow> (string \<rightharpoonup> bool) \<Rightarrow> string \<Rightarrow> string \<Rightarrow> string \<Rightarrow> string \<Rightarrow> use_config option \<Rightarrow>
   string \<rightharpoonup> bool" where
  "resolve_effective_use ks iuse category name version slot_str cfg =
     (let m1 = apply_iuse_defaults iuse ks (\<lambda>_. None) in
      case cfg of
        None \<Rightarrow> m1
      | Some c \<Rightarrow>
          (let m2 = apply_use_flag_list m1 (uc_ProfileUSEFlags c);
               m3 = apply_use_flag_list m2 (uc_GlobalUSEFlags c);
               m4 = apply_expand_vars c use_expand_vars m3;
               m5 = apply_use_flag_list m4 (uc_PackageUSEFlags c category name version slot_str);
               m6 = set_flags (uc_ForcedUSE c) m5
           in delete_flags (uc_MaskedUSE c) m6))"

definition is_use_conditional_active :: "string \<Rightarrow> (string \<rightharpoonup> bool) \<Rightarrow> bool" where
  "is_use_conditional_active cond use =
     (if cond = [] then True
      else if has_prefix cond ''!'' then \<not> flag_on use (drop 1 cond)
      else flag_on use cond)"

definition are_use_conditions_active :: "string list \<Rightarrow> (string \<rightharpoonup> bool) \<Rightarrow> bool" where
  "are_use_conditions_active conds use \<longleftrightarrow> list_all (\<lambda>c. is_use_conditional_active c use) conds"

fun parse_iuse_fields ::
  "string list \<Rightarrow> (string \<rightharpoonup> bool) \<times> (string \<rightharpoonup> bool) \<Rightarrow> (string \<rightharpoonup> bool) \<times> (string \<rightharpoonup> bool)" where
  "parse_iuse_fields [] (d, u) = (d, u)"
| "parse_iuse_fields (f # fs) (d, u) =
     parse_iuse_fields fs
       (if has_prefix f ''+'' then (d(drop 1 f \<mapsto> True), u(drop 1 f \<mapsto> True))
        else if has_prefix f ''-'' then (d(drop 1 f \<mapsto> False), u(drop 1 f \<mapsto> False))
        else (d(f \<mapsto> False), u(f \<mapsto> False)))"

definition parse_iuse_defaults :: "string \<Rightarrow> (string \<rightharpoonup> bool) \<times> (string \<rightharpoonup> bool)" where
  "parse_iuse_defaults s = parse_iuse_fields (str_fields s) ((\<lambda>_. None), (\<lambda>_. None))"

definition split_enabled_disabled :: "string list \<Rightarrow> (string \<rightharpoonup> bool) \<Rightarrow> string list \<times> string list" where
  "split_enabled_disabled ks use = (filter (flag_on use) ks, filter (\<lambda>f. \<not> flag_on use f) ks)"

subsection \<open>The solver's USE settings\<close>

record use_flag_solver =
  ufs_global :: "string \<rightharpoonup> bool"
  ufs_package :: "string \<rightharpoonup> string list"

definition new_use_flag_solver :: use_flag_solver where
  "new_use_flag_solver = \<lparr>ufs_global = (\<lambda>_. None), ufs_package = (\<lambda>_. None)\<rparr>"

definition set_global_use_flag :: "string \<Rightarrow> bool \<Rightarrow> use_flag_solver \<Rightarrow> use_flag_solver" where
  "set_global_use_flag flag enabled u = u\<lparr>ufs_global := (ufs_global u)(flag \<mapsto> enabled)\<rparr>"

definition set_package_use_flags :: "string \<Rightarrow> string list \<Rightarrow> use_flag_solver \<Rightarrow> use_flag_solver" where
  "set_package_use_flags name flags u = u\<lparr>ufs_package := (ufs_package u)(name \<mapsto> flags)\<rparr>"

definition global_use_flags :: "string list \<Rightarrow> use_flag_solver \<Rightarrow> string list" where
  "global_use_flags ks u = map (\<lambda>f. if flag_on (ufs_global u) f then f else ''-'' @ f) ks"

definition package_use_flags :: "use_flag_solver \<Rightarrow> string \<Rightarrow> string list" where
  "package_use_flags u full = (case ufs_package u full of Some fs \<Rightarrow> fs | None \<Rightarrow> [])"

definition ufs_config :: "string list \<Rightarrow> use_flag_solver \<Rightarrow> use_config" where
  "ufs_config gks u = \<lparr>uc_ProfileUSEFlags = [], uc_GlobalUSEFlags = global_use_flags gks u,
     uc_PackageUSEFlags = (\<lambda>category name _ _. package_use_flags u (category @ ''/'' @ name)),
     uc_USEExpandValue = (\<lambda>_. []), uc_ForcedUSE = [], uc_MaskedUSE = []\<rparr>"

fun first_setting :: "string list \<Rightarrow> string \<Rightarrow> bool option" where
  "first_setting [] flag = None"
| "first_setting (f # fs) flag =
     (if has_prefix f ''-'' \<and> drop 1 f = flag then Some False
      else if f = flag then Some True else first_setting fs flag)"

definition is_use_flag_enabled :: "use_flag_solver \<Rightarrow> string \<Rightarrow> string \<Rightarrow> bool" where
  "is_use_flag_enabled u name flag =
     (case (case ufs_package u name of Some fs \<Rightarrow> first_setting fs flag | None \<Rightarrow> None) of
        Some b \<Rightarrow> b
      | None \<Rightarrow> (case ufs_global u flag of Some enabled \<Rightarrow> enabled | None \<Rightarrow> False))"

text \<open>\<open>strings.FieldsFunc\<close> with comma and space as separators.\<close>

fun condition_fields :: "string \<Rightarrow> string \<Rightarrow> string list" where
  "condition_fields cur [] = (if cur = [] then [] else [cur])"
| "condition_fields cur (c # s) =
     (if c = CHR '','' \<or> c = CHR '' '' then (if cur = [] then condition_fields [] s else cur # condition_fields [] s)
      else condition_fields (cur @ [c]) s)"

definition evaluate_use_condition :: "use_flag_solver \<Rightarrow> string \<Rightarrow> string \<Rightarrow> bool" where
  "evaluate_use_condition u name cond =
     (if cond = [] then True
      else list_all (\<lambda>f0.
        (let f = trim_space f0 in
         if f = [] then True
         else if has_prefix f ''-'' \<or> has_prefix f ''!''
         then \<not> is_use_flag_enabled u name (trim_prefix (trim_prefix f ''-'') ''!'')
         else is_use_flag_enabled u name f)) (condition_fields [] cond))"

definition filter_dependencies_by_use_flags :: "use_flag_solver \<Rightarrow> package \<Rightarrow> pkg_constraint list" where
  "filter_dependencies_by_use_flags u p =
     filter (\<lambda>d. \<not> (c_Condition d \<noteq> [] \<and> \<not> evaluate_use_condition u (p_Name p) (c_Condition d))) (p_Deps p)"

fun add_missing_flags :: "string list \<Rightarrow> (string \<rightharpoonup> bool) \<Rightarrow> string \<rightharpoonup> bool" where
  "add_missing_flags [] m = m"
| "add_missing_flags (f # fs) m =
     add_missing_flags fs
       (let name = trim_prefix f ''-'' in
        if m name = None then m(name \<mapsto> \<not> has_prefix f ''-'') else m)"

definition category_and_name :: "string \<Rightarrow> string \<times> string" where
  "category_and_name s = (case splitn2_byte CHR ''/'' s of [c, n] \<Rightarrow> (c, n) | _ \<Rightarrow> ([], s))"

definition resolve_use_flags_for_package ::
  "string list \<Rightarrow> string list \<Rightarrow> use_flag_solver \<Rightarrow> package \<Rightarrow> string \<rightharpoonup> bool" where
  "resolve_use_flags_for_package gks iks u p =
     (let (category, name) = category_and_name (p_Name p);
          eff = resolve_effective_use iks (\<lambda>f. if p_UseFlags p f = None then None else Some False)
                  category name (p_Version p) (slot_string (p_Slot p)) (Some (ufs_config gks u));
          resolved = (\<lambda>f. if p_UseFlags p f = None then None else Some (flag_on eff f))
      in case ufs_package u (p_Name p) of
           Some fs \<Rightarrow> add_missing_flags fs resolved
         | None \<Rightarrow> resolved)"

definition get_enabled_use_flags :: "string list \<Rightarrow> (string \<rightharpoonup> bool) \<Rightarrow> string list" where
  "get_enabled_use_flags ks resolved = filter (flag_on resolved) ks"

subsection \<open>The last word on a flag\<close>

text \<open>The setting a list of flags gives to \<open>f\<close>: its last mention decides.\<close>

fun setting :: "string list \<Rightarrow> string \<Rightarrow> bool \<Rightarrow> bool" where
  "setting [] f b = b"
| "setting (x # xs) f b = setting xs f (if x = CHR ''-'' # f then False else if x = f \<and> \<not> has_prefix x ''-'' then True else b)"

lemma dash_flag: "has_prefix x ''-'' \<Longrightarrow> drop 1 x = f \<longleftrightarrow> x = CHR ''-'' # f"
  by (cases x) auto

lemma apply_list_setting: "flag_on (apply_use_flag_list m fs) f = setting fs f (flag_on m f)"
proof (induction fs arbitrary: m)
  case (Cons x xs)
  show ?case
  proof (cases "has_prefix x ''-''")
    case True
    with dash_flag [OF True, of f] Cons show ?thesis by (auto simp: flag_on_def)
  next
    case False
    then have "x \<noteq> CHR ''-'' # f" by auto
    with False Cons show ?thesis by (auto simp: flag_on_def)
  qed
qed simp

lemma setting_append: "setting (xs @ ys) f b = setting ys f (setting xs f b)"
  by (induction xs arbitrary: b) simp_all

lemma set_flags_on [simp]: "flag_on (set_flags fs m) f \<longleftrightarrow> f \<in> set fs \<or> flag_on m f"
  by (induction fs arbitrary: m) auto

lemma delete_flags_on [simp]: "flag_on (delete_flags fs m) f \<longleftrightarrow> f \<notin> set fs \<and> flag_on m f"
  by (induction fs arbitrary: m) auto

lemma iuse_defaults_on:
  "flag_on (apply_iuse_defaults iuse ks m) f \<longleftrightarrow> (f \<in> set ks \<and> flag_on iuse f) \<or> flag_on m f"
  by (induction ks arbitrary: m) auto

definition expanded :: "use_config \<Rightarrow> string list" where
  "expanded cfg = concat (map (\<lambda>v. if uc_USEExpandValue cfg v = [] then []
     else expand_flags v (uc_USEExpandValue cfg v)) use_expand_vars)"

lemma expand_vars_on:
  "flag_on (apply_expand_vars cfg vs m) f \<longleftrightarrow>
   f \<in> set (concat (map (\<lambda>v. if uc_USEExpandValue cfg v = [] then []
     else expand_flags v (uc_USEExpandValue cfg v)) vs)) \<or> flag_on m f"
  by (induction vs arbitrary: m) (auto simp: Let_def)

text \<open>No entry is ever stored as \<open>false\<close>.\<close>

definition only_true :: "(string \<rightharpoonup> bool) \<Rightarrow> bool" where
  "only_true m \<longleftrightarrow> (\<forall>f. m f \<noteq> Some False)"

lemma only_true_upd [simp]: "only_true m \<Longrightarrow> only_true (m(k \<mapsto> True))" "only_true m \<Longrightarrow> only_true (m(k := None))"
  by (simp_all add: only_true_def)

lemma only_true_set [simp]: "only_true m \<Longrightarrow> only_true (set_flags fs m)"
  by (induction fs arbitrary: m) simp_all

lemma only_true_delete [simp]: "only_true m \<Longrightarrow> only_true (delete_flags fs m)"
  by (induction fs arbitrary: m) simp_all

lemma only_true_list [simp]: "only_true m \<Longrightarrow> only_true (apply_use_flag_list m fs)"
  by (induction fs arbitrary: m) simp_all

lemma only_true_defaults [simp]: "only_true m \<Longrightarrow> only_true (apply_iuse_defaults iuse fs m)"
  by (induction fs arbitrary: m) simp_all

lemma only_true_expand [simp]: "only_true m \<Longrightarrow> only_true (apply_expand_vars cfg vs m)"
  by (induction vs arbitrary: m) (simp_all add: Let_def)

lemma resolve_only_true: "only_true (resolve_effective_use ks iuse cat name ver sl cfg)"
proof -
  have "only_true (\<lambda>_. None)" by (simp add: only_true_def)
  then show ?thesis by (simp add: resolve_effective_use_def Let_def split: option.split)
qed

lemma resolve_on:
  assumes "enumerates ks iuse"
  shows "flag_on (resolve_effective_use ks iuse cat name ver sl (Some c)) f \<longleftrightarrow>
    f \<notin> set (uc_MaskedUSE c) \<and>
    (f \<in> set (uc_ForcedUSE c) \<or>
     setting (uc_PackageUSEFlags c cat name ver sl) f
       (f \<in> set (expanded c) \<or>
        setting (uc_ProfileUSEFlags c @ uc_GlobalUSEFlags c) f (flag_on iuse f)))"
proof -
  have "f \<in> set ks" if "flag_on iuse f"
    using enumerates_set [OF assms, of f] that unfolding flag_on_def by blast
  then have "flag_on (apply_iuse_defaults iuse ks (\<lambda>_. None)) f = flag_on iuse f"
    by (auto simp: iuse_defaults_on)
  then show ?thesis
    by (simp add: resolve_effective_use_def Let_def apply_list_setting expand_vars_on expanded_def setting_append)
qed

subsection \<open>First mention and last mention\<close>

definition plain_flag :: "string \<Rightarrow> bool" where
  "plain_flag f \<longleftrightarrow> \<not> has_prefix f ''-''"

definition consistent_flags :: "string list \<Rightarrow> bool" where
  "consistent_flags fs \<longleftrightarrow> (\<forall>f. f \<in> set fs \<longrightarrow> CHR ''-'' # f \<notin> set fs)"

lemma setting_mentions:
  assumes "consistent_flags fs" "plain_flag f"
  shows "setting fs f b = (if f \<in> set fs then True else if CHR ''-'' # f \<in> set fs then False else b)"
  using assms
proof (induction fs arbitrary: b)
  case (Cons x xs)
  have "consistent_flags xs" using Cons.prems(1) by (auto simp: consistent_flags_def)
  then have IH: "setting xs f b = (if f \<in> set xs then True else if CHR ''-'' # f \<in> set xs then False else b)" for b
    using Cons by simp
  have "CHR ''-'' # f \<noteq> f" by simp
  with Cons.prems show ?case by (auto simp: IH consistent_flags_def plain_flag_def)
qed simp

lemma first_mentions:
  assumes "consistent_flags fs" "plain_flag f"
  shows "first_setting fs f = (if f \<in> set fs then Some True else if CHR ''-'' # f \<in> set fs then Some False else None)"
  using assms
proof (induction fs)
  case (Cons x xs)
  have "consistent_flags xs" using Cons.prems(1) by (auto simp: consistent_flags_def)
  moreover have "has_prefix x ''-'' \<and> drop 1 x = f \<longleftrightarrow> x = CHR ''-'' # f"
    using dash_flag [of x f] by auto
  ultimately show ?case using Cons by (auto simp: consistent_flags_def)
qed simp

lemma setting_global:
  assumes "distinct ks" "\<forall>k \<in> set ks. plain_flag k" "plain_flag f"
  shows "setting (map (\<lambda>k. if flag_on m k then k else ''-'' @ k) ks) f b =
    (if f \<in> set ks then flag_on m f else b)"
  using assms
proof (induction ks arbitrary: b)
  case (Cons k ks)
  have "k \<noteq> CHR ''-'' # f" using Cons.prems by (auto simp: plain_flag_def)
  then show ?case using Cons by (auto simp: plain_flag_def)
qed simp

lemma add_missing_keeps: "m f \<noteq> None \<Longrightarrow> add_missing_flags fs m f = m f"
  by (induction fs arbitrary: m) (auto simp: Let_def)

lemma category_and_name_join:
  "category_and_name s = (c, n) \<Longrightarrow> CHR ''/'' \<in> set s \<Longrightarrow> c @ ''/'' @ n = s"
proof -
  assume a: "category_and_name s = (c, n)" "CHR ''/'' \<in> set s"
  then obtain i where i: "index_byte s CHR ''/'' = Some i" by (metis index_byte_None option.exhaust)
  with a have "c = take i s" "n = drop (Suc i) s" by (simp_all add: category_and_name_def splitn2_byte_def)
  with index_byte_split [OF i] show ?thesis by simp
qed

subsection \<open>Properties\<close>

text \<open>
  Claim C30: the effective USE flags follow the stated priority: a masked flag is off and a forced
  flag is on whatever else is configured; otherwise the last mention in \<open>package.use\<close> decides, then
  the expanded variables, then the last mention in the profile and global lists, then the IUSE
  default. No flag is stored as disabled, and the order in which the IUSE map is visited is
  irrelevant.
\<close>

theorem effective_use_priority:
  assumes "enumerates ks iuse"
  shows "resolve_effective_use ks iuse cat name ver sl (Some c) f \<noteq> Some False \<and>
    (flag_on (resolve_effective_use ks iuse cat name ver sl (Some c)) f \<longleftrightarrow>
      f \<notin> set (uc_MaskedUSE c) \<and>
      (f \<in> set (uc_ForcedUSE c) \<or>
       setting (uc_PackageUSEFlags c cat name ver sl) f
         (f \<in> set (expanded c) \<or>
          setting (uc_ProfileUSEFlags c @ uc_GlobalUSEFlags c) f (flag_on iuse f))))"
  using resolve_only_true resolve_on [OF assms] unfolding only_true_def by blast

definition sample_config :: use_config where
  "sample_config = \<lparr>uc_ProfileUSEFlags = [''ssl''], uc_GlobalUSEFlags = [''-ssl'', ''doc''],
     uc_PackageUSEFlags = (\<lambda>_ _ _ _. [''ssl'', ''-doc'']),
     uc_USEExpandValue = (\<lambda>v. if v = ''LUA_TARGETS'' then ''lua5-1'' else ''''),
     uc_ForcedUSE = [''doc''], uc_MaskedUSE = [''ssl'']\<rparr>"

theorem effective_use_priority_witness:
  "flag_on (resolve_effective_use [''doc'', ''x''] [''doc'' \<mapsto> False, ''x'' \<mapsto> True] ''c'' ''n'' ''1'' ''0'' (Some sample_config)) ''doc'' \<and>
   \<not> flag_on (resolve_effective_use [''doc'', ''x''] [''doc'' \<mapsto> False, ''x'' \<mapsto> True] ''c'' ''n'' ''1'' ''0'' (Some sample_config)) ''ssl''"
proof -
  have "enumerates [''doc'', ''x''] [''doc'' \<mapsto> False, ''x'' \<mapsto> True]" by (auto simp: enumerates_def)
  from effective_use_priority [OF this, of "''c''" "''n''" "''1''" "''0''" sample_config] show ?thesis
    by (simp add: sample_config_def)
qed

text \<open>
  the solver's fast path and the canonical resolver agree on a flag of the package's IUSE,
  for every order in which the maps are visited, provided no flag is both set and unset in the
  package's own list.
\<close>

theorem solver_use_consistent:
  assumes "enumerates gks (ufs_global u)" and "enumerates iks (p_UseFlags p)"
    and "\<forall>k \<in> dom (ufs_global u). plain_flag k" and "plain_flag f" and "CHR ''/'' \<in> set (p_Name p)"
    and "consistent_flags (package_use_flags u (p_Name p))" and "p_UseFlags p f \<noteq> None"
  shows "resolve_use_flags_for_package gks iks u p f = Some (is_use_flag_enabled u (p_Name p) f)"
proof -
  let ?iuse = "\<lambda>f. if p_UseFlags p f = None then None else Some False"
  obtain c n where cn: "category_and_name (p_Name p) = (c, n)" by (cases "category_and_name (p_Name p)")
  note full = category_and_name_join [OF cn assms(5)]
  let ?eff = "resolve_effective_use iks ?iuse c n (p_Version p) (slot_string (p_Slot p)) (Some (ufs_config gks u))"
  have "dom ?iuse = dom (p_UseFlags p)" by (auto simp: dom_def split: if_splits)
  then have iks: "enumerates iks ?iuse" using assms(2) by (simp add: enumerates_def)
  have off: "\<not> flag_on ?iuse f" by (simp add: flag_on_def)
  have gks: "distinct gks" "\<forall>k \<in> set gks. plain_flag k" "set gks = dom (ufs_global u)"
    using assms(1,3) by (auto simp: enumerates_def)
  have "flag_on ?eff f \<longleftrightarrow> setting (package_use_flags u (p_Name p)) f
      (setting (global_use_flags gks u) f False)"
    using resolve_on [OF iks, of c n "p_Version p" "slot_string (p_Slot p)" "ufs_config gks u" f] full off
    by (simp add: ufs_config_def expanded_def use_expand_vars_def)
  also have "setting (global_use_flags gks u) f False = flag_on (ufs_global u) f"
    using setting_global [OF gks(1,2) assms(4)] gks(3) by (auto simp: global_use_flags_def flag_on_def)
  also have "setting (package_use_flags u (p_Name p)) f (flag_on (ufs_global u) f) =
      is_use_flag_enabled u (p_Name p) f"
    using first_mentions [OF assms(6,4)] setting_mentions [OF assms(6,4)]
    by (auto simp: is_use_flag_enabled_def package_use_flags_def flag_on_def split: option.splits)
  finally have eff: "flag_on ?eff f = is_use_flag_enabled u (p_Name p) f" .
  show ?thesis
    using assms(7) eff
    by (auto simp: resolve_use_flags_for_package_def cn Let_def add_missing_keeps split: option.split)
qed

definition sample_ufs :: "string list \<Rightarrow> use_flag_solver" where
  "sample_ufs fs = set_package_use_flags ''c/a'' fs (set_global_use_flag ''ssl'' True new_use_flag_solver)"

definition sample_iuse_pkg :: package where
  "sample_iuse_pkg = (sample_pkg ''c/a'' [])\<lparr>p_UseFlags := [''ssl'' \<mapsto> True]\<rparr>"

theorem solver_use_consistent_witness:
  "resolve_use_flags_for_package [''ssl''] [''ssl''] (sample_ufs [''-ssl'', ''doc'']) sample_iuse_pkg ''ssl'' =
     Some (is_use_flag_enabled (sample_ufs [''-ssl'', ''doc'']) ''c/a'' ''ssl'') \<and>
   \<not> is_use_flag_enabled (sample_ufs [''-ssl'', ''doc'']) ''c/a'' ''ssl''"
proof -
  have "p_Name sample_iuse_pkg = ''c/a''" by (simp add: sample_iuse_pkg_def sample_pkg_def new_package_def)
  moreover have "resolve_use_flags_for_package [''ssl''] [''ssl''] (sample_ufs [''-ssl'', ''doc'']) sample_iuse_pkg ''ssl'' =
     Some (is_use_flag_enabled (sample_ufs [''-ssl'', ''doc'']) (p_Name sample_iuse_pkg) ''ssl'')"
    by (rule solver_use_consistent)
       (auto simp: sample_ufs_def sample_iuse_pkg_def sample_pkg_def new_package_def enumerates_def
         set_package_use_flags_def set_global_use_flag_def new_use_flag_solver_def plain_flag_def
         consistent_flags_def package_use_flags_def)
  moreover have "\<not> is_use_flag_enabled (sample_ufs [''-ssl'', ''doc'']) ''c/a'' ''ssl''" by code_simp
  ultimately show ?thesis by simp
qed

text \<open>
  With a contradictory list the first mention decides on the fast path and the last one in the
  resolver.
\<close>

lemma contradictory_flags_differ:
  "is_use_flag_enabled (sample_ufs [''ssl'', ''-ssl'']) ''c/a'' ''ssl'' \<and>
   resolve_use_flags_for_package [''ssl''] [''ssl''] (sample_ufs [''ssl'', ''-ssl'']) sample_iuse_pkg ''ssl'' = Some False"
  by code_simp

end
