(* ===== verification/Dep_Graph.thy ===== *)
theory Dep_Graph
  imports Packages
begin

section \<open>The dependency graph\<close>

text \<open>
  \<open>internal/solver/graph.go\<close> and \<open>cycle_detector.go\<close>. The graph keeps its nodes in a map by package
  name, each edge in three places (the graph, its source's \<open>Dependencies\<close>, its target's
  \<open>Dependents\<close>) and the state of the traversals in the nodes; so does the record \<open>dep_graph\<close>.
  Pointers to nodes are lookups by name, and a write through one is \<open>update_node\<close>.

  \<open>wf_graph\<close> is the invariant of the two operations that build a graph. The traversals take fuel:
  \<open>detect_fuel\<close> is shown to be enough for the cycle search, and \<open>calculate_depths\<close> is shown to end
  for some fuel (the work list argument needs no bound).
\<close>

subsection \<open>Data and construction\<close>

datatype edge_type = EdgeTypeRuntime | EdgeTypeBuildtime | EdgeTypeBuild

datatype node_state = NodeStateUnvisited | NodeStateVisiting | NodeStateVisited

record graph_edge =
  e_From :: string
  e_To :: string
  e_Constraint :: pkg_constraint
  e_Type :: edge_type

record graph_node =
  n_Package :: package
  n_Dependencies :: "graph_edge list"
  n_Dependents :: "graph_edge list"
  n_Depth :: int
  n_Visited :: bool
  n_InStack :: bool
  n_State :: node_state

record dep_graph =
  g_nodes :: "string \<rightharpoonup> graph_node"
  g_edges :: "graph_edge list"
  g_roots :: "string list"

definition new_dependency_graph :: dep_graph where
  "new_dependency_graph = \<lparr>g_nodes = (\<lambda>_. None), g_edges = [], g_roots = []\<rparr>"

definition add_package :: "package \<Rightarrow> bool \<Rightarrow> dep_graph \<Rightarrow> dep_graph" where
  "add_package p is_root g =
     (if g_nodes g (p_Name p) \<noteq> None then g
      else
        (let node = \<lparr>n_Package = p, n_Dependencies = [], n_Dependents = [],
               n_Depth = (if is_root then 0 else - 1), n_Visited = False, n_InStack = False,
               n_State = NodeStateUnvisited\<rparr>;
             g1 = g\<lparr>g_nodes := (g_nodes g)(p_Name p \<mapsto> node)\<rparr> in
         if is_root then g1\<lparr>g_roots := g_roots g1 @ [p_Name p]\<rparr> else g1))"

text \<open>A write through a pointer to the node stored under a name.\<close>

definition update_node :: "string \<Rightarrow> (graph_node \<Rightarrow> graph_node) \<Rightarrow> dep_graph \<Rightarrow> dep_graph" where
  "update_node k f g = g\<lparr>g_nodes := (g_nodes g)(k := map_option f (g_nodes g k))\<rparr>"

datatype graph_error = ErrSourceNotFound string | ErrTargetNotFound string

definition add_dependency ::
  "string \<Rightarrow> string \<Rightarrow> pkg_constraint \<Rightarrow> edge_type \<Rightarrow> dep_graph \<Rightarrow> graph_error + dep_graph" where
  "add_dependency src dst c t g =
     (case g_nodes g src of
        None \<Rightarrow> Inl (ErrSourceNotFound src)
      | Some _ \<Rightarrow>
          (case g_nodes g dst of
             None \<Rightarrow> Inl (ErrTargetNotFound dst)
           | Some _ \<Rightarrow>
               (let e = \<lparr>e_From = src, e_To = dst, e_Constraint = c, e_Type = t\<rparr>;
                    g1 = g\<lparr>g_edges := g_edges g @ [e]\<rparr>;
                    g2 = update_node src (\<lambda>n. n\<lparr>n_Dependencies := n_Dependencies n @ [e]\<rparr>) g1
                in Inr (update_node dst (\<lambda>n. n\<lparr>n_Dependents := n_Dependents n @ [e]\<rparr>) g2))))"

definition get_node :: "string \<Rightarrow> dep_graph \<Rightarrow> graph_node option" where
  "get_node k g = g_nodes g k"

definition edge_count :: "dep_graph \<Rightarrow> nat" where
  "edge_count g = length (g_edges g)"

subsection \<open>Depths\<close>

definition reset_depths :: "dep_graph \<Rightarrow> dep_graph" where
  "reset_depths g = g\<lparr>g_nodes := (\<lambda>k. map_option (\<lambda>n. if n_Depth n \<noteq> 0 then n\<lparr>n_Depth := - 1\<rparr> else n) (g_nodes g k))\<rparr>"

text \<open>
  The inner loop over the edges of \<open>cur\<close>, and the loop over the queue. \<open>None\<close> is the nil dereference
  of a missing node, or fuel running out.
\<close>

fun relax_edges :: "string \<Rightarrow> graph_edge list \<Rightarrow> dep_graph \<Rightarrow> string list \<Rightarrow> (dep_graph \<times> string list) option" where
  "relax_edges cur [] g q = Some (g, q)"
| "relax_edges cur (e # es) g q =
     (case g_nodes g cur of
        None \<Rightarrow> None
      | Some node \<Rightarrow>
          (case g_nodes g (e_To e) of
             None \<Rightarrow> None
           | Some dep \<Rightarrow>
               (let new_depth = n_Depth node + 1 in
                if n_Depth dep = - 1 \<or> new_depth < n_Depth dep
                then relax_edges cur es (update_node (e_To e) (\<lambda>n. n\<lparr>n_Depth := new_depth\<rparr>) g) (q @ [e_To e])
                else relax_edges cur es g q)))"

fun bfs_loop :: "nat \<Rightarrow> string list \<Rightarrow> dep_graph \<Rightarrow> dep_graph option" where
  "bfs_loop n [] g = Some g"
| "bfs_loop 0 (cur # q) g = None"
| "bfs_loop (Suc n) (cur # q) g =
     (case g_nodes g cur of
        None \<Rightarrow> None
      | Some node \<Rightarrow>
          (case relax_edges cur (n_Dependencies node) g q of
             None \<Rightarrow> None
           | Some (g', q') \<Rightarrow> bfs_loop n q' g'))"

definition calculate_depths :: "nat \<Rightarrow> dep_graph \<Rightarrow> dep_graph option" where
  "calculate_depths n g = (let g0 = reset_depths g in bfs_loop n (g_roots g0) g0)"

definition get_packages_by_depth :: "string list \<Rightarrow> dep_graph \<Rightarrow> int \<Rightarrow> string list" where
  "get_packages_by_depth ks g d =
     filter (\<lambda>k. case g_nodes g k of Some n \<Rightarrow> n_Depth n \<ge> 0 \<and> n_Depth n = d | None \<Rightarrow> False) ks"

subsection \<open>Cycle search\<close>

definition reset_visited :: "dep_graph \<Rightarrow> dep_graph" where
  "reset_visited g = g\<lparr>g_nodes := (\<lambda>k. map_option
     (\<lambda>n. n\<lparr>n_Visited := False, n_InStack := False, n_State := NodeStateUnvisited\<rparr>) (g_nodes g k))\<rparr>"

fun extract_cycle :: "string list \<Rightarrow> string \<Rightarrow> string list" where
  "extract_cycle [] start = [start]"
| "extract_cycle (x # xs) start = (if x = start then x # xs else extract_cycle xs start)"

definition enter_node :: "graph_node \<Rightarrow> graph_node" where
  "enter_node n = n\<lparr>n_State := NodeStateVisiting, n_Visited := True, n_InStack := True\<rparr>"

definition leave_node :: "graph_node \<Rightarrow> graph_node" where
  "leave_node n = n\<lparr>n_State := NodeStateVisited, n_InStack := False\<rparr>"

fun dfs_detect_cycle ::
  "nat \<Rightarrow> string \<Rightarrow> string list \<Rightarrow> dep_graph \<Rightarrow> (dep_graph \<times> string list option) option"
and dfs_edges ::
  "nat \<Rightarrow> graph_edge list \<Rightarrow> string list \<Rightarrow> dep_graph \<Rightarrow> (dep_graph \<times> string list option) option"
where
  "dfs_detect_cycle 0 name path g = None"
| "dfs_detect_cycle (Suc n) name path g =
     (case g_nodes g name of
        None \<Rightarrow> Some (g, None)
      | Some node \<Rightarrow>
          (case n_State node of
             NodeStateVisited \<Rightarrow> Some (g, None)
           | NodeStateVisiting \<Rightarrow> Some (g, Some (extract_cycle path name))
           | NodeStateUnvisited \<Rightarrow>
               (case dfs_edges n (n_Dependencies node) (path @ [name]) (update_node name enter_node g) of
                  None \<Rightarrow> None
                | Some (g', Some c) \<Rightarrow> Some (g', Some c)
                | Some (g', None) \<Rightarrow> Some (update_node name leave_node g', None))))"
| "dfs_edges n [] path g = Some (g, None)"
| "dfs_edges 0 (e # es) path g = None"
| "dfs_edges (Suc n) (e # es) path g =
     (case dfs_detect_cycle n (e_To e) path g of
        None \<Rightarrow> None
      | Some (g', Some c) \<Rightarrow> Some (g', Some c)
      | Some (g', None) \<Rightarrow> dfs_edges n es path g')"

text \<open>The two loops of \<open>DetectCycles\<close>; \<open>all\<close> visits every name, otherwise only those not yet visited.\<close>

fun detect_from :: "nat \<Rightarrow> bool \<Rightarrow> string list \<Rightarrow> dep_graph \<Rightarrow> (dep_graph \<times> string list option) option" where
  "detect_from n every [] g = Some (g, None)"
| "detect_from n every (k # ks) g =
     (if \<not> every \<and> (case g_nodes g k of Some node \<Rightarrow> n_Visited node | None \<Rightarrow> True)
      then detect_from n every ks g
      else case dfs_detect_cycle n k [] g of
        None \<Rightarrow> None
      | Some (g', Some c) \<Rightarrow> Some (g', Some c)
      | Some (g', None) \<Rightarrow> detect_from n every ks g')"

definition detect_cycles :: "nat \<Rightarrow> string list \<Rightarrow> dep_graph \<Rightarrow> (dep_graph \<times> string list option) option" where
  "detect_cycles n ks g =
     (let g0 = reset_visited g in
      case detect_from n True (g_roots g0) g0 of
        None \<Rightarrow> None
      | Some (g', Some c) \<Rightarrow> Some (g', Some c)
      | Some (g', None) \<Rightarrow> detect_from n False ks g')"

definition has_cycles :: "nat \<Rightarrow> string list \<Rightarrow> dep_graph \<Rightarrow> bool option" where
  "has_cycles n ks g = map_option (\<lambda>(_, c). c \<noteq> None) (detect_cycles n ks g)"

definition cycle_error_text :: "string list \<Rightarrow> string" where
  "cycle_error_text c =
     (if c = [] then ''circular dependency detected''
      else ''circular dependency detected: '' @ join '' -> '' c @ '' -> '' @ hd c)"

text \<open>\<open>normalizeCycle\<close>: rotate to the first occurrence of the smallest name.\<close>

function min_index :: "string list \<Rightarrow> nat \<Rightarrow> nat \<Rightarrow> nat" where
  "min_index c m i =
     (if length c \<le> i then m
      else min_index c (if str_compare (c ! i) (c ! m) < 0 then i else m) (i + 1))"
  by pat_completeness auto
termination by (relation "measure (\<lambda>(c, m, i). length c - i)") auto

declare min_index.simps [simp del]

definition normalize_cycle :: "string list \<Rightarrow> string list" where
  "normalize_cycle c =
     (if length c = 0 then c
      else (let m = min_index c 0 1 in map (\<lambda>i. c ! ((m + i) mod length c)) [0..<length c]))"

subsection \<open>The invariant\<close>

definition edge_rel :: "dep_graph \<Rightarrow> (string \<times> string) set" where
  "edge_rel g = {(e_From e, e_To e) |e. e \<in> set (g_edges g)}"

definition wf_graph :: "dep_graph \<Rightarrow> bool" where
  "wf_graph g \<longleftrightarrow>
     finite (dom (g_nodes g)) \<and> distinct (g_roots g) \<and> set (g_roots g) \<subseteq> dom (g_nodes g) \<and>
     (\<forall>e \<in> set (g_edges g). e_From e \<in> dom (g_nodes g) \<and> e_To e \<in> dom (g_nodes g)) \<and>
     (\<forall>k n. g_nodes g k = Some n \<longrightarrow>
        p_Name (n_Package n) = k \<and>
        n_Dependencies n = filter (\<lambda>e. e_From e = k) (g_edges g) \<and>
        n_Dependents n = filter (\<lambda>e. e_To e = k) (g_edges g) \<and>
        (n_Depth n = 0 \<longleftrightarrow> k \<in> set (g_roots g)) \<and> - 1 \<le> n_Depth n)"

lemma update_node_nodes [simp]:
  "g_nodes (update_node k f g) j = (if j = k then map_option f (g_nodes g j) else g_nodes g j)"
  "g_edges (update_node k f g) = g_edges g" "g_roots (update_node k f g) = g_roots g"
  by (auto simp: update_node_def)

lemma update_node_dom [simp]: "dom (g_nodes (update_node k f g)) = dom (g_nodes g)"
  by (auto simp: update_node_def dom_def)

lemma wf_new_graph: "wf_graph new_dependency_graph"
  by (simp add: wf_graph_def new_dependency_graph_def)

lemma wf_add_package:
  assumes "wf_graph g"
  shows "wf_graph (add_package p r g)"
proof (cases "g_nodes g (p_Name p) = None")
  case False
  with assms show ?thesis by (simp add: add_package_def)
next
  case True
  let ?k = "p_Name p" and ?h = "add_package p r g"
  have new: "?k \<notin> dom (g_nodes g)" using True by auto
  have e: "g_edges ?h = g_edges g" "g_roots ?h = (if r then g_roots g @ [?k] else g_roots g)"
    "dom (g_nodes ?h) = insert ?k (dom (g_nodes g))"
    using True by (simp_all add: add_package_def Let_def)
  have no: "e_From x \<noteq> ?k \<and> e_To x \<noteq> ?k" if "x \<in> set (g_edges g)" for x
    using assms that new by (auto simp: wf_graph_def)
  have old: "g_nodes ?h k = g_nodes g k" if "k \<noteq> ?k" for k
    using that True by (simp add: add_package_def Let_def)
  obtain n where n: "g_nodes ?h ?k = Some n" "n_Package n = p" "n_Dependencies n = []" "n_Dependents n = []"
    "n_Depth n = (if r then 0 else - 1)"
    using True by (cases r) (auto simp: add_package_def Let_def)
  have "p_Name (n_Package m) = k \<and> n_Dependencies m = filter (\<lambda>e. e_From e = k) (g_edges g) \<and>
      n_Dependents m = filter (\<lambda>e. e_To e = k) (g_edges g) \<and>
      (n_Depth m = 0 \<longleftrightarrow> k \<in> set (g_roots ?h)) \<and> - 1 \<le> n_Depth m" if m: "g_nodes ?h k = Some m" for k m
  proof (cases "k = ?k")
    case True
    have "?k \<notin> set (g_roots g)" using assms new by (auto simp: wf_graph_def)
    moreover have "filter (\<lambda>e. e_From e = ?k) (g_edges g) = []" "filter (\<lambda>e. e_To e = ?k) (g_edges g) = []"
      using no by (auto simp: filter_empty_conv)
    ultimately show ?thesis using True m n e by simp
  next
    case False
    with m old assms e show ?thesis by (simp add: wf_graph_def)
  qed
  then show ?thesis using assms new unfolding wf_graph_def e by auto
qed

lemma wf_add_dependency:
  assumes "wf_graph g" "add_dependency src dst c t g = Inr g'"
  shows "wf_graph g'"
proof -
  let ?e = "\<lparr>e_From = src, e_To = dst, e_Constraint = c, e_Type = t\<rparr>"
  obtain a b where ab: "g_nodes g src = Some a" "g_nodes g dst = Some b"
    and g': "g' = update_node dst (\<lambda>n. n\<lparr>n_Dependents := n_Dependents n @ [?e]\<rparr>)
      (update_node src (\<lambda>n. n\<lparr>n_Dependencies := n_Dependencies n @ [?e]\<rparr>) (g\<lparr>g_edges := g_edges g @ [?e]\<rparr>))"
    using assms(2) by (auto simp: add_dependency_def Let_def split: option.splits)
  have dom: "dom (g_nodes g') = dom (g_nodes g)" by (simp add: g')
  have e: "g_edges g' = g_edges g @ [?e]" "g_roots g' = g_roots g" by (simp_all add: g')
  have "p_Name (n_Package n) = k \<and> n_Dependencies n = filter (\<lambda>e. e_From e = k) (g_edges g') \<and>
      n_Dependents n = filter (\<lambda>e. e_To e = k) (g_edges g') \<and>
      (n_Depth n = 0 \<longleftrightarrow> k \<in> set (g_roots g')) \<and> - 1 \<le> n_Depth n" if n: "g_nodes g' k = Some n" for k n
  proof -
    from n dom obtain m where m: "g_nodes g k = Some m" by (metis domD domI)
    then have "n_Package n = n_Package m \<and> n_Depth n = n_Depth m \<and>
        n_Dependencies n = n_Dependencies m @ (if k = src then [?e] else []) \<and>
        n_Dependents n = n_Dependents m @ (if k = dst then [?e] else [])"
      using n by (auto simp: g' split: if_splits)
    moreover have "p_Name (n_Package m) = k \<and> n_Dependencies m = filter (\<lambda>e. e_From e = k) (g_edges g) \<and>
        n_Dependents m = filter (\<lambda>e. e_To e = k) (g_edges g) \<and>
        (n_Depth m = 0 \<longleftrightarrow> k \<in> set (g_roots g)) \<and> - 1 \<le> n_Depth m"
      using assms(1) m by (simp add: wf_graph_def)
    ultimately show ?thesis by (simp add: e)
  qed
  moreover have "\<forall>x \<in> set (g_edges g'). e_From x \<in> dom (g_nodes g') \<and> e_To x \<in> dom (g_nodes g')"
    using assms(1) ab by (auto simp: e dom wf_graph_def)
  ultimately show ?thesis using assms(1) unfolding wf_graph_def dom e by simp
qed

lemma add_dependency_ok:
  assumes "src \<in> dom (g_nodes g)" "dst \<in> dom (g_nodes g)"
  obtains g' where "add_dependency src dst c t g = Inr g'" "dom (g_nodes g') = dom (g_nodes g)"
    "g_roots g' = g_roots g"
    "g_edges g' = g_edges g @ [\<lparr>e_From = src, e_To = dst, e_Constraint = c, e_Type = t\<rparr>]"
proof -
  obtain a b where "g_nodes g src = Some a" "g_nodes g dst = Some b" using assms by auto
  then show ?thesis using that by (simp add: add_dependency_def Let_def)
qed

text \<open>The traversals change the marks of the nodes only.\<close>

definition node_shape :: "graph_node \<Rightarrow> package \<times> graph_edge list \<times> graph_edge list" where
  "node_shape n = (n_Package n, n_Dependencies n, n_Dependents n)"

definition same_shape :: "dep_graph \<Rightarrow> dep_graph \<Rightarrow> bool" where
  "same_shape g h \<longleftrightarrow>
     g_edges h = g_edges g \<and> g_roots h = g_roots g \<and>
     (\<forall>k. rel_option (\<lambda>m n. node_shape m = node_shape n) (g_nodes g k) (g_nodes h k))"

lemma same_shape_refl [simp]: "same_shape g g"
  by (simp add: same_shape_def option.rel_refl)

lemma same_shape_node:
  assumes "same_shape g h" "g_nodes h k = Some n"
  obtains m where "g_nodes g k = Some m" "node_shape m = node_shape n"
proof -
  have "rel_option (\<lambda>m n. node_shape m = node_shape n) (g_nodes g k) (g_nodes h k)"
    using assms(1) by (simp add: same_shape_def)
  then show ?thesis using that assms(2) by (cases "g_nodes g k") simp_all
qed

lemma same_shape_trans: "same_shape g h \<Longrightarrow> same_shape h i \<Longrightarrow> same_shape g i"
  unfolding same_shape_def
proof (elim conjE, intro conjI allI)
  fix k
  assume "\<forall>k. rel_option (\<lambda>m n. node_shape m = node_shape n) (g_nodes g k) (g_nodes h k)"
    "\<forall>k. rel_option (\<lambda>m n. node_shape m = node_shape n) (g_nodes h k) (g_nodes i k)"
  then have "rel_option (\<lambda>m n. node_shape m = node_shape n) (g_nodes g k) (g_nodes h k)"
    "rel_option (\<lambda>m n. node_shape m = node_shape n) (g_nodes h k) (g_nodes i k)" by blast+
  then show "rel_option (\<lambda>m n. node_shape m = node_shape n) (g_nodes g k) (g_nodes i k)"
    by (cases "g_nodes g k"; cases "g_nodes h k"; cases "g_nodes i k") simp_all
qed simp_all

lemma same_shape_update:
  assumes "\<And>n. node_shape (f n) = node_shape n"
  shows "same_shape g (update_node k f g)"
proof -
  have "rel_option (\<lambda>m n. node_shape m = node_shape n) x (map_option f x)" for x
    using assms by (cases x) simp_all
  moreover have "rel_option (\<lambda>m n. node_shape m = node_shape n) x x" for x by (cases x) simp_all
  ultimately show ?thesis by (simp add: same_shape_def)
qed

lemma same_shape_dom: "same_shape g h \<Longrightarrow> dom (g_nodes h) = dom (g_nodes g)"
proof -
  assume s: "same_shape g h"
  have "g_nodes h k = None \<longleftrightarrow> g_nodes g k = None" for k
  proof -
    have "rel_option (\<lambda>m n. node_shape m = node_shape n) (g_nodes g k) (g_nodes h k)"
      using s by (simp add: same_shape_def)
    then show ?thesis by (cases "g_nodes g k"; cases "g_nodes h k") simp_all
  qed
  then show ?thesis by (simp add: dom_def)
qed

lemma edge_rel_shape: "same_shape g h \<Longrightarrow> edge_rel h = edge_rel g"
  by (simp add: same_shape_def edge_rel_def)

text \<open>What the proofs need of the shape of a well-formed graph.\<close>

definition shape_ok :: "dep_graph \<Rightarrow> bool" where
  "shape_ok g \<longleftrightarrow>
     finite (dom (g_nodes g)) \<and> set (g_roots g) \<subseteq> dom (g_nodes g) \<and>
     (\<forall>e \<in> set (g_edges g). e_From e \<in> dom (g_nodes g) \<and> e_To e \<in> dom (g_nodes g)) \<and>
     (\<forall>k n. g_nodes g k = Some n \<longrightarrow> n_Dependencies n = filter (\<lambda>e. e_From e = k) (g_edges g))"

lemma wf_shape_ok: "wf_graph g \<Longrightarrow> shape_ok g"
  by (simp add: wf_graph_def shape_ok_def)

lemma shape_ok_shape: "shape_ok g \<Longrightarrow> same_shape g h \<Longrightarrow> shape_ok h"
proof -
  assume g: "shape_ok g" and s: "same_shape g h"
  have "n_Dependencies n = filter (\<lambda>e. e_From e = k) (g_edges h)" if n: "g_nodes h k = Some n" for k n
  proof -
    obtain m where "g_nodes g k = Some m" "node_shape m = node_shape n"
      by (rule same_shape_node [OF s n])
    with g s show ?thesis by (simp add: shape_ok_def same_shape_def node_shape_def)
  qed
  moreover have "g_edges h = g_edges g" "g_roots h = g_roots g" using s by (simp_all add: same_shape_def)
  ultimately show ?thesis using g same_shape_dom [OF s] by (simp add: shape_ok_def)
qed

lemma shape_succ:
  "shape_ok g \<Longrightarrow> g_nodes g k = Some n \<Longrightarrow> e_To ` set (n_Dependencies n) = {v. (k, v) \<in> edge_rel g}"
  by (auto simp: shape_ok_def edge_rel_def)

lemma shape_edge_dom:
  "shape_ok g \<Longrightarrow> (u, v) \<in> edge_rel g \<Longrightarrow> u \<in> dom (g_nodes g) \<and> v \<in> dom (g_nodes g)"
  by (auto simp: shape_ok_def edge_rel_def)

subsection \<open>The cycle search is sound, complete and ends\<close>

definition in_state :: "node_state \<Rightarrow> dep_graph \<Rightarrow> string set" where
  "in_state s g = {k. \<exists>n. g_nodes g k = Some n \<and> n_State n = s}"

abbreviation white :: "dep_graph \<Rightarrow> string set" where "white \<equiv> in_state NodeStateUnvisited"
abbreviation gray :: "dep_graph \<Rightarrow> string set" where "gray \<equiv> in_state NodeStateVisiting"
abbreviation black :: "dep_graph \<Rightarrow> string set" where "black \<equiv> in_state NodeStateVisited"

definition is_cycle :: "(string \<times> string) set \<Rightarrow> string list \<Rightarrow> bool" where
  "is_cycle E c \<longleftrightarrow> c \<noteq> [] \<and> successively (\<lambda>u v. (u, v) \<in> E) c \<and> (last c, hd c) \<in> E"

lemma enter_shape [simp]: "node_shape (enter_node n) = node_shape n"
  and leave_shape [simp]: "node_shape (leave_node n) = node_shape n"
  by (simp_all add: node_shape_def enter_node_def leave_node_def)

lemma in_state_update:
  assumes "g_nodes g k = Some n" "n_State (f n) = t"
  shows "in_state s (update_node k f g) = (if s = t then insert k (in_state s g) else in_state s g - {k})"
  using assms by (auto simp: in_state_def split: if_splits)

lemma states_partition: "in_state s g \<inter> in_state t g = (if s = t then in_state s g else {})"
  by (auto simp: in_state_def)

lemma states_dom: "dom (g_nodes g) = white g \<union> gray g \<union> black g"
proof
  show "dom (g_nodes g) \<subseteq> white g \<union> gray g \<union> black g"
  proof
    fix k
    assume "k \<in> dom (g_nodes g)"
    then obtain n where "g_nodes g k = Some n" by auto
    then show "k \<in> white g \<union> gray g \<union> black g" by (cases "n_State n") (auto simp: in_state_def)
  qed
qed (auto simp: in_state_def)

lemma dfs_frame:
  "dfs_detect_cycle n name path g = Some (g', r) \<Longrightarrow> same_shape g g' \<and> white g' \<subseteq> white g"
  "dfs_edges n es path g = Some (g', r) \<Longrightarrow> same_shape g g' \<and> white g' \<subseteq> white g"
proof (induction n name path g and n es path g arbitrary: g' r and g' r
    rule: dfs_detect_cycle_dfs_edges.induct)
  case (2 n name path g)
  show ?case
  proof (cases "\<exists>node. g_nodes g name = Some node \<and> n_State node = NodeStateUnvisited")
    case False
    with "2.prems" show ?thesis by (auto split: option.splits node_state.splits)
  next
    case True
    then obtain node where node: "g_nodes g name = Some node" "n_State node = NodeStateUnvisited" by blast
    let ?g1 = "update_node name enter_node g"
    have w1: "white ?g1 \<subseteq> white g"
      using in_state_update [OF node(1), of enter_node NodeStateVisiting NodeStateUnvisited]
      by (simp add: enter_node_def)
    obtain g2 r2 where e: "dfs_edges n (n_Dependencies node) (path @ [name]) ?g1 = Some (g2, r2)"
      and g': "g' = (case r2 of Some c \<Rightarrow> g2 | None \<Rightarrow> update_node name leave_node g2)"
      using "2.prems" node by (auto split: option.splits)
    from "2.IH" [OF node e] have g2: "same_shape ?g1 g2" "white g2 \<subseteq> white ?g1" by auto
    have s1: "same_shape g ?g1" by (rule same_shape_update) simp
    have s2: "same_shape g2 (update_node name leave_node g2)" by (rule same_shape_update) simp
    have "white (update_node name leave_node g2) \<subseteq> white g2"
      by (auto simp: in_state_def leave_node_def split: if_splits)
    with g' g2 w1 s1 s2 show ?thesis
      by (cases r2) (auto intro: same_shape_trans)
  qed
next
  case (5 n e es path g)
  show ?case
  proof (cases "dfs_detect_cycle n (e_To e) path g")
    case None
    with "5.prems" show ?thesis by simp
  next
    case (Some x)
    then obtain g1 r1 where x: "x = (g1, r1)" by (cases x)
    from "5.IH"(1) [OF Some [unfolded x]] have 1: "same_shape g g1 \<and> white g1 \<subseteq> white g" .
    show ?thesis
    proof (cases r1)
      case None
      with "5.prems" Some x have "dfs_edges n es path g1 = Some (g', r)" by simp
      with "5.IH"(2) [OF Some x [symmetric] None this] 1 show ?thesis by (auto intro: same_shape_trans)
    qed (use "5.prems" Some x 1 in auto)
  qed
qed auto

definition out_bound :: "nat \<Rightarrow> dep_graph \<Rightarrow> bool" where
  "out_bound m g \<longleftrightarrow> finite (dom (g_nodes g)) \<and> (\<forall>k n. g_nodes g k = Some n \<longrightarrow> length (n_Dependencies n) \<le> m)"

lemma out_bound_shape:
  assumes b: "out_bound m g" and s: "same_shape g h"
  shows "out_bound m h"
proof -
  have "length (n_Dependencies n) \<le> m" if n: "g_nodes h k = Some n" for k n
  proof -
    obtain o' where o': "g_nodes g k = Some o'" "node_shape o' = node_shape n" by (rule same_shape_node [OF s n])
    then have "length (n_Dependencies o') \<le> m" using b by (simp add: out_bound_def)
    with o'(2) show ?thesis by (simp add: node_shape_def)
  qed
  then show ?thesis using b by (simp add: out_bound_def same_shape_dom [OF s])
qed

lemma card_white: "out_bound m g \<Longrightarrow> white h \<subseteq> white g \<Longrightarrow> card (white h) \<le> card (white g)"
  by (rule card_mono) (auto simp: out_bound_def in_state_def dom_def elim: rev_finite_subset)

lemma dfs_ends:
  "out_bound m g \<Longrightarrow> card (white g) * (m + 2) + 1 \<le> n \<Longrightarrow> dfs_detect_cycle n name path g \<noteq> None"
  "out_bound m g \<Longrightarrow> card (white g) * (m + 2) + 1 + length es \<le> n \<Longrightarrow> dfs_edges n es path g \<noteq> None"
proof (induction n name path g and n es path g rule: dfs_detect_cycle_dfs_edges.induct)
  case (2 n name path g)
  show ?case
  proof (cases "\<exists>node. g_nodes g name = Some node \<and> n_State node = NodeStateUnvisited")
    case False
    then show ?thesis by (auto split: option.splits node_state.splits)
  next
    case True
    then obtain node where node: "g_nodes g name = Some node" "n_State node = NodeStateUnvisited" by blast
    let ?g1 = "update_node name enter_node g"
    have "white ?g1 = white g - {name}"
      using in_state_update [OF node(1), of enter_node NodeStateVisiting NodeStateUnvisited]
      by (simp add: enter_node_def)
    moreover have "name \<in> white g" using node by (auto simp: in_state_def)
    moreover have "finite (white g)"
      using 2(2) by (auto simp: out_bound_def in_state_def dom_def elim: rev_finite_subset)
    ultimately have c: "card (white g) = Suc (card (white ?g1))" by (metis card_Suc_Diff1)
    have b: "out_bound m ?g1"
      by (rule out_bound_shape [OF 2(2)]) (rule same_shape_update, simp)
    have "length (n_Dependencies node) \<le> m" using 2(2) node by (simp add: out_bound_def)
    then have "card (white ?g1) * (m + 2) + 1 + length (n_Dependencies node) \<le> n"
      using 2(3) c by simp
    from 2(1) [OF node b this] node show ?thesis by (auto split: option.splits)
  qed
next
  case (5 n e es path g)
  have "card (white g) * (m + 2) + 1 \<le> n" using "5.prems"(2) by simp
  from "5.IH"(1) [OF "5.prems"(1) this] obtain g1 r1 where
    1: "dfs_detect_cycle n (e_To e) path g = Some (g1, r1)" by auto
  show ?case
  proof (cases r1)
    case None
    from dfs_frame(1) [OF 1] have f: "same_shape g g1" "white g1 \<subseteq> white g" by auto
    have "card (white g1) * (m + 2) \<le> card (white g) * (m + 2)"
      using card_white [OF "5.prems"(1) f(2)] by (rule mult_le_mono1)
    then have "card (white g1) * (m + 2) + 1 + length es \<le> n" using "5.prems"(2) by simp
    from "5.IH"(2) [OF 1 refl None out_bound_shape [OF "5.prems"(1) f(1)] this] 1 None show ?thesis by simp
  qed (use 1 in simp)
qed auto

text \<open>The invariant of the search: the grey nodes are the path, what is black is closed and acyclic.\<close>

definition search_inv :: "dep_graph \<Rightarrow> string list \<Rightarrow> bool" where
  "search_inv g path \<longleftrightarrow>
     shape_ok g \<and> set path = gray g \<and> distinct path \<and>
     successively (\<lambda>u v. (u, v) \<in> edge_rel g) path \<and>
     edge_rel g `` black g \<subseteq> black g \<and> acyclic (Restr (edge_rel g) (black g)) \<and>
     (\<forall>k n. g_nodes g k = Some n \<longrightarrow> (n_Visited n \<longleftrightarrow> n_State n \<noteq> NodeStateUnvisited))"

lemma acyclic_insert_closed:
  assumes "acyclic (Restr E B)" "E `` B \<subseteq> B" "E `` {x} \<subseteq> B" "x \<notin> B"
  shows "acyclic (Restr E (insert x B))"
proof (rule acyclicI, intro allI notI)
  let ?R = "Restr E (insert x B)"
  have stays: "(a, b) \<in> ?R\<^sup>+ \<Longrightarrow> a \<in> B \<Longrightarrow> b \<in> B \<and> (a, b) \<in> (Restr E B)\<^sup>+" for a b
  proof (induction rule: trancl_induct)
    case (base y)
    with assms(2) show ?case by auto
  next
    case (step y z)
    with assms(2) have "z \<in> B" "(y, z) \<in> Restr E B" by auto
    with step show ?case by (meson trancl_into_trancl)
  qed
  fix a
  assume a: "(a, a) \<in> ?R\<^sup>+"
  show False
  proof (cases "a \<in> B")
    case True
    with stays a assms(1) show False by (auto simp: acyclic_def)
  next
    case False
    from a obtain b where b: "(a, b) \<in> ?R" "b = a \<or> (b, a) \<in> ?R\<^sup>+"
      by (metis converse_tranclE)
    with False have "a = x" by auto
    with b(1) assms(3) have "b \<in> B" by auto
    with b(2) False stays show False by blast
  qed
qed

lemma extract_cycle_split: "name \<notin> set xs \<Longrightarrow> extract_cycle (xs @ name # ys) name = name # ys"
  by (induction xs) auto

lemma extract_is_cycle:
  assumes "name \<in> set path" "successively (\<lambda>u v. (u, v) \<in> E) path" "(last path, name) \<in> E"
  shows "is_cycle E (extract_cycle path name)"
proof -
  obtain xs ys where p: "path = xs @ name # ys" "name \<notin> set xs"
    using split_list_first [OF assms(1)] by blast
  then show ?thesis
    using assms(2,3) by (simp add: extract_cycle_split is_cycle_def successively_append_iff)
qed

lemma enter_inv:
  assumes "search_inv g path" "g_nodes g name = Some node" "n_State node = NodeStateUnvisited"
    and "path = [] \<or> (last path, name) \<in> edge_rel g"
  shows "search_inv (update_node name enter_node g) (path @ [name])"
    "black (update_node name enter_node g) = black g"
proof -
  let ?g = "update_node name enter_node g"
  have st: "in_state s ?g = (if s = NodeStateVisiting then insert name (in_state s g) else in_state s g - {name})" for s
    by (rule in_state_update [OF assms(2)]) (simp add: enter_node_def)
  have nb: "name \<notin> black g" "name \<notin> gray g" using assms(2,3) by (auto simp: in_state_def)
  show b: "black ?g = black g" using st [of NodeStateVisited] nb by simp
  have s: "same_shape g ?g" by (rule same_shape_update) simp
  have e: "edge_rel ?g = edge_rel g" by (rule edge_rel_shape [OF s])
  have "successively (\<lambda>u v. (u, v) \<in> edge_rel g) (path @ [name])"
    using assms(1,4) by (cases "path = []") (simp_all add: successively_append_iff search_inv_def)
  moreover have "\<forall>k n. g_nodes ?g k = Some n \<longrightarrow> (n_Visited n \<longleftrightarrow> n_State n \<noteq> NodeStateUnvisited)"
    using assms(1) by (auto simp: search_inv_def enter_node_def split: if_splits)
  moreover have "gray ?g = insert name (gray g)" using st [of NodeStateVisiting] by simp
  ultimately show "search_inv ?g (path @ [name])"
    using assms(1) nb shape_ok_shape [OF _ s] unfolding search_inv_def e b by auto
qed

lemma leave_inv:
  assumes "search_inv g (path @ [name])" "g_nodes g name = Some node"
    and "edge_rel g `` {name} \<subseteq> black g"
  shows "search_inv (update_node name leave_node g) path"
    "black (update_node name leave_node g) = insert name (black g)"
proof -
  let ?g = "update_node name leave_node g"
  have st: "in_state s ?g = (if s = NodeStateVisited then insert name (in_state s g) else in_state s g - {name})" for s
    by (rule in_state_update [OF assms(2)]) (simp add: leave_node_def)
  have ng: "name \<in> gray g" using assms(1) by (auto simp: search_inv_def)
  then have nb: "name \<notin> black g" using states_partition [of NodeStateVisiting g NodeStateVisited] by auto
  show b: "black ?g = insert name (black g)" using st [of NodeStateVisited] by simp
  have s: "same_shape g ?g" by (rule same_shape_update) simp
  have e: "edge_rel ?g = edge_rel g" by (rule edge_rel_shape [OF s])
  have "gray ?g = gray g - {name}" using st [of NodeStateVisiting] by simp
  then have "set path = gray ?g" using assms(1) by (auto simp: search_inv_def)
  moreover have "successively (\<lambda>u v. (u, v) \<in> edge_rel g) path"
    using assms(1) by (auto simp: search_inv_def successively_append_iff)
  moreover have "\<forall>k n. g_nodes ?g k = Some n \<longrightarrow> (n_Visited n \<longleftrightarrow> n_State n \<noteq> NodeStateUnvisited)"
    using assms(1) ng by (auto simp: search_inv_def leave_node_def in_state_def split: if_splits)
  moreover have "acyclic (Restr (edge_rel g) (insert name (black g)))"
    using assms nb by (intro acyclic_insert_closed) (auto simp: search_inv_def)
  ultimately show "search_inv ?g path"
    using assms(1,3) shape_ok_shape [OF _ s] unfolding search_inv_def e b by auto
qed

lemma dfs_correct:
  "dfs_detect_cycle n name path g = Some (g', r) \<Longrightarrow> search_inv g path \<Longrightarrow>
   path = [] \<or> (last path, name) \<in> edge_rel g \<Longrightarrow> name \<in> dom (g_nodes g) \<Longrightarrow>
   (case r of None \<Rightarrow> search_inv g' path \<and> insert name (black g) \<subseteq> black g'
    | Some c \<Rightarrow> is_cycle (edge_rel g) c)"
  "dfs_edges n es path g = Some (g', r) \<Longrightarrow> search_inv g path \<Longrightarrow> path \<noteq> [] \<Longrightarrow>
   \<forall>e \<in> set es. (last path, e_To e) \<in> edge_rel g \<Longrightarrow>
   (case r of None \<Rightarrow> search_inv g' path \<and> e_To ` set es \<union> black g \<subseteq> black g'
    | Some c \<Rightarrow> is_cycle (edge_rel g) c)"
proof (induction n name path g and n es path g arbitrary: g' r and g' r
    rule: dfs_detect_cycle_dfs_edges.induct)
  case (2 n name path g)
  obtain node where node: "g_nodes g name = Some node" using "2.prems"(4) by auto
  consider "n_State node = NodeStateVisited" | "n_State node = NodeStateVisiting"
    | "n_State node = NodeStateUnvisited" by (cases "n_State node") auto
  then show ?case
  proof cases
    case 1
    then have "name \<in> black g" using node by (auto simp: in_state_def)
    with 1 2 node show ?thesis by auto
  next
    case gr: 2
    then have "name \<in> set path" using node "2.prems"(2) by (auto simp: in_state_def search_inv_def)
    moreover from this have "(last path, name) \<in> edge_rel g" using "2.prems"(3) by auto
    moreover have "r = Some (extract_cycle path name)" using "2.prems"(1) gr node by simp
    ultimately show ?thesis using extract_is_cycle "2.prems"(2) by (auto simp: search_inv_def)
  next
    case wh: 3
    let ?g1 = "update_node name enter_node g"
    note inv1 = enter_inv [OF "2.prems"(2) node wh "2.prems"(3)]
    obtain g2 r2 where e: "dfs_edges n (n_Dependencies node) (path @ [name]) ?g1 = Some (g2, r2)"
      and g': "g' = (case r2 of Some c \<Rightarrow> g2 | None \<Rightarrow> update_node name leave_node g2)" "r = r2"
      using "2.prems"(1) node wh by (auto split: option.splits)
    have s1: "same_shape g ?g1" by (rule same_shape_update) simp
    have e1: "edge_rel ?g1 = edge_rel g" by (rule edge_rel_shape [OF s1])
    have ok: "shape_ok g" using "2.prems"(2) by (simp add: search_inv_def)
    have succ: "e_To ` set (n_Dependencies node) = edge_rel g `` {name}"
      using shape_succ [OF ok node] by auto
    have "\<forall>e \<in> set (n_Dependencies node). (last (path @ [name]), e_To e) \<in> edge_rel ?g1"
      using succ by (auto simp: e1)
    note IH = "2.IH" [OF node wh e inv1(1) _ this]
    show ?thesis
    proof (cases r2)
      case None
      with IH have i2: "search_inv g2 (path @ [name])"
        and b2: "edge_rel g `` {name} \<union> black g \<subseteq> black g2" using inv1(2) succ by auto
      have s2: "same_shape ?g1 g2" using dfs_frame(2) [OF e] by simp
      have "name \<in> dom (g_nodes g2)" using same_shape_dom [OF s2] node by auto
      then obtain node2 where "g_nodes g2 name = Some node2" by auto
      from leave_inv [OF i2 this] b2 edge_rel_shape [OF s2] e1 g' None show ?thesis by auto
    next
      case (Some c)
      with IH g' e1 show ?thesis by simp
    qed
  qed
next
  case (5 n e es path g)
  obtain g1 r1 where 1: "dfs_detect_cycle n (e_To e) path g = Some (g1, r1)"
    using "5.prems"(1) by (auto split: option.splits)
  have ok: "shape_ok g" using "5.prems"(2) by (simp add: search_inv_def)
  have edge: "(last path, e_To e) \<in> edge_rel g" using "5.prems"(4) by simp
  then have "e_To e \<in> dom (g_nodes g)" using shape_edge_dom [OF ok] by blast
  note IH1 = "5.IH"(1) [OF 1 "5.prems"(2) disjI2 [OF edge] this]
  show ?case
  proof (cases r1)
    case None
    have s1: "same_shape g g1" using dfs_frame(1) [OF 1] by simp
    note e1 = edge_rel_shape [OF s1]
    from "5.prems"(1) 1 None have 2: "dfs_edges n es path g1 = Some (g', r)" by simp
    have "\<forall>e \<in> set es. (last path, e_To e) \<in> edge_rel g1" using "5.prems"(4) e1 by simp
    moreover have "search_inv g1 path" using IH1 None by simp
    ultimately have "case r of None \<Rightarrow> search_inv g' path \<and> e_To ` set es \<union> black g1 \<subseteq> black g'
      | Some c \<Rightarrow> is_cycle (edge_rel g1) c"
      using "5.IH"(2) [OF 1 refl None 2] "5.prems"(3) by blast
    with IH1 None e1 show ?thesis by (auto split: option.splits)
  next
    case (Some c)
    then have "r = Some c" using "5.prems"(1) 1 by simp
    with Some IH1 show ?thesis by simp
  qed
qed auto

lemma reset_shape: "same_shape g (reset_visited g)"
proof -
  have "rel_option (\<lambda>m n. node_shape m = node_shape n) x
      (map_option (\<lambda>n. n\<lparr>n_Visited := False, n_InStack := False, n_State := NodeStateUnvisited\<rparr>) x)" for x
    by (cases x) (simp_all add: node_shape_def)
  then show ?thesis by (simp add: same_shape_def reset_visited_def)
qed

lemma reset_inv: "shape_ok g \<Longrightarrow> search_inv (reset_visited g) []"
proof -
  assume ok: "shape_ok g"
  have "in_state s (reset_visited g) = {}" if "s \<noteq> NodeStateUnvisited" for s
    using that by (auto simp: in_state_def reset_visited_def map_option_case split: option.splits)
  moreover have "n_Visited n \<longleftrightarrow> n_State n \<noteq> NodeStateUnvisited" if "g_nodes (reset_visited g) k = Some n" for k n
    using that by (auto simp: reset_visited_def map_option_case split: option.splits)
  ultimately show ?thesis
    using shape_ok_shape [OF ok reset_shape] by (simp add: search_inv_def acyclic_def)
qed

lemma detect_from_correct:
  assumes "search_inv g []" "set ks \<subseteq> dom (g_nodes g)" "out_bound m g"
    and "card (white g) * (m + 2) + 1 \<le> n"
  shows "\<exists>g' r. detect_from n every ks g = Some (g', r) \<and> same_shape g g' \<and> white g' \<subseteq> white g \<and>
    (case r of None \<Rightarrow> search_inv g' [] \<and> set ks \<union> black g \<subseteq> black g' | Some c \<Rightarrow> is_cycle (edge_rel g) c)"
  using assms
proof (induction ks arbitrary: g)
  case (Cons k ks)
  obtain node where node: "g_nodes g k = Some node" using Cons.prems(2) by auto
  show ?case
  proof (cases "\<not> every \<and> n_Visited node")
    case True
    have "n_State node \<noteq> NodeStateUnvisited" using True node Cons.prems(1) by (auto simp: search_inv_def)
    moreover have "gray g = {}" using Cons.prems(1) by (simp add: search_inv_def)
    ultimately have "k \<in> black g" using node by (cases "n_State node") (auto simp: in_state_def)
    moreover have "detect_from n every (k # ks) g = detect_from n every ks g" using True node by simp
    ultimately show ?thesis using Cons.IH [of g] Cons.prems by (fastforce split: option.splits)
  next
    case False
    obtain g1 r1 where 1: "dfs_detect_cycle n k [] g = Some (g1, r1)"
      using dfs_ends(1) [OF Cons.prems(3,4)] by fastforce
    note f = dfs_frame(1) [OF 1]
    have kd: "k \<in> dom (g_nodes g)" using node by auto
    have c: "case r1 of None \<Rightarrow> search_inv g1 [] \<and> insert k (black g) \<subseteq> black g1
        | Some c \<Rightarrow> is_cycle (edge_rel g) c"
      by (rule dfs_correct(1) [OF 1 Cons.prems(1) _ kd]) simp
    show ?thesis
    proof (cases r1)
      case (Some c)
      then show ?thesis using False node 1 f c by auto
    next
      case None
      have eq: "detect_from n every (k # ks) g = detect_from n every ks g1"
        using False node 1 None by auto
      have "card (white g1) * (m + 2) \<le> card (white g) * (m + 2)"
        by (rule mult_le_mono1) (use card_white [OF Cons.prems(3)] f in blast)
      then have n: "card (white g1) * (m + 2) + 1 \<le> n" using Cons.prems(4) by simp
      obtain g2 r2 where 2: "detect_from n every ks g1 = Some (g2, r2)" "same_shape g1 g2" "white g2 \<subseteq> white g1"
        "case r2 of None \<Rightarrow> search_inv g2 [] \<and> set ks \<union> black g1 \<subseteq> black g2 | Some c \<Rightarrow> is_cycle (edge_rel g1) c"
        using Cons.IH [OF _ _ out_bound_shape [OF Cons.prems(3)] n] c None f Cons.prems(2)
          same_shape_dom [of g g1] by auto
      have "edge_rel g1 = edge_rel g" using f edge_rel_shape by blast
      then have "case r2 of None \<Rightarrow> search_inv g2 [] \<and> set (k # ks) \<union> black g \<subseteq> black g2 | Some c \<Rightarrow> is_cycle (edge_rel g) c"
        using 2(4) c None by (cases r2) auto
      moreover have "same_shape g g2" "white g2 \<subseteq> white g" using f 2(2,3) same_shape_trans by blast+
      ultimately show ?thesis using eq 2(1) by simp
    qed
  qed
qed simp

definition detect_fuel :: "string list \<Rightarrow> dep_graph \<Rightarrow> nat" where
  "detect_fuel ks g = length ks * (length (g_edges g) + 2) + 1"

lemma cycle_not_acyclic: "is_cycle E c \<Longrightarrow> \<not> acyclic E"
proof -
  assume c: "is_cycle E c"
  have path: "successively (\<lambda>u v. (u, v) \<in> E) (a # xs) \<Longrightarrow> (a, last (a # xs)) \<in> E\<^sup>*" for a xs
    by (induction xs arbitrary: a) (auto intro: converse_rtrancl_into_rtrancl)
  obtain a xs where "c = a # xs" using c by (cases c) (auto simp: is_cycle_def)
  with c path [of a xs] have "(a, last c) \<in> E\<^sup>*" "(last c, a) \<in> E" by (auto simp: is_cycle_def)
  then have "(a, a) \<in> E\<^sup>+" by (rule rtrancl_into_trancl1)
  then show ?thesis by (auto simp: acyclic_def)
qed

lemma detect_correct:
  assumes "shape_ok g" "enumerates ks (g_nodes g)"
  shows "\<exists>g' r. detect_cycles (detect_fuel ks g) ks g = Some (g', r) \<and> same_shape g g' \<and>
    (case r of None \<Rightarrow> acyclic (edge_rel g) | Some c \<Rightarrow> is_cycle (edge_rel g) c)"
proof -
  let ?g0 = "reset_visited g" and ?n = "detect_fuel ks g" and ?m = "length (g_edges g)"
  have s0: "same_shape g ?g0" by (rule reset_shape)
  have ob: "out_bound ?m g" using assms(1) by (auto simp: out_bound_def shape_ok_def)
  have ob0: "out_bound ?m ?g0" by (rule out_bound_shape [OF ob s0])
  have ks: "set ks = dom (g_nodes g)" "distinct ks" using assms(2) by (auto simp: enumerates_def)
  have "white ?g0 \<subseteq> set ks" using ks same_shape_dom [OF s0] by (auto simp: in_state_def)
  then have "card (white ?g0) \<le> length ks" by (metis card_length card_mono finite_set le_trans)
  then have "card (white ?g0) * (?m + 2) \<le> length ks * (?m + 2)" by (rule mult_le_mono1)
  then have n0: "card (white ?g0) * (?m + 2) + 1 \<le> ?n" unfolding detect_fuel_def by simp
  have roots: "set (g_roots ?g0) \<subseteq> dom (g_nodes ?g0)"
    using shape_ok_shape [OF assms(1) s0] by (simp add: shape_ok_def)
  obtain g1 r1 where 1: "detect_from ?n True (g_roots ?g0) ?g0 = Some (g1, r1)" "same_shape ?g0 g1"
    "white g1 \<subseteq> white ?g0"
    "case r1 of None \<Rightarrow> search_inv g1 [] \<and> set (g_roots ?g0) \<union> black ?g0 \<subseteq> black g1
     | Some c \<Rightarrow> is_cycle (edge_rel ?g0) c"
    using detect_from_correct [OF reset_inv [OF assms(1)] roots ob0 n0] by blast
  note e0 = edge_rel_shape [OF s0]
  have s1: "same_shape g g1" by (rule same_shape_trans [OF s0 1(2)])
  show ?thesis
  proof (cases r1)
    case (Some c)
    with 1 e0 s1 show ?thesis by (simp add: detect_cycles_def)
  next
    case None
    have "card (white g1) * (?m + 2) \<le> card (white ?g0) * (?m + 2)"
      by (rule mult_le_mono1) (rule card_white [OF ob0 1(3)])
    then have n1: "card (white g1) * (?m + 2) + 1 \<le> ?n" using n0 by simp
    have k1: "set ks \<subseteq> dom (g_nodes g1)" using ks same_shape_dom [OF s1] by simp
    have "search_inv g1 []" using 1(4) None by simp
    then obtain g2 r2 where 2: "detect_from ?n False ks g1 = Some (g2, r2)" "same_shape g1 g2"
      "case r2 of None \<Rightarrow> search_inv g2 [] \<and> set ks \<union> black g1 \<subseteq> black g2 | Some c \<Rightarrow> is_cycle (edge_rel g1) c"
      using detect_from_correct [OF _ k1 out_bound_shape [OF ob s1] n1, where every = False] by auto
    have e1: "edge_rel g1 = edge_rel g" by (rule edge_rel_shape [OF s1])
    have e2: "edge_rel g2 = edge_rel g" using edge_rel_shape [OF 2(2)] e1 by simp
    have "case r2 of None \<Rightarrow> acyclic (edge_rel g) | Some c \<Rightarrow> is_cycle (edge_rel g) c"
    proof (cases r2)
      case None
      then have i: "search_inv g2 []" "set ks \<subseteq> black g2" using 2(3) by auto
      have "edge_rel g \<subseteq> black g2 \<times> black g2"
      proof (rule subrelI)
        fix u v
        assume "(u, v) \<in> edge_rel g"
        from shape_edge_dom [OF assms(1) this] ks(1) i(2) show "(u, v) \<in> black g2 \<times> black g2" by auto
      qed
      then have "Restr (edge_rel g) (black g2) = edge_rel g" by (rule Int_absorb2)
      with i(1) e2 None show ?thesis by (simp add: search_inv_def)
    qed (use 2(3) e1 in simp)
    moreover have "same_shape g g2" by (rule same_shape_trans [OF s1 2(2)])
    moreover have "detect_cycles ?n ks g = Some (g2, r2)"
      using 1(1) None 2(1) by (simp add: detect_cycles_def)
    ultimately show ?thesis by blast
  qed
qed

subsection \<open>Depths are distances\<close>

definition depth_of :: "dep_graph \<Rightarrow> string \<Rightarrow> int" where
  "depth_of g k = (case g_nodes g k of Some n \<Rightarrow> n_Depth n | None \<Rightarrow> - 1)"

definition realised :: "dep_graph \<Rightarrow> bool" where
  "realised g \<longleftrightarrow> (\<forall>k. - 1 \<le> depth_of g k \<and>
     (0 \<le> depth_of g k \<longrightarrow> (\<exists>r \<in> set (g_roots g). (r, k) \<in> edge_rel g ^^ nat (depth_of g k))))"

definition tight_edge :: "dep_graph \<Rightarrow> string \<Rightarrow> string \<Rightarrow> bool" where
  "tight_edge g u v \<longleftrightarrow> 0 \<le> depth_of g v \<and> depth_of g v \<le> depth_of g u + 1"

definition potential :: "dep_graph \<Rightarrow> nat \<times> nat" where
  "potential g = (card {k \<in> dom (g_nodes g). depth_of g k = - 1}, \<Sum>k \<in> dom (g_nodes g). nat (depth_of g k))"

lemma set_depth_shape: "same_shape g (update_node k (\<lambda>n. n\<lparr>n_Depth := d\<rparr>) g)"
  by (rule same_shape_update) (simp add: node_shape_def)

lemma set_depth_of [simp]:
  "depth_of (update_node k (\<lambda>n. n\<lparr>n_Depth := d\<rparr>) g) j = (if j = k \<and> k \<in> dom (g_nodes g) then d else depth_of g j)"
  by (auto simp: depth_of_def split: option.splits)

lemma potential_decreases:
  assumes "finite (dom (g_nodes g))" "v \<in> dom (g_nodes g)" "0 \<le> d" "- 1 \<le> depth_of g v"
    and "depth_of g v = - 1 \<or> d < depth_of g v"
  shows "(potential (update_node v (\<lambda>n. n\<lparr>n_Depth := d\<rparr>) g), potential g) \<in> less_than <*lex*> less_than"
proof -
  let ?h = "update_node v (\<lambda>n. n\<lparr>n_Depth := d\<rparr>) g" and ?D = "dom (g_nodes g)"
  have un: "{k \<in> dom (g_nodes ?h). depth_of ?h k = - 1} = {k \<in> ?D. depth_of g k = - 1} - {v}"
    using assms(2,3) by auto
  have p: "potential ?h = (card ({k \<in> ?D. depth_of g k = - 1} - {v}), \<Sum>k \<in> ?D. nat (depth_of ?h k))"
    unfolding potential_def un by (simp del: set_depth_of)
  show ?thesis
  proof (cases "depth_of g v = - 1")
    case True
    have "card ({k \<in> ?D. depth_of g k = - 1} - {v}) < card {k \<in> ?D. depth_of g k = - 1}"
      using assms(1,2) True by (intro psubset_card_mono) auto
    then show ?thesis unfolding p by (simp add: potential_def)
  next
    case False
    then have "{k \<in> ?D. depth_of g k = - 1} - {v} = {k \<in> ?D. depth_of g k = - 1}" by auto
    moreover have "(\<Sum>k \<in> ?D. nat (depth_of ?h k)) < (\<Sum>k \<in> ?D. nat (depth_of g k))"
    proof (rule sum_strict_mono_ex1 [OF assms(1)])
      show "\<forall>x \<in> ?D. nat (depth_of ?h x) \<le> nat (depth_of g x)" using assms(5) False by auto
      show "\<exists>a \<in> ?D. nat (depth_of ?h a) < nat (depth_of g a)"
        using assms(2,3,5) False by (intro bexI [of _ v]) auto
    qed
    ultimately show ?thesis unfolding p by (simp add: potential_def del: set_depth_of)
  qed
qed

definition relax_post ::
  "string \<Rightarrow> graph_edge list \<Rightarrow> dep_graph \<Rightarrow> string list \<Rightarrow> dep_graph \<Rightarrow> string list \<Rightarrow> bool" where
  "relax_post cur es g q g' q' \<longleftrightarrow> same_shape g g' \<and> realised g' \<and>
    depth_of g' cur = depth_of g cur \<and> (\<forall>e \<in> set es. tight_edge g' cur (e_To e)) \<and>
    (\<forall>v. 0 \<le> depth_of g v \<longrightarrow> 0 \<le> depth_of g' v \<and> depth_of g' v \<le> depth_of g v) \<and>
    (\<forall>v. v \<notin> set q' \<longrightarrow> depth_of g' v = depth_of g v) \<and>
    set q \<subseteq> set q' \<and> (\<forall>v \<in> set q'. v \<in> set q \<or> 0 \<le> depth_of g' v) \<and>
    (q' = q \<and> g' = g \<or> (potential g', potential g) \<in> less_than <*lex*> less_than)"

lemma relax_ok:
  assumes "shape_ok g" "realised g" "0 \<le> depth_of g cur" "cur \<in> dom (g_nodes g)"
    and "\<forall>e \<in> set es. (cur, e_To e) \<in> edge_rel g"
  shows "\<exists>g' q'. relax_edges cur es g q = Some (g', q') \<and> relax_post cur es g q g' q'"
  using assms
proof (induction es arbitrary: g q)
  case (Cons e es)
  let ?v = "e_To e" and ?d = "depth_of g cur + 1"
  have edge: "(cur, ?v) \<in> edge_rel g" using Cons.prems(5) by simp
  have vd: "?v \<in> dom (g_nodes g)" using shape_edge_dom [OF Cons.prems(1) edge] by simp
  obtain nc nv where n: "g_nodes g cur = Some nc" "g_nodes g ?v = Some nv" using Cons.prems(4) vd by auto
  have dn: "n_Depth nc = depth_of g cur" "n_Depth nv = depth_of g ?v" using n by (simp_all add: depth_of_def)
  have lo: "- 1 \<le> depth_of g ?v" using Cons.prems(2) by (simp add: realised_def)
  show ?case
  proof (cases "depth_of g ?v = - 1 \<or> ?d < depth_of g ?v")
    case True
    let ?h = "update_node ?v (\<lambda>n. n\<lparr>n_Depth := ?d\<rparr>) g"
    have ne: "?v \<noteq> cur" using True Cons.prems(3) by auto
    have sh: "same_shape g ?h" by (rule set_depth_shape)
    have eh: "edge_rel ?h = edge_rel g" by (rule edge_rel_shape [OF sh])
    have dep: "depth_of ?h k = (if k = ?v then ?d else depth_of g k)" for k using vd by simp
    obtain r where r: "r \<in> set (g_roots g)" "(r, cur) \<in> edge_rel g ^^ nat (depth_of g cur)"
      using Cons.prems(2,3) by (auto simp: realised_def)
    then have "(r, ?v) \<in> edge_rel g ^^ Suc (nat (depth_of g cur))" using edge by auto
    moreover have "nat ?d = Suc (nat (depth_of g cur))" using Cons.prems(3) by simp
    ultimately have "(r, ?v) \<in> edge_rel g ^^ nat ?d" by metis
    then have real: "realised ?h"
      unfolding realised_def eh dep using Cons.prems(2,3) r(1) by (auto simp: realised_def)
    have "shape_ok ?h" by (rule shape_ok_shape [OF Cons.prems(1) sh])
    moreover have "0 \<le> depth_of ?h cur" "cur \<in> dom (g_nodes ?h)" "\<forall>e \<in> set es. (cur, e_To e) \<in> edge_rel ?h"
      using Cons.prems(3-5) ne eh by simp_all
    ultimately obtain g' q' where eqI: "relax_edges cur es ?h (q @ [?v]) = Some (g', q')"
      and post: "relax_post cur es ?h (q @ [?v]) g' q'"
      using Cons.IH [of ?h "q @ [?v]"] real by blast
    from eqI post have IH: "relax_edges cur es ?h (q @ [?v]) = Some (g', q')" "same_shape ?h g'" "realised g'"
      "depth_of g' cur = depth_of ?h cur" "\<forall>e \<in> set es. tight_edge g' cur (e_To e)"
      "\<forall>v. 0 \<le> depth_of ?h v \<longrightarrow> 0 \<le> depth_of g' v \<and> depth_of g' v \<le> depth_of ?h v"
      "\<forall>v. v \<notin> set q' \<longrightarrow> depth_of g' v = depth_of ?h v" "set (q @ [?v]) \<subseteq> set q'"
      "\<forall>v \<in> set q'. v \<in> set (q @ [?v]) \<or> 0 \<le> depth_of g' v"
      "q' = q @ [?v] \<and> g' = ?h \<or> (potential g', potential ?h) \<in> less_than <*lex*> less_than"
      unfolding relax_post_def by blast+
    have eq: "relax_edges cur (e # es) g q = Some (g', q')"
      using n dn True IH(1) by (simp add: Let_def)
    have "(potential ?h, potential g) \<in> less_than <*lex*> less_than"
      by (rule potential_decreases) (use Cons.prems vd lo True in \<open>auto simp: shape_ok_def\<close>)
    then have pot: "(potential g', potential g) \<in> less_than <*lex*> less_than"
      using IH(10) trans_lex_prod [OF trans_less_than trans_less_than] by (metis transD)
    have mono: "\<forall>v. 0 \<le> depth_of g v \<longrightarrow> 0 \<le> depth_of g' v \<and> depth_of g' v \<le> depth_of g v"
    proof (intro allI impI)
      fix v
      assume "0 \<le> depth_of g v"
      with dep [of v] True Cons.prems(3) have "0 \<le> depth_of ?h v" "depth_of ?h v \<le> depth_of g v" by auto
      with IH(6) show "0 \<le> depth_of g' v \<and> depth_of g' v \<le> depth_of g v" by fastforce
    qed
    have "0 \<le> depth_of ?h ?v" "depth_of ?h ?v = ?d"
      using dep [of ?v] Cons.prems(3) by (simp_all del: set_depth_of)
    with IH(6) have "0 \<le> depth_of g' ?v" "depth_of g' ?v \<le> ?d" by (metis, metis)
    then have t: "tight_edge g' cur ?v" using IH(4) dep [of cur] ne by (simp add: tight_edge_def)
    have keep: "\<forall>v. v \<notin> set q' \<longrightarrow> depth_of g' v = depth_of g v"
      using IH(7,8) dep by auto
    have cur: "depth_of g' cur = depth_of g cur" using IH(4) dep ne by simp
    have sub: "set q \<subseteq> set q'" "\<forall>v \<in> set q'. v \<in> set q \<or> 0 \<le> depth_of g' v"
      using IH(8,9) \<open>0 \<le> depth_of g' ?v\<close> by auto
    have ts: "\<forall>e \<in> set (e # es). tight_edge g' cur (e_To e)" using t IH(5) by simp
    have "relax_post cur (e # es) g q g' q'"
      unfolding relax_post_def
      using same_shape_trans [OF sh IH(2)] IH(3) cur ts mono keep sub pot by blast
    with eq show ?thesis by blast
  next
    case False
    have "\<forall>e \<in> set es. (cur, e_To e) \<in> edge_rel g" using Cons.prems(5) by simp
    then obtain g' q' where IH: "relax_edges cur es g q = Some (g', q')" "relax_post cur es g q g' q'"
      using Cons.IH [of g q] Cons.prems(1-4) by blast
    have eq: "relax_edges cur (e # es) g q = Some (g', q')"
      using n dn False IH(1) by (simp add: Let_def)
    have "0 \<le> depth_of g ?v" "depth_of g ?v \<le> ?d" using False lo by auto
    moreover have "depth_of g' cur = depth_of g cur" using IH(2) by (simp add: relax_post_def)
    moreover have "0 \<le> depth_of g' ?v \<and> depth_of g' ?v \<le> depth_of g ?v"
      using IH(2) calculation(1) by (simp add: relax_post_def)
    ultimately have "tight_edge g' cur ?v" by (simp add: tight_edge_def)
    then have "relax_post cur (e # es) g q g' q'" using IH(2) by (simp add: relax_post_def)
    with eq show ?thesis by blast
  qed
qed (auto simp: relax_post_def)

text \<open>Every edge of a node that is reached and not waiting in the queue is tight.\<close>

definition bfs_inv :: "dep_graph \<Rightarrow> string list \<Rightarrow> bool" where
  "bfs_inv g q \<longleftrightarrow> shape_ok g \<and> realised g \<and> (\<forall>k \<in> set q. 0 \<le> depth_of g k) \<and>
     (\<forall>r \<in> set (g_roots g). 0 \<le> depth_of g r \<and> depth_of g r \<le> 0) \<and>
     (\<forall>u v. u \<notin> set q \<longrightarrow> 0 \<le> depth_of g u \<longrightarrow> (u, v) \<in> edge_rel g \<longrightarrow> tight_edge g u v)"

lemma depth_dom: "0 \<le> depth_of g k \<Longrightarrow> \<exists>n. g_nodes g k = Some n"
  by (auto simp: depth_of_def split: option.splits)

lemma bfs_step:
  assumes "bfs_inv g (cur # q)"
  shows "\<exists>node g' q'. g_nodes g cur = Some node \<and>
    relax_edges cur (n_Dependencies node) g q = Some (g', q') \<and> same_shape g g' \<and> bfs_inv g' q' \<and>
    (q' = q \<and> g' = g \<or> (potential g', potential g) \<in> less_than <*lex*> less_than)"
proof -
  have ok: "shape_ok g" and re: "realised g" and c0: "0 \<le> depth_of g cur"
    and rest: "\<forall>u v. u \<notin> set (cur # q) \<longrightarrow> 0 \<le> depth_of g u \<longrightarrow> (u, v) \<in> edge_rel g \<longrightarrow> tight_edge g u v"
    using assms by (auto simp: bfs_inv_def)
  obtain node where node: "g_nodes g cur = Some node" using depth_dom [OF c0] by blast
  then have cd: "cur \<in> dom (g_nodes g)" by auto
  have succ: "e_To ` set (n_Dependencies node) = {v. (cur, v) \<in> edge_rel g}" by (rule shape_succ [OF ok node])
  then have es: "\<forall>e \<in> set (n_Dependencies node). (cur, e_To e) \<in> edge_rel g" by blast
  obtain g' q' where r: "relax_edges cur (n_Dependencies node) g q = Some (g', q')"
    and post: "relax_post cur (n_Dependencies node) g q g' q'"
    using relax_ok [OF ok re c0 cd es] by blast
  have sh: "same_shape g g'" and re': "realised g'" and cur: "depth_of g' cur = depth_of g cur"
    and ts: "\<forall>e \<in> set (n_Dependencies node). tight_edge g' cur (e_To e)"
    and mono: "\<And>v. 0 \<le> depth_of g v \<Longrightarrow> 0 \<le> depth_of g' v \<and> depth_of g' v \<le> depth_of g v"
    and keep: "\<And>v. v \<notin> set q' \<Longrightarrow> depth_of g' v = depth_of g v"
    and sub: "set q \<subseteq> set q'" "\<And>v. v \<in> set q' \<Longrightarrow> v \<in> set q \<or> 0 \<le> depth_of g' v"
    and pot: "q' = q \<and> g' = g \<or> (potential g', potential g) \<in> less_than <*lex*> less_than"
    using post unfolding relax_post_def by blast+
  have eh: "edge_rel g' = edge_rel g" by (rule edge_rel_shape [OF sh])
  have rh: "g_roots g' = g_roots g" using sh by (simp add: same_shape_def)
  have tight: "tight_edge g' u v" if u: "u \<notin> set q'" "0 \<le> depth_of g' u" "(u, v) \<in> edge_rel g" for u v
  proof (cases "u = cur")
    case True
    then have "v \<in> e_To ` set (n_Dependencies node)" using u(3) by (simp add: succ)
    then obtain e where "e \<in> set (n_Dependencies node)" "v = e_To e" by (rule imageE)
    with ts True show ?thesis by simp
  next
    case False
    with u sub(1) keep have "u \<notin> set (cur # q)" "0 \<le> depth_of g u" by auto
    with rest u(3) have t: "tight_edge g u v" by blast
    then have "0 \<le> depth_of g' v" "depth_of g' v \<le> depth_of g v"
      using mono [of v] by (auto simp: tight_edge_def)
    with t keep [OF u(1)] show ?thesis by (simp add: tight_edge_def)
  qed
  have qpos: "0 \<le> depth_of g' v" if "v \<in> set q'" for v
    using sub(2) [OF that] mono [of v] assms by (auto simp: bfs_inv_def)
  have roots: "0 \<le> depth_of g' v \<and> depth_of g' v \<le> 0" if "v \<in> set (g_roots g)" for v
    using that assms mono [of v] by (auto simp: bfs_inv_def)
  have "bfs_inv g' q'"
  proof -
    have "\<forall>u v. u \<notin> set q' \<longrightarrow> 0 \<le> depth_of g' u \<longrightarrow> (u, v) \<in> edge_rel g \<longrightarrow> tight_edge g' u v"
      by (intro allI impI tight)
    then show ?thesis
      using shape_ok_shape [OF ok sh] re' qpos roots by (simp add: bfs_inv_def eh rh)
  qed
  with node r sh pot show ?thesis by blast
qed

lemma bfs_loop_ok:
  "bfs_inv g q \<Longrightarrow> \<exists>n g'. bfs_loop n q g = Some g' \<and> same_shape g g' \<and> bfs_inv g' []"
proof (induction "(potential g, length q)" arbitrary: g q rule: wf_induct_rule
    [OF wf_lex_prod [OF wf_lex_prod [OF wf_less_than wf_less_than] wf_less_than]])
  case (1 g q)
  show ?case
  proof (cases q)
    case Nil
    have "bfs_loop 0 [] g = Some g" by simp
    with Nil 1(2) show ?thesis by (metis same_shape_refl)
  next
    case (Cons cur rest)
    obtain node g' q' where s: "g_nodes g cur = Some node"
      "relax_edges cur (n_Dependencies node) g rest = Some (g', q')" "same_shape g g'" "bfs_inv g' q'"
      "q' = rest \<and> g' = g \<or> (potential g', potential g) \<in> less_than <*lex*> less_than"
      using bfs_step [of g cur rest] 1(2) Cons by blast
    have "((potential g', length q'), (potential g, length q)) \<in> (less_than <*lex*> less_than) <*lex*> less_than"
      using s(5) Cons by auto
    from 1(1) [OF this s(4)] obtain n h where
      h: "bfs_loop n q' g' = Some h" "same_shape g' h" "bfs_inv h []" by blast
    have "bfs_loop (Suc n) q g = Some h" using Cons s h by simp
    with h same_shape_trans [OF s(3) h(2)] show ?thesis by blast
  qed
qed

definition reaches_in :: "dep_graph \<Rightarrow> nat \<Rightarrow> string \<Rightarrow> bool" where
  "reaches_in g d k \<longleftrightarrow> (\<exists>r \<in> set (g_roots g). (r, k) \<in> edge_rel g ^^ d)"

lemma bfs_final:
  assumes "bfs_inv g []" "reaches_in g d k"
  shows "0 \<le> depth_of g k \<and> depth_of g k \<le> int d"
  using assms(2)
proof (induction d arbitrary: k)
  case 0
  with assms(1) show ?case by (auto simp: reaches_in_def bfs_inv_def)
next
  case (Suc d)
  then obtain u where "reaches_in g d u" "(u, k) \<in> edge_rel g" by (auto simp: reaches_in_def)
  with Suc.IH [OF this(1)] assms(1) have "0 \<le> depth_of g u" "depth_of g u \<le> int d" "tight_edge g u k"
    by (auto simp: bfs_inv_def)
  then show ?case by (simp add: tight_edge_def)
qed

lemma bfs_distance:
  assumes "bfs_inv g []"
  shows "depth_of g k = (if \<exists>d. reaches_in g d k then int (LEAST d. reaches_in g d k) else - 1)"
proof (cases "0 \<le> depth_of g k")
  case True
  then have r: "reaches_in g (nat (depth_of g k)) k"
    using assms by (simp add: bfs_inv_def realised_def reaches_in_def)
  then have "(LEAST d. reaches_in g d k) = nat (depth_of g k)"
  proof (rule Least_equality)
    fix d
    assume "reaches_in g d k"
    from bfs_final [OF assms this] True show "nat (depth_of g k) \<le> d" by simp
  qed
  with r True show ?thesis by auto
next
  case False
  moreover have "- 1 \<le> depth_of g k" using assms by (simp add: bfs_inv_def realised_def)
  moreover have "\<not> reaches_in g d k" for d using bfs_final [OF assms] False by blast
  ultimately show ?thesis by auto
qed

lemma reset_depths_inv:
  assumes "wf_graph g"
  shows "bfs_inv (reset_depths g) (g_roots g)" "same_shape g (reset_depths g)"
proof -
  let ?h = "reset_depths g"
  have "rel_option (\<lambda>m n. node_shape m = node_shape n) x
      (map_option (\<lambda>n. if n_Depth n \<noteq> 0 then n\<lparr>n_Depth := - 1\<rparr> else n) x)" for x
    by (cases x) (simp_all add: node_shape_def)
  then show s: "same_shape g ?h" by (simp add: same_shape_def reset_depths_def)
  have d: "depth_of ?h k = (if k \<in> set (g_roots g) then 0 else - 1)" for k
  proof (cases "g_nodes g k")
    case None
    then have "k \<notin> set (g_roots g)" using assms by (auto simp: wf_graph_def)
    with None show ?thesis by (simp add: depth_of_def reset_depths_def)
  next
    case (Some n)
    then have "n_Depth n = 0 \<longleftrightarrow> k \<in> set (g_roots g)" using assms by (simp add: wf_graph_def)
    with Some show ?thesis by (simp add: depth_of_def reset_depths_def)
  qed
  have "g_roots ?h = g_roots g" using s by (simp add: same_shape_def)
  then show "bfs_inv ?h (g_roots g)"
    using shape_ok_shape [OF wf_shape_ok [OF assms] s]
    by (auto simp: bfs_inv_def realised_def d)
qed

subsection \<open>Graphs built by the two operations\<close>

inductive graph_built :: "dep_graph \<Rightarrow> bool" where
  built_new: "graph_built new_dependency_graph"
| built_package: "graph_built g \<Longrightarrow> graph_built (add_package p is_root g)"
| built_dependency: "graph_built g \<Longrightarrow> add_dependency src dst c t g = Inr g' \<Longrightarrow> graph_built g'"

lemma built_wf: "graph_built g \<Longrightarrow> wf_graph g"
  by (induction rule: graph_built.induct) (auto simp: wf_new_graph wf_add_package dest: wf_add_dependency)

subsection \<open>Normal form of a cycle\<close>

lemma min_index_spec:
  assumes "m < length c" "m < i" "\<forall>j < i. j < length c \<longrightarrow> str_compare (c ! m) (c ! j) \<le> 0"
  shows "min_index c m i < length c \<and> (\<forall>j < length c. str_compare (c ! min_index c m i) (c ! j) \<le> 0)"
  using assms
proof (induction c m i rule: min_index.induct)
  case (1 c m i)
  show ?case
  proof (cases "length c \<le> i")
    case True
    with 1 show ?thesis by (simp add: min_index.simps)
  next
    case False
    let ?m = "if str_compare (c ! i) (c ! m) < 0 then i else m"
    have le: "str_compare (c ! ?m) (c ! j) \<le> 0" if "j < i + 1" "j < length c" for j
    proof (cases "j = i")
      case True
      then show ?thesis using str_cmp.flip_le [of "c ! i" "c ! m"] by auto
    next
      case ji: False
      with that "1.prems"(3) have "str_compare (c ! m) (c ! j) \<le> 0" by simp
      then show ?thesis
        using str_compare_trans [of "c ! i" "c ! m" "c ! j"] by (auto simp: less_imp_le)
    qed
    have "?m < length c" "?m < i + 1" using "1.prems" False by auto
    with 1(1) [OF False] le False show ?thesis by (simp add: min_index.simps [of c m i])
  qed
qed

lemma normalize_rotate:
  assumes "c \<noteq> []"
  shows "\<exists>m < length c. normalize_cycle c = rotate m c \<and> (\<forall>x \<in> set c. str_compare (c ! m) x \<le> 0)"
proof -
  let ?m = "min_index c 0 1"
  have s: "?m < length c \<and> (\<forall>j < length c. str_compare (c ! ?m) (c ! j) \<le> 0)"
    by (rule min_index_spec) (use assms in auto)
  have "normalize_cycle c = rotate ?m c"
  proof (rule nth_equalityI)
    show "length (normalize_cycle c) = length (rotate ?m c)" by (simp add: normalize_cycle_def Let_def)
    fix i
    assume "i < length (normalize_cycle c)"
    then have i: "i < length c" by (simp add: normalize_cycle_def Let_def split: if_splits)
    then show "normalize_cycle c ! i = rotate ?m c ! i"
      using assms by (simp add: normalize_cycle_def Let_def nth_rotate)
  qed
  with s show ?thesis by (metis in_set_conv_nth)
qed

lemma hd_rotate: "m < length c \<Longrightarrow> hd (rotate m c) = c ! m"
  by (metis hd_conv_nth hd_rotate_conv_nth length_greater_0_conv list.size(3) mod_less not_less_zero)

lemma distinct_rotation_unique:
  assumes "distinct c" "i < length c" "j < length c" "hd (rotate i c) = hd (rotate j c)"
  shows "rotate i c = rotate j c"
  using assms by (simp add: hd_rotate nth_eq_iff_index_eq)

lemma normalize_canonical:
  assumes "distinct c"
  shows "normalize_cycle (rotate k c) = normalize_cycle c"
proof (cases "c = []")
  case False
  let ?r = "rotate k c"
  obtain i where i: "i < length c" "normalize_cycle c = rotate i c" "\<forall>x \<in> set c. str_compare (c ! i) x \<le> 0"
    using normalize_rotate [OF False] by blast
  have "?r \<noteq> []" using False by simp
  from normalize_rotate [OF this] obtain j where
    j: "j < length ?r" "normalize_cycle ?r = rotate j ?r" "\<forall>x \<in> set ?r. str_compare (?r ! j) x \<le> 0" by blast
  have "c ! i \<in> set c" "?r ! j \<in> set c" using i(1) j(1) nth_mem [of j ?r] by auto
  with i(3) j(3) have "str_compare (c ! i) (?r ! j) \<le> 0" "str_compare (?r ! j) (c ! i) \<le> 0" by auto
  then have eq: "c ! i = ?r ! j" using str_compare_antisym [of "c ! i" "?r ! j"] by simp
  define l where "l = (j + k) mod length c"
  have l: "l < length c" "rotate j ?r = rotate l c"
    using False by (simp_all add: l_def rotate_rotate rotate_conv_mod [symmetric])
  have "hd (rotate i c) = hd (rotate l c)"
    using eq i(1) j(1) l(2) hd_rotate [of j ?r] hd_rotate [of i c] by metis
  then have "rotate i c = rotate l c" by (rule distinct_rotation_unique [OF assms i(1) l(1)])
  with i(2) j(2) l(2) show ?thesis by simp
qed simp

subsection \<open>Properties\<close>

text \<open>
  Claim C10: every graph built by \<open>AddPackage\<close> and \<open>AddDependency\<close> keeps its three copies of the edges
  in agreement: a node's dependencies and dependents are exactly the graph's edges from and to it,
  in order; no edge dangles; the roots are distinct nodes and the only ones at depth 0.
\<close>

theorem built_graph_invariant:
  assumes "graph_built g"
  shows "wf_graph g"
  by (rule built_wf [OF assms])

definition sample_edge_graph :: "graph_error + dep_graph" where
  "sample_edge_graph =
     (case add_dependency ''c/a'' ''c/b'' (sample_dep ''c/b'') EdgeTypeRuntime
        (add_package (sample_pkg ''c/b'' []) False (add_package (sample_pkg ''c/a'' []) True new_dependency_graph)) of
        Inl e \<Rightarrow> Inl e
      | Inr g \<Rightarrow> add_dependency ''c/b'' ''c/a'' (sample_dep ''c/a'') EdgeTypeBuild g)"

definition sample_graph :: dep_graph where
  "sample_graph = projr sample_edge_graph"

lemma sample_graph_ok: "graph_built sample_graph"
  and sample_graph_edges: "edge_rel sample_graph = {(''c/a'', ''c/b''), (''c/b'', ''c/a'')}"
  and sample_graph_nodes: "enumerates [''c/a'', ''c/b''] (g_nodes sample_graph)"
  and sample_graph_roots: "g_roots sample_graph = [''c/a'']"
proof -
  let ?g0 = "add_package (sample_pkg ''c/b'' []) False (add_package (sample_pkg ''c/a'' []) True new_dependency_graph)"
  have names: "p_Name (sample_pkg n ds) = n" for n ds by (simp add: sample_pkg_def new_package_def)
  have b0: "graph_built ?g0" by (intro graph_built.intros)
  have n0: "g_nodes ?g0 ''c/a'' \<noteq> None" "g_nodes ?g0 ''c/b'' \<noteq> None" "dom (g_nodes ?g0) = {''c/a'', ''c/b''}"
    "g_edges ?g0 = []" "g_roots ?g0 = [''c/a'']"
    by (auto simp: add_package_def new_dependency_graph_def Let_def names)
  obtain g1 where 1: "add_dependency ''c/a'' ''c/b'' (sample_dep ''c/b'') EdgeTypeRuntime ?g0 = Inr g1"
    "dom (g_nodes g1) = {''c/a'', ''c/b''}" "g_roots g1 = [''c/a'']"
    "g_edges g1 = [\<lparr>e_From = ''c/a'', e_To = ''c/b'', e_Constraint = sample_dep ''c/b'', e_Type = EdgeTypeRuntime\<rparr>]"
    using add_dependency_ok [of "''c/a''" ?g0 "''c/b''"] n0(3-5) by auto
  obtain g2 where 2: "add_dependency ''c/b'' ''c/a'' (sample_dep ''c/a'') EdgeTypeBuild g1 = Inr g2"
    "dom (g_nodes g2) = {''c/a'', ''c/b''}" "g_roots g2 = [''c/a'']"
    "g_edges g2 = [\<lparr>e_From = ''c/a'', e_To = ''c/b'', e_Constraint = sample_dep ''c/b'', e_Type = EdgeTypeRuntime\<rparr>,
       \<lparr>e_From = ''c/b'', e_To = ''c/a'', e_Constraint = sample_dep ''c/a'', e_Type = EdgeTypeBuild\<rparr>]"
    using add_dependency_ok [of "''c/b''" g1 "''c/a''"] 1(2-4) by auto
  have g: "sample_graph = g2" using 1 2 by (simp add: sample_graph_def sample_edge_graph_def)
  show "graph_built sample_graph"
    unfolding g by (rule built_dependency [OF built_dependency [OF b0 1(1)] 2(1)])
  show "edge_rel sample_graph = {(''c/a'', ''c/b''), (''c/b'', ''c/a'')}"
    unfolding g edge_rel_def 2(4) by (auto simp: conj_disj_distribL ex_disj_distrib)
  show "enumerates [''c/a'', ''c/b''] (g_nodes sample_graph)" "g_roots sample_graph = [''c/a'']"
    unfolding g by (auto simp: enumerates_def 2)
qed

theorem built_graph_invariant_witness: "wf_graph sample_graph \<and> edge_rel sample_graph \<noteq> {}"
  using built_graph_invariant [OF sample_graph_ok] by (simp add: sample_graph_edges)

text \<open>
  Claim C4: \<open>DetectCycles\<close> always ends, reports nil exactly on acyclic graphs, and when it reports a
  cycle the names it reports are one: each depends on the next and the last on the first. This
  holds for every order in which the map of nodes is visited.
\<close>

theorem detect_cycles_correct:
  assumes "graph_built g" and "enumerates ks (g_nodes g)"
  shows "\<exists>g' r. detect_cycles (detect_fuel ks g) ks g = Some (g', r) \<and>
    (r = None \<longleftrightarrow> acyclic (edge_rel g)) \<and> (\<forall>c. r = Some c \<longrightarrow> is_cycle (edge_rel g) c)"
proof -
  obtain g' r where d: "detect_cycles (detect_fuel ks g) ks g = Some (g', r)"
    and c: "case r of None \<Rightarrow> acyclic (edge_rel g) | Some c \<Rightarrow> is_cycle (edge_rel g) c"
    using detect_correct [OF wf_shape_ok [OF built_wf [OF assms(1)]] assms(2)] by blast
  from c have "(r = None \<longleftrightarrow> acyclic (edge_rel g)) \<and> (\<forall>c. r = Some c \<longrightarrow> is_cycle (edge_rel g) c)"
    by (cases r) (auto dest: cycle_not_acyclic)
  with d show ?thesis by blast
qed

theorem detect_cycles_correct_witness:
  "\<exists>g' c. detect_cycles (detect_fuel [''c/a'', ''c/b''] sample_graph) [''c/a'', ''c/b''] sample_graph = Some (g', Some c) \<and>
     is_cycle (edge_rel sample_graph) c"
proof -
  have "is_cycle (edge_rel sample_graph) [''c/a'', ''c/b'']" by (simp add: is_cycle_def sample_graph_edges)
  then have "\<not> acyclic (edge_rel sample_graph)" by (rule cycle_not_acyclic)
  with detect_cycles_correct [OF sample_graph_ok sample_graph_nodes] show ?thesis
    by (metis option.exhaust)
qed

text \<open>
  \<open>CalculateDepths\<close> ends without a nil dereference and gives every package its distance
  from the roots: the length of a shortest dependency path, and -1 to a package no root reaches.
\<close>

theorem depths_are_distances:
  assumes "graph_built g"
  shows "\<exists>n g'. calculate_depths n g = Some g' \<and>
    (\<forall>k. depth_of g' k = (if \<exists>d. reaches_in g d k then int (LEAST d. reaches_in g d k) else - 1))"
proof -
  have wf: "wf_graph g" by (rule built_wf [OF assms])
  note s = reset_depths_inv(2) [OF wf]
  obtain n g' where r: "bfs_loop n (g_roots g) (reset_depths g) = Some g'" "same_shape (reset_depths g) g'"
    "bfs_inv g' []" using bfs_loop_ok [OF reset_depths_inv(1) [OF wf]] by blast
  note sg = same_shape_trans [OF s r(2)]
  have "reaches_in g' = reaches_in g"
    using edge_rel_shape [OF sg] sg by (auto simp: reaches_in_def same_shape_def fun_eq_iff)
  moreover have "g_roots (reset_depths g) = g_roots g" using s by (simp add: same_shape_def)
  ultimately show ?thesis
    using bfs_distance [OF r(3)] r(1) unfolding calculate_depths_def Let_def by metis
qed

theorem depths_are_distances_witness:
  "\<exists>n g'. calculate_depths n sample_graph = Some g' \<and> depth_of g' ''c/a'' = 0 \<and> depth_of g' ''c/x'' = - 1"
proof -
  obtain n g' where g': "calculate_depths n sample_graph = Some g'" and
    d: "\<And>k. depth_of g' k = (if \<exists>d. reaches_in sample_graph d k then int (LEAST d. reaches_in sample_graph d k) else - 1)"
    using depths_are_distances [OF sample_graph_ok] by blast
  have "reaches_in sample_graph 0 ''c/a''" by (simp add: reaches_in_def sample_graph_roots)
  then have "(\<exists>d. reaches_in sample_graph d ''c/a'') \<and> (LEAST d. reaches_in sample_graph d ''c/a'') = 0"
    by (auto intro: Least_equality)
  then have "depth_of g' ''c/a'' = 0" using d by simp
  moreover have "\<not> reaches_in sample_graph d ''c/x''" for d
    by (cases d) (auto simp: reaches_in_def sample_graph_roots sample_graph_edges)
  then have "depth_of g' ''c/x'' = - 1" using d by simp
  ultimately show ?thesis using g' by blast
qed

text \<open>
  \<open>normalizeCycle\<close> maps all rotations of a cycle to one list, a rotation that starts with a
  smallest name, so the same cycle found from different packages is reported once.
\<close>

theorem normalize_cycle_canonical:
  assumes "distinct c" and "c \<noteq> []"
  shows "normalize_cycle (rotate k c) = normalize_cycle c \<and>
    (\<exists>m. normalize_cycle c = rotate m c) \<and> (\<forall>x \<in> set c. str_compare (hd (normalize_cycle c)) x \<le> 0)"
  using normalize_canonical [OF assms(1)] normalize_rotate [OF assms(2)] hd_rotate by metis

theorem normalize_cycle_canonical_witness:
  "normalize_cycle (rotate 1 [''c/b'', ''c/a'', ''c/d'']) = normalize_cycle [''c/b'', ''c/a'', ''c/d'']"
  by (rule normalize_cycle_canonical [THEN conjunct1]) simp_all

end
