(* ===== verification/Graph_Conflicts.thy ===== *)
theory Graph_Conflicts
  imports Dep_Graph
begin

section \<open>Conflicts in the dependency graph\<close>

text \<open>
  \<open>internal/solver/conflict_detector.go\<close>. The maps that the functions build and range over are
  functions here, and their visiting orders arguments: \<open>ks\<close> for the nodes, \<open>bs\<close> for the base names
  and \<open>ss b\<close> for the slots of the base name \<open>b\<close>.
\<close>

datatype conflict_type = ConflictTypeSlot | ConflictTypeVersion | ConflictTypeUseFlag

datatype severity = SeverityWarning | SeverityError | SeverityCritical

fun severity_rank :: "severity \<Rightarrow> nat" where
  "severity_rank SeverityWarning = 0"
| "severity_rank SeverityError = 1"
| "severity_rank SeverityCritical = 2"

fun conflict_type_string :: "conflict_type \<Rightarrow> string" where
  "conflict_type_string ConflictTypeSlot = ''slot conflict''"
| "conflict_type_string ConflictTypeVersion = ''version conflict''"
| "conflict_type_string ConflictTypeUseFlag = ''USE flag conflict''"

fun severity_string :: "severity \<Rightarrow> string" where
  "severity_string SeverityWarning = ''warning''"
| "severity_string SeverityError = ''error''"
| "severity_string SeverityCritical = ''critical''"

record conflict_error =
  ce_Type :: conflict_type
  ce_Packages :: "string list"
  ce_Details :: string
  ce_Severity :: severity

definition conflict_error_text :: "conflict_error \<Rightarrow> string" where
  "conflict_error_text c =
     conflict_type_string (ce_Type c) @ '' ('' @ severity_string (ce_Severity c) @ ''): '' @
     (if 0 < length (ce_Packages c) then join '', '' (ce_Packages c) @ '' - '' else []) @ ce_Details c"

subsection \<open>Base names\<close>

definition extract_base_name :: "string \<Rightarrow> string" where
  "extract_base_name full =
     (case split_byte CHR ''/'' full of
        [category, name_version] \<Rightarrow>
          (case split_dash name_version of
             Some (name, _) \<Rightarrow> category @ ''/'' @ name
           | None \<Rightarrow> full)
      | _ \<Rightarrow> full)"

subsection \<open>Slot conflicts\<close>

text \<open>\<open>packagesByName\<close> and, for one group, \<open>slotMap\<close>.\<close>

fun packages_by_name :: "dep_graph \<Rightarrow> string list \<Rightarrow> (string \<Rightarrow> graph_node list) \<Rightarrow> string \<Rightarrow> graph_node list" where
  "packages_by_name g [] m = m"
| "packages_by_name g (k # ks) m =
     packages_by_name g ks
       (case g_nodes g k of None \<Rightarrow> m | Some node \<Rightarrow> map_append m (extract_base_name k) node)"

fun slot_map :: "graph_node list \<Rightarrow> (string \<Rightarrow> string list) \<Rightarrow> string \<Rightarrow> string list" where
  "slot_map [] m = m"
| "slot_map (n # ns) m =
     slot_map ns (map_append m (sl_Name (p_Slot (n_Package n))) (p_Name (n_Package n)))"

definition slot_conflict :: "string \<Rightarrow> string \<Rightarrow> string list \<Rightarrow> conflict_error" where
  "slot_conflict base slot pkgs =
     \<lparr>ce_Type = ConflictTypeSlot, ce_Packages = pkgs,
      ce_Details = base @ '' has multiple versions in slot '' @ [CHR 0x27] @ slot @ [CHR 0x27] @ '': '' @ join '', '' pkgs,
      ce_Severity = SeverityError\<rparr>"

definition group_slot_conflicts :: "string list \<Rightarrow> string \<Rightarrow> graph_node list \<Rightarrow> conflict_error list" where
  "group_slot_conflicts slots base nodes =
     (if length nodes \<le> 1 then []
      else
        (let m = slot_map nodes (\<lambda>_. []) in
         map (\<lambda>s. slot_conflict base s (m s)) (filter (\<lambda>s. 1 < length (m s)) slots)))"

definition detect_slot_conflicts ::
  "string list \<Rightarrow> string list \<Rightarrow> (string \<Rightarrow> string list) \<Rightarrow> dep_graph \<Rightarrow> conflict_error list" where
  "detect_slot_conflicts ks bs ss g =
     (let m = packages_by_name g ks (\<lambda>_. []) in
      concat (map (\<lambda>b. group_slot_conflicts (ss b) b (m b)) bs))"

subsection \<open>Version conflicts\<close>

definition satisfies_version_constraint :: "coregex \<Rightarrow> string \<Rightarrow> version_constraint option \<Rightarrow> bool" where
  "satisfies_version_constraint rx v c = (case c of None \<Rightarrow> True | Some vc \<Rightarrow> satisfies rx (Some vc) v)"

definition versioned :: "graph_node \<Rightarrow> graph_edge list" where
  "versioned n = filter (\<lambda>e. c_Version (e_Constraint e) \<noteq> None) (n_Dependents n)"

definition version_conflict :: "string \<Rightarrow> graph_node \<Rightarrow> conflict_error" where
  "version_conflict k n =
     \<lparr>ce_Type = ConflictTypeVersion, ce_Packages = k # map e_From (versioned n),
      ce_Details = k @ '' version '' @ p_Version (n_Package n) @ '' does not satisfy all dependent constraints'',
      ce_Severity = SeverityError\<rparr>"

definition node_version_conflict :: "coregex \<Rightarrow> string \<Rightarrow> graph_node \<Rightarrow> conflict_error list" where
  "node_version_conflict rx k n =
     (if length (n_Dependents n) \<le> 1 then []
      else
        (let es = versioned n in
         if length es \<le> 1 then []
         else if list_all (\<lambda>e. satisfies_version_constraint rx (p_Version (n_Package n)) (c_Version (e_Constraint e))) es
         then []
         else [version_conflict k n]))"

definition detect_version_conflicts :: "coregex \<Rightarrow> string list \<Rightarrow> dep_graph \<Rightarrow> conflict_error list" where
  "detect_version_conflicts rx ks g =
     concat (map (\<lambda>k. case g_nodes g k of None \<Rightarrow> [] | Some n \<Rightarrow> node_version_conflict rx k n) ks)"

definition detect_conflicts ::
  "coregex \<Rightarrow> string list \<Rightarrow> string list \<Rightarrow> (string \<Rightarrow> string list) \<Rightarrow> string list \<Rightarrow> dep_graph \<Rightarrow> conflict_error list" where
  "detect_conflicts rx ks bs ss ks' g = detect_slot_conflicts ks bs ss g @ detect_version_conflicts rx ks' g"

definition has_conflicts :: "conflict_error list \<Rightarrow> bool" where
  "has_conflicts cs \<longleftrightarrow> 0 < length cs"

definition get_conflicts_by_type :: "conflict_type \<Rightarrow> conflict_error list \<Rightarrow> conflict_error list" where
  "get_conflicts_by_type t cs = filter (\<lambda>c. ce_Type c = t) cs"

definition get_conflicts_by_severity :: "severity \<Rightarrow> conflict_error list \<Rightarrow> conflict_error list" where
  "get_conflicts_by_severity s cs = filter (\<lambda>c. severity_rank s \<le> severity_rank (ce_Severity c)) cs"

subsection \<open>Which conflicts are reported\<close>

lemma packages_by_name_eq:
  "packages_by_name g ks m b = m b @ List.map_filter (g_nodes g) (filter (\<lambda>k. extract_base_name k = b) ks)"
  by (induction ks arbitrary: m) (auto simp: map_filter_simps split: option.splits)

lemma slot_map_eq:
  "slot_map ns m s = m s @ map (\<lambda>n. p_Name (n_Package n)) (filter (\<lambda>n. sl_Name (p_Slot (n_Package n)) = s) ns)"
  by (induction ns arbitrary: m) auto

text \<open>The names of a graph with one base name and one slot.\<close>

definition slot_users :: "dep_graph \<Rightarrow> string \<Rightarrow> string \<Rightarrow> string set" where
  "slot_users g b s =
     {k. extract_base_name k = b \<and> (\<exists>n. g_nodes g k = Some n \<and> sl_Name (p_Slot (n_Package n)) = s)}"

lemma group_names:
  fixes b :: string
  assumes "wf_graph g" "enumerates ks (g_nodes g)"
  defines "ns \<equiv> packages_by_name g ks (\<lambda>_. []) b"
  shows "distinct (slot_map ns (\<lambda>_. []) s)" "set (slot_map ns (\<lambda>_. []) s) = slot_users g b s"
proof -
  have names: "map (\<lambda>n. p_Name (n_Package n)) (filter P (List.map_filter (g_nodes g) xs)) =
      filter (\<lambda>k. \<exists>n. g_nodes g k = Some n \<and> P n) xs" for xs P
    using assms(1) by (induction xs) (auto simp: map_filter_simps wf_graph_def split: option.splits)
  have eq: "slot_map ns (\<lambda>_. []) s =
      filter (\<lambda>k. \<exists>n. g_nodes g k = Some n \<and> sl_Name (p_Slot (n_Package n)) = s)
        (filter (\<lambda>k. extract_base_name k = b) ks)"
    by (simp add: ns_def slot_map_eq packages_by_name_eq names)
  have ks: "distinct ks" "set ks = dom (g_nodes g)" using assms(2) by (auto simp: enumerates_def)
  show "distinct (slot_map ns (\<lambda>_. []) s)" using ks by (simp add: eq)
  show "set (slot_map ns (\<lambda>_. []) s) = slot_users g b s" using ks by (auto simp: eq slot_users_def)
qed

lemma slot_conflict_reported:
  assumes "wf_graph g" "enumerates ks (g_nodes g)"
  shows "(\<exists>c \<in> set (group_slot_conflicts slots b (packages_by_name g ks (\<lambda>_. []) b)).
      \<exists>s \<in> set slots. c = slot_conflict b s (ce_Packages c) \<and> set (ce_Packages c) = slot_users g b s) \<longleftrightarrow>
    (\<exists>s \<in> set slots. 1 < card (slot_users g b s))"
proof -
  let ?ns = "packages_by_name g ks (\<lambda>_. []) b"
  let ?m = "slot_map ?ns (\<lambda>_. [])"
  note gn = group_names [OF assms, of b]
  have len: "length (?m s) = card (slot_users g b s)" for s
    using gn [of s] by (metis distinct_card)
  have big: "\<not> length ?ns \<le> 1" if "1 < length (?m s)" for s
  proof -
    have "length (?m s) \<le> length ?ns" by (simp add: slot_map_eq)
    with that show ?thesis by simp
  qed
  show ?thesis
  proof
    assume "\<exists>c \<in> set (group_slot_conflicts slots b ?ns). \<exists>s \<in> set slots.
      c = slot_conflict b s (ce_Packages c) \<and> set (ce_Packages c) = slot_users g b s"
    then obtain c where "c \<in> set (group_slot_conflicts slots b ?ns)" by blast
    then show "\<exists>s \<in> set slots. 1 < card (slot_users g b s)"
      by (auto simp: group_slot_conflicts_def Let_def len split: if_splits)
  next
    assume "\<exists>s \<in> set slots. 1 < card (slot_users g b s)"
    then obtain s where s: "s \<in> set slots" "1 < length (?m s)" using len by auto
    then have "slot_conflict b s (?m s) \<in> set (group_slot_conflicts slots b ?ns)"
      using big [OF s(2)] by (auto simp: group_slot_conflicts_def Let_def)
    moreover have "ce_Packages (slot_conflict b s (?m s)) = ?m s" by (simp add: slot_conflict_def)
    ultimately show "\<exists>c \<in> set (group_slot_conflicts slots b ?ns). \<exists>s \<in> set slots.
      c = slot_conflict b s (ce_Packages c) \<and> set (ce_Packages c) = slot_users g b s"
      using s(1) gn(2) [of s] by (intro bexI [of _ "slot_conflict b s (?m s)"] bexI [of _ s]) simp_all
  qed
qed

definition visits_groups :: "dep_graph \<Rightarrow> string list \<Rightarrow> (string \<Rightarrow> string list) \<Rightarrow> bool" where
  "visits_groups g bs ss \<longleftrightarrow>
     distinct bs \<and> set bs = extract_base_name ` dom (g_nodes g) \<and>
     (\<forall>b. distinct (ss b) \<and> set (ss b) = {s. slot_users g b s \<noteq> {}})"

definition clash :: "dep_graph \<Rightarrow> string \<Rightarrow> string \<Rightarrow> bool" where
  "clash g k l \<longleftrightarrow> k \<noteq> l \<and> extract_base_name k = extract_base_name l \<and>
     (\<exists>m n. g_nodes g k = Some m \<and> g_nodes g l = Some n \<and>
       sl_Name (p_Slot (n_Package m)) = sl_Name (p_Slot (n_Package n)))"

lemma card_gt_1: "finite A \<Longrightarrow> 1 < card A \<longleftrightarrow> (\<exists>x \<in> A. \<exists>y \<in> A. x \<noteq> y)"
  by (metis One_nat_def card_le_Suc0_iff_eq not_le)

lemma slot_users_finite: "wf_graph g \<Longrightarrow> finite (slot_users g b s)"
  by (rule finite_subset [of _ "dom (g_nodes g)"]) (auto simp: slot_users_def wf_graph_def)

lemma clash_iff:
  assumes "wf_graph g" "visits_groups g bs ss"
  shows "(\<exists>b \<in> set bs. \<exists>s \<in> set (ss b). 1 < card (slot_users g b s)) \<longleftrightarrow> (\<exists>k l. clash g k l)"
proof
  assume "\<exists>b \<in> set bs. \<exists>s \<in> set (ss b). 1 < card (slot_users g b s)"
  then obtain b s where "1 < card (slot_users g b s)" by blast
  then obtain k l where "k \<in> slot_users g b s" "l \<in> slot_users g b s" "k \<noteq> l"
    unfolding card_gt_1 [OF slot_users_finite [OF assms(1)]] by blast
  then have "clash g k l" by (auto simp: slot_users_def clash_def)
  then show "\<exists>k l. clash g k l" by blast
next
  assume "\<exists>k l. clash g k l"
  then obtain k l m n where kl: "k \<noteq> l" "extract_base_name k = extract_base_name l" "g_nodes g k = Some m"
    "g_nodes g l = Some n" "sl_Name (p_Slot (n_Package m)) = sl_Name (p_Slot (n_Package n))"
    by (auto simp: clash_def)
  let ?b = "extract_base_name k" and ?s = "sl_Name (p_Slot (n_Package m))"
  have "k \<in> slot_users g ?b ?s" "l \<in> slot_users g ?b ?s" using kl by (auto simp: slot_users_def)
  then have "1 < card (slot_users g ?b ?s)" "?s \<in> set (ss ?b)"
    using kl(1) assms(2) card_gt_1 [OF slot_users_finite [OF assms(1)]] by (auto simp: visits_groups_def)
  moreover have "?b \<in> set bs" using assms(2) kl(3) by (auto simp: visits_groups_def)
  ultimately show "\<exists>b \<in> set bs. \<exists>s \<in> set (ss b). 1 < card (slot_users g b s)" by blast
qed

lemma slot_conflicts_nonempty:
  assumes "wf_graph g" "enumerates ks (g_nodes g)"
  shows "detect_slot_conflicts ks bs ss g \<noteq> [] \<longleftrightarrow>
    (\<exists>b \<in> set bs. \<exists>s \<in> set (ss b). 1 < card (slot_users g b s))"
proof -
  let ?m = "\<lambda>b. packages_by_name g ks (\<lambda>_. []) b"
  have "group_slot_conflicts (ss b) b (?m b) \<noteq> [] \<longleftrightarrow> (\<exists>s \<in> set (ss b). 1 < card (slot_users g b s))" for b
  proof
    assume "group_slot_conflicts (ss b) b (?m b) \<noteq> []"
    then obtain s where "s \<in> set (ss b)" "1 < length (slot_map (?m b) (\<lambda>_. []) s)"
      by (auto simp: group_slot_conflicts_def Let_def filter_empty_conv split: if_splits)
    then show "\<exists>s \<in> set (ss b). 1 < card (slot_users g b s)"
      using group_names [OF assms, of b s] distinct_card by metis
  next
    assume "\<exists>s \<in> set (ss b). 1 < card (slot_users g b s)"
    with slot_conflict_reported [OF assms, of "ss b" b] show "group_slot_conflicts (ss b) b (?m b) \<noteq> []" by auto
  qed
  then show ?thesis by (simp add: detect_slot_conflicts_def Let_def)
qed

subsection \<open>Properties\<close>

text \<open>
  Slot conflicts are reported exactly when two packages of the graph have the same base name
  and the same slot, for every order in which the maps are visited. As the nodes are keyed by
  package name, a graph whose names carry no version never reports one: two versions of one
  package are never both in the graph.
\<close>

theorem slot_conflicts_exact:
  assumes "graph_built g" and "enumerates ks (g_nodes g)" and "visits_groups g bs ss"
  shows "(detect_slot_conflicts ks bs ss g \<noteq> [] \<longleftrightarrow> (\<exists>k l. clash g k l)) \<and>
    ((\<forall>k \<in> dom (g_nodes g). extract_base_name k = k) \<longrightarrow> detect_slot_conflicts ks bs ss g = [])"
proof -
  note wf = built_wf [OF assms(1)]
  have "detect_slot_conflicts ks bs ss g \<noteq> [] \<longleftrightarrow> (\<exists>k l. clash g k l)"
    using slot_conflicts_nonempty [OF wf assms(2)] clash_iff [OF wf assms(3)] by blast
  moreover have "\<not> clash g k l" if "\<forall>k \<in> dom (g_nodes g). extract_base_name k = k" for k l
    using that unfolding clash_def by (metis domI)
  ultimately show ?thesis by blast
qed

definition font_graph :: dep_graph where
  "font_graph = add_package (new_package ''media-fonts/font-bh-75dpi'' ''1.0.4'' ''0'') False
     (add_package (new_package ''media-fonts/font-bh-100dpi'' ''1.0.4'' ''0'') True new_dependency_graph)"

definition font_names :: "string list" where
  "font_names = [''media-fonts/font-bh-75dpi'', ''media-fonts/font-bh-100dpi'']"

lemma font_facts:
  "graph_built font_graph" "enumerates font_names (g_nodes font_graph)"
  "visits_groups font_graph [''media-fonts/font-bh''] (\<lambda>b. if b = ''media-fonts/font-bh'' then [''0''] else [])"
proof -
  show "graph_built font_graph" unfolding font_graph_def by (intro graph_built.intros)
  have dom: "dom (g_nodes font_graph) = set font_names"
    by (auto simp: font_graph_def add_package_def new_dependency_graph_def new_package_def font_names_def Let_def)
  then show "enumerates font_names (g_nodes font_graph)" by (simp add: enumerates_def font_names_def)
  have base: "extract_base_name k = ''media-fonts/font-bh''" if "k \<in> set font_names" for k
  proof -
    have "list_all (\<lambda>k. extract_base_name k = ''media-fonts/font-bh'') font_names" by code_simp
    with that show ?thesis by (simp add: list_all_iff)
  qed
  have slot: "sl_Name (p_Slot (n_Package n)) = ''0''" if "g_nodes font_graph k = Some n" for k n
  proof -
    have "sl_Name (parse_slot ''0'') = ''0''" by code_simp
    with that show ?thesis
      by (auto simp: font_graph_def add_package_def new_dependency_graph_def new_package_def Let_def split: if_splits)
  qed
  have users: "slot_users font_graph b s = (if b = ''media-fonts/font-bh'' \<and> s = ''0'' then set font_names else {})" for b s
  proof -
    have "k \<in> slot_users font_graph b s \<longleftrightarrow> k \<in> set font_names \<and> b = ''media-fonts/font-bh'' \<and> s = ''0''" for k
    proof (cases "g_nodes font_graph k")
      case None
      then have "k \<notin> set font_names" using dom by blast
      with None show ?thesis by (simp add: slot_users_def)
    next
      case (Some n)
      then have k: "k \<in> set font_names" using dom by blast
      show ?thesis unfolding slot_users_def mem_Collect_eq base [OF k] using Some k slot [OF Some] by simp metis
    qed
    then show ?thesis by (intro set_eqI) simp
  qed
  show "visits_groups font_graph [''media-fonts/font-bh''] (\<lambda>b. if b = ''media-fonts/font-bh'' then [''0''] else [])"
    unfolding visits_groups_def users dom using base by (auto simp: font_names_def)
qed

text \<open>The witness: two different packages whose names end alike are reported as versions of one.\<close>

theorem slot_conflicts_exact_witness:
  "detect_slot_conflicts font_names [''media-fonts/font-bh''] (\<lambda>b. if b = ''media-fonts/font-bh'' then [''0''] else []) font_graph \<noteq> []"
proof -
  have "clash font_graph ''media-fonts/font-bh-75dpi'' ''media-fonts/font-bh-100dpi''"
  proof -
    have "extract_base_name ''media-fonts/font-bh-75dpi'' = extract_base_name ''media-fonts/font-bh-100dpi''" by code_simp
    then show ?thesis
      by (simp add: clash_def font_graph_def add_package_def new_dependency_graph_def new_package_def Let_def)
  qed
  with slot_conflicts_exact [OF font_facts] show ?thesis by blast
qed

text \<open>
  a version conflict is reported for a package exactly when at least two of its dependents
  put a version constraint on it and its version fails one of them; the report names the package
  and then those dependents. A single unmet constraint is not reported.
\<close>

theorem version_conflict_exact:
  "c \<in> set (detect_version_conflicts rx ks g) \<longleftrightarrow>
   (\<exists>k \<in> set ks. \<exists>n. g_nodes g k = Some n \<and> 2 \<le> length (versioned n) \<and>
      (\<exists>e \<in> set (versioned n). \<not> satisfies rx (c_Version (e_Constraint e)) (p_Version (n_Package n))) \<and>
      c = version_conflict k n)"
proof -
  have sat: "satisfies_version_constraint rx v x = satisfies rx x v" for v x
    by (simp add: satisfies_version_constraint_def satisfies_def split: option.split)
  have le: "length (versioned n) \<le> length (n_Dependents n)" for n by (simp add: versioned_def)
  have "c \<in> set (node_version_conflict rx k n) \<longleftrightarrow> 2 \<le> length (versioned n) \<and>
      (\<exists>e \<in> set (versioned n). \<not> satisfies rx (c_Version (e_Constraint e)) (p_Version (n_Package n))) \<and>
      c = version_conflict k n" for k n
    using le [of n] by (auto simp: node_version_conflict_def Let_def sat list_all_iff)
  moreover have "c \<in> set (detect_version_conflicts rx ks g) \<longleftrightarrow>
    (\<exists>k \<in> set ks. \<exists>n. g_nodes g k = Some n \<and> c \<in> set (node_version_conflict rx k n))"
  proof -
    have "c \<in> set (case g_nodes g k of None \<Rightarrow> [] | Some n \<Rightarrow> node_version_conflict rx k n) \<longleftrightarrow>
        (\<exists>n. g_nodes g k = Some n \<and> c \<in> set (node_version_conflict rx k n))" for k
      by (cases "g_nodes g k") auto
    then show ?thesis by (simp add: detect_version_conflicts_def)
  qed
  ultimately show ?thesis by simp
qed

end
