(* ===== verification/Go_Format.thy ===== *)
theory Go_Format
  imports Go_Prelude
begin

text \<open>
  The part of the package \<open>fmt\<close> that ends up in keys and messages: decimal numbers (\<open>%d\<close>) and
  integer slices (\<open>%v\<close>). Both are injective, which is what makes a printed slice a usable map key.
\<close>

subsection \<open>Decimal numbers\<close>

definition digit_char :: "nat \<Rightarrow> char" where
  "digit_char k = char_of (48 + k)"

fun nat_string :: "nat \<Rightarrow> string" where
  "nat_string n = (if n < 10 then [digit_char n] else nat_string (n div 10) @ [digit_char (n mod 10)])"

declare nat_string.simps [simp del]

definition int_string :: "int \<Rightarrow> string" where
  "int_string i = (if i < 0 then CHR ''-'' # nat_string (nat (- i)) else nat_string (nat i))"

definition ints_string :: "int list \<Rightarrow> string" where
  "ints_string is = ''['' @ join '' '' (map int_string is) @ '']''"

subsection \<open>Printing is injective\<close>

lemma digit_char_val: "k < 10 \<Longrightarrow> digit_val (digit_char k) = int k"
  by (simp add: digit_char_def digit_val_def byte_def)

lemma digit_char_digit: "k < 10 \<Longrightarrow> is_digit (digit_char k)"
  by (simp add: digit_char_def is_digit_def byte_def)

lemma digits_value_snoc: "digits_value (s @ [c]) = 10 * digits_value s + digit_val c"
  by (simp add: digits_value_def)

lemma nat_string_value: "digits_value (nat_string n) = int n"
proof (induction n rule: nat_string.induct)
  case (1 n)
  show ?case
  proof (cases "n < 10")
    case True
    then show ?thesis by (simp add: nat_string.simps digits_value_def digit_char_val)
  next
    case False
    then have "digits_value (nat_string n) = 10 * digits_value (nat_string (n div 10)) + int (n mod 10)"
      by (simp add: nat_string.simps [of n] digits_value_snoc digit_char_val)
    with 1 False show ?thesis by (simp add: zdiv_int zmod_int)
  qed
qed

lemma nat_string_digits: "list_all is_digit (nat_string n)"
proof (induction n rule: nat_string.induct)
  case (1 n)
  then show ?case
    by (cases "n < 10") (simp_all add: nat_string.simps [of n] digit_char_digit)
qed

lemma nat_string_Nil [simp]: "nat_string n \<noteq> []"
  by (simp add: nat_string.simps [of n])

lemma nat_string_no_minus: "CHR ''-'' \<notin> set (nat_string n)"
  using nat_string_digits [of n] by (auto simp: list_all_iff is_digit_def)

lemma nat_string_no_space: "CHR '' '' \<notin> set (nat_string n)"
  using nat_string_digits [of n] by (auto simp: list_all_iff is_digit_def)

lemma nat_string_inj [simp]: "nat_string m = nat_string n \<longleftrightarrow> m = n"
  by (metis nat_string_value of_nat_eq_iff)

lemma int_string_inj [simp]: "int_string i = int_string j \<longleftrightarrow> i = j"
proof -
  have "nat_string a \<noteq> CHR ''-'' # s" for a s
    using nat_string_no_minus [of a] by auto
  then show ?thesis
    by (auto simp: int_string_def dest: sym)
qed

lemma int_string_no_space: "CHR '' '' \<notin> set (int_string i)"
  using nat_string_no_space by (simp add: int_string_def)

lemma int_string_Nil [simp]: "int_string i \<noteq> []"
  by (simp add: int_string_def)

lemma join_ints_inj:
  "join '' '' (map int_string is) = join '' '' (map int_string js) \<longleftrightarrow> is = js"
proof
  assume eq: "join '' '' (map int_string is) = join '' '' (map int_string js)"
  have nil: "join '' '' (map int_string ks) = [] \<longleftrightarrow> ks = []" for ks
    by (cases ks; cases "tl ks") auto
  show "is = js"
  proof (cases "is = []")
    case True
    with eq nil [of "is"] nil [of js] show ?thesis by simp
  next
    case False
    have "split_byte CHR '' '' (join '' '' (map int_string ks)) = map int_string ks" if "ks \<noteq> []" for ks
      using that by (intro split_byte_join) (auto simp: int_string_no_space)
    with False eq nil [of "is"] nil [of js] have "map int_string is = map int_string js"
      by metis
    then show ?thesis
      by (simp add: inj_map_eq_map inj_def)
  qed
qed simp

lemma ints_string_inj [simp]: "ints_string is = ints_string js \<longleftrightarrow> is = js"
  by (simp add: ints_string_def join_ints_inj)

end
