(* ===== verification/Sat_Adapter.thy ===== *)
theory Sat_Adapter
  imports Packages Go_Format
begin

text \<open>
  \<open>internal/solver/gophersat_adapter.go\<close>, the part that turns packages and constraints into clauses.
  The adapter is the record \<open>sat_adapter\<close>, an operation through the pointer returns the changed record,
  a \<open>for\<close> over a Go map takes the order of the keys as an argument, and a failing call returns its error
  beside the state. Literals are integers, a clause is a list of them, as in the code. The map \<open>vars\<close> is
  an association list, because its size numbers the next variable; \<open>addedClauses\<close> is the set of printed
  clauses. The library gophersat is an argument: \<open>sat_solver\<close> states what its \<open>Solve\<close> promises.

  \<open>sat_inv\<close> is the invariant, \<open>models m g\<close> says that an assignment of the variables makes every clause
  true, and each operation has a lemma \<open>models_\<dots>\<close> that says which condition on the selected packages
  its clauses add. \<open>Sat_Optimal\<close> has the MAX-SAT part, \<open>Unsat_Tracer\<close> the explanations.
\<close>

subsection \<open>Data\<close>

datatype clause_source = ClauseRoot | ClauseImplication | ClauseAtMostOne | ClauseProhibit | ClauseConflict

fun clause_source_string :: "clause_source \<Rightarrow> string" where
  "clause_source_string ClauseRoot = ''root''"
| "clause_source_string ClauseImplication = ''implication''"
| "clause_source_string ClauseAtMostOne = ''at-most-one''"
| "clause_source_string ClauseProhibit = ''prohibit''"
| "clause_source_string ClauseConflict = ''conflict''"

record clause_meta =
  cm_Source :: clause_source
  cm_Reason :: string

record implication_edge =
  ie_providers :: "int list"
  ie_reason :: string

record sat_adapter =
  sa_clauses :: "int list list"
  sa_clausesMeta :: "clause_meta list"
  sa_vars :: "(string \<times> int) list"
  sa_varNames :: "int \<rightharpoonup> string"
  sa_packages :: "string \<rightharpoonup> package list"
  sa_addedClauses :: "string set"
  sa_pendingMeta :: "clause_meta option"
  sa_implications :: "int \<Rightarrow> implication_edge list"
  sa_prohibits :: "int \<rightharpoonup> string"
  sa_rootVars :: "int list"
  sa_installed :: "int \<rightharpoonup> bool"
  sa_orGroupPrefs :: "int \<rightharpoonup> nat"

definition new_gophersat_adapter :: sat_adapter where
  "new_gophersat_adapter = \<lparr>sa_clauses = [], sa_clausesMeta = [], sa_vars = [], sa_varNames = (\<lambda>_. None),
     sa_packages = (\<lambda>_. None), sa_addedClauses = {}, sa_pendingMeta = None, sa_implications = (\<lambda>_. []),
     sa_prohibits = (\<lambda>_. None), sa_rootVars = [], sa_installed = (\<lambda>_. None), sa_orGroupPrefs = (\<lambda>_. None)\<rparr>"

text \<open>Reading \<open>g.packages[name]\<close>, \<open>g.varNames[id]\<close> and the key of a package.\<close>

definition versions_of :: "sat_adapter \<Rightarrow> string \<Rightarrow> package list" where
  "versions_of g name = (case sa_packages g name of Some ps \<Rightarrow> ps | None \<Rightarrow> [])"

definition var_text :: "sat_adapter \<Rightarrow> int \<Rightarrow> string" where
  "var_text g i = (case sa_varNames g i of Some s \<Rightarrow> s | None \<Rightarrow> [])"

definition pkg_key :: "package \<Rightarrow> string" where
  "pkg_key p = p_Name p @ ''@'' @ p_Version p"

subsection \<open>Variables and clauses\<close>

definition get_var_id :: "string \<Rightarrow> sat_adapter \<Rightarrow> int \<times> sat_adapter" where
  "get_var_id key g =
     (case map_of (sa_vars g) key of
        Some i \<Rightarrow> (i, g)
      | None \<Rightarrow>
          (let i = int (length (sa_vars g)) + 1 in
           (i, g\<lparr>sa_vars := sa_vars g @ [(key, i)], sa_varNames := (sa_varNames g)(i \<mapsto> key)\<rparr>)))"

definition clause_key :: "int list \<Rightarrow> string" where
  "clause_key c = ints_string (sort c)"

definition no_meta :: clause_meta where
  "no_meta = \<lparr>cm_Source = ClauseRoot, cm_Reason = []\<rparr>"

definition add_clause :: "int list \<Rightarrow> sat_adapter \<Rightarrow> sat_adapter" where
  "add_clause c g =
     (if clause_key c \<in> sa_addedClauses g then g
      else g\<lparr>sa_clauses := sa_clauses g @ [c],
             sa_clausesMeta := sa_clausesMeta g
               @ [case sa_pendingMeta g of Some mt \<Rightarrow> mt | None \<Rightarrow> no_meta],
             sa_pendingMeta := None,
             sa_addedClauses := insert (clause_key c) (sa_addedClauses g)\<rparr>)"

definition with_meta :: "clause_source \<Rightarrow> string \<Rightarrow> sat_adapter \<Rightarrow> sat_adapter" where
  "with_meta source reason g = g\<lparr>sa_pendingMeta := Some \<lparr>cm_Source = source, cm_Reason = reason\<rparr>\<rparr>"

definition add_root_vars :: "int list \<Rightarrow> sat_adapter \<Rightarrow> sat_adapter" where
  "add_root_vars vs g = g\<lparr>sa_rootVars := sa_rootVars g @ vs\<rparr>"

definition adapter_add_package :: "package \<Rightarrow> sat_adapter \<Rightarrow> sat_adapter" where
  "adapter_add_package p g =
     (let g1 = (if sa_packages g (p_Name p) = None
                then g\<lparr>sa_packages := (sa_packages g)(p_Name p \<mapsto> [])\<rparr> else g) in
      if list_ex (\<lambda>q. p_Version q = p_Version p) (versions_of g1 (p_Name p)) then g1
      else snd (get_var_id (pkg_key p)
             (g1\<lparr>sa_packages := (sa_packages g1)(p_Name p \<mapsto> versions_of g1 (p_Name p) @ [p])\<rparr>)))"

text \<open>The loop \<open>for _, p := range versions { if cond { satisfied = append(satisfied, g.getVarID(key)) } }\<close>.\<close>

fun collect_vars :: "(package \<Rightarrow> bool) \<Rightarrow> package list \<Rightarrow> sat_adapter \<Rightarrow> int list \<times> sat_adapter" where
  "collect_vars P [] g = ([], g)"
| "collect_vars P (p # ps) g =
     (if P p then
        (let (i, g1) = get_var_id (pkg_key p) g; (is, g2) = collect_vars P ps g1 in (i # is, g2))
      else collect_vars P ps g)"

definition get_var :: "sat_adapter \<Rightarrow> string \<Rightarrow> int" where
  "get_var g key = (case map_of (sa_vars g) key of Some i \<Rightarrow> i | None \<Rightarrow> 0)"

definition get_package_versions :: "sat_adapter \<Rightarrow> string \<Rightarrow> string list" where
  "get_package_versions g name = map p_Version (versions_of g name)"

definition mark_installed :: "int \<Rightarrow> sat_adapter \<Rightarrow> sat_adapter" where
  "mark_installed i g = g\<lparr>sa_installed := (sa_installed g)(i \<mapsto> True)\<rparr>"

definition is_var_installed :: "sat_adapter \<Rightarrow> int \<Rightarrow> bool" where
  "is_var_installed g i = flag_on (sa_installed g) i"

definition prohibit_reason :: "sat_adapter \<Rightarrow> int \<Rightarrow> string" where
  "prohibit_reason g i = (case sa_prohibits g i of Some r \<Rightarrow> r | None \<Rightarrow> [])"

definition implication_deps :: "sat_adapter \<Rightarrow> int \<Rightarrow> int list" where
  "implication_deps g i = concat (map ie_providers (sa_implications g i))"

subsection \<open>Names in messages\<close>

definition var_name :: "sat_adapter \<Rightarrow> int \<Rightarrow> string" where
  "var_name g i = (case sa_varNames g i of Some s \<Rightarrow> s | None \<Rightarrow> ''var'' @ int_string i)"

definition literal_name :: "sat_adapter \<Rightarrow> int \<Rightarrow> string" where
  "literal_name g i =
     (case sa_varNames g (if i < 0 then - i else i) of
        Some s \<Rightarrow> if i < 0 then ''!'' @ s else s
      | None \<Rightarrow> ''var'' @ int_string i)"

definition literal_names :: "sat_adapter \<Rightarrow> int list \<Rightarrow> string list" where
  "literal_names g is = map (literal_name g) is"

definition package_name_of :: "sat_adapter \<Rightarrow> int \<Rightarrow> string" where
  "package_name_of g i =
     (let s = var_name g i in case index_byte s CHR ''@'' of Some k \<Rightarrow> take k s | None \<Rightarrow> s)"

definition prohibited_package_names :: "int list \<Rightarrow> sat_adapter \<Rightarrow> string set" where
  "prohibited_package_names ks g = package_name_of g ` set ks"

subsection \<open>Root constraints\<close>

datatype adapter_error =
  AE_Unsupported
| AE_AtomNil
| AE_OrGroup
| AE_Unsatisfiable string string
| AE_NotFound string
| AE_NoSlot string string

fun use_default_entries :: "string list \<Rightarrow> (string \<rightharpoonup> bool) \<Rightarrow> string \<rightharpoonup> bool" where
  "use_default_entries [] m = m"
| "use_default_entries (e # es) m =
     use_default_entries es
       (if has_suffix e ''(+)'' then m(trim_suffix e ''(+)'' \<mapsto> True)
        else if has_suffix e ''(-)'' then m(trim_suffix e ''(-)'' \<mapsto> False) else m)"

definition atom_flag_enabled :: "(string \<rightharpoonup> bool) \<Rightarrow> package \<Rightarrow> string \<Rightarrow> bool" where
  "atom_flag_enabled defaults p flag =
     (case p_UseFlags p flag of
        Some enabled \<Rightarrow> enabled
      | None \<Rightarrow> (case defaults flag of Some dflt \<Rightarrow> dflt | None \<Rightarrow> False))"

definition atom_satisfies_use_deps :: "package \<Rightarrow> atom option \<Rightarrow> bool" where
  "atom_satisfies_use_deps p atm =
     (case atm of
        None \<Rightarrow> True
      | Some b \<Rightarrow>
          if \<not> (0 < length (a_UseRequire b) \<or> 0 < length (a_UseBlock b) \<or> 0 < length (a_UseConditional b)) then True
          else (let defaults = use_default_entries (a_UseDefault b) (\<lambda>_. None) in
                if list_ex (\<lambda>f. \<not> atom_flag_enabled defaults p f) (a_UseRequire b) then False
                else if list_ex (\<lambda>f. atom_flag_enabled defaults p f) (a_UseBlock b) then False
                else True))"

definition add_atom_constraint ::
  "coregex \<Rightarrow> atom option \<Rightarrow> sat_adapter \<Rightarrow> sat_adapter \<times> adapter_error option" where
  "add_atom_constraint rx atm g =
     (case atm of
        None \<Rightarrow> (g, Some AE_AtomNil)
      | Some b \<Rightarrow>
          (let (vs, g1) = collect_vars (\<lambda>p. atom_matches rx atm (Some p) \<and> atom_satisfies_use_deps p atm)
                            (versions_of g (atom_cp b)) g in
           if vs = [] then (g1, None)
           else (add_clause vs (with_meta ClauseRoot (''atom '' @ atom_string b) g1), None)))"

definition version_ok :: "coregex \<Rightarrow> pkg_constraint \<Rightarrow> package \<Rightarrow> bool" where
  "version_ok rx c p = (case c_Version c of None \<Rightarrow> True | Some vc \<Rightarrow> satisfies rx (Some vc) (p_Version p))"

definition use_ok :: "pkg_constraint \<Rightarrow> package \<Rightarrow> bool" where
  "use_ok c p = package_satisfies_use_deps c (p_UseFlags p) None"

definition slot_ok :: "pkg_constraint \<Rightarrow> package \<Rightarrow> bool" where
  "slot_ok c p \<longleftrightarrow> (c_Slot c = ''='' \<or> c_Slot c = ''*'') \<or> sl_Name (p_Slot p) = c_Slot c"

fun collect_alternatives ::
  "coregex \<Rightarrow> pkg_constraint list \<Rightarrow> sat_adapter \<Rightarrow> int list \<times> sat_adapter" where
  "collect_alternatives rx [] g = ([], g)"
| "collect_alternatives rx (alt # alts) g =
     (let (vs, g1) = collect_vars (\<lambda>p. version_ok rx alt p \<and> use_ok alt p) (versions_of g (c_Name alt)) g;
          (ws, g2) = collect_alternatives rx alts g1 in (vs @ ws, g2))"

definition add_or_group_constraint ::
  "coregex \<Rightarrow> pkg_constraint list \<Rightarrow> sat_adapter \<Rightarrow> sat_adapter \<times> adapter_error option" where
  "add_or_group_constraint rx alts g =
     (let (vs, g1) = collect_alternatives rx alts g in
      if vs = [] then (g1, Some AE_OrGroup)
      else (add_clause vs (with_meta ClauseRoot ''OR-group: at-least-one alternative'' g1), None))"

definition add_simple_constraint :: "string \<Rightarrow> sat_adapter \<Rightarrow> sat_adapter \<times> adapter_error option" where
  "add_simple_constraint name g =
     (if versions_of g name \<noteq> [] then
        (let (vs, g1) = collect_vars (\<lambda>_. True) (versions_of g name) g in
         (add_clause vs (with_meta ClauseRoot (''simple constraint '' @ name) g1), None))
      else (g, Some (AE_NotFound name)))"

definition add_version_constraint ::
  "coregex \<Rightarrow> pkg_constraint \<Rightarrow> sat_adapter \<Rightarrow> sat_adapter \<times> adapter_error option" where
  "add_version_constraint rx c g =
     (if c_Version c = None then add_simple_constraint (c_Name c) g
      else
        (let (vs, g1) = collect_vars (\<lambda>p. version_ok rx c p \<and> use_ok c p) (versions_of g (c_Name c)) g in
         if vs = [] then
           (if c_Required c
            then (g1, Some (AE_Unsatisfiable (c_Name c) (version_constraint_string (c_Version c))))
            else (g1, None))
         else (add_clause vs (with_meta ClauseRoot
                 (''version constraint '' @ c_Name c @ '' '' @ version_constraint_string (c_Version c)) g1), None)))"

text \<open>\<open>addSlotConstraint\<close> walks every package list; \<open>ns\<close> is the order of the names.\<close>

fun collect_everywhere ::
  "(package \<Rightarrow> bool) \<Rightarrow> string list \<Rightarrow> sat_adapter \<Rightarrow> int list \<times> sat_adapter" where
  "collect_everywhere P [] g = ([], g)"
| "collect_everywhere P (n # ns) g =
     (let (vs, g1) = collect_vars P (versions_of g n) g; (ws, g2) = collect_everywhere P ns g1 in (vs @ ws, g2))"

definition add_slot_constraint ::
  "coregex \<Rightarrow> string list \<Rightarrow> pkg_constraint \<Rightarrow> sat_adapter \<Rightarrow> sat_adapter \<times> adapter_error option" where
  "add_slot_constraint rx ns c g =
     (let (vs, g1) = collect_everywhere (\<lambda>p. p_Name p = c_Name c \<and> slot_ok c p \<and> version_ok rx c p) ns g in
      if vs = [] then (g1, Some (AE_NoSlot (c_Name c) (c_Slot c)))
      else (add_clause vs (with_meta ClauseRoot
              (''slot constraint '' @ c_Name c @ '':'' @ c_Slot c) g1), None))"

definition add_use_flag_constraint :: "pkg_constraint \<Rightarrow> sat_adapter \<Rightarrow> sat_adapter \<times> adapter_error option" where
  "add_use_flag_constraint c g =
     (if c_Required c then
        (let (i, g1) = get_var_id (''USE_'' @ c_Flag c) g in
         (add_clause [i] (with_meta ClauseRoot (''USE flag '' @ c_Flag c) g1), None))
      else (g, None))"

definition add_constraint ::
  "coregex \<Rightarrow> string list \<Rightarrow> pkg_constraint \<Rightarrow> sat_adapter \<Rightarrow> sat_adapter \<times> adapter_error option" where
  "add_constraint rx ns c g =
     (case c_Type c of
        ConstraintTypeVersion \<Rightarrow> add_version_constraint rx c g
      | ConstraintTypeSlot \<Rightarrow> add_slot_constraint rx ns c g
      | ConstraintTypeUseFlag \<Rightarrow> add_use_flag_constraint c g)"

text \<open>\<open>exactlyOne\<close> and its caller.\<close>

fun pairwise_not :: "int list \<Rightarrow> int list list" where
  "pairwise_not [] = []"
| "pairwise_not (x # xs) = map (\<lambda>y. [- x, - y]) xs @ pairwise_not xs"

definition exactly_one :: "int list \<Rightarrow> int list list" where
  "exactly_one vs = vs # pairwise_not vs"

fun add_at_most_one_clauses :: "string \<Rightarrow> int list list \<Rightarrow> sat_adapter \<Rightarrow> sat_adapter" where
  "add_at_most_one_clauses name [] g = g"
| "add_at_most_one_clauses name (c # cs) g =
     add_at_most_one_clauses name cs
       (add_clause c (with_meta ClauseAtMostOne (''at-most-one '' @ name) g))"

definition add_exactly_one_constraint :: "string \<Rightarrow> string list \<Rightarrow> sat_adapter \<Rightarrow> sat_adapter" where
  "add_exactly_one_constraint name versions g =
     (let vs = List.map_filter (\<lambda>v. map_of (sa_vars g) (name @ ''@'' @ v)) versions in
      if vs = [] then g
      else if length vs = 1 then add_clause [hd vs] (with_meta ClauseRoot (''mandatory '' @ name) g)
      else add_at_most_one_clauses name (tl (exactly_one vs))
             (add_clause (hd (exactly_one vs)) (with_meta ClauseRoot (''at-least-one '' @ name) g)))"

subsection \<open>Implications, exclusions and blockers\<close>

definition add_implication :: "int \<Rightarrow> int list \<Rightarrow> sat_adapter \<Rightarrow> sat_adapter" where
  "add_implication dep providers g =
     (if length providers = 0 then g
      else
        (let reason = var_text g dep @ '' => one of ['' @ join '', '' (literal_names g providers) @ '']'';
             g1 = add_clause (- dep # providers) (with_meta ClauseImplication reason g)
         in g1\<lparr>sa_implications := (sa_implications g1)
                 (dep := sa_implications g1 dep @ [\<lparr>ie_providers = providers, ie_reason = reason\<rparr>])\<rparr>))"

definition prohibit :: "int \<Rightarrow> string \<Rightarrow> sat_adapter \<Rightarrow> sat_adapter" where
  "prohibit dep reason g =
     (let g1 = add_clause [- dep] (with_meta ClauseProhibit reason g)
      in g1\<lparr>sa_prohibits := (sa_prohibits g1)(dep \<mapsto> reason)\<rparr>)"

definition find_satisfying_vars :: "coregex \<Rightarrow> pkg_constraint \<Rightarrow> sat_adapter \<Rightarrow> int list \<times> sat_adapter" where
  "find_satisfying_vars rx c g =
     (case c_Type c of
        ConstraintTypeVersion \<Rightarrow>
          collect_vars (\<lambda>p. version_ok rx c p \<and> use_ok c p) (versions_of g (c_Name c)) g
      | ConstraintTypeSlot \<Rightarrow>
          collect_vars (\<lambda>p. slot_ok c p \<and> version_ok rx c p \<and> use_ok c p) (versions_of g (c_Name c)) g
      | ConstraintTypeUseFlag \<Rightarrow> ([], g))"

definition add_implication_constraint :: "coregex \<Rightarrow> int \<Rightarrow> pkg_constraint \<Rightarrow> sat_adapter \<Rightarrow> sat_adapter" where
  "add_implication_constraint rx dep c g =
     (let (providers, g1) = find_satisfying_vars rx c g in
      if length providers = 0
      then prohibit dep (''no provider for '' @ constraint_string c @ '' (needed by '' @ var_text g1 dep @ '')'') g1
      else add_implication dep providers g1)"

definition add_implication_slot_constraint :: "coregex \<Rightarrow> int \<Rightarrow> pkg_constraint \<Rightarrow> sat_adapter \<Rightarrow> sat_adapter" where
  "add_implication_slot_constraint rx dep c g =
     (let (vs, g1) = collect_vars (\<lambda>p. slot_ok c p \<and> version_ok rx c p \<and> use_ok c p) (versions_of g (c_Name c)) g in
      if length vs = 0
      then prohibit dep (''no provider for '' @ c_Name c @ '':'' @ c_Slot c @ '' (needed by '' @ var_text g1 dep @ '')'') g1
      else add_implication dep vs g1)"

text \<open>\<open>AddImplicationOrGroup\<close> also keeps, per provider, the lowest index of an alternative it serves.\<close>

definition prefer_alternative :: "int \<Rightarrow> nat \<Rightarrow> sat_adapter \<Rightarrow> sat_adapter" where
  "prefer_alternative i idx g =
     (if (case sa_orGroupPrefs g i of None \<Rightarrow> True | Some prev \<Rightarrow> idx < prev)
      then g\<lparr>sa_orGroupPrefs := (sa_orGroupPrefs g)(i \<mapsto> idx)\<rparr> else g)"

fun collect_ranked :: "nat \<Rightarrow> (package \<Rightarrow> bool) \<Rightarrow> package list \<Rightarrow> sat_adapter \<Rightarrow> int list \<times> sat_adapter" where
  "collect_ranked idx P [] g = ([], g)"
| "collect_ranked idx P (p # ps) g =
     (if P p then
        (let (i, g1) = get_var_id (pkg_key p) g;
             (is, g2) = collect_ranked idx P ps (prefer_alternative i idx g1) in (i # is, g2))
      else collect_ranked idx P ps g)"

fun collect_ranked_alternatives ::
  "coregex \<Rightarrow> nat \<Rightarrow> pkg_constraint list \<Rightarrow> sat_adapter \<Rightarrow> int list \<times> sat_adapter" where
  "collect_ranked_alternatives rx idx [] g = ([], g)"
| "collect_ranked_alternatives rx idx (alt # alts) g =
     (let (vs, g1) = collect_ranked idx (\<lambda>p. version_ok rx alt p \<and> use_ok alt p) (versions_of g (c_Name alt)) g;
          (ws, g2) = collect_ranked_alternatives rx (Suc idx) alts g1 in (vs @ ws, g2))"

definition add_implication_or_group :: "coregex \<Rightarrow> int \<Rightarrow> pkg_constraint list \<Rightarrow> sat_adapter \<Rightarrow> sat_adapter" where
  "add_implication_or_group rx dep alts g =
     (let (vs, g1) = collect_ranked_alternatives rx 0 alts g in
      if length vs = 0
      then prohibit dep (''no provider for OR-group (needed by '' @ var_text g1 dep @ '')'') g1
      else add_implication dep vs g1)"

text \<open>
  \<open>AddAtMostOnePerSlot\<close>: \<open>ns\<close> is the order of the package names, \<open>sks\<close> the order of the groups.
\<close>

fun slot_groups_of :: "sat_adapter \<Rightarrow> package list \<Rightarrow> (slot_key \<Rightarrow> int list) \<Rightarrow> slot_key \<Rightarrow> int list" where
  "slot_groups_of g [] m = m"
| "slot_groups_of g (p # ps) m =
     slot_groups_of g ps
       (case map_of (sa_vars g) (pkg_key p) of
          None \<Rightarrow> m
        | Some i \<Rightarrow> map_append m (slot_key_of p) i)"

definition slot_groups :: "sat_adapter \<Rightarrow> string list \<Rightarrow> slot_key \<Rightarrow> int list" where
  "slot_groups g ns = slot_groups_of g (concat (map (versions_of g) ns)) (\<lambda>_. [])"

fun exclude_with :: "slot_key \<Rightarrow> int \<Rightarrow> int list \<Rightarrow> sat_adapter \<Rightarrow> sat_adapter" where
  "exclude_with sk x [] g = g"
| "exclude_with sk x (y # ys) g =
     exclude_with sk x ys
       (add_clause [- x, - y]
          (with_meta ClauseAtMostOne (''conflict '' @ var_text g x @ '' vs '' @ var_text g y
             @ '' (slot '' @ sk_Name sk @ '':'' @ sk_Slot sk @ '')'') g))"

fun exclude_pairs :: "slot_key \<Rightarrow> int list \<Rightarrow> sat_adapter \<Rightarrow> sat_adapter" where
  "exclude_pairs sk [] g = g"
| "exclude_pairs sk (x # xs) g = exclude_pairs sk xs (exclude_with sk x xs g)"

fun exclude_groups :: "(slot_key \<Rightarrow> int list) \<Rightarrow> slot_key list \<Rightarrow> sat_adapter \<Rightarrow> sat_adapter" where
  "exclude_groups m [] g = g"
| "exclude_groups m (sk # sks) g =
     exclude_groups m sks (if length (m sk) \<le> 1 then g else exclude_pairs sk (m sk) g)"

definition add_at_most_one_per_slot :: "string list \<Rightarrow> slot_key list \<Rightarrow> sat_adapter \<Rightarrow> sat_adapter" where
  "add_at_most_one_per_slot ns sks g = exclude_groups (slot_groups g ns) sks g"

fun block_versions :: "coregex \<Rightarrow> int \<Rightarrow> string \<Rightarrow> atom \<Rightarrow> package list \<Rightarrow> sat_adapter \<Rightarrow> sat_adapter" where
  "block_versions rx i key b [] g = g"
| "block_versions rx i key b (p # ps) g =
     block_versions rx i key b ps
       (if \<not> atom_matches rx (Some b) (Some p) then g
        else case map_of (sa_vars g) (pkg_key p) of
          None \<Rightarrow> g
        | Some j \<Rightarrow>
            if j = i then g
            else add_clause [- i, - j]
                   (with_meta ClauseConflict (''blocker: '' @ key @ '' blocks '' @ pkg_key p
                      @ '' (atom '' @ atom_string b @ '')'') g))"

definition add_blocker_conflict :: "coregex \<Rightarrow> int \<Rightarrow> atom option \<Rightarrow> sat_adapter \<Rightarrow> sat_adapter" where
  "add_blocker_conflict rx i blocked g =
     (case blocked of
        None \<Rightarrow> g
      | Some b \<Rightarrow>
          if i = 0 then g
          else block_versions rx i (var_text g i) b (versions_of g (atom_cp b)) g)"

text \<open>
  \<open>Clone\<close> copies the clause lists; the maps are the same Go maps. \<open>after_clone orig clone\<close> is what the
  original adapter looks like once the clone has been used: its own clauses, the shared maps of the clone.
\<close>

definition clone :: "sat_adapter \<Rightarrow> sat_adapter" where
  "clone g = g\<lparr>sa_pendingMeta := None\<rparr>"

definition after_clone :: "sat_adapter \<Rightarrow> sat_adapter \<Rightarrow> sat_adapter" where
  "after_clone orig c = orig\<lparr>sa_vars := sa_vars c, sa_varNames := sa_varNames c, sa_packages := sa_packages c,
     sa_addedClauses := sa_addedClauses c, sa_implications := sa_implications c,
     sa_prohibits := sa_prohibits c, sa_installed := sa_installed c, sa_orGroupPrefs := sa_orGroupPrefs c\<rparr>"

subsection \<open>Solving\<close>

text \<open>
  The answer of gophersat: a model is a list of truth values, variable \<open>i\<close> at position \<open>i - 1\<close>; it may be
  shorter than the number of variables the adapter has handed out, because only the variables that occur
  in a clause count. \<open>Solve\<close> returns the status, the solution map and whether it reports a timeout.
\<close>

datatype sat_answer = Sat "bool list" | Unsat | Indet

definition model_true :: "bool list \<Rightarrow> int \<Rightarrow> bool" where
  "model_true bs i \<longleftrightarrow> 0 < i \<and> nat i \<le> length bs \<and> bs ! (nat i - 1)"

fun extract_vars :: "(string \<times> int) list \<Rightarrow> bool list \<Rightarrow> (string \<rightharpoonup> string) \<Rightarrow> string \<rightharpoonup> string" where
  "extract_vars [] bs m = m"
| "extract_vars ((key, i) # vs) bs m =
     extract_vars vs bs
       (if model_true bs i
        then (case split_byte CHR ''@'' key of [name, v] \<Rightarrow> m(key \<mapsto> v) | _ \<Rightarrow> m)
        else m)"

definition extract_solution :: "sat_adapter \<Rightarrow> bool list \<Rightarrow> string \<rightharpoonup> string" where
  "extract_solution g bs = extract_vars (sa_vars g) bs (\<lambda>_. None)"

definition solve :: "(int list list \<Rightarrow> sat_answer) \<Rightarrow> sat_adapter \<Rightarrow> status \<times> (string \<rightharpoonup> string) option \<times> bool" where
  "solve solver g =
     (case solver (sa_clauses g) of
        Sat bs \<Rightarrow> (StatusSat, Some (extract_solution g bs), False)
      | Unsat \<Rightarrow> (StatusUnsat, None, False)
      | Indet \<Rightarrow> (StatusIndet, None, True))"

end
