(* ===== verification/Sat_Meaning.thy ===== *)
theory Sat_Meaning
  imports Sat_Adapter
begin

text \<open>
  What the clauses of \<open>Sat_Adapter\<close> mean. \<open>models m g\<close>: the assignment \<open>m\<close> of the variables makes every
  clause of the adapter true; \<open>selects m g p\<close>: it selects the package \<open>p\<close>. The invariant \<open>sat_inv\<close> holds of
  every adapter the operations build (\<open>adapter_built\<close>), and under it every operation adds exactly the
  condition its comment in the code states. The locale \<open>sat_solver\<close> is the contract of gophersat.
\<close>

subsection \<open>Assignments\<close>

definition lit :: "(int \<Rightarrow> bool) \<Rightarrow> int \<Rightarrow> bool" where
  "lit m l \<longleftrightarrow> (if l < 0 then \<not> m (- l) else m l)"

definition clause_true :: "(int \<Rightarrow> bool) \<Rightarrow> int list \<Rightarrow> bool" where
  "clause_true m c \<longleftrightarrow> list_ex (lit m) c"

definition models :: "(int \<Rightarrow> bool) \<Rightarrow> sat_adapter \<Rightarrow> bool" where
  "models m g \<longleftrightarrow> list_all (clause_true m) (sa_clauses g)"

definition selects :: "(int \<Rightarrow> bool) \<Rightarrow> sat_adapter \<Rightarrow> package \<Rightarrow> bool" where
  "selects m g p \<longleftrightarrow> m (get_var g (pkg_key p))"

lemma lit_pos: "0 \<le> l \<Longrightarrow> lit m l = m l"
  by (simp add: lit_def)

lemma lit_neg: "0 < l \<Longrightarrow> lit m (- l) = (\<not> m l)"
  by (simp add: lit_def)

lemma clause_true_set: "set c = set d \<Longrightarrow> clause_true m c = clause_true m d"
  by (simp add: clause_true_def list_ex_iff)

lemma clause_true_Cons [simp]: "clause_true m (l # c) \<longleftrightarrow> lit m l \<or> clause_true m c"
  by (simp add: clause_true_def)

lemma clause_true_Nil [simp]: "\<not> clause_true m []"
  by (simp add: clause_true_def)

lemma clause_true_pos: "\<forall>l \<in> set c. 0 < l \<Longrightarrow> clause_true m c \<longleftrightarrow> (\<exists>l \<in> set c. m l)"
  unfolding clause_true_def list_ex_iff by (intro bex_cong refl) (simp add: lit_pos order_less_imp_le)

lemma clause_key_eq: "clause_key c = clause_key d \<Longrightarrow> set c = set d"
  unfolding clause_key_def ints_string_inj by (metis set_sort)

subsection \<open>The invariant\<close>

text \<open>
  The variables are numbered from 1 in the order of their creation and \<open>varNames\<close> is the inverse of
  \<open>vars\<close>; a registered package has its variable and its list holds each version once; every clause has its
  metadata and its key, is not empty and speaks of existing variables; every recorded implication and
  prohibition has its clause.
\<close>

definition vars_inv :: "sat_adapter \<Rightarrow> bool" where
  "vars_inv g \<longleftrightarrow> map snd (sa_vars g) = map int [1..<Suc (length (sa_vars g))]
     \<and> distinct (map fst (sa_vars g))
     \<and> (\<forall>i k. sa_varNames g i = Some k \<longleftrightarrow> map_of (sa_vars g) k = Some i)"

definition packages_inv :: "sat_adapter \<Rightarrow> bool" where
  "packages_inv g \<longleftrightarrow> (\<forall>n ps. sa_packages g n = Some ps \<longrightarrow> distinct (map p_Version ps)
     \<and> (\<forall>p \<in> set ps. p_Name p = n \<and> map_of (sa_vars g) (pkg_key p) \<noteq> None))"

definition known_lit :: "sat_adapter \<Rightarrow> int \<Rightarrow> bool" where
  "known_lit g l \<longleftrightarrow> l \<noteq> 0 \<and> \<bar>l\<bar> \<le> int (length (sa_vars g))"

definition clauses_inv :: "sat_adapter \<Rightarrow> bool" where
  "clauses_inv g \<longleftrightarrow> length (sa_clausesMeta g) = length (sa_clauses g)
     \<and> sa_addedClauses g = clause_key ` set (sa_clauses g)
     \<and> (\<forall>c \<in> set (sa_clauses g). c \<noteq> [] \<and> (\<forall>l \<in> set c. known_lit g l))"

definition edges_inv :: "sat_adapter \<Rightarrow> bool" where
  "edges_inv g \<longleftrightarrow>
     (\<forall>d. \<forall>e \<in> set (sa_implications g d). 0 < d \<and> ie_providers e \<noteq> []
        \<and> (\<forall>v \<in> set (ie_providers e). 0 < v)
        \<and> (\<exists>c \<in> set (sa_clauses g). set c = insert (- d) (set (ie_providers e))))
     \<and> (\<forall>d r. sa_prohibits g d = Some r \<longrightarrow> 0 < d \<and> [- d] \<in> set (sa_clauses g))"

definition sat_inv :: "sat_adapter \<Rightarrow> bool" where
  "sat_inv g \<longleftrightarrow> vars_inv g \<and> packages_inv g \<and> clauses_inv g \<and> edges_inv g"

lemma sat_invI: "vars_inv g \<Longrightarrow> packages_inv g \<Longrightarrow> clauses_inv g \<Longrightarrow> edges_inv g \<Longrightarrow> sat_inv g"
  by (simp add: sat_inv_def)

lemma sat_invD: assumes "sat_inv g" shows "vars_inv g" "packages_inv g" "clauses_inv g" "edges_inv g"
  using assms by (simp_all add: sat_inv_def)

lemma sat_inv_new: "sat_inv new_gophersat_adapter"
  by (simp add: sat_inv_def vars_inv_def packages_inv_def clauses_inv_def edges_inv_def new_gophersat_adapter_def)

text \<open>The parts of the state that a component of the invariant reads.\<close>

lemma vars_inv_cong:
  "sa_vars h = sa_vars g \<Longrightarrow> sa_varNames h = sa_varNames g \<Longrightarrow> vars_inv h = vars_inv g"
  by (simp add: vars_inv_def)

lemma packages_inv_cong:
  "sa_vars h = sa_vars g \<Longrightarrow> sa_packages h = sa_packages g \<Longrightarrow> packages_inv h = packages_inv g"
  by (simp add: packages_inv_def)

lemma get_var_id_known:
  "map_of (sa_vars g) k = Some i \<Longrightarrow> get_var_id k g = (i, g)"
  by (simp add: get_var_id_def)

lemma vars_invD:
  assumes "vars_inv g"
  shows "map snd (sa_vars g) = map int [1..<Suc (length (sa_vars g))]"
    and "distinct (map fst (sa_vars g))"
    and "sa_varNames g i = Some k \<longleftrightarrow> map_of (sa_vars g) k = Some i"
  using assms unfolding vars_inv_def by blast+

lemma vars_inv_ids: "vars_inv g \<Longrightarrow> snd ` set (sa_vars g) = int ` {1..<Suc (length (sa_vars g))}"
  using vars_invD(1) [of g] by (metis set_map set_upt)

lemma vars_inv_range:
  assumes "vars_inv g" "map_of (sa_vars g) k = Some i"
  shows "0 < i \<and> i \<le> int (length (sa_vars g))"
proof -
  have "(k, i) \<in> set (sa_vars g)" using assms(2) by (rule map_of_SomeD)
  then have "i \<in> snd ` set (sa_vars g)" by force
  then have "i \<in> int ` {1..<Suc (length (sa_vars g))}"
    by (simp only: vars_inv_ids [OF assms(1)])
  then show ?thesis by auto
qed

lemma vars_inv_surj:
  assumes "vars_inv g" "0 < i" "i \<le> int (length (sa_vars g))"
  shows "\<exists>k. map_of (sa_vars g) k = Some i"
proof -
  have "i \<in> int ` {1..<Suc (length (sa_vars g))}"
    using assms(2,3) by (intro image_eqI [of _ _ "nat i"]) auto
  then have "i \<in> snd ` set (sa_vars g)"
    by (simp only: vars_inv_ids [OF assms(1)])
  then obtain k where "(k, i) \<in> set (sa_vars g)" by auto
  then have "map_of (sa_vars g) k = Some i"
    using vars_invD(2) [OF assms(1)] by simp
  then show ?thesis ..
qed

lemma vars_inv_inj:
  assumes "vars_inv g" "map_of (sa_vars g) k = Some i" "map_of (sa_vars g) k' = Some i"
  shows "k = k'"
  using assms by (metis option.inject vars_inv_def)

lemma vars_inv_var_text: "vars_inv g \<Longrightarrow> map_of (sa_vars g) k = Some i \<Longrightarrow> var_text g i = k"
  by (simp add: vars_invD(3) [symmetric] var_text_def)

lemma get_var_id_inv:
  assumes "vars_inv g"
  shows "vars_inv (snd (get_var_id k g))"
    and "map_of (sa_vars (snd (get_var_id k g))) k = Some (fst (get_var_id k g))"
proof -
  have fresh: "sa_varNames g (int (length (sa_vars g)) + 1) = None"
    if "map_of (sa_vars g) k = None"
  proof (rule ccontr)
    assume "sa_varNames g (int (length (sa_vars g)) + 1) \<noteq> None"
    then obtain k' where "map_of (sa_vars g) k' = Some (int (length (sa_vars g)) + 1)"
      using assms by (auto simp: vars_inv_def)
    with vars_inv_range [OF assms this] show False by simp
  qed
  show "vars_inv (snd (get_var_id k g))"
  proof (cases "map_of (sa_vars g) k")
    case (Some i)
    with assms show ?thesis by (simp add: get_var_id_known)
  next
    case None
    let ?i = "int (length (sa_vars g)) + 1"
    have new: "get_var_id k g = (?i, g\<lparr>sa_vars := sa_vars g @ [(k, ?i)], sa_varNames := (sa_varNames g)(?i \<mapsto> k)\<rparr>)"
      using None by (simp add: get_var_id_def Let_def)
    have "k \<notin> set (map fst (sa_vars g))" using None by (simp add: map_of_eq_None_iff)
    moreover have "((sa_varNames g)(?i \<mapsto> k)) j = Some k' \<longleftrightarrow> map_of (sa_vars g @ [(k, ?i)]) k' = Some j" for j k'
      using fresh [OF None] None vars_invD(3) [OF assms, of j k'] vars_inv_range [OF assms, of k' j]
      by (auto simp: map_add_def split: option.splits)
    moreover have "map int [1..<Suc (Suc (length (sa_vars g)))] = map int [1..<Suc (length (sa_vars g))] @ [?i]"
      by simp
    ultimately show ?thesis
      using vars_invD(1,2) [OF assms] unfolding new vars_inv_def by simp
  qed
  show "map_of (sa_vars (snd (get_var_id k g))) k = Some (fst (get_var_id k g))"
    by (cases "map_of (sa_vars g) k") (simp_all add: get_var_id_def Let_def map_add_def)
qed

subsection \<open>Reading the state\<close>

lemma get_var_known: "map_of (sa_vars g) k = Some i \<Longrightarrow> get_var g k = i"
  by (simp add: get_var_def)

lemma get_var_range:
  assumes "vars_inv g" "map_of (sa_vars g) k \<noteq> None"
  shows "0 < get_var g k" "get_var g k \<le> int (length (sa_vars g))"
  using assms vars_inv_range [of g k] by (auto simp: get_var_def)

lemma versions_of_known:
  assumes "packages_inv g" "p \<in> set (versions_of g n)"
  shows "p_Name p = n" "map_of (sa_vars g) (pkg_key p) \<noteq> None"
  using assms by (cases "sa_packages g n"; simp add: packages_inv_def versions_of_def)+

lemma versions_of_distinct: "packages_inv g \<Longrightarrow> distinct (map p_Version (versions_of g n))"
  by (auto simp: packages_inv_def versions_of_def split: option.splits)

lemma pkg_key_inj_version: "p_Name p = p_Name q \<Longrightarrow> pkg_key p = pkg_key q \<longleftrightarrow> p_Version p = p_Version q"
  by (simp add: pkg_key_def)

definition known_packages :: "sat_adapter \<Rightarrow> package list \<Rightarrow> bool" where
  "known_packages g ps \<longleftrightarrow> (\<forall>p \<in> set ps. map_of (sa_vars g) (pkg_key p) \<noteq> None)"

lemma known_versions [simp]: "packages_inv g \<Longrightarrow> known_packages g (versions_of g n)"
  using versions_of_known(2) by (simp add: known_packages_def)

definition vars_for :: "sat_adapter \<Rightarrow> (package \<Rightarrow> bool) \<Rightarrow> package list \<Rightarrow> int list" where
  "vars_for g P ps = map (\<lambda>p. get_var g (pkg_key p)) (filter P ps)"

lemma vars_for_simps [simp]:
  "vars_for g P [] = []"
  "vars_for g P (p # ps) = (if P p then get_var g (pkg_key p) # vars_for g P ps else vars_for g P ps)"
  "vars_for g P (ps @ qs) = vars_for g P ps @ vars_for g P qs"
  by (simp_all add: vars_for_def)

lemma vars_for_empty: "vars_for g P ps = [] \<longleftrightarrow> (\<forall>p \<in> set ps. \<not> P p)"
  by (simp add: vars_for_def filter_empty_conv)

lemma vars_for_pos:
  "vars_inv g \<Longrightarrow> known_packages g ps \<Longrightarrow> l \<in> set (vars_for g P ps) \<Longrightarrow> known_lit g l \<and> 0 < l"
  using get_var_range by (fastforce simp: vars_for_def known_packages_def known_lit_def)

lemma vars_for_true: "(\<exists>l \<in> set (vars_for g P ps). m l) \<longleftrightarrow> (\<exists>p \<in> set ps. P p \<and> selects m g p)"
  by (auto simp: vars_for_def selects_def)

lemma collect_vars_known:
  "known_packages g ps \<Longrightarrow> collect_vars P ps g = (vars_for g P ps, g)"
proof (induction ps)
  case (Cons p ps)
  then have "known_packages g ps" by (simp add: known_packages_def)
  moreover from Cons.prems obtain i where "map_of (sa_vars g) (pkg_key p) = Some i"
    by (auto simp: known_packages_def)
  ultimately show ?case
    using Cons.IH by (simp add: get_var_id_known get_var_known)
qed simp

text \<open>Fields that neither the invariant nor the clauses mention.\<close>

lemma sat_inv_cong:
  assumes "sa_clauses h = sa_clauses g" "sa_clausesMeta h = sa_clausesMeta g" "sa_vars h = sa_vars g"
    "sa_varNames h = sa_varNames g" "sa_packages h = sa_packages g" "sa_addedClauses h = sa_addedClauses g"
    "sa_implications h = sa_implications g" "sa_prohibits h = sa_prohibits g"
  shows "sat_inv h = sat_inv g"
  by (simp add: sat_inv_def vars_inv_def packages_inv_def clauses_inv_def edges_inv_def known_lit_def assms)

lemma with_meta_simps [simp]:
  "sa_vars (with_meta s r g) = sa_vars g"
  "sa_varNames (with_meta s r g) = sa_varNames g"
  "sa_packages (with_meta s r g) = sa_packages g"
  "sa_clauses (with_meta s r g) = sa_clauses g"
  "sa_implications (with_meta s r g) = sa_implications g"
  "sa_prohibits (with_meta s r g) = sa_prohibits g"
  "sa_rootVars (with_meta s r g) = sa_rootVars g"
  "sa_installed (with_meta s r g) = sa_installed g"
  "sat_inv (with_meta s r g) = sat_inv g"
  "models m (with_meta s r g) = models m g"
  "get_var (with_meta s r g) k = get_var g k"
  "known_lit (with_meta s r g) l = known_lit g l"
  by (simp_all add: with_meta_def models_def get_var_def known_lit_def, rule sat_inv_cong, simp_all)

lemma add_clause_fields [simp]:
  "sa_vars (add_clause c g) = sa_vars g"
  "sa_varNames (add_clause c g) = sa_varNames g"
  "sa_packages (add_clause c g) = sa_packages g"
  "sa_implications (add_clause c g) = sa_implications g"
  "sa_prohibits (add_clause c g) = sa_prohibits g"
  "sa_rootVars (add_clause c g) = sa_rootVars g"
  "sa_installed (add_clause c g) = sa_installed g"
  "get_var (add_clause c g) k = get_var g k"
  "known_lit (add_clause c g) l = known_lit g l"
  "versions_of (add_clause c g) n = versions_of g n"
  by (simp_all add: add_clause_def get_var_def known_lit_def versions_of_def)

lemma add_clause_clauses:
  "set (sa_clauses g) \<subseteq> set (sa_clauses (add_clause c g))"
  by (auto simp: add_clause_def)

lemma add_clause_has:
  assumes "clauses_inv g"
  shows "\<exists>d \<in> set (sa_clauses (add_clause c g)). clause_key d = clause_key c"
  using assms by (auto simp: add_clause_def clauses_inv_def)

lemma clauses_inv_add:
  assumes "clauses_inv g" "c \<noteq> []" "\<forall>l \<in> set c. known_lit g l"
  shows "clauses_inv (add_clause c g)"
  using assms unfolding clauses_inv_def add_clause_def known_lit_def by auto

lemma edges_inv_mono:
  assumes "edges_inv g" "sa_implications h = sa_implications g" "sa_prohibits h = sa_prohibits g"
    "set (sa_clauses g) \<subseteq> set (sa_clauses h)"
  shows "edges_inv h"
  using assms(1,4) unfolding edges_inv_def assms(2,3) by blast

lemma sat_inv_add_clause:
  assumes "sat_inv g" "c \<noteq> []" "\<forall>l \<in> set c. known_lit g l"
  shows "sat_inv (add_clause c g)"
proof (rule sat_invI)
  note inv = sat_invD [OF assms(1)]
  show "vars_inv (add_clause c g)" using inv(1) by (simp add: vars_inv_def)
  show "packages_inv (add_clause c g)" using inv(2) by (simp add: packages_inv_def)
  show "clauses_inv (add_clause c g)" using inv(3) assms(2,3) by (rule clauses_inv_add)
  show "edges_inv (add_clause c g)"
    by (rule edges_inv_mono [OF inv(4)]) (simp_all add: add_clause_clauses)
qed

lemma models_add_clause:
  assumes "clauses_inv g"
  shows "models m (add_clause c g) \<longleftrightarrow> models m g \<and> clause_true m c"
proof (cases "clause_key c \<in> sa_addedClauses g")
  case True
  then obtain d where d: "d \<in> set (sa_clauses g)" "clause_key c = clause_key d"
    using assms by (auto simp: clauses_inv_def)
  have "clause_true m c" if "models m g"
    using that d(1) clause_true_set [OF clause_key_eq [OF d(2)]] by (simp add: models_def list_all_iff)
  with True show ?thesis by (auto simp: add_clause_def)
next
  case False
  then show ?thesis by (auto simp: add_clause_def models_def)
qed

text \<open>The common step: tag and add a clause.\<close>

lemma tagged_clause:
  assumes "sat_inv g" "c \<noteq> []" "\<forall>l \<in> set c. known_lit g l"
  shows "sat_inv (add_clause c (with_meta s r g))"
    and "models m (add_clause c (with_meta s r g)) \<longleftrightarrow> models m g \<and> clause_true m c"
  using assms sat_invD(3) [of "with_meta s r g"]
  by (simp_all add: sat_inv_add_clause models_add_clause)

subsection \<open>Registering packages\<close>

lemma get_var_id_fields [simp]:
  "sa_clauses (snd (get_var_id k g)) = sa_clauses g"
  "sa_clausesMeta (snd (get_var_id k g)) = sa_clausesMeta g"
  "sa_addedClauses (snd (get_var_id k g)) = sa_addedClauses g"
  "sa_packages (snd (get_var_id k g)) = sa_packages g"
  "sa_implications (snd (get_var_id k g)) = sa_implications g"
  "sa_prohibits (snd (get_var_id k g)) = sa_prohibits g"
  "versions_of (snd (get_var_id k g)) n = versions_of g n"
  "models m (snd (get_var_id k g)) = models m g"
  by (simp_all add: get_var_id_def Let_def versions_of_def models_def split: option.split)

lemma get_var_id_keeps:
  "map_of (sa_vars g) k' = Some i \<Longrightarrow> map_of (sa_vars (snd (get_var_id k g))) k' = Some i"
  by (cases "map_of (sa_vars g) k") (auto simp: get_var_id_def Let_def map_add_def)

lemma get_var_id_length: "length (sa_vars g) \<le> length (sa_vars (snd (get_var_id k g)))"
  by (cases "map_of (sa_vars g) k") (simp_all add: get_var_id_def Let_def)

lemma sat_inv_get_var_id:
  assumes "sat_inv g"
  shows "sat_inv (snd (get_var_id k g))"
proof (rule sat_invI)
  note inv = sat_invD [OF assms]
  let ?h = "snd (get_var_id k g)"
  show "vars_inv ?h" using inv(1) by (rule get_var_id_inv)
  have keeps: "map_of (sa_vars ?h) k' \<noteq> None" if "map_of (sa_vars g) k' \<noteq> None" for k'
    using that get_var_id_keeps [of g k'] by auto
  show "packages_inv ?h"
    using inv(2) keeps unfolding packages_inv_def by (auto simp del: not_None_eq)
  have "known_lit ?h l" if "known_lit g l" for l
    using that get_var_id_length [of g k] by (simp add: known_lit_def)
  then show "clauses_inv ?h"
    using inv(3) by (simp add: clauses_inv_def)
  show "edges_inv ?h"
    by (rule edges_inv_mono [OF inv(4)]) simp_all
qed

lemma add_package_cases:
  "adapter_add_package p g =
    (if list_ex (\<lambda>q. p_Version q = p_Version p) (versions_of g (p_Name p)) then g
     else (snd (get_var_id (pkg_key p) g))
            \<lparr>sa_packages := (sa_packages g)(p_Name p \<mapsto> versions_of g (p_Name p) @ [p])\<rparr>)"
  by (simp add: adapter_add_package_def get_var_id_def Let_def versions_of_def
      split: option.split)

lemma sat_inv_add_package:
  assumes "sat_inv g"
  shows "sat_inv (adapter_add_package p g)"
proof (cases "list_ex (\<lambda>q. p_Version q = p_Version p) (versions_of g (p_Name p))")
  case False
  let ?h = "snd (get_var_id (pkg_key p) g)"
  let ?k = "?h\<lparr>sa_packages := (sa_packages g)(p_Name p \<mapsto> versions_of g (p_Name p) @ [p])\<rparr>"
  have h: "sat_inv ?h" using assms by (rule sat_inv_get_var_id)
  note hinv = sat_invD [OF h] and ginv = sat_invD [OF assms]
  have "packages_inv ?k"
    unfolding packages_inv_def
  proof (intro allI impI)
    fix n ps
    assume n: "sa_packages ?k n = Some ps"
    show "distinct (map p_Version ps) \<and> (\<forall>q \<in> set ps. p_Name q = n \<and> map_of (sa_vars ?k) (pkg_key q) \<noteq> None)"
    proof (cases "n = p_Name p")
      case True
      with n have ps: "ps = versions_of g (p_Name p) @ [p]" by simp
      have "distinct (map p_Version ps)"
        using versions_of_distinct [OF ginv(2)] False by (auto simp: ps list_ex_iff)
      moreover have "map_of (sa_vars ?h) (pkg_key p) \<noteq> None"
        using get_var_id_inv(2) [OF ginv(1), of "pkg_key p"] by simp
      moreover have "map_of (sa_vars ?h) (pkg_key q) \<noteq> None" "p_Name q = p_Name p"
        if "q \<in> set (versions_of g (p_Name p))" for q
        using that versions_of_known [OF hinv(2), of q] versions_of_known [OF ginv(2), of q] by simp_all
      ultimately show ?thesis using True by (auto simp: ps)
    next
      case False
      with n hinv(2) show ?thesis by (simp add: packages_inv_def)
    qed
  qed
  moreover have "vars_inv ?k" using hinv(1) by (simp add: vars_inv_def)
  moreover have "clauses_inv ?k" using hinv(3) by (simp add: clauses_inv_def known_lit_def)
  moreover have "edges_inv ?k" by (rule edges_inv_mono [OF hinv(4)]) simp_all
  ultimately have "sat_inv ?k" by (intro sat_invI)
  with False show ?thesis unfolding add_package_cases by simp
qed (use assms in \<open>simp add: add_package_cases\<close>)

lemma models_add_package [simp]: "models m (adapter_add_package p g) = models m g"
proof -
  have "models m (h\<lparr>sa_packages := x\<rparr>) = models m h" for h x by (simp add: models_def)
  then show ?thesis by (simp add: add_package_cases)
qed

lemma versions_of_add_package:
  "versions_of (adapter_add_package p g) n =
     (if n = p_Name p \<and> p_Version p \<notin> set (map p_Version (versions_of g n))
      then versions_of g n @ [p] else versions_of g n)"
  by (auto simp: add_package_cases versions_of_def list_ex_iff image_iff)

subsection \<open>Root constraints\<close>

lemma choice_clause:
  assumes "sat_inv g" "known_packages g ps" "\<exists>p \<in> set ps. P p"
  shows "sat_inv (add_clause (vars_for g P ps) (with_meta s r g))"
    and "models m (add_clause (vars_for g P ps) (with_meta s r g)) \<longleftrightarrow>
           models m g \<and> (\<exists>p \<in> set ps. P p \<and> selects m g p)"
proof -
  have pos: "\<forall>l \<in> set (vars_for g P ps). known_lit g l \<and> 0 < l"
    using vars_for_pos [OF sat_invD(1) [OF assms(1)] assms(2)] by blast
  have ne: "vars_for g P ps \<noteq> []" using assms(3) by (auto simp: vars_for_empty)
  show "sat_inv (add_clause (vars_for g P ps) (with_meta s r g))"
    using tagged_clause(1) [OF assms(1) ne] pos by blast
  show "models m (add_clause (vars_for g P ps) (with_meta s r g)) \<longleftrightarrow>
           models m g \<and> (\<exists>p \<in> set ps. P p \<and> selects m g p)"
    using tagged_clause(2) [OF assms(1) ne] pos clause_true_pos [of "vars_for g P ps" m]
    by (simp add: vars_for_true)
qed

text \<open>
  \<open>root_provides\<close> is the set of packages a root constraint accepts: without a version the USE
  dependencies of a version constraint are not looked at, and a slot constraint never looks at them.
\<close>

fun root_provides :: "coregex \<Rightarrow> pkg_constraint \<Rightarrow> package \<Rightarrow> bool" where
  "root_provides rx c p =
     (case c_Type c of
        ConstraintTypeVersion \<Rightarrow> (c_Version c \<noteq> None \<longrightarrow> version_ok rx c p \<and> use_ok c p)
      | ConstraintTypeSlot \<Rightarrow> slot_ok c p \<and> version_ok rx c p
      | ConstraintTypeUseFlag \<Rightarrow> False)"

definition root_fails :: "pkg_constraint \<Rightarrow> bool" where
  "root_fails c \<longleftrightarrow> c_Type c = ConstraintTypeSlot \<or> c_Version c = None \<or> c_Required c"

text \<open>The effect of a call: the state after it, its error, and the condition it adds.\<close>

definition adds_choice ::
  "(package \<Rightarrow> bool) \<Rightarrow> bool \<Rightarrow> package list \<Rightarrow> sat_adapter \<Rightarrow> sat_adapter \<times> adapter_error option \<Rightarrow> bool" where
  "adds_choice P fails ps g r \<longleftrightarrow> sat_inv (fst r) \<and>
     (if \<exists>p \<in> set ps. P p
      then snd r = None \<and> (\<forall>m. models m (fst r) \<longleftrightarrow> models m g \<and> (\<exists>p \<in> set ps. P p \<and> selects m g p))
      else (snd r \<noteq> None \<longleftrightarrow> fails) \<and> fst r = g)"

lemma adds_choice_clause:
  assumes "sat_inv g" "known_packages g ps" "e = None \<longleftrightarrow> \<not> fails"
  shows "adds_choice P fails ps g
           (if vars_for g P ps = [] then (g, e) else (add_clause (vars_for g P ps) (with_meta s r g), None))"
  using assms choice_clause [OF assms(1,2), where P = P and s = s and r = r] unfolding adds_choice_def vars_for_empty by auto

lemma adds_choice_cong:
  assumes "\<And>S. (\<exists>p \<in> set ps. P p \<and> S p) \<longleftrightarrow> (\<exists>p \<in> set qs. Q p \<and> S p)"
  shows "adds_choice P fails ps g r = adds_choice Q fails qs g r"
  using assms [of "\<lambda>_. True"] by (simp add: adds_choice_def assms)

lemma add_simple_adds:
  assumes "sat_inv g"
  shows "adds_choice (\<lambda>_. True) True (versions_of g name) g (add_simple_constraint name g)"
proof -
  have known: "known_packages g (versions_of g name)"
    using sat_invD(2) [OF assms] by simp
  have "vars_for g (\<lambda>_. True) (versions_of g name) = [] \<longleftrightarrow> versions_of g name = []"
    by (simp add: vars_for_def)
  then have "add_simple_constraint name g =
    (if vars_for g (\<lambda>_. True) (versions_of g name) = [] then (g, Some (AE_NotFound name))
     else (add_clause (vars_for g (\<lambda>_. True) (versions_of g name))
             (with_meta ClauseRoot (''simple constraint '' @ name) g), None))"
    by (simp add: add_simple_constraint_def collect_vars_known [OF known])
  then show ?thesis
    using adds_choice_clause [OF assms known, of "Some (AE_NotFound name)" True] by simp
qed

lemma add_version_adds:
  assumes "sat_inv g" "c_Type c = ConstraintTypeVersion"
  shows "adds_choice (root_provides rx c) (root_fails c) (versions_of g (c_Name c)) g (add_version_constraint rx c g)"
proof (cases "c_Version c")
  case None
  then have "root_provides rx c = (\<lambda>_. True)" "root_fails c" using assms(2) by (auto simp: root_fails_def)
  then show ?thesis using add_simple_adds [OF assms(1)] None by (simp add: add_version_constraint_def)
next
  case (Some vc)
  let ?ps = "versions_of g (c_Name c)"
  let ?e = "if c_Required c then Some (AE_Unsatisfiable (c_Name c) (version_constraint_string (c_Version c))) else None"
  have known: "known_packages g ?ps" using sat_invD(2) [OF assms(1)] by simp
  have P: "root_provides rx c = (\<lambda>p. version_ok rx c p \<and> use_ok c p)" "root_fails c = c_Required c"
    using Some assms(2) by (auto simp: root_fails_def)
  have "add_version_constraint rx c g =
    (if vars_for g (\<lambda>p. version_ok rx c p \<and> use_ok c p) ?ps = [] then (g, ?e)
     else (add_clause (vars_for g (\<lambda>p. version_ok rx c p \<and> use_ok c p) ?ps)
             (with_meta ClauseRoot
                (''version constraint '' @ c_Name c @ '' '' @ version_constraint_string (c_Version c)) g), None))"
    using Some by (simp add: add_version_constraint_def collect_vars_known [OF known])
  then show ?thesis
    unfolding P using adds_choice_clause [OF assms(1) known, of ?e "c_Required c"] by simp
qed

lemma collect_everywhere_known:
  assumes "packages_inv g"
  shows "collect_everywhere P ns g = (vars_for g P (concat (map (versions_of g) ns)), g)"
  using assms by (induction ns) (simp_all add: collect_vars_known)

lemma known_concat: "packages_inv g \<Longrightarrow> known_packages g (concat (map (versions_of g) ns))"
  using known_versions by (fastforce simp: known_packages_def)

lemma named_everywhere:
  assumes "packages_inv g" "enumerates ns (sa_packages g)"
  shows "p \<in> set (concat (map (versions_of g) ns)) \<and> p_Name p = n \<longleftrightarrow> p \<in> set (versions_of g n)"
proof
  assume "p \<in> set (concat (map (versions_of g) ns)) \<and> p_Name p = n"
  then show "p \<in> set (versions_of g n)" using versions_of_known(1) [OF assms(1)] by auto
next
  assume p: "p \<in> set (versions_of g n)"
  then have "sa_packages g n \<noteq> None" by (cases "sa_packages g n") (simp_all add: versions_of_def)
  then have "n \<in> set ns" using enumerates_set [OF assms(2)] by auto
  with p show "p \<in> set (concat (map (versions_of g) ns)) \<and> p_Name p = n"
    using versions_of_known(1) [OF assms(1) p] by auto
qed

lemma add_slot_adds:
  assumes "sat_inv g" "c_Type c = ConstraintTypeSlot" "enumerates ns (sa_packages g)"
  shows "adds_choice (root_provides rx c) (root_fails c) (versions_of g (c_Name c)) g (add_slot_constraint rx ns c g)"
proof -
  let ?all = "concat (map (versions_of g) ns)"
  let ?P = "\<lambda>p. p_Name p = c_Name c \<and> slot_ok c p \<and> version_ok rx c p"
  note pk = sat_invD(2) [OF assms(1)]
  have "adds_choice ?P True ?all g (add_slot_constraint rx ns c g)"
    unfolding add_slot_constraint_def collect_everywhere_known [OF pk] prod.case
    using adds_choice_clause [OF assms(1) known_concat [OF pk], of "Some (AE_NoSlot (c_Name c) (c_Slot c))" True]
    by simp
  moreover have "(\<exists>p \<in> set ?all. ?P p \<and> Q p) \<longleftrightarrow> (\<exists>p \<in> set (versions_of g (c_Name c)). root_provides rx c p \<and> Q p)" for Q
    using named_everywhere [OF pk assms(3), of _ "c_Name c"] assms(2) by (simp del: set_concat) blast
  ultimately show ?thesis
    using assms(2) adds_choice_cong [of ?all ?P "versions_of g (c_Name c)" "root_provides rx c"]
    by (simp only: root_fails_def simp_thms)
qed

lemma add_use_flag_adds:
  assumes "sat_inv g"
  shows "sat_inv (fst (add_use_flag_constraint c g))"
    and "models m (fst (add_use_flag_constraint c g)) \<longleftrightarrow>
           models m g \<and> (c_Required c \<longrightarrow> m (get_var (fst (add_use_flag_constraint c g)) (''USE_'' @ c_Flag c)))"
    and "snd (add_use_flag_constraint c g) = None"
proof -
  let ?k = "''USE_'' @ c_Flag c"
  obtain i g1 where ig: "get_var_id ?k g = (i, g1)" by fastforce
  then have g1: "g1 = snd (get_var_id ?k g)" and i: "map_of (sa_vars g1) ?k = Some i"
    using get_var_id_inv(2) [OF sat_invD(1) [OF assms], of ?k] by simp_all
  have inv: "sat_inv g1" unfolding g1 using assms by (rule sat_inv_get_var_id)
  have "known_lit g1 i" and pos: "0 < i"
    using vars_inv_range [OF sat_invD(1) [OF inv] i] by (simp_all add: known_lit_def)
  then have "sat_inv (add_clause [i] (with_meta ClauseRoot r g1))"
    and "models m (add_clause [i] (with_meta ClauseRoot r g1)) \<longleftrightarrow> models m g1 \<and> m i" for r
    using tagged_clause [OF inv, of "[i]"] by (simp_all add: lit_pos)
  moreover have "models m g1 = models m g" by (simp add: g1)
  ultimately show "sat_inv (fst (add_use_flag_constraint c g))"
    and "models m (fst (add_use_flag_constraint c g)) \<longleftrightarrow>
           models m g \<and> (c_Required c \<longrightarrow> m (get_var (fst (add_use_flag_constraint c g)) ?k))"
    and "snd (add_use_flag_constraint c g) = None"
    using assms get_var_known [OF i] ig
    by (auto simp: add_use_flag_constraint_def Let_def)
qed

lemma add_constraint_adds:
  assumes "sat_inv g" "c_Type c \<noteq> ConstraintTypeUseFlag" "enumerates ns (sa_packages g)"
  shows "adds_choice (root_provides rx c) (root_fails c) (versions_of g (c_Name c)) g (add_constraint rx ns c g)"
  using assms add_version_adds [of g c rx] add_slot_adds [of g c ns rx]
  by (cases "c_Type c") (simp_all add: add_constraint_def)

lemma add_atom_adds:
  assumes "sat_inv g"
  shows "adds_choice (\<lambda>p. atom_matches rx (Some b) (Some p) \<and> atom_satisfies_use_deps p (Some b)) False
           (versions_of g (atom_cp b)) g (add_atom_constraint rx (Some b) g)"
proof -
  have known: "known_packages g (versions_of g (atom_cp b))" using sat_invD(2) [OF assms] by simp
  show ?thesis
    using adds_choice_clause [OF assms known, of None False]
    by (simp add: add_atom_constraint_def collect_vars_known [OF known])
qed

text \<open>The alternatives of an OR group, as pairs of an alternative and a package.\<close>

definition alt_provides :: "coregex \<Rightarrow> pkg_constraint list \<Rightarrow> sat_adapter \<Rightarrow> package \<Rightarrow> bool" where
  "alt_provides rx alts g p \<longleftrightarrow>
     (\<exists>alt \<in> set alts. p \<in> set (versions_of g (c_Name alt)) \<and> version_ok rx alt p \<and> use_ok alt p)"

definition alt_packages :: "coregex \<Rightarrow> pkg_constraint list \<Rightarrow> sat_adapter \<Rightarrow> package list" where
  "alt_packages rx alts g =
     concat (map (\<lambda>alt. filter (\<lambda>p. version_ok rx alt p \<and> use_ok alt p) (versions_of g (c_Name alt))) alts)"

lemma alt_packages_set: "p \<in> set (alt_packages rx alts g) \<longleftrightarrow> alt_provides rx alts g p"
  by (auto simp: alt_packages_def alt_provides_def)

lemma known_alt_packages: "packages_inv g \<Longrightarrow> known_packages g (alt_packages rx alts g)"
  using versions_of_known(2) by (fastforce simp: known_packages_def alt_packages_set alt_provides_def)

lemma vars_for_filter: "vars_for g P ps = vars_for g (\<lambda>_. True) (filter P ps)"
  by (simp add: vars_for_def)

lemma collect_alternatives_known:
  assumes "packages_inv g"
  shows "collect_alternatives rx alts g = (vars_for g (\<lambda>_. True) (alt_packages rx alts g), g)"
  using assms
  by (induction alts)
    (simp_all add: alt_packages_def collect_vars_known vars_for_filter [of g "\<lambda>p. version_ok rx _ p \<and> use_ok _ p"])

lemma add_or_group_adds:
  assumes "sat_inv g"
  shows "adds_choice (\<lambda>_. True) True (alt_packages rx alts g) g (add_or_group_constraint rx alts g)"
  using adds_choice_clause [OF assms known_alt_packages [OF sat_invD(2) [OF assms]],
      where fails = True and e = "Some AE_OrGroup" and P = "\<lambda>_. True"]
  by (simp add: add_or_group_constraint_def collect_alternatives_known [OF sat_invD(2) [OF assms]])

subsection \<open>Exactly one\<close>

lemma pairwise_not_true:
  assumes "\<forall>v \<in> set vs. 0 < v" "distinct vs"
  shows "list_all (clause_true m) (pairwise_not vs) \<longleftrightarrow> (\<forall>x \<in> set vs. \<forall>y \<in> set vs. m x \<and> m y \<longrightarrow> x = y)"
  using assms
proof (induction vs)
  case (Cons x xs)
  have "list_all (clause_true m) (map (\<lambda>y. [- x, - y]) xs) \<longleftrightarrow> (\<forall>y \<in> set xs. \<not> (m x \<and> m y))"
    using Cons.prems(1) by (simp add: list_all_iff lit_neg)
  moreover have "list_all (clause_true m) (pairwise_not xs) \<longleftrightarrow> (\<forall>a \<in> set xs. \<forall>b \<in> set xs. m a \<and> m b \<longrightarrow> a = b)"
    using Cons.prems by (intro Cons.IH) simp_all
  moreover have "x \<notin> set xs" using Cons.prems(2) by simp
  ultimately show ?case by (simp only: pairwise_not.simps list_all_append set_simps) blast
qed simp

lemma exactly_one_true:
  assumes "\<forall>v \<in> set vs. 0 < v" "distinct vs"
  shows "list_all (clause_true m) (exactly_one vs) \<longleftrightarrow> (\<exists>!x. x \<in> set vs \<and> m x)"
  using pairwise_not_true [OF assms, of m] clause_true_pos [OF assms(1), of m]
  by (auto simp: exactly_one_def)

lemma pairwise_not_lits: "c \<in> set (pairwise_not vs) \<Longrightarrow> c \<noteq> [] \<and> (\<forall>l \<in> set c. - l \<in> set vs)"
  by (induction vs) auto

lemma add_at_most_one_clauses_meaning:
  assumes "sat_inv g" "\<forall>c \<in> set cs. c \<noteq> [] \<and> (\<forall>l \<in> set c. known_lit g l)"
  shows "sat_inv (add_at_most_one_clauses name cs g)"
    and "models m (add_at_most_one_clauses name cs g) \<longleftrightarrow> models m g \<and> list_all (clause_true m) cs"
proof -
  have "sat_inv (add_at_most_one_clauses name cs g) \<and>
        (models m (add_at_most_one_clauses name cs g) \<longleftrightarrow> models m g \<and> list_all (clause_true m) cs)"
    using assms
  proof (induction cs arbitrary: g)
    case (Cons c cs)
    let ?h = "add_clause c (with_meta ClauseAtMostOne (''at-most-one '' @ name) g)"
    have h: "sat_inv ?h" "models m ?h \<longleftrightarrow> models m g \<and> clause_true m c"
      using tagged_clause [OF Cons.prems(1), of c] Cons.prems(2) by simp_all
    have "\<forall>d \<in> set cs. d \<noteq> [] \<and> (\<forall>l \<in> set d. known_lit ?h l)" using Cons.prems(2) by simp
    from Cons.IH [OF h(1) this] h(2) show ?case by simp
  qed simp
  then show "sat_inv (add_at_most_one_clauses name cs g)"
    and "models m (add_at_most_one_clauses name cs g) \<longleftrightarrow> models m g \<and> list_all (clause_true m) cs"
    by blast+
qed

definition registered_vars :: "sat_adapter \<Rightarrow> string \<Rightarrow> string list \<Rightarrow> int list" where
  "registered_vars g name versions = List.map_filter (\<lambda>v. map_of (sa_vars g) (name @ ''@'' @ v)) versions"

lemma registered_vars_set:
  "i \<in> set (registered_vars g name versions) \<longleftrightarrow> (\<exists>v \<in> set versions. map_of (sa_vars g) (name @ ''@'' @ v) = Some i)"
  by (induction versions) (auto simp: registered_vars_def List.map_filter_simps split: option.splits)

lemma registered_vars_distinct:
  assumes "vars_inv g" "distinct versions"
  shows "distinct (registered_vars g name versions)"
  using assms(2)
proof (induction versions)
  case (Cons w ws)
  show ?case
  proof (cases "map_of (sa_vars g) (name @ ''@'' @ w)")
    case None
    with Cons show ?thesis by (simp add: registered_vars_def List.map_filter_simps)
  next
    case (Some i)
    have "i \<notin> set (registered_vars g name ws)"
    proof
      assume "i \<in> set (registered_vars g name ws)"
      then obtain u where "u \<in> set ws" "map_of (sa_vars g) (name @ ''@'' @ u) = Some i"
        by (auto simp: registered_vars_set)
      with vars_inv_inj [OF assms(1) Some] Cons.prems show False by auto
    qed
    with Cons Some show ?thesis by (simp add: registered_vars_def List.map_filter_simps)
  qed
qed (simp add: registered_vars_def List.map_filter_simps)

lemma registered_vars_props:
  assumes "vars_inv g" "distinct versions"
  shows "distinct (registered_vars g name versions)"
    and "\<forall>v \<in> set (registered_vars g name versions). 0 < v \<and> known_lit g v"
  using registered_vars_distinct [OF assms] vars_inv_range [OF assms(1)]
  by (fastforce simp: registered_vars_set known_lit_def)+

lemma add_exactly_one_meaning:
  fixes name :: string
  assumes "sat_inv g" "distinct versions"
  defines "vs \<equiv> registered_vars g name versions"
  shows "sat_inv (add_exactly_one_constraint name versions g)"
    and "models m (add_exactly_one_constraint name versions g) \<longleftrightarrow>
           models m g \<and> (vs \<noteq> [] \<longrightarrow> (\<exists>!x. x \<in> set vs \<and> m x))"
proof -
  have props: "distinct vs" "\<forall>v \<in> set vs. 0 < v \<and> known_lit g v"
    using registered_vars_props [OF sat_invD(1) [OF assms(1)] assms(2)] by (simp_all add: vs_def)
  have "sat_inv (add_exactly_one_constraint name versions g) \<and>
    (models m (add_exactly_one_constraint name versions g) \<longleftrightarrow>
           models m g \<and> (vs \<noteq> [] \<longrightarrow> (\<exists>!x. x \<in> set vs \<and> m x)))"
  proof (cases "length vs \<le> 1")
    case True
    then consider "vs = []" | v where "vs = [v]" by (cases vs) auto
    then show ?thesis
    proof cases
      case 1
      with assms(1) show ?thesis
        by (simp add: add_exactly_one_constraint_def vs_def registered_vars_def)
    next
      case (2 v)
      then have "add_exactly_one_constraint name versions g
                   = add_clause [v] (with_meta ClauseRoot (''mandatory '' @ name) g)"
        by (simp add: add_exactly_one_constraint_def vs_def registered_vars_def)
      with 2 props(2) tagged_clause [OF assms(1), of "[v]"] show ?thesis by (auto simp: lit_pos)
    qed
  next
    case False
    let ?h = "add_clause vs (with_meta ClauseRoot (''at-least-one '' @ name) g)"
    have ne: "vs \<noteq> []" using False by auto
    have "add_exactly_one_constraint name versions g = add_at_most_one_clauses name (pairwise_not vs) ?h"
      using False ne
      by (auto simp: add_exactly_one_constraint_def vs_def registered_vars_def exactly_one_def Let_def)
    moreover have h: "sat_inv ?h" "models m ?h \<longleftrightarrow> models m g \<and> clause_true m vs"
      using tagged_clause [OF assms(1) ne] props(2) by simp_all
    moreover have "known_lit ?h l" if "- l \<in> set vs" for l
      using props(2) that by (fastforce simp: known_lit_def)
    then have "\<forall>c \<in> set (pairwise_not vs). c \<noteq> [] \<and> (\<forall>l \<in> set c. known_lit ?h l)"
      using pairwise_not_lits by blast
    note add_at_most_one_clauses_meaning [OF h(1) this, where name = name]
    ultimately show ?thesis
      using exactly_one_true [OF _ props(1), of m] props(2) ne by (simp add: exactly_one_def)
  qed
  then show "sat_inv (add_exactly_one_constraint name versions g)"
    and "models m (add_exactly_one_constraint name versions g) \<longleftrightarrow>
           models m g \<and> (vs \<noteq> [] \<longrightarrow> (\<exists>!x. x \<in> set vs \<and> m x))"
    by blast+
qed

subsection \<open>Implications\<close>

text \<open>\<open>depends_on m g d ps\<close>: the variable \<open>d\<close> is not selected, or one of the packages is.\<close>

definition depends_on :: "(int \<Rightarrow> bool) \<Rightarrow> sat_adapter \<Rightarrow> int \<Rightarrow> package list \<Rightarrow> bool" where
  "depends_on m g d ps \<longleftrightarrow> (m d \<longrightarrow> (\<exists>p \<in> set ps. selects m g p))"

lemma edges_inv_add:
  assumes "edges_inv g" "0 < d" "vs \<noteq> []" "\<forall>v \<in> set vs. 0 < v"
    "\<exists>c \<in> set (sa_clauses g). set c = insert (- d) (set vs)"
  shows "edges_inv (g\<lparr>sa_implications := (sa_implications g)
           (d := sa_implications g d @ [\<lparr>ie_providers = vs, ie_reason = r\<rparr>])\<rparr>)"
  using assms unfolding edges_inv_def by auto

lemma edges_inv_prohibit:
  assumes "edges_inv g" "0 < d" "[- d] \<in> set (sa_clauses g)"
  shows "edges_inv (g\<lparr>sa_prohibits := (sa_prohibits g)(d \<mapsto> r)\<rparr>)"
  using assms unfolding edges_inv_def by auto

lemma sat_inv_edges_update:
  assumes "sat_inv g" "edges_inv h" "sa_clauses h = sa_clauses g" "sa_clausesMeta h = sa_clausesMeta g"
    "sa_vars h = sa_vars g" "sa_varNames h = sa_varNames g" "sa_packages h = sa_packages g"
    "sa_addedClauses h = sa_addedClauses g"
  shows "sat_inv h"
proof (rule sat_invI)
  show "vars_inv h" using sat_invD(1) [OF assms(1)] vars_inv_cong [of h g] assms by simp
  show "packages_inv h" using sat_invD(2) [OF assms(1)] packages_inv_cong [of h g] assms by simp
  show "clauses_inv h" using sat_invD(3) [OF assms(1)] by (simp add: clauses_inv_def known_lit_def assms)
qed (rule assms(2))

lemma clause_key_set_in:
  assumes "clauses_inv g"
  shows "\<exists>d \<in> set (sa_clauses (add_clause c g)). set d = set c"
  using add_clause_has [OF assms] clause_key_eq by blast

lemma clause_key_single: "clause_key d = clause_key [x] \<Longrightarrow> d = [x]"
proof -
  assume "clause_key d = clause_key [x]"
  then have "sort d = [x]" by (simp add: clause_key_def)
  then have "length d = 1" "set d = {x}"
    by (metis length_sort length_Cons list.size(3) One_nat_def, metis set_sort list.set(1,2))
  then show "d = [x]" by (cases d) auto
qed

lemma add_implication_meaning:
  assumes "sat_inv g" "known_lit g d" "0 < d" "\<forall>v \<in> set vs. known_lit g v \<and> 0 < v"
  shows "sat_inv (add_implication d vs g)"
    and "models m (add_implication d vs g) \<longleftrightarrow>
           models m g \<and> (vs \<noteq> [] \<longrightarrow> m d \<longrightarrow> (\<exists>v \<in> set vs. m v))"
proof -
  have "sat_inv (add_implication d vs g) \<and> (models m (add_implication d vs g) \<longleftrightarrow>
           models m g \<and> (vs \<noteq> [] \<longrightarrow> m d \<longrightarrow> (\<exists>v \<in> set vs. m v)))"
  proof (cases "vs = []")
    case False
    obtain r where r: "r = var_text g d @ '' => one of ['' @ join '', '' (literal_names g vs) @ '']''" by simp
    let ?h = "add_clause (- d # vs) (with_meta ClauseImplication r g)"
    have "\<forall>l \<in> set (- d # vs). known_lit g l" using assms(2,4) by (auto simp: known_lit_def)
    note h = tagged_clause [OF assms(1) _ this, where s = ClauseImplication and r = r]
    have hinv: "sat_inv ?h" using h(1) by simp
    have "\<exists>c \<in> set (sa_clauses ?h). set c = set (- d # vs)"
      using sat_invD(3) [of "with_meta ClauseImplication r g"] assms(1) by (intro clause_key_set_in) simp
    then have "edges_inv (?h\<lparr>sa_implications := (sa_implications ?h)
           (d := sa_implications ?h d @ [\<lparr>ie_providers = vs, ie_reason = r\<rparr>])\<rparr>)"
      using assms(3,4) False by (intro edges_inv_add sat_invD(4) [OF hinv]) auto
    from sat_inv_edges_update [OF hinv this] have "sat_inv (?h\<lparr>sa_implications := (sa_implications ?h)
           (d := sa_implications ?h d @ [\<lparr>ie_providers = vs, ie_reason = r\<rparr>])\<rparr>)"
      by simp
    moreover have "add_implication d vs g = ?h\<lparr>sa_implications := (sa_implications ?h)
           (d := sa_implications ?h d @ [\<lparr>ie_providers = vs, ie_reason = r\<rparr>])\<rparr>"
      using False by (simp add: add_implication_def r Let_def)
    moreover have "models m (?h\<lparr>sa_implications := x\<rparr>) = models m ?h" for x
      by (simp add: models_def)
    ultimately show ?thesis
      using h(2) [of m] False assms(3,4) clause_true_pos [of vs m] by (simp add: lit_neg)
  qed (simp add: add_implication_def assms(1))
  then show "sat_inv (add_implication d vs g)"
    and "models m (add_implication d vs g) \<longleftrightarrow>
           models m g \<and> (vs \<noteq> [] \<longrightarrow> m d \<longrightarrow> (\<exists>v \<in> set vs. m v))"
    by blast+
qed

lemma prohibit_meaning:
  assumes "sat_inv g" "known_lit g d" "0 < d"
  shows "sat_inv (prohibit d r g)"
    and "models m (prohibit d r g) \<longleftrightarrow> models m g \<and> \<not> m d"
proof -
  let ?h = "add_clause [- d] (with_meta ClauseProhibit r g)"
  have h: "sat_inv ?h" "models m ?h \<longleftrightarrow> models m g \<and> \<not> m d"
    using tagged_clause [OF assms(1), of "[- d]"] assms(2,3) by (simp_all add: known_lit_def lit_neg)
  have "\<exists>c \<in> set (sa_clauses ?h). clause_key c = clause_key [- d]"
    using sat_invD(3) [of "with_meta ClauseProhibit r g"] assms(1) by (intro add_clause_has) simp
  then have "[- d] \<in> set (sa_clauses ?h)" using clause_key_single by blast
  then have "edges_inv (?h\<lparr>sa_prohibits := (sa_prohibits ?h)(d \<mapsto> r)\<rparr>)"
    using assms(3) by (intro edges_inv_prohibit sat_invD(4) [OF h(1)])
  from sat_inv_edges_update [OF h(1) this] have "sat_inv (?h\<lparr>sa_prohibits := (sa_prohibits ?h)(d \<mapsto> r)\<rparr>)" by simp
  then show "sat_inv (prohibit d r g)" by (simp only: prohibit_def Let_def)
  have "models m (?h\<lparr>sa_prohibits := x\<rparr>) = models m ?h" for x by (simp add: models_def)
  with h(2) show "models m (prohibit d r g) \<longleftrightarrow> models m g \<and> \<not> m d"
    by (simp add: prohibit_def Let_def)
qed

text \<open>The common shape of the three operations: prohibit without providers, otherwise imply one.\<close>

lemma imply_or_prohibit:
  fixes r :: string
  assumes "sat_inv g" "known_lit g d" "0 < d" "known_packages g ps" "vs = vars_for g P ps"
  defines "h \<equiv> (if length vs = 0 then prohibit d r g else add_implication d vs g)"
  shows "sat_inv h" and "models m h \<longleftrightarrow> models m g \<and> depends_on m g d (filter P ps)"
proof -
  have pos: "\<forall>v \<in> set vs. known_lit g v \<and> 0 < v"
    using vars_for_pos [OF sat_invD(1) [OF assms(1)] assms(4)] assms(5) by blast
  have true: "(\<exists>v \<in> set vs. m v) \<longleftrightarrow> (\<exists>p \<in> set (filter P ps). selects m g p)"
    using vars_for_true [of g P ps m] assms(5) by auto
  show "sat_inv h"
    unfolding h_def using prohibit_meaning(1) [OF assms(1-3)] add_implication_meaning(1) [OF assms(1-3) pos] by simp
  show "models m h \<longleftrightarrow> models m g \<and> depends_on m g d (filter P ps)"
    unfolding h_def depends_on_def true [symmetric]
    using prohibit_meaning(2) [OF assms(1-3), of m r] add_implication_meaning(2) [OF assms(1-3) pos, of m] by auto
qed

text \<open>The packages that serve a dependency, by the type of its constraint.\<close>

definition dep_provides :: "coregex \<Rightarrow> pkg_constraint \<Rightarrow> package \<Rightarrow> bool" where
  "dep_provides rx c p =
     (case c_Type c of
        ConstraintTypeVersion \<Rightarrow> version_ok rx c p \<and> use_ok c p
      | ConstraintTypeSlot \<Rightarrow> slot_ok c p \<and> version_ok rx c p \<and> use_ok c p
      | ConstraintTypeUseFlag \<Rightarrow> False)"

lemma find_satisfying_vars_known:
  assumes "packages_inv g"
  shows "find_satisfying_vars rx c g = (vars_for g (dep_provides rx c) (versions_of g (c_Name c)), g)"
  using assms
  by (cases "c_Type c")
    (simp_all add: find_satisfying_vars_def dep_provides_def [abs_def] collect_vars_known vars_for_def)

lemma implication_constraint_meaning:
  assumes "sat_inv g" "known_lit g d" "0 < d"
  shows "sat_inv (add_implication_constraint rx d c g)"
    and "models m (add_implication_constraint rx d c g) \<longleftrightarrow>
           models m g \<and> depends_on m g d (filter (dep_provides rx c) (versions_of g (c_Name c)))"
  using imply_or_prohibit [OF assms known_versions [OF sat_invD(2) [OF assms(1)]] refl]
  by (simp_all add: add_implication_constraint_def find_satisfying_vars_known [OF sat_invD(2) [OF assms(1)]])

lemma implication_slot_meaning:
  assumes "sat_inv g" "known_lit g d" "0 < d"
  shows "sat_inv (add_implication_slot_constraint rx d c g)"
    and "models m (add_implication_slot_constraint rx d c g) \<longleftrightarrow>
           models m g \<and> depends_on m g d
             (filter (\<lambda>p. slot_ok c p \<and> version_ok rx c p \<and> use_ok c p) (versions_of g (c_Name c)))"
proof -
  note pk = sat_invD(2) [OF assms(1)]
  show "sat_inv (add_implication_slot_constraint rx d c g)"
    and "models m (add_implication_slot_constraint rx d c g) \<longleftrightarrow>
           models m g \<and> depends_on m g d
             (filter (\<lambda>p. slot_ok c p \<and> version_ok rx c p \<and> use_ok c p) (versions_of g (c_Name c)))"
    using imply_or_prohibit [OF assms known_versions [OF pk] refl]
    by (simp_all add: add_implication_slot_constraint_def collect_vars_known [OF known_versions [OF pk]])
qed

text \<open>An OR group changes the preferences beside its clause.\<close>

lemma sat_inv_prefs [simp]: "sat_inv (g\<lparr>sa_orGroupPrefs := x\<rparr>) = sat_inv g"
  by (rule sat_inv_cong) simp_all

lemma prefs_fields [simp]:
  "versions_of (g\<lparr>sa_orGroupPrefs := x\<rparr>) n = versions_of g n"
  "vars_for (g\<lparr>sa_orGroupPrefs := x\<rparr>) P ps = vars_for g P ps"
  "known_packages (g\<lparr>sa_orGroupPrefs := x\<rparr>) ps = known_packages g ps"
  "models m (g\<lparr>sa_orGroupPrefs := x\<rparr>) = models m g"
  "known_lit (g\<lparr>sa_orGroupPrefs := x\<rparr>) l = known_lit g l"
  "depends_on m (g\<lparr>sa_orGroupPrefs := x\<rparr>) d ps = depends_on m g d ps"
  "packages_inv (g\<lparr>sa_orGroupPrefs := x\<rparr>) = packages_inv g"
  by (simp_all add: versions_of_def vars_for_def known_packages_def models_def known_lit_def depends_on_def
      selects_def get_var_def packages_inv_def)

lemma prefer_alternative_eq: "\<exists>x. prefer_alternative i idx g = g\<lparr>sa_orGroupPrefs := x\<rparr>"
proof (cases "case sa_orGroupPrefs g i of None \<Rightarrow> True | Some prev \<Rightarrow> idx < prev")
  case False
  show ?thesis
    by (rule exI [where x = "sa_orGroupPrefs g"]) (use False in \<open>simp add: prefer_alternative_def\<close>)
qed (auto simp: prefer_alternative_def)

lemma collect_ranked_known:
  assumes "known_packages g ps"
  shows "\<exists>x. collect_ranked idx P ps g = (vars_for g P ps, g\<lparr>sa_orGroupPrefs := x\<rparr>)"
  using assms
proof (induction ps arbitrary: g)
  case Nil
  show ?case by (rule exI [where x = "sa_orGroupPrefs g"]) simp
next
  case (Cons p ps)
  have ps: "known_packages g ps" using Cons.prems by (simp add: known_packages_def)
  from Cons.prems obtain i where i: "map_of (sa_vars g) (pkg_key p) = Some i"
    by (auto simp: known_packages_def)
  obtain x where x: "prefer_alternative i idx g = g\<lparr>sa_orGroupPrefs := x\<rparr>"
    using prefer_alternative_eq by blast
  obtain y where "collect_ranked idx P ps (prefer_alternative i idx g) =
      (vars_for g P ps, g\<lparr>sa_orGroupPrefs := y\<rparr>)"
    using Cons.IH [of "prefer_alternative i idx g"] ps unfolding x by auto
  moreover obtain z where "collect_ranked idx P ps g = (vars_for g P ps, g\<lparr>sa_orGroupPrefs := z\<rparr>)"
    using Cons.IH [OF ps] by blast
  ultimately show ?case
    using i by (simp add: get_var_id_known get_var_known exI)
qed

lemma collect_ranked_alternatives_known:
  assumes "packages_inv g"
  shows "\<exists>x. collect_ranked_alternatives rx idx alts g =
           (vars_for g (\<lambda>_. True) (alt_packages rx alts g), g\<lparr>sa_orGroupPrefs := x\<rparr>)"
  using assms
proof (induction alts arbitrary: idx g)
  case Nil
  show ?case by (rule exI [where x = "sa_orGroupPrefs g"]) (simp add: alt_packages_def)
next
  case (Cons alt alts)
  let ?P = "\<lambda>p. version_ok rx alt p \<and> use_ok alt p"
  obtain x where x: "collect_ranked idx ?P (versions_of g (c_Name alt)) g =
      (vars_for g ?P (versions_of g (c_Name alt)), g\<lparr>sa_orGroupPrefs := x\<rparr>)"
    using collect_ranked_known [OF known_versions [OF Cons.prems]] by blast
  obtain y where "collect_ranked_alternatives rx (Suc idx) alts (g\<lparr>sa_orGroupPrefs := x\<rparr>) =
      (vars_for g (\<lambda>_. True) (alt_packages rx alts (g\<lparr>sa_orGroupPrefs := x\<rparr>)), g\<lparr>sa_orGroupPrefs := y\<rparr>)"
    using Cons.IH [of "g\<lparr>sa_orGroupPrefs := x\<rparr>" "Suc idx"] Cons.prems by auto
  then show ?case
    using x by (simp add: alt_packages_def vars_for_filter [of g ?P] exI)
qed

lemma implication_or_group_meaning:
  assumes "sat_inv g" "known_lit g d" "0 < d"
  shows "sat_inv (add_implication_or_group rx d alts g)"
    and "models m (add_implication_or_group rx d alts g) \<longleftrightarrow>
           models m g \<and> depends_on m g d (alt_packages rx alts g)"
proof -
  obtain x where x: "collect_ranked_alternatives rx 0 alts g =
      (vars_for g (\<lambda>_. True) (alt_packages rx alts g), g\<lparr>sa_orGroupPrefs := x\<rparr>)"
    using collect_ranked_alternatives_known [OF sat_invD(2) [OF assms(1)]] by blast
  let ?h = "g\<lparr>sa_orGroupPrefs := x\<rparr>"
  have vs: "vars_for g (\<lambda>_. True) (alt_packages rx alts g) = vars_for ?h (\<lambda>_. True) (alt_packages rx alts g)"
    by simp
  have pre: "sat_inv ?h" "known_lit ?h d" "known_packages ?h (alt_packages rx alts g)"
    using assms known_alt_packages [OF sat_invD(2) [OF assms(1)]] by simp_all
  show "sat_inv (add_implication_or_group rx d alts g)"
    and "models m (add_implication_or_group rx d alts g) \<longleftrightarrow>
           models m g \<and> depends_on m g d (alt_packages rx alts g)"
    using imply_or_prohibit [OF pre(1,2) assms(3) pre(3) vs]
    by (simp_all add: add_implication_or_group_def x)
qed

subsection \<open>One version per slot\<close>

definition one_per_slot :: "(int \<Rightarrow> bool) \<Rightarrow> sat_adapter \<Rightarrow> bool" where
  "one_per_slot m g \<longleftrightarrow> (\<forall>n. \<forall>p \<in> set (versions_of g n). \<forall>q \<in> set (versions_of g n).
     sl_Name (p_Slot p) = sl_Name (p_Slot q) \<and> selects m g p \<and> selects m g q \<longrightarrow> p = q)"

lemma slot_groups_of_known:
  assumes "known_packages g ps"
  shows "slot_groups_of g ps m sk = m sk @ vars_for g (\<lambda>p. slot_key_of p = sk) ps"
  using assms
  by (induction ps arbitrary: m) (auto simp: known_packages_def get_var_known map_append_def)

lemma filter_named:
  assumes "packages_inv g" "distinct ns"
  shows "filter (\<lambda>p. slot_key_of p = sk) (concat (map (versions_of g) ns)) =
    (if sk_Name sk \<in> set ns then filter (\<lambda>p. slot_key_of p = sk) (versions_of g (sk_Name sk)) else [])"
  using assms(2)
proof (induction ns)
  case (Cons n ns)
  have other: "filter (\<lambda>p. slot_key_of p = sk) (versions_of g n) = []" if "sk_Name sk \<noteq> n"
    using that versions_of_known(1) [OF assms(1), of _ n] by (auto simp: filter_empty_conv slot_key_of_def)
  show ?case
    using Cons other by (cases "sk_Name sk = n") auto
qed simp

lemma slot_groups_eq:
  assumes "packages_inv g" "enumerates ns (sa_packages g)"
  shows "slot_groups g ns sk = vars_for g (\<lambda>p. slot_key_of p = sk) (versions_of g (sk_Name sk))"
proof -
  have "versions_of g n = []" if "n \<notin> set ns" for n
    using enumerates_set [OF assms(2), of n] that by (cases "sa_packages g n") (auto simp: versions_of_def)
  moreover have "distinct ns" using assms(2) by (simp add: enumerates_def)
  ultimately show ?thesis
    using filter_named [OF assms(1)]
    by (simp add: slot_groups_def slot_groups_of_known [OF known_concat [OF assms(1)]] vars_for_def del: filter_concat)
qed

lemma exclude_with_meaning:
  assumes "sat_inv g" "known_lit g x" "0 < x" "\<forall>y \<in> set ys. known_lit g y \<and> 0 < y"
  shows "sat_inv (exclude_with sk x ys g) \<and> sa_vars (exclude_with sk x ys g) = sa_vars g \<and>
    (models m (exclude_with sk x ys g) \<longleftrightarrow> models m g \<and> (\<forall>y \<in> set ys. \<not> (m x \<and> m y)))"
  using assms
proof (induction ys arbitrary: g)
  case (Cons y ys)
  obtain r where r: "r = ''conflict '' @ var_text g x @ '' vs '' @ var_text g y
             @ '' (slot '' @ sk_Name sk @ '':'' @ sk_Slot sk @ '')''" by simp
  let ?h = "add_clause [- x, - y] (with_meta ClauseAtMostOne r g)"
  have neg: "\<forall>l \<in> set [- x, - y]. known_lit g l"
    using Cons.prems(2,4) by (auto simp: known_lit_def)
  have h: "sat_inv ?h" "models m ?h \<longleftrightarrow> models m g \<and> \<not> (m x \<and> m y)"
    using tagged_clause [OF Cons.prems(1) _ neg] Cons.prems(3,4) by (simp_all add: lit_neg)
  have "\<forall>y \<in> set ys. known_lit ?h y \<and> 0 < y" "known_lit ?h x" using Cons.prems by simp_all
  with Cons.IH [OF h(1)] Cons.prems(3) h(2) show ?case by (simp add: r) blast
qed simp

lemma exclude_pairs_meaning:
  assumes "sat_inv g" "\<forall>v \<in> set vs. known_lit g v \<and> 0 < v" "distinct vs"
  shows "sat_inv (exclude_pairs sk vs g) \<and> sa_vars (exclude_pairs sk vs g) = sa_vars g \<and>
    (models m (exclude_pairs sk vs g) \<longleftrightarrow>
       models m g \<and> (\<forall>x \<in> set vs. \<forall>y \<in> set vs. m x \<and> m y \<longrightarrow> x = y))"
  using assms
proof (induction vs arbitrary: g)
  case (Cons x xs)
  let ?h = "exclude_with sk x xs g"
  have h: "sat_inv ?h" "sa_vars ?h = sa_vars g" "models m ?h \<longleftrightarrow> models m g \<and> (\<forall>y \<in> set xs. \<not> (m x \<and> m y))"
    using exclude_with_meaning [of g x xs sk m] Cons.prems by simp_all
  have "\<forall>v \<in> set xs. known_lit ?h v \<and> 0 < v" using Cons.prems(2) h(2) by (simp add: known_lit_def)
  with Cons.IH [OF h(1)] Cons.prems(3) have
    "sat_inv (exclude_pairs sk xs ?h)" "sa_vars (exclude_pairs sk xs ?h) = sa_vars g"
    "models m (exclude_pairs sk xs ?h) \<longleftrightarrow> models m ?h \<and> (\<forall>a \<in> set xs. \<forall>b \<in> set xs. m a \<and> m b \<longrightarrow> a = b)"
    using h(2) by auto
  moreover have "x \<notin> set xs" using Cons.prems(3) by simp
  ultimately show ?case by (simp only: exclude_pairs.simps h(3) set_simps) blast
qed simp

lemma exclude_groups_meaning:
  assumes "sat_inv g" "\<forall>sk \<in> set sks. (\<forall>v \<in> set (f sk). known_lit g v \<and> 0 < v) \<and> distinct (f sk)"
  shows "sat_inv (exclude_groups f sks g) \<and>
    (models m (exclude_groups f sks g) \<longleftrightarrow>
       models m g \<and> (\<forall>sk \<in> set sks. \<forall>x \<in> set (f sk). \<forall>y \<in> set (f sk). m x \<and> m y \<longrightarrow> x = y))"
  using assms
proof (induction sks arbitrary: g)
  case (Cons sk sks)
  let ?h = "if length (f sk) \<le> 1 then g else exclude_pairs sk (f sk) g"
  have small: "\<forall>x \<in> set (f sk). \<forall>y \<in> set (f sk). m x \<and> m y \<longrightarrow> x = y" if "length (f sk) \<le> 1"
    using that by (cases "f sk") auto
  have h: "sat_inv ?h" "sa_vars ?h = sa_vars g"
    "models m ?h \<longleftrightarrow> models m g \<and> (\<forall>x \<in> set (f sk). \<forall>y \<in> set (f sk). m x \<and> m y \<longrightarrow> x = y)"
    using exclude_pairs_meaning [of g "f sk" sk m] Cons.prems small by (simp_all split: if_splits)
  have "\<forall>sk \<in> set sks. (\<forall>v \<in> set (f sk). known_lit ?h v \<and> 0 < v) \<and> distinct (f sk)"
    using Cons.prems(2) h(2) by (simp add: known_lit_def)
  from Cons.IH [OF h(1) this] show ?case
    by (simp only: exclude_groups.simps h(3) set_simps) blast
qed simp

lemma selects_var: "map_of (sa_vars g) (pkg_key p) = Some i \<Longrightarrow> selects m g p \<longleftrightarrow> m i"
  by (simp add: selects_def get_var_def)

lemma versions_of_var_inj:
  assumes "sat_inv g" "p \<in> set (versions_of g n)" "q \<in> set (versions_of g n)"
    "get_var g (pkg_key p) = get_var g (pkg_key q)"
  shows "p = q"
proof -
  note inv = sat_invD [OF assms(1)]
  obtain i where i: "map_of (sa_vars g) (pkg_key p) = Some i" "map_of (sa_vars g) (pkg_key q) = Some i"
    using versions_of_known(2) [OF inv(2) assms(2)] versions_of_known(2) [OF inv(2) assms(3)] assms(4)
    by (auto simp: get_var_def)
  then have "pkg_key p = pkg_key q" by (rule vars_inv_inj [OF inv(1)])
  moreover have "p_Name p = p_Name q"
    using versions_of_known(1) [OF inv(2)] assms(2,3) by simp
  ultimately have "p_Version p = p_Version q" by (simp add: pkg_key_inj_version)
  with versions_of_distinct [OF inv(2), of n] assms(2,3) show ?thesis
    by (auto simp: distinct_map dest: inj_onD)
qed

lemma vars_for_distinct:
  assumes "sat_inv g"
  shows "distinct (vars_for g P (versions_of g n))"
proof -
  have "inj_on (\<lambda>p. get_var g (pkg_key p)) (set (filter P (versions_of g n)))"
    using versions_of_var_inj [OF assms] by (auto simp: inj_on_def)
  moreover have "distinct (filter P (versions_of g n))"
    using versions_of_distinct [OF sat_invD(2) [OF assms], of n] by (simp add: distinct_map)
  ultimately show ?thesis by (simp add: vars_for_def distinct_map)
qed

lemma at_most_one_per_slot_meaning:
  assumes "sat_inv g" "enumerates ns (sa_packages g)" "\<forall>sk. slot_groups g ns sk \<noteq> [] \<longrightarrow> sk \<in> set sks"
  shows "sat_inv (add_at_most_one_per_slot ns sks g)"
    and "models m (add_at_most_one_per_slot ns sks g) \<longleftrightarrow> models m g \<and> one_per_slot m g"
proof -
  note inv = sat_invD [OF assms(1)]
  let ?f = "slot_groups g ns"
  have f: "?f sk = vars_for g (\<lambda>p. slot_key_of p = sk) (versions_of g (sk_Name sk))" for sk
    by (rule slot_groups_eq [OF inv(2) assms(2)])
  have "\<forall>sk \<in> set sks. (\<forall>v \<in> set (?f sk). known_lit g v \<and> 0 < v) \<and> distinct (?f sk)"
    unfolding f using vars_for_pos [OF inv(1) known_versions [OF inv(2)]] vars_for_distinct [OF assms(1)] by blast
  note ex = exclude_groups_meaning [OF assms(1) this, of m]
  have "(\<forall>sk \<in> set sks. \<forall>x \<in> set (?f sk). \<forall>y \<in> set (?f sk). m x \<and> m y \<longrightarrow> x = y) \<longleftrightarrow> one_per_slot m g"
    (is "?all \<longleftrightarrow> _")
  proof
    assume all: ?all
    show "one_per_slot m g"
      unfolding one_per_slot_def
    proof (intro allI ballI impI)
      fix n p q
      assume p: "p \<in> set (versions_of g n)" and q: "q \<in> set (versions_of g n)"
        and sl: "sl_Name (p_Slot p) = sl_Name (p_Slot q) \<and> selects m g p \<and> selects m g q"
      let ?sk = "\<lparr>sk_Name = n, sk_Slot = sl_Name (p_Slot p)\<rparr>"
      have "slot_key_of p = ?sk" "slot_key_of q = ?sk"
        using versions_of_known(1) [OF inv(2) p] versions_of_known(1) [OF inv(2) q] sl by (simp_all add: slot_key_of_def)
      then have in_group: "get_var g (pkg_key p) \<in> set (?f ?sk)" "get_var g (pkg_key q) \<in> set (?f ?sk)"
        using p q by (auto simp: f vars_for_def)
      then have "slot_groups g ns ?sk \<noteq> []" by (metis empty_iff list.set(1))
      then have "?sk \<in> set sks" using assms(3) by blast
      with all in_group sl have "get_var g (pkg_key p) = get_var g (pkg_key q)"
        unfolding selects_def by blast
      then show "p = q" by (rule versions_of_var_inj [OF assms(1) p q])
    qed
  next
    assume one: "one_per_slot m g"
    show ?all
    proof (intro ballI impI)
      fix sk x y
      assume "x \<in> set (?f sk)" "y \<in> set (?f sk)" and mm: "m x \<and> m y"
      then obtain p q where pq: "p \<in> set (versions_of g (sk_Name sk))" "q \<in> set (versions_of g (sk_Name sk))"
        "slot_key_of p = sk" "slot_key_of q = sk" "x = get_var g (pkg_key p)" "y = get_var g (pkg_key q)"
        by (auto simp: f vars_for_def)
      then have "sl_Name (p_Slot p) = sl_Name (p_Slot q)" by (auto simp: slot_key_of_def)
      with one pq mm show "x = y" unfolding one_per_slot_def selects_def by blast
    qed
  qed
  with ex show "sat_inv (add_at_most_one_per_slot ns sks g)"
    and "models m (add_at_most_one_per_slot ns sks g) \<longleftrightarrow> models m g \<and> one_per_slot m g"
    by (simp_all add: add_at_most_one_per_slot_def)
qed

subsection \<open>Blockers\<close>

definition blocks :: "coregex \<Rightarrow> sat_adapter \<Rightarrow> int \<Rightarrow> atom \<Rightarrow> (int \<Rightarrow> bool) \<Rightarrow> bool" where
  "blocks rx g i b m \<longleftrightarrow> m i \<and> (\<exists>p \<in> set (versions_of g (atom_cp b)).
     atom_matches rx (Some b) (Some p) \<and> get_var g (pkg_key p) \<noteq> i \<and> selects m g p)"

lemma block_versions_meaning:
  assumes "sat_inv g" "known_lit g i" "0 < i" "known_packages g ps"
  shows "sat_inv (block_versions rx i key b ps g) \<and>
    (models m (block_versions rx i key b ps g) \<longleftrightarrow> models m g \<and> (\<forall>p \<in> set ps.
       atom_matches rx (Some b) (Some p) \<and> get_var g (pkg_key p) \<noteq> i \<longrightarrow> \<not> (m i \<and> selects m g p)))"
  using assms
proof (induction ps arbitrary: g)
  case (Cons p ps)
  obtain j where j: "map_of (sa_vars g) (pkg_key p) = Some j"
    using Cons.prems(4) by (auto simp: known_packages_def)
  obtain r where r: "r = ''blocker: '' @ key @ '' blocks '' @ pkg_key p @ '' (atom '' @ atom_string b @ '')''" by simp
  let ?h = "if \<not> atom_matches rx (Some b) (Some p) \<or> j = i then g
            else add_clause [- i, - j] (with_meta ClauseConflict r g)"
  have jk: "0 < j" "known_lit g j"
    using vars_inv_range [OF sat_invD(1) [OF Cons.prems(1)] j] by (simp_all add: known_lit_def)
  have neg: "\<forall>l \<in> set [- i, - j]. known_lit g l" using Cons.prems(2) jk by (auto simp: known_lit_def)
  have h: "sat_inv ?h" "sa_vars ?h = sa_vars g" "models m ?h \<longleftrightarrow> models m g \<and>
      (atom_matches rx (Some b) (Some p) \<and> get_var g (pkg_key p) \<noteq> i \<longrightarrow> \<not> (m i \<and> selects m g p))"
    using Cons.prems(1,3) jk tagged_clause [OF Cons.prems(1) _ neg]
    by (auto simp: get_var_known [OF j] selects_var [OF j] lit_neg)
  have step: "block_versions rx i key b (p # ps) g = block_versions rx i key b ps ?h"
    by (simp add: j r)
  have same: "known_lit ?h i" "known_packages ?h ps" "get_var ?h k = get_var g k" "selects m ?h q = selects m g q" for k q
    using Cons.prems(2,4) h(2) by (simp_all add: known_lit_def known_packages_def get_var_def selects_def)
  from Cons.IH [OF h(1) same(1) Cons.prems(3) same(2)] show ?case
    unfolding step same h(3) by simp
qed simp

lemma blocker_conflict_meaning:
  assumes "sat_inv g" "known_lit g i" "0 < i"
  shows "sat_inv (add_blocker_conflict rx i (Some b) g)"
    and "models m (add_blocker_conflict rx i (Some b) g) \<longleftrightarrow> models m g \<and> \<not> blocks rx g i b m"
  using block_versions_meaning [OF assms known_versions [OF sat_invD(2) [OF assms(1)]], of rx "var_text g i" b "atom_cp b" m]
    assms(3) by (auto simp: add_blocker_conflict_def blocks_def)

subsection \<open>Reachable adapters\<close>

lemma models_ignores [simp]:
  "models m (add_root_vars vs g) = models m g" "models m (mark_installed i g) = models m g"
  "models m (clone g) = models m g"
  by (simp_all add: add_root_vars_def mark_installed_def models_def clone_def)

lemma sat_inv_ignores [simp]:
  "sat_inv (add_root_vars vs g) = sat_inv g" "sat_inv (mark_installed i g) = sat_inv g"
  "sat_inv (clone g) = sat_inv g"
  by (rule sat_inv_cong; simp add: add_root_vars_def mark_installed_def clone_def)+

inductive adapter_built :: "coregex \<Rightarrow> sat_adapter \<Rightarrow> bool" for rx where
  built_new: "adapter_built rx new_gophersat_adapter"
| built_package: "adapter_built rx g \<Longrightarrow> adapter_built rx (adapter_add_package p g)"
| built_constraint: "adapter_built rx g \<Longrightarrow> enumerates ns (sa_packages g) \<Longrightarrow>
    adapter_built rx (fst (add_constraint rx ns c g))"
| built_atom: "adapter_built rx g \<Longrightarrow> adapter_built rx (fst (add_atom_constraint rx (Some b) g))"
| built_or_group: "adapter_built rx g \<Longrightarrow> adapter_built rx (fst (add_or_group_constraint rx alts g))"
| built_exactly_one: "adapter_built rx g \<Longrightarrow> distinct versions \<Longrightarrow>
    adapter_built rx (add_exactly_one_constraint name versions g)"
| built_implication: "adapter_built rx g \<Longrightarrow> known_lit g d \<Longrightarrow> 0 < d \<Longrightarrow>
    adapter_built rx (add_implication_constraint rx d c g)"
| built_implication_slot: "adapter_built rx g \<Longrightarrow> known_lit g d \<Longrightarrow> 0 < d \<Longrightarrow>
    adapter_built rx (add_implication_slot_constraint rx d c g)"
| built_implication_or: "adapter_built rx g \<Longrightarrow> known_lit g d \<Longrightarrow> 0 < d \<Longrightarrow>
    adapter_built rx (add_implication_or_group rx d alts g)"
| built_blocker: "adapter_built rx g \<Longrightarrow> known_lit g d \<Longrightarrow> 0 < d \<Longrightarrow>
    adapter_built rx (add_blocker_conflict rx d (Some b) g)"
| built_at_most_one: "adapter_built rx g \<Longrightarrow> enumerates ns (sa_packages g) \<Longrightarrow>
    \<forall>sk. slot_groups g ns sk \<noteq> [] \<longrightarrow> sk \<in> set sks \<Longrightarrow> adapter_built rx (add_at_most_one_per_slot ns sks g)"
| built_raw: "adapter_built rx g \<Longrightarrow> c \<noteq> [] \<Longrightarrow> \<forall>l \<in> set c. known_lit g l \<Longrightarrow> adapter_built rx (add_clause c g)"
| built_tagged: "adapter_built rx g \<Longrightarrow> c \<noteq> [] \<Longrightarrow> \<forall>l \<in> set c. known_lit g l \<Longrightarrow>
    adapter_built rx (add_clause c (with_meta s r g))"
| built_roots: "adapter_built rx g \<Longrightarrow> adapter_built rx (add_root_vars vs g)"
| built_installed: "adapter_built rx g \<Longrightarrow> adapter_built rx (mark_installed i g)"
| built_clone: "adapter_built rx g \<Longrightarrow> adapter_built rx (clone g)"

lemma built_inv: "adapter_built rx g \<Longrightarrow> sat_inv g"
proof (induction rule: adapter_built.induct)
  case (built_constraint g ns c)
  then show ?case
    using add_constraint_adds [of g c ns rx] add_use_flag_adds(1) [of g c]
    by (cases "c_Type c") (simp_all add: adds_choice_def add_constraint_def)
qed (use add_atom_adds add_or_group_adds in \<open>auto simp: adds_choice_def sat_inv_new sat_inv_add_package
  add_exactly_one_meaning(1) implication_constraint_meaning(1) implication_slot_meaning(1)
  implication_or_group_meaning(1) blocker_conflict_meaning(1) at_most_one_per_slot_meaning(1) sat_inv_add_clause
  tagged_clause(1)\<close>)

subsection \<open>The contract of the solver\<close>

locale sat_solver =
  fixes solver :: "int list list \<Rightarrow> sat_answer"
  assumes sat_sound: "\<forall>c \<in> set cls. \<forall>l \<in> set c. l \<noteq> 0 \<Longrightarrow> solver cls = Sat bs \<Longrightarrow>
      list_all (clause_true (model_true bs)) cls"
    and unsat_sound: "\<forall>c \<in> set cls. \<forall>l \<in> set c. l \<noteq> 0 \<Longrightarrow> solver cls = Unsat \<Longrightarrow>
      \<not> list_all (clause_true m) cls"
begin

lemma sat_models: "sat_inv g \<Longrightarrow> solver (sa_clauses g) = Sat bs \<Longrightarrow> models (model_true bs) g"
  unfolding models_def by (rule sat_sound) (simp_all add: sat_inv_def clauses_inv_def known_lit_def)

lemma unsat_models: "sat_inv g \<Longrightarrow> solver (sa_clauses g) = Unsat \<Longrightarrow> \<not> models m g"
  unfolding models_def by (rule unsat_sound) (simp_all add: sat_inv_def clauses_inv_def known_lit_def)

end

text \<open>A solver that tries every assignment satisfies the contract.\<close>

fun all_models :: "nat \<Rightarrow> bool list list" where
  "all_models 0 = [[]]"
| "all_models (Suc n) = concat (map (\<lambda>bs. [True # bs, False # bs]) (all_models n))"

definition max_var :: "int list list \<Rightarrow> nat" where
  "max_var cls = fold max (map (\<lambda>l. nat \<bar>l\<bar>) (concat cls)) 0"

definition ref_solver :: "int list list \<Rightarrow> sat_answer" where
  "ref_solver cls =
     (case List.find (\<lambda>bs. list_all (clause_true (model_true bs)) cls) (all_models (max_var cls)) of
        Some bs \<Rightarrow> Sat bs
      | None \<Rightarrow> Unsat)"

lemma all_models_set: "length bs = n \<Longrightarrow> bs \<in> set (all_models n)"
proof (induction n arbitrary: bs)
  case (Suc n)
  from Suc.prems obtain b cs where "bs = b # cs" "length cs = n" by (cases bs) auto
  with Suc.IH [of cs] show ?case by (cases b) auto
qed simp

lemma fold_max_ge: "(x :: nat) \<in> insert a (set xs) \<Longrightarrow> x \<le> fold max xs a"
proof (induction xs arbitrary: a x)
  case (Cons y ys)
  have "max y a \<le> fold max ys (max y a)" using Cons.IH [of "max y a" "max y a"] by simp
  with Cons show ?case by auto
qed simp

lemma max_var_ge: "c \<in> set cls \<Longrightarrow> l \<in> set c \<Longrightarrow> nat \<bar>l\<bar> \<le> max_var cls"
  unfolding max_var_def by (rule fold_max_ge) auto

lemma clause_true_restrict:
  assumes "\<forall>l \<in> set c. l \<noteq> 0 \<and> nat \<bar>l\<bar> \<le> n" "clause_true m c"
  shows "clause_true (model_true (map (\<lambda>k. m (int k)) [1..<Suc n])) c"
proof -
  have "model_true (map (\<lambda>k. m (int k)) [1..<Suc n]) i = m i" if "0 < i" "nat i \<le> n" for i
    using that by (auto simp: model_true_def nth_upt simp del: upt_Suc)
  then have "lit (model_true (map (\<lambda>k. m (int k)) [1..<Suc n])) l = lit m l" if "l \<in> set c" for l
    using assms(1) that by (auto simp: lit_def simp del: upt_Suc)
  with assms(2) show ?thesis by (simp add: clause_true_def list_ex_iff del: upt_Suc)
qed

interpretation ref_sat: sat_solver ref_solver
proof
  fix cls bs
  assume "ref_solver cls = Sat bs"
  then show "list_all (clause_true (model_true bs)) cls"
    by (auto simp: ref_solver_def find_Some_iff split: option.splits)
next
  fix cls m
  assume nz: "\<forall>c \<in> set cls. \<forall>l \<in> set c. l \<noteq> 0" and un: "ref_solver cls = Unsat"
  show "\<not> list_all (clause_true m) cls"
  proof
    assume sat: "list_all (clause_true m) cls"
    let ?bs = "map (\<lambda>k. m (int k)) [1..<Suc (max_var cls)]"
    have "?bs \<in> set (all_models (max_var cls))" by (rule all_models_set) simp
    moreover have "list_all (clause_true (model_true ?bs)) cls"
      using sat nz max_var_ge clause_true_restrict by (simp add: list_all_iff del: upt_Suc)
    ultimately show False
      using un by (auto simp: ref_solver_def find_None_iff split: option.splits)
  qed
qed

subsection \<open>Solutions\<close>

text \<open>The solution map: the selected keys with exactly one \<open>@\<close>, each with its version.\<close>

lemma extract_vars_eq:
  assumes "distinct (map fst vs)"
  shows "extract_vars vs bs m0 k =
    (case map_of vs k of
       Some i \<Rightarrow> if model_true bs i \<and> length (split_byte CHR ''@'' k) = 2 then Some (split_byte CHR ''@'' k ! 1) else m0 k
     | None \<Rightarrow> m0 k)"
  using assms
proof (induction vs arbitrary: m0)
  case (Cons v vs)
  obtain key i where v: "v = (key, i)" by (cases v)
  have two: "length xs = 2 \<longleftrightarrow> (\<exists>a b. xs = [a, b])" for xs :: "string list"
    by (cases xs; cases "tl xs"; cases "tl (tl xs)") auto
  let ?m = "if model_true bs i
        then (case split_byte CHR ''@'' key of [name, w] \<Rightarrow> m0(key \<mapsto> w) | _ \<Rightarrow> m0) else m0"
  have m: "?m k = (if k = key \<and> model_true bs i \<and> length (split_byte CHR ''@'' k) = 2
                   then Some (split_byte CHR ''@'' k ! 1) else m0 k)"
    by (auto simp: two split: list.split)
  have none: "map_of vs key = None" using Cons.prems v by (auto simp: map_of_eq_None_iff)
  have "extract_vars (v # vs) bs m0 = extract_vars vs bs ?m" by (simp add: v)
  with Cons.IH [of ?m] Cons.prems m none show ?case
    by (cases "k = key") (auto simp: v split: option.split)
qed simp

lemma extract_solution_package:
  assumes "sat_inv g" "p \<in> set (versions_of g n)" "CHR ''@'' \<notin> set (p_Name p)" "CHR ''@'' \<notin> set (p_Version p)"
  shows "extract_solution g bs (pkg_key p) =
    (if selects (model_true bs) g p then Some (p_Version p) else None)"
proof -
  obtain i where i: "map_of (sa_vars g) (pkg_key p) = Some i"
    using versions_of_known(2) [OF sat_invD(2) [OF assms(1)] assms(2)] by auto
  have "split_byte CHR ''@'' (pkg_key p) = [p_Name p, p_Version p]"
    using assms(3,4) by (simp add: pkg_key_def split_byte_append split_byte_none)
  with i show ?thesis
    unfolding extract_solution_def selects_var [OF i]
    by (subst extract_vars_eq) (use vars_invD(2) [OF sat_invD(1) [OF assms(1)]] in simp_all)
qed

subsection \<open>Properties\<close>

definition sample_adapter :: sat_adapter where
  "sample_adapter =
     adapter_add_package (new_package ''c/d'' ''1'' ''0'')
       (adapter_add_package (new_package ''a/b'' ''2'' ''0'')
         (adapter_add_package (new_package ''a/b'' ''1'' ''0'') new_gophersat_adapter))"

lemma sample_built: "adapter_built ref_coregex sample_adapter"
  unfolding sample_adapter_def by (intro adapter_built.intros)

lemma sample_vars: "sa_vars sample_adapter = [(''a/b@1'', 1), (''a/b@2'', 2), (''c/d@1'', 3)]"
  by code_simp

lemma sample_known: "known_lit sample_adapter 1" "known_lit sample_adapter 3"
  by (simp_all add: known_lit_def sample_vars)

lemma dom_add_package: "dom (sa_packages (adapter_add_package p g)) = insert (p_Name p) (dom (sa_packages g))"
proof (cases "list_ex (\<lambda>q. p_Version q = p_Version p) (versions_of g (p_Name p))")
  case True
  then have "sa_packages g (p_Name p) \<noteq> None" by (cases "sa_packages g (p_Name p)") (auto simp: versions_of_def)
  with True show ?thesis by (auto simp: add_package_cases)
qed (auto simp: add_package_cases)

lemma sample_names: "enumerates [''a/b'', ''c/d''] (sa_packages sample_adapter)"
proof -
  have "dom (sa_packages sample_adapter) = {''a/b'', ''c/d''}"
    by (simp add: sample_adapter_def dom_add_package new_package_def)
      (auto simp: new_gophersat_adapter_def)
  then show ?thesis by (simp add: enumerates_def)
qed

lemma sample_versions:
  "versions_of sample_adapter n =
     (if n = ''a/b'' then [new_package ''a/b'' ''1'' ''0'', new_package ''a/b'' ''2'' ''0'']
      else if n = ''c/d'' then [new_package ''c/d'' ''1'' ''0''] else [])"
proof -
  have "versions_of new_gophersat_adapter n = []" for n
    by (simp add: versions_of_def new_gophersat_adapter_def)
  moreover have "p_Name (new_package n v s) = n" "p_Version (new_package n v s) = v" for n v s
    by (simp_all add: new_package_def)
  ultimately show ?thesis
    by (simp add: sample_adapter_def versions_of_add_package)
qed

text \<open>
  Every adapter the operations build satisfies the invariant: variables are numbered from 1
  without gaps and their names are unique, every clause is non-empty, speaks of existing variables and has
  its metadata and key, and every recorded implication or prohibition has its clause.
\<close>

theorem adapter_invariant:
  assumes "adapter_built rx g"
  shows "sat_inv g"
  using assms by (rule built_inv)

theorem adapter_invariant_witness: "sat_inv sample_adapter \<and> length (sa_vars sample_adapter) = 3"
  using adapter_invariant [OF sample_built] by (simp add: sample_vars)


definition sample_need :: "string \<Rightarrow> pkg_constraint" where
  "sample_need v = zero_constraint\<lparr>c_Name := ''a/b'',
     c_Version := Some (new_version_constraint OpGreaterEqual v)\<rparr>"


text \<open>
  A root constraint (a version or slot constraint) keeps the earlier clauses and adds exactly
  that one of the registered packages it accepts is selected; when there is none it changes nothing and
  reports an error precisely for a slot constraint, a constraint without version, and a required one.
\<close>

theorem root_constraints_exact:
  assumes "adapter_built rx g" "c_Type c \<noteq> ConstraintTypeUseFlag" "enumerates ns (sa_packages g)"
  shows "if \<exists>p \<in> set (versions_of g (c_Name c)). root_provides rx c p
         then snd (add_constraint rx ns c g) = None \<and>
              (\<forall>m. models m (fst (add_constraint rx ns c g)) \<longleftrightarrow>
                   models m g \<and> (\<exists>p \<in> set (versions_of g (c_Name c)). root_provides rx c p \<and> selects m g p))
         else (snd (add_constraint rx ns c g) \<noteq> None \<longleftrightarrow> root_fails c) \<and> fst (add_constraint rx ns c g) = g"
  using add_constraint_adds [OF built_inv [OF assms(1)] assms(2,3), of rx]
  unfolding adds_choice_def by (rule conjunct2)

theorem root_constraints_exact_witness:
  "snd (add_constraint ref_coregex [''a/b'', ''c/d''] (sample_need ''2'') sample_adapter) = None \<and>
   snd (add_constraint ref_coregex [''a/b'', ''c/d''] ((sample_need ''3'')\<lparr>c_Required := True\<rparr>) sample_adapter) \<noteq> None"
proof -
  have e: "\<exists>p \<in> set (versions_of sample_adapter (c_Name (sample_need ''2''))). root_provides ref_coregex (sample_need ''2'') p"
    and n: "\<not> (\<exists>p \<in> set (versions_of sample_adapter (c_Name ((sample_need ''3'')\<lparr>c_Required := True\<rparr>))).
              root_provides ref_coregex ((sample_need ''3'')\<lparr>c_Required := True\<rparr>) p)"
    by code_simp+
  have t: "c_Type (sample_need v) \<noteq> ConstraintTypeUseFlag" for v
    by (simp add: sample_need_def zero_constraint_def)
  show ?thesis
    using root_constraints_exact [OF sample_built t sample_names, of "''2''"] e
      root_constraints_exact [OF sample_built _ sample_names, of "(sample_need ''3'')\<lparr>c_Required := True\<rparr>"] n t [of "''3''"]
    by (simp add: root_fails_def)
qed

text \<open>
  \<open>AddAtMostOnePerSlot\<close> adds, for every iteration order of the two maps, exactly that
  no two selected versions of a package share a slot, and \<open>AddExactlyOneConstraint\<close> adds exactly that
  one and only one of the registered versions it names is selected (nothing when none is registered).
\<close>

theorem exclusion_clauses_exact:
  assumes "adapter_built rx g" "enumerates ns (sa_packages g)"
    "\<forall>sk. slot_groups g ns sk \<noteq> [] \<longrightarrow> sk \<in> set sks" "distinct versions"
  shows "(models m (add_at_most_one_per_slot ns sks g) \<longleftrightarrow> models m g \<and> one_per_slot m g) \<and>
         (models m (add_exactly_one_constraint name versions g) \<longleftrightarrow> models m g \<and>
            (registered_vars g name versions \<noteq> [] \<longrightarrow>
               (\<exists>!x. x \<in> set (registered_vars g name versions) \<and> m x)))"
  using at_most_one_per_slot_meaning(2) [OF built_inv [OF assms(1)] assms(2,3)]
    add_exactly_one_meaning(2) [OF built_inv [OF assms(1)] assms(4)] by simp

theorem exclusion_clauses_exact_witness:
  "\<forall>m. models m (add_exactly_one_constraint ''a/b'' [''1'', ''2''] sample_adapter) \<longleftrightarrow> m 1 \<noteq> m 2"
proof
  fix m
  let ?sks = "[\<lparr>sk_Name = ''a/b'', sk_Slot = ''0''\<rparr>, \<lparr>sk_Name = ''c/d'', sk_Slot = ''0''\<rparr>]"
  have "parse_slot ''0'' = new_slot ''0'' []" by code_simp
  then have key: "slot_key_of (new_package n v ''0'') = \<lparr>sk_Name = n, sk_Slot = ''0''\<rparr>" for n v
    by (simp add: new_package_def slot_key_of_def new_slot_def)
  have "\<forall>sk. slot_groups sample_adapter [''a/b'', ''c/d''] sk \<noteq> [] \<longrightarrow> sk \<in> set ?sks"
  proof (intro allI impI)
    fix sk
    assume "slot_groups sample_adapter [''a/b'', ''c/d''] sk \<noteq> []"
    then obtain p where p: "p \<in> set (versions_of sample_adapter (sk_Name sk))" "slot_key_of p = sk"
      unfolding slot_groups_eq [OF sat_invD(2) [OF built_inv [OF sample_built]] sample_names] vars_for_empty by blast
    from p(1) have "slot_key_of p \<in> set ?sks"
    proof (cases "sk_Name sk = ''a/b''")
      case True
      with p(1) have "p = new_package ''a/b'' ''1'' ''0'' \<or> p = new_package ''a/b'' ''2'' ''0''"
        by (simp add: sample_versions)
      then show ?thesis by (elim disjE) (simp_all add: key)
    next
      case False
      with p(1) have "p = new_package ''c/d'' ''1'' ''0''"
        by (cases "sk_Name sk = ''c/d''") (simp_all add: sample_versions)
      then show ?thesis by (simp add: key)
    qed
    with p(2) show "sk \<in> set ?sks" by simp
  qed
  from exclusion_clauses_exact [OF sample_built sample_names this, of "[''1'', ''2'']" m "''a/b''"]
  have "models m (add_exactly_one_constraint ''a/b'' [''1'', ''2''] sample_adapter) \<longleftrightarrow> models m sample_adapter \<and>
      (registered_vars sample_adapter ''a/b'' [''1'', ''2''] \<noteq> [] \<longrightarrow>
         (\<exists>!x. x \<in> set (registered_vars sample_adapter ''a/b'' [''1'', ''2'']) \<and> m x))"
    by simp
  moreover have "registered_vars sample_adapter ''a/b'' [''1'', ''2''] = [1, 2]" by code_simp
  moreover have "sa_clauses sample_adapter = []" by code_simp
  moreover have "(\<exists>!x. x \<in> set [1, 2 :: int] \<and> m x) \<longleftrightarrow> m 1 \<noteq> m 2"
    by (cases "m 1"; cases "m 2") (simp_all add: Ex1_def, fastforce+)
  ultimately show "models m (add_exactly_one_constraint ''a/b'' [''1'', ''2''] sample_adapter) \<longleftrightarrow> m 1 \<noteq> m 2"
    by (simp only: models_def list.pred_inject list.distinct simp_thms not_Cons_self2)
qed

text \<open>
  Claim C25. Solving: with a solver that keeps its contract, \<open>Solve\<close> answers satisfiable only with a solution
  that lists exactly the packages some model of the clauses selects, each with its version (for names and
  versions without \<open>@\<close>), answers unsatisfiable only when the clauses have no model, and reports an error
  exactly when the solver gives up.
\<close>

theorem solve_sound_complete:
  assumes "adapter_built rx g" "sat_solver solver"
  shows "case solve solver g of
      (StatusSat, Some sol, failed) \<Rightarrow> \<not> failed \<and>
        (\<exists>m. models m g \<and> (\<forall>n. \<forall>p \<in> set (versions_of g n).
           CHR ''@'' \<notin> set (p_Name p) \<and> CHR ''@'' \<notin> set (p_Version p) \<longrightarrow>
           sol (pkg_key p) = (if selects m g p then Some (p_Version p) else None)))
    | (StatusUnsat, None, failed) \<Rightarrow> \<not> failed \<and> (\<forall>m. \<not> models m g)
    | (StatusIndet, None, failed) \<Rightarrow> failed
    | _ \<Rightarrow> False"
proof (cases "solver (sa_clauses g)")
  case (Sat bs)
  have "models (model_true bs) g"
    using sat_solver.sat_models [OF assms(2) built_inv [OF assms(1)] Sat] .
  then show ?thesis
    using Sat extract_solution_package [OF built_inv [OF assms(1)], of _ _ bs]
    by (auto simp: solve_def)
next
  case Unsat
  then show ?thesis
    using sat_solver.unsat_models [OF assms(2) built_inv [OF assms(1)] Unsat] by (simp add: solve_def)
qed (simp add: solve_def)

theorem solve_sound_complete_witness:
  "solve ref_solver (add_clause [-1] (add_clause [1, 2] sample_adapter)) \<noteq> (StatusUnsat, None, False) \<and>
   (\<forall>m. \<not> models m (add_clause [1] (add_clause [-1] sample_adapter)))"
proof -
  have known: "\<forall>l \<in> set c. known_lit sample_adapter l" if "set c \<subseteq> {1, -1, 2}" for c
    using that by (auto simp: known_lit_def sample_vars)
  have b: "adapter_built ref_coregex (add_clause [1] (add_clause [-1] sample_adapter))"
    using known [of "[1]"] known [of "[-1]"] by (intro adapter_built.intros sample_built) simp_all
  have "sa_clauses (add_clause [1] (add_clause [-1] sample_adapter)) = [[-1], [1]]"
    "sa_clauses (add_clause [-1] (add_clause [1, 2] sample_adapter)) = [[1, 2], [-1]]"
    "ref_solver [[-1], [1]] = Unsat" "ref_solver [[1, 2], [-1]] = Sat [False, True]"
    by code_simp+
  then show ?thesis
    using solve_sound_complete [OF b ref_sat.sat_solver_axioms] by (simp add: solve_def)
qed

end
