(* ===== verification/Sat_Optimal.thy ===== *)
theory Sat_Optimal
  imports Sat_Meaning "HOL-Library.Multiset"
begin

text \<open>
  The MAX-SAT part of \<open>internal/solver/gophersat_adapter.go\<close>: \<open>buildVersionPreferences\<close> and
  \<open>SolveOptimal\<close>. \<open>sort.Slice\<close> with the order of \<open>CompareVersions\<close> is the argument \<open>srt\<close>, because the
  order of equal elements is not specified; \<open>desc_sorter\<close> is what it promises. \<open>Minimize\<close> of gophersat,
  together with the timeout around it, is the argument \<open>minimize\<close> with the contract \<open>sat_minimizer\<close>.

  \<open>penalty\<close> is the preference order the soft clauses are meant to express; the relaxation variables turn
  out to express exactly that (\<open>optimal_is_least_penalty\<close>).
\<close>

subsection \<open>Version preferences\<close>

record version_rank =
  vr_varID :: int
  vr_rank :: nat

definition root_name_of :: "sat_adapter \<Rightarrow> int \<Rightarrow> string option" where
  "root_name_of g i =
     (case sa_varNames g i of
        None \<Rightarrow> None
      | Some s \<Rightarrow> (case last_index s ''@'' of Some k \<Rightarrow> if 0 < k then Some (take k s) else None | None \<Rightarrow> None))"

definition is_root_name :: "sat_adapter \<Rightarrow> string \<Rightarrow> bool" where
  "is_root_name g name \<longleftrightarrow> list_ex (\<lambda>i. root_name_of g i = Some name) (sa_rootVars g)"

fun rank_newest :: "sat_adapter \<Rightarrow> string \<Rightarrow> nat \<Rightarrow> package list \<Rightarrow> version_rank list" where
  "rank_newest g name k [] = []"
| "rank_newest g name k (p # ps) =
     (case map_of (sa_vars g) (name @ ''@'' @ p_Version p) of
        None \<Rightarrow> rank_newest g name (Suc k) ps
      | Some i \<Rightarrow> \<lparr>vr_varID = i, vr_rank = k\<rparr> # rank_newest g name (Suc k) ps)"

fun installed_index :: "sat_adapter \<Rightarrow> string \<Rightarrow> nat \<Rightarrow> package list \<Rightarrow> nat option" where
  "installed_index g name k [] = None"
| "installed_index g name k (p # ps) =
     (case map_of (sa_vars g) (name @ ''@'' @ p_Version p) of
        None \<Rightarrow> installed_index g name (Suc k) ps
      | Some i \<Rightarrow> if is_var_installed g i then Some k else installed_index g name (Suc k) ps)"

fun rank_keep :: "sat_adapter \<Rightarrow> string \<Rightarrow> nat option \<Rightarrow> nat \<Rightarrow> nat \<Rightarrow> package list \<Rightarrow> version_rank list" where
  "rank_keep g name idx k next_rank [] = []"
| "rank_keep g name idx k next_rank (p # ps) =
     (case map_of (sa_vars g) (name @ ''@'' @ p_Version p) of
        None \<Rightarrow> rank_keep g name idx (Suc k) next_rank ps
      | Some i \<Rightarrow>
          if idx = Some k
          then \<lparr>vr_varID = i, vr_rank = 0\<rparr> # rank_keep g name idx (Suc k) next_rank ps
          else \<lparr>vr_varID = i, vr_rank = next_rank\<rparr> # rank_keep g name idx (Suc k) (Suc next_rank) ps)"

definition rank_versions ::
  "(package list \<Rightarrow> package list) \<Rightarrow> bool \<Rightarrow> bool \<Rightarrow> sat_adapter \<Rightarrow> string \<Rightarrow> version_rank list" where
  "rank_versions srt update_mode deep_mode g name =
     (let versions = versions_of g name in
      if length versions \<le> 1 then []
      else
        (let sorted = srt versions in
         if is_root_name g name \<or> update_mode \<and> deep_mode then rank_newest g name 0 sorted
         else (let idx = installed_index g name 0 sorted in
               rank_keep g name idx 0 (if idx = None then 0 else 1) sorted)))"

definition build_version_preferences ::
  "(package list \<Rightarrow> package list) \<Rightarrow> bool \<Rightarrow> bool \<Rightarrow> string list \<Rightarrow> sat_adapter \<Rightarrow> version_rank list" where
  "build_version_preferences srt update_mode deep_mode ns g =
     concat (map (rank_versions srt update_mode deep_mode g) ns)"

subsection \<open>Soft clauses\<close>

text \<open>
  \<open>SolveOptimal\<close> adds, for every choice with a non-zero rank, the clause \<open>(-choice | relax)\<close> with a fresh
  relaxation variable and that rank as its weight; \<open>os\<close> is the iteration order of \<open>orGroupPrefs\<close>.
\<close>

fun max_rank :: "version_rank list \<Rightarrow> nat \<Rightarrow> nat" where
  "max_rank [] n = n"
| "max_rank (p # ps) n = max_rank ps (if n < vr_rank p then vr_rank p else n)"

definition or_weight :: "version_rank list \<Rightarrow> nat" where
  "or_weight prefs = (let w = max_rank prefs 0 + 1 in if w < 2 then 2 else w)"

fun soft_items :: "version_rank list \<Rightarrow> (int \<times> nat) list" where
  "soft_items [] = []"
| "soft_items (p # ps) = (if vr_rank p = 0 then soft_items ps else (vr_varID p, vr_rank p) # soft_items ps)"

fun or_items :: "nat \<Rightarrow> sat_adapter \<Rightarrow> int list \<Rightarrow> (int \<times> nat) list" where
  "or_items w g [] = []"
| "or_items w g (i # is) =
     (case sa_orGroupPrefs g i of
        None \<Rightarrow> or_items w g is
      | Some pos \<Rightarrow> if pos = 0 then or_items w g is else (i, w * pos) # or_items w g is)"

fun relax :: "int \<Rightarrow> (int \<times> nat) list \<Rightarrow> int list list \<times> (int \<times> nat) list" where
  "relax next_var [] = ([], [])"
| "relax next_var ((i, w) # items) =
     (let (cls, ws) = relax (next_var + 1) items in ([- i, next_var] # cls, (next_var, w) # ws))"

datatype min_answer = MinModel "bool list" | MinNone | MinTimeout

definition solve_optimal ::
  "(int list list \<Rightarrow> sat_answer) \<Rightarrow> (int list list \<Rightarrow> (int \<times> nat) list \<Rightarrow> min_answer) \<Rightarrow>
   (package list \<Rightarrow> package list) \<Rightarrow> bool \<Rightarrow> bool \<Rightarrow> string list \<Rightarrow> int list \<Rightarrow> sat_adapter \<Rightarrow>
   status \<times> (string \<rightharpoonup> string) option \<times> bool" where
  "solve_optimal solver minimize srt update_mode deep_mode ns os g =
     (let (st, fallback, failed) = solve solver g in
      if st \<noteq> StatusSat then (st, fallback, failed)
      else
        (let prefs = build_version_preferences srt update_mode deep_mode ns g in
         if prefs = [] \<and> os = [] then (StatusSat, fallback, False)
         else
           (let items = soft_items prefs @ or_items (or_weight prefs) g os;
                (soft, weights) = relax (int (length (sa_vars g)) + 1) items
            in if weights = [] then (StatusSat, fallback, False)
               else (case minimize (sa_clauses g @ soft) weights of
                       MinModel bs \<Rightarrow> (StatusSat, Some (extract_solution g bs), False)
                     | MinNone \<Rightarrow> (StatusSat, fallback, False)
                     | MinTimeout \<Rightarrow> (StatusSat, fallback, False)))))"

subsection \<open>What the soft clauses cost\<close>

definition weight_of :: "(int \<Rightarrow> bool) \<Rightarrow> (int \<times> nat) list \<Rightarrow> nat" where
  "weight_of m items = sum_list (map (\<lambda>(i, w). if m i then w else 0) items)"

definition penalty :: "version_rank list \<Rightarrow> int list \<Rightarrow> sat_adapter \<Rightarrow> (int \<Rightarrow> bool) \<Rightarrow> nat" where
  "penalty prefs os g m =
     (\<Sum>p\<leftarrow>prefs. if m (vr_varID p) then vr_rank p else 0) +
     or_weight prefs * (\<Sum>i\<leftarrow>os. if m i then (case sa_orGroupPrefs g i of Some pos \<Rightarrow> pos | None \<Rightarrow> 0) else 0)"

lemma weight_of_simps [simp]:
  "weight_of m [] = 0"
  "weight_of m ((i, w) # items) = (if m i then w else 0) + weight_of m items"
  "weight_of m (xs @ ys) = weight_of m xs + weight_of m ys"
  by (simp_all add: weight_of_def)

lemma soft_items_weight: "weight_of m (soft_items prefs) = (\<Sum>p\<leftarrow>prefs. if m (vr_varID p) then vr_rank p else 0)"
  by (induction prefs) auto

lemma or_items_weight:
  "weight_of m (or_items w g os) =
     w * (\<Sum>i\<leftarrow>os. if m i then (case sa_orGroupPrefs g i of Some pos \<Rightarrow> pos | None \<Rightarrow> 0) else 0)"
  by (induction os) (auto simp: algebra_simps split: option.split)

lemma penalty_weight:
  "penalty prefs os g m = weight_of m (soft_items prefs @ or_items (or_weight prefs) g os)"
  by (simp add: penalty_def soft_items_weight or_items_weight)

lemma relax_vars: "(l, w) \<in> set (snd (relax n items)) \<Longrightarrow> n \<le> l"
  by (induction n items rule: relax.induct) (auto simp: Let_def split: prod.splits)

lemma relax_lower:
  assumes "\<forall>(i, w) \<in> set items. 0 < i" "0 < n" "list_all (clause_true m) (fst (relax n items))"
  shows "weight_of m items \<le> weight_of m (snd (relax n items))"
  using assms
proof (induction n items rule: relax.induct)
  case (2 n i w items)
  obtain cls ws where r: "relax (n + 1) items = (cls, ws)" by fastforce
  have "m i \<longrightarrow> m n" using 2(2-4) by (auto simp: r lit_neg lit_pos)
  moreover have "weight_of m items \<le> weight_of m ws"
    using 2 by (simp add: r)
  ultimately show ?case by (auto simp: r)
qed simp

text \<open>The extension of an assignment that makes every relaxation variable as true as its choice.\<close>

fun relax_assign :: "(int \<Rightarrow> bool) \<Rightarrow> int \<Rightarrow> (int \<times> nat) list \<Rightarrow> int \<Rightarrow> bool" where
  "relax_assign m n [] = m"
| "relax_assign m n ((i, w) # items) = (relax_assign m (n + 1) items)(n := m i)"

lemma relax_assign_old: "l < n \<Longrightarrow> relax_assign m n items l = m l"
  by (induction m n items rule: relax_assign.induct) auto

lemma relax_lits: "c \<in> set (fst (relax n items)) \<Longrightarrow> \<exists>i l. c = [- i, l] \<and> n \<le> l \<and> i \<in> fst ` set items"
  by (induction n items rule: relax.induct) (fastforce simp: Let_def split: prod.splits)+

lemma relax_assign_ok:
  assumes "\<forall>(i, w) \<in> set items. 0 < i \<and> i < n"
  shows "list_all (clause_true (relax_assign m n items)) (fst (relax n items)) \<and>
    weight_of (relax_assign m n items) (snd (relax n items)) = weight_of m items"
  using assms
proof (induction m n items rule: relax_assign.induct)
  case (2 m n i w items)
  obtain cls ws where r: "relax (n + 1) items = (cls, ws)" by fastforce
  let ?m = "relax_assign m (n + 1) items"
  have IH: "list_all (clause_true ?m) cls" "weight_of ?m ws = weight_of m items"
    using 2 by (fastforce simp: r)+
  have "clause_true (?m(n := m i)) c = clause_true ?m c" if c: "c \<in> set cls" for c
  proof -
    obtain j l where "c = [- j, l]" "n + 1 \<le> l" "j \<in> fst ` set items"
      using relax_lits [of c "n + 1" items] c unfolding r fst_conv by blast
    moreover from this(3) 2(2) have "0 < j" "j < n" by fastforce+
    ultimately show ?thesis using 2(2) by (simp add: lit_def)
  qed
  then have "list_all (clause_true (?m(n := m i))) cls" using IH(1) by (simp add: list_all_iff)
  moreover have "weight_of (?m(n := m i)) vs = weight_of ?m vs" if "\<forall>(l, w) \<in> set vs. n + 1 \<le> l" for vs
    using that by (induction vs) auto
  then have "weight_of (?m(n := m i)) ws = weight_of ?m ws"
    using relax_vars [of _ _ "n + 1" items] by (simp add: r) blast
  moreover have "?m i = m i" using 2(2) by (simp add: relax_assign_old)
  ultimately show ?case
    using 2(2) IH(2) by (simp add: r lit_neg lit_pos fun_upd_same del: fun_upd_apply)
      (simp add: fun_upd_apply)
qed simp

subsection \<open>The contract of \<open>Minimize\<close>\<close>

definition proper_problem :: "int list list \<Rightarrow> (int \<times> nat) list \<Rightarrow> bool" where
  "proper_problem cls ws \<longleftrightarrow> (\<forall>c \<in> set cls. \<forall>l \<in> set c. l \<noteq> 0) \<and> (\<forall>(l, w) \<in> set ws. 0 < l)"

lemma proper_relax:
  assumes "sat_inv g" "\<forall>(i, w) \<in> set items. 0 < i" "relax (int (length (sa_vars g)) + 1) items = (soft, ws)"
  shows "proper_problem (sa_clauses g @ soft) ws"
proof -
  have "\<forall>l \<in> set c. l \<noteq> 0" if c: "c \<in> set (sa_clauses g)" for c
    using sat_invD(3) [OF assms(1)] c by (simp add: clauses_inv_def known_lit_def)
  moreover have "\<forall>l \<in> set c. l \<noteq> 0" if c: "c \<in> set soft" for c
  proof -
    obtain i l where "c = [- i, l]" "int (length (sa_vars g)) + 1 \<le> l" "i \<in> fst ` set items"
      using relax_lits [of c "int (length (sa_vars g)) + 1" items] c unfolding assms(3) fst_conv by blast
    with assms(2) show ?thesis by fastforce
  qed
  moreover have "0 < l" if "(l, w) \<in> set ws" for l w
    using relax_vars [of l w "int (length (sa_vars g)) + 1" items] that by (simp add: assms(3))
  ultimately show ?thesis by (auto simp: proper_problem_def)
qed

locale sat_minimizer =
  fixes minimize :: "int list list \<Rightarrow> (int \<times> nat) list \<Rightarrow> min_answer"
  assumes min_sound: "proper_problem cls ws \<Longrightarrow> minimize cls ws = MinModel bs \<Longrightarrow>
      list_all (clause_true (model_true bs)) cls"
    and min_least: "proper_problem cls ws \<Longrightarrow> minimize cls ws = MinModel bs \<Longrightarrow> list_all (clause_true m) cls \<Longrightarrow>
      weight_of (model_true bs) ws \<le> weight_of m ws"
begin

lemma min_model_penalty:
  assumes "sat_inv g" and items: "\<forall>(i, w) \<in> set items. 0 < i \<and> i \<le> int (length (sa_vars g))"
    and r: "relax (int (length (sa_vars g)) + 1) items = (soft, ws)"
    and bs: "minimize (sa_clauses g @ soft) ws = MinModel bs"
  shows "models (model_true bs) g"
    and "models m g \<Longrightarrow> weight_of (model_true bs) items \<le> weight_of m items"
proof -
  let ?n = "int (length (sa_vars g)) + 1"
  have "\<forall>(i, w) \<in> set items. 0 < i" using items by fastforce
  note pr = proper_relax [OF assms(1) this r]
  have both: "list_all (clause_true (model_true bs)) (sa_clauses g)" "list_all (clause_true (model_true bs)) soft"
    using min_sound [OF pr bs] by simp_all
  then show "models (model_true bs) g" by (simp add: models_def)
  assume m: "models m g"
  let ?m = "relax_assign m ?n items"
  have "clause_true ?m c = clause_true m c" if "c \<in> set (sa_clauses g)" for c
  proof -
    have "\<forall>l \<in> set c. known_lit g l"
      using sat_invD(3) [OF assms(1)] that by (simp add: clauses_inv_def)
    then have "lit ?m l = lit m l" if "l \<in> set c" for l
      using that relax_assign_old [of "\<bar>l\<bar>" ?n m items] by (auto simp: lit_def known_lit_def abs_if split: if_splits)
    then show ?thesis by (simp add: clause_true_def list_ex_iff)
  qed
  then have "list_all (clause_true ?m) (sa_clauses g)" using m by (simp add: models_def list_all_iff)
  moreover have "\<forall>(i, w) \<in> set items. 0 < i \<and> i < ?n" using items by fastforce
  note ext = relax_assign_ok [OF this, of m]
  ultimately have "weight_of (model_true bs) ws \<le> weight_of ?m ws"
    using min_least [OF pr bs, of ?m] r by simp
  moreover have "weight_of (model_true bs) items \<le> weight_of (model_true bs) ws"
    using relax_lower [of items ?n "model_true bs"] items both(2) r by fastforce
  ultimately show "weight_of (model_true bs) items \<le> weight_of m items"
    using ext r by simp
qed

end

text \<open>A minimiser that tries every assignment satisfies the contract.\<close>

definition problem_vars :: "int list list \<Rightarrow> (int \<times> nat) list \<Rightarrow> nat" where
  "problem_vars cls ws = max_var (map fst ws # cls)"

definition ref_minimize :: "int list list \<Rightarrow> (int \<times> nat) list \<Rightarrow> min_answer" where
  "ref_minimize cls ws =
     (let good = filter (\<lambda>bs. list_all (clause_true (model_true bs)) cls) (all_models (problem_vars cls ws))
      in if good = [] then MinNone else MinModel (arg_min_list (\<lambda>bs. weight_of (model_true bs) ws) good))"

lemma restricted_var:
  "0 < i \<Longrightarrow> nat i \<le> n \<Longrightarrow> model_true (map (\<lambda>k. m (int k)) [1..<Suc n]) i = m i"
  by (auto simp: model_true_def nth_upt simp del: upt_Suc)

interpretation ref_min: sat_minimizer ref_minimize
proof
  fix cls ws bs
  assume pr: "proper_problem cls ws" and bs: "ref_minimize cls ws = MinModel bs"
  let ?good = "filter (\<lambda>bs. list_all (clause_true (model_true bs)) cls) (all_models (problem_vars cls ws))"
  let ?f = "\<lambda>bs. weight_of (model_true bs) ws"
  have ne: "?good \<noteq> []" and eq: "bs = arg_min_list ?f ?good"
    using bs by (auto simp: ref_minimize_def Let_def split: if_splits)
  then have "bs \<in> set ?good" using arg_min_list_in [OF ne, of ?f] by simp
  then show "list_all (clause_true (model_true bs)) cls" by simp
  fix m
  assume m: "list_all (clause_true m) cls"
  let ?n = "problem_vars cls ws"
  let ?ms = "map (\<lambda>k. m (int k)) [1..<Suc ?n]"
  have le: "nat \<bar>l\<bar> \<le> ?n" if "c \<in> set (map fst ws # cls)" "l \<in> set c" for c l
    unfolding problem_vars_def by (rule max_var_ge [OF that])
  have "clause_true (model_true ?ms) c" if c: "c \<in> set cls" for c
  proof (rule clause_true_restrict)
    show "\<forall>l \<in> set c. l \<noteq> 0 \<and> nat \<bar>l\<bar> \<le> ?n"
      using pr le [of c] c by (simp add: proper_problem_def)
    show "clause_true m c" using m c by (simp add: list_all_iff)
  qed
  then have "list_all (clause_true (model_true ?ms)) cls" by (simp add: list_all_iff)
  moreover have "?ms \<in> set (all_models ?n)" by (rule all_models_set) simp
  ultimately have "Min (?f ` set ?good) \<le> ?f ?ms" by (intro Min_le) auto
  then have "?f bs \<le> ?f ?ms" using f_arg_min_list_f [OF ne, of ?f] eq by simp
  moreover have "model_true ?ms (fst p) = m (fst p)" if "p \<in> set ws" for p
    using pr le [of "map fst ws" "fst p"] that by (intro restricted_var) (auto simp: proper_problem_def)
  then have "?f ?ms = weight_of m ws"
    unfolding weight_of_def by (intro arg_cong [where f = sum_list] map_cong) auto
  ultimately show "?f bs \<le> weight_of m ws" by simp
qed

subsection \<open>The preferred alternatives are known variables\<close>

definition prefs_known :: "sat_adapter \<Rightarrow> bool" where
  "prefs_known g \<longleftrightarrow> (\<forall>i. sa_orGroupPrefs g i \<noteq> None \<longrightarrow> known_lit g i \<and> 0 < i)"

definition keeps_prefs :: "sat_adapter \<Rightarrow> sat_adapter \<Rightarrow> bool" where
  "keeps_prefs g h \<longleftrightarrow> sa_orGroupPrefs h = sa_orGroupPrefs g \<and> length (sa_vars g) \<le> length (sa_vars h)"

lemma keeps_prefs_known: "keeps_prefs g h \<Longrightarrow> prefs_known g \<Longrightarrow> prefs_known h"
  by (auto simp: keeps_prefs_def prefs_known_def known_lit_def)

lemma keeps_prefs_refl [simp]: "keeps_prefs g g"
  by (simp add: keeps_prefs_def)

lemma keeps_prefs_trans: "keeps_prefs g h \<Longrightarrow> keeps_prefs h k \<Longrightarrow> keeps_prefs g k"
  by (simp add: keeps_prefs_def)

lemma keeps_prefs_clause [simp]: "keeps_prefs g (add_clause c (with_meta s r g))" "keeps_prefs g (add_clause c g)"
  by (simp_all add: keeps_prefs_def add_clause_def with_meta_def)

lemma keeps_prefs_var [simp]: "keeps_prefs g (snd (get_var_id k g))"
  using get_var_id_length [of g k]
  by (simp add: keeps_prefs_def get_var_id_def Let_def split: option.split)

lemma keeps_prefs_package: "keeps_prefs g (adapter_add_package p g)"
  using keeps_prefs_var [of g "pkg_key p"] by (simp add: add_package_cases keeps_prefs_def)

lemma keeps_prefs_at_most_one: "keeps_prefs g (add_at_most_one_clauses name cs g)"
proof (induction cs arbitrary: g)
  case (Cons c cs)
  show ?case unfolding add_at_most_one_clauses.simps
    by (rule keeps_prefs_trans [OF keeps_prefs_clause(1) Cons.IH])
qed simp

lemma keeps_prefs_exactly_one: "keeps_prefs g (add_exactly_one_constraint name versions g)"
  unfolding add_exactly_one_constraint_def Let_def
  using keeps_prefs_trans [OF keeps_prefs_clause(1) keeps_prefs_at_most_one] by (simp split del: if_split split: if_split)

lemma keeps_prefs_edge: "keeps_prefs g (prohibit d r g)" "keeps_prefs g (add_implication d vs g)"
  using keeps_prefs_clause(1) [of g] by (simp_all add: keeps_prefs_def prohibit_def add_implication_def Let_def)

lemma keeps_prefs_exclude: "keeps_prefs g (exclude_with sk x ys g)"
proof (induction ys arbitrary: g)
  case (Cons y ys)
  show ?case unfolding exclude_with.simps by (rule keeps_prefs_trans [OF keeps_prefs_clause(1) Cons.IH])
qed simp

lemma keeps_prefs_pairs: "keeps_prefs g (exclude_pairs sk xs g)"
proof (induction xs arbitrary: g)
  case (Cons x xs)
  show ?case unfolding exclude_pairs.simps by (rule keeps_prefs_trans [OF keeps_prefs_exclude Cons.IH])
qed simp

lemma keeps_prefs_groups: "keeps_prefs g (exclude_groups f sks g)"
proof (induction sks arbitrary: g)
  case (Cons sk sks)
  have "keeps_prefs g (if length (f sk) \<le> 1 then g else exclude_pairs sk (f sk) g)"
    by (simp add: keeps_prefs_pairs)
  then show ?case using Cons.IH unfolding exclude_groups.simps by (rule keeps_prefs_trans)
qed simp

lemma keeps_prefs_block: "keeps_prefs g (block_versions rx i key b ps g)"
proof (induction ps arbitrary: g)
  case (Cons p ps)
  let ?h = "if \<not> atom_matches rx (Some b) (Some p) then g
        else case map_of (sa_vars g) (pkg_key p) of
          None \<Rightarrow> g
        | Some j \<Rightarrow>
            if j = i then g
            else add_clause [- i, - j]
                   (with_meta ClauseConflict (''blocker: '' @ key @ '' blocks '' @ pkg_key p
                      @ '' (atom '' @ atom_string b @ '')'') g)"
  have "keeps_prefs g ?h" by (simp split: option.split)
  then show ?case using Cons.IH unfolding block_versions.simps by (rule keeps_prefs_trans)
qed simp

lemma collect_ranked_prefs:
  assumes "vars_inv g" "known_packages g ps" "prefs_known g"
  shows "prefs_known (snd (collect_ranked idx P ps g)) \<and> sa_vars (snd (collect_ranked idx P ps g)) = sa_vars g
    \<and> sa_packages (snd (collect_ranked idx P ps g)) = sa_packages g
    \<and> sa_varNames (snd (collect_ranked idx P ps g)) = sa_varNames g"
  using assms
proof (induction ps arbitrary: g)
  case (Cons p ps)
  have ps: "known_packages g ps" using Cons.prems(2) by (simp add: known_packages_def)
  show ?case
  proof (cases "P p")
    case True
    from Cons.prems(2) obtain i where i: "map_of (sa_vars g) (pkg_key p) = Some i"
      by (auto simp: known_packages_def)
    let ?h = "prefer_alternative i idx g"
    have h: "sa_vars ?h = sa_vars g" "sa_packages ?h = sa_packages g" "sa_varNames ?h = sa_varNames g"
      by (simp_all add: prefer_alternative_def)
    have "prefs_known ?h"
      using Cons.prems(3) vars_inv_range [OF Cons.prems(1) i]
      by (auto simp: prefs_known_def prefer_alternative_def known_lit_def)
    moreover have "vars_inv ?h" using Cons.prems(1) vars_inv_cong [OF h(1,3)] by simp
    moreover have "known_packages ?h ps" using ps h(1) by (simp add: known_packages_def)
    ultimately show ?thesis
      using Cons.IH [of ?h] h True i by (simp add: get_var_id_known Let_def split: prod.split) (metis snd_conv)
  next
    case False
    with Cons.IH [OF Cons.prems(1) ps Cons.prems(3)] show ?thesis by simp
  qed
qed simp

lemma collect_ranked_alternatives_prefs:
  assumes "vars_inv g" "packages_inv g" "prefs_known g"
  shows "prefs_known (snd (collect_ranked_alternatives rx idx alts g))"
  using assms
proof (induction alts arbitrary: idx g)
  case (Cons alt alts)
  let ?h = "snd (collect_ranked idx (\<lambda>p. version_ok rx alt p \<and> use_ok alt p) (versions_of g (c_Name alt)) g)"
  have h: "prefs_known ?h" "sa_vars ?h = sa_vars g" "sa_packages ?h = sa_packages g" "sa_varNames ?h = sa_varNames g"
    using collect_ranked_prefs [OF Cons.prems(1) known_versions [OF Cons.prems(2)] Cons.prems(3)] by blast+
  have "prefs_known (snd (collect_ranked_alternatives rx (Suc idx) alts ?h))"
    using Cons.IH [OF _ _ h(1)] Cons.prems vars_inv_cong [OF h(2,4)] packages_inv_cong [OF h(2,3)] by simp
  then show ?case by (simp add: Let_def case_prod_beta)
qed simp

lemma built_prefs: "adapter_built rx g \<Longrightarrow> prefs_known g"
proof (induction rule: adapter_built.induct)
  case built_new
  show ?case by (simp add: prefs_known_def new_gophersat_adapter_def)
next
  case (built_constraint g ns c)
  note inv = sat_invD [OF built_inv [OF built_constraint(1)]]
  have "keeps_prefs g (fst (add_constraint rx ns c g))"
    using keeps_prefs_trans [OF keeps_prefs_var keeps_prefs_clause(1)] inv(2)
    by (cases "c_Type c")
      (simp_all add: add_constraint_def add_version_constraint_def add_simple_constraint_def
        add_slot_constraint_def add_use_flag_constraint_def Let_def collect_vars_known collect_everywhere_known
        split: prod.split, metis snd_conv)
  then show ?case using built_constraint.IH by (rule keeps_prefs_known)
next
  case (built_atom g b)
  note inv = sat_invD [OF built_inv [OF built_atom(1)]]
  have "keeps_prefs g (fst (add_atom_constraint rx (Some b) g))"
    using inv(2) by (simp add: add_atom_constraint_def collect_vars_known)
  then show ?case using built_atom.IH by (rule keeps_prefs_known)
next
  case (built_or_group g alts)
  note inv = sat_invD [OF built_inv [OF built_or_group(1)]]
  have "keeps_prefs g (fst (add_or_group_constraint rx alts g))"
    using inv(2) by (simp add: add_or_group_constraint_def collect_alternatives_known)
  then show ?case using built_or_group.IH by (rule keeps_prefs_known)
next
  case (built_implication g d c)
  note inv = sat_invD [OF built_inv [OF built_implication(1)]]
  have "keeps_prefs g (add_implication_constraint rx d c g)"
    using inv(2) by (simp add: add_implication_constraint_def find_satisfying_vars_known keeps_prefs_edge)
  then show ?case using built_implication.IH by (rule keeps_prefs_known)
next
  case (built_implication_slot g d c)
  note inv = sat_invD [OF built_inv [OF built_implication_slot(1)]]
  have "keeps_prefs g (add_implication_slot_constraint rx d c g)"
    using inv(2) by (simp add: add_implication_slot_constraint_def collect_vars_known keeps_prefs_edge)
  then show ?case using built_implication_slot.IH by (rule keeps_prefs_known)
next
  case (built_implication_or g d alts)
  note inv = sat_invD [OF built_inv [OF built_implication_or(1)]]
  obtain vs h where vh: "collect_ranked_alternatives rx 0 alts g = (vs, h)" by fastforce
  have "prefs_known h"
    using collect_ranked_alternatives_prefs [OF inv(1,2) built_implication_or.IH, of rx 0 alts] by (simp add: vh)
  then show ?case
    using keeps_prefs_known [OF keeps_prefs_edge(1)] keeps_prefs_known [OF keeps_prefs_edge(2)]
    by (simp add: add_implication_or_group_def vh)
next
  case (built_roots g vs)
  then show ?case by (simp add: prefs_known_def add_root_vars_def known_lit_def)
next
  case (built_installed g i)
  then show ?case by (simp add: prefs_known_def mark_installed_def known_lit_def)
next
  case (built_clone g)
  then show ?case by (simp add: prefs_known_def clone_def known_lit_def)
next
  case (built_blocker g d b)
  have "keeps_prefs g (add_blocker_conflict rx d (Some b) g)"
    by (simp add: add_blocker_conflict_def keeps_prefs_block)
  then show ?case using built_blocker.IH by (rule keeps_prefs_known)
next
  case (built_at_most_one g ns sks)
  then show ?case using keeps_prefs_known [OF keeps_prefs_groups] by (simp add: add_at_most_one_per_slot_def)
qed (simp_all add: keeps_prefs_known [OF keeps_prefs_package] keeps_prefs_known [OF keeps_prefs_exactly_one]
  keeps_prefs_known [OF keeps_prefs_clause(1)] keeps_prefs_known [OF keeps_prefs_clause(2)])

lemma rank_vars:
  assumes "vars_inv g" "r \<in> set (rank_versions srt upd deep g n)"
  shows "0 < vr_varID r \<and> vr_varID r \<le> int (length (sa_vars g))"
proof -
  have newest: "\<exists>key. map_of (sa_vars g) key = Some (vr_varID r)" if "r \<in> set (rank_newest g n k ps)" for k ps
    using that by (induction g n k ps rule: rank_newest.induct) (auto split: option.splits)
  have keep: "\<exists>key. map_of (sa_vars g) key = Some (vr_varID r)" if "r \<in> set (rank_keep g n idx k nr ps)" for idx k nr ps
    using that by (induction g n idx k nr ps rule: rank_keep.induct) (auto split: option.splits if_splits)
  from assms(2) newest keep have "\<exists>key. map_of (sa_vars g) key = Some (vr_varID r)"
    by (auto simp: rank_versions_def Let_def split: if_splits)
  then show ?thesis using vars_inv_range [OF assms(1)] by blast
qed

lemma items_known:
  assumes "adapter_built rx g"
  shows "\<forall>(i, w) \<in> set (soft_items (build_version_preferences srt upd deep ns g) @ or_items ow g os).
           0 < i \<and> i \<le> int (length (sa_vars g))"
proof -
  have soft: "(i, w) \<in> set (soft_items ps) \<Longrightarrow> \<exists>p \<in> set ps. vr_varID p = i" for i w ps
    by (induction ps) (auto split: if_splits)
  have ors: "(i, w) \<in> set (or_items ow g os) \<Longrightarrow> sa_orGroupPrefs g i \<noteq> None" for i w
    by (induction os) (auto split: option.splits if_splits)
  have "0 < i \<and> i \<le> int (length (sa_vars g))"
    if "(i, w) \<in> set (soft_items (build_version_preferences srt upd deep ns g))" for i w
    using soft [OF that] rank_vars [OF sat_invD(1) [OF built_inv [OF assms]]]
    by (auto simp: build_version_preferences_def)
  moreover have "0 < i \<and> i \<le> int (length (sa_vars g))" if "(i, w) \<in> set (or_items ow g os)" for i w
    using ors [OF that] built_prefs [OF assms] by (auto simp: prefs_known_def known_lit_def)
  ultimately show ?thesis by auto
qed

subsection \<open>Sorting by version\<close>

text \<open>
  \<open>sort.Slice\<close> with \<open>CompareVersions(a, b) > 0\<close>: the same packages, and no newer version after an
  older one, provided the comparison orders the versions at hand. Insertion sort is an instance.
\<close>

definition newer :: "coregex \<Rightarrow> package \<Rightarrow> package \<Rightarrow> bool" where
  "newer rx p q \<longleftrightarrow> 0 < compare_version_strings rx (p_Version p) (p_Version q)"

definition ordered_versions :: "coregex \<Rightarrow> package set \<Rightarrow> bool" where
  "ordered_versions rx A \<longleftrightarrow> (\<forall>p \<in> A. \<forall>q \<in> A. newer rx p q \<longrightarrow> \<not> newer rx q p) \<and>
     (\<forall>p \<in> A. \<forall>q \<in> A. \<forall>r \<in> A. \<not> newer rx q p \<longrightarrow> \<not> newer rx r q \<longrightarrow> \<not> newer rx r p)"

definition desc_sorter :: "coregex \<Rightarrow> (package list \<Rightarrow> package list) \<Rightarrow> bool" where
  "desc_sorter rx srt \<longleftrightarrow> (\<forall>ps. mset (srt ps) = mset ps \<and>
     (ordered_versions rx (set ps) \<longrightarrow> sorted_wrt (\<lambda>p q. \<not> newer rx q p) (srt ps)))"

lemma desc_sorter_set: "desc_sorter rx srt \<Longrightarrow> set (srt ps) = set ps"
  by (metis desc_sorter_def set_mset_mset)

lemma desc_sorter_length: "desc_sorter rx srt \<Longrightarrow> length (srt ps) = length ps"
  by (metis desc_sorter_def size_mset)

fun insert_desc :: "coregex \<Rightarrow> package \<Rightarrow> package list \<Rightarrow> package list" where
  "insert_desc rx p [] = [p]"
| "insert_desc rx p (q # qs) = (if newer rx q p then q # insert_desc rx p qs else p # q # qs)"

definition sort_desc :: "coregex \<Rightarrow> package list \<Rightarrow> package list" where
  "sort_desc rx ps = foldr (insert_desc rx) ps []"

lemma insert_desc_mset: "mset (insert_desc rx p ps) = add_mset p (mset ps)"
  by (induction ps) auto

lemma sort_desc_mset: "mset (sort_desc rx ps) = mset ps"
  by (induction ps) (simp_all add: sort_desc_def insert_desc_mset)

lemma insert_desc_sorted:
  assumes "ordered_versions rx A" "insert p (set ps) \<subseteq> A" "sorted_wrt (\<lambda>p q. \<not> newer rx q p) ps"
  shows "sorted_wrt (\<lambda>p q. \<not> newer rx q p) (insert_desc rx p ps)"
  using assms(2,3)
proof (induction ps)
  case (Cons q qs)
  have set_eq: "set (insert_desc rx p qs) = insert p (set qs)"
    using insert_desc_mset [of rx p qs] by (metis set_mset_add_mset_insert set_mset_mset)
  show ?case
  proof (cases "newer rx q p")
    case True
    then have "\<not> newer rx p q" using assms(1) Cons.prems(1) by (auto simp: ordered_versions_def)
    with True Cons set_eq show ?thesis by auto
  next
    case False
    have "\<not> newer rx r p" if "r \<in> set qs" for r
    proof -
      have "\<not> newer rx r q" using Cons.prems(2) that by simp
      moreover have "p \<in> A" "q \<in> A" "r \<in> A" using Cons.prems(1) that by auto
      ultimately show ?thesis using assms(1) False unfolding ordered_versions_def by metis
    qed
    with False Cons.prems show ?thesis by auto
  qed
qed simp

lemma sort_desc_sorter: "desc_sorter rx (sort_desc rx)"
proof -
  have "sorted_wrt (\<lambda>p q. \<not> newer rx q p) (sort_desc rx ps)" if A: "ordered_versions rx A" "set ps \<subseteq> A" for ps A
    using A(2)
  proof (induction ps)
    case (Cons p ps)
    have "set (sort_desc rx ps) = set ps" using sort_desc_mset by (metis set_mset_mset)
    with Cons show ?case using insert_desc_sorted [OF A(1), of p "sort_desc rx ps"] by (simp add: sort_desc_def)
  qed (simp add: sort_desc_def)
  then show ?thesis by (simp add: desc_sorter_def sort_desc_mset)
qed

subsection \<open>Ranks\<close>

lemma rank_newest_eq:
  assumes "\<forall>p \<in> set ps. map_of (sa_vars g) (name @ ''@'' @ p_Version p) \<noteq> None"
  shows "rank_newest g name k ps =
    map2 (\<lambda>p j. \<lparr>vr_varID = get_var g (name @ ''@'' @ p_Version p), vr_rank = j\<rparr>) ps [k..<k + length ps]"
  using assms
proof (induction ps arbitrary: k)
  case (Cons p ps)
  have "[k..<k + length (p # ps)] = k # [Suc k..<Suc k + length ps]"
    by (simp add: upt_conv_Cons del: upt_Suc)
  with Cons show ?case by (auto simp: get_var_def)
qed simp

text \<open>The order of preference: in keep mode the first installed version goes to the front.\<close>

definition installed_pkg :: "sat_adapter \<Rightarrow> package \<Rightarrow> bool" where
  "installed_pkg g p \<longleftrightarrow> is_var_installed g (get_var g (pkg_key p))"

definition installed_first :: "(package \<Rightarrow> bool) \<Rightarrow> package list \<Rightarrow> package list" where
  "installed_first inst ps =
     (case dropWhile (Not \<circ> inst) ps of [] \<Rightarrow> ps | p # qs \<Rightarrow> p # takeWhile (Not \<circ> inst) ps @ qs)"

definition ranked :: "sat_adapter \<Rightarrow> package list \<Rightarrow> version_rank list" where
  "ranked g ps = map2 (\<lambda>p j. \<lparr>vr_varID = get_var g (pkg_key p), vr_rank = j\<rparr>) ps [0..<length ps]"

abbreviation named_versions :: "sat_adapter \<Rightarrow> string \<Rightarrow> package list \<Rightarrow> bool" where
  "named_versions g name ps \<equiv> \<forall>p \<in> set ps. p_Name p = name \<and> map_of (sa_vars g) (pkg_key p) \<noteq> None"

lemma named_key: "p_Name p = name \<Longrightarrow> name @ CHR ''@'' # p_Version p = pkg_key p"
  by (simp add: pkg_key_def)

lemma rank_newest_append:
  "rank_newest g name k (xs @ ys) = rank_newest g name k xs @ rank_newest g name (k + length xs) ys"
  by (induction xs arbitrary: k) (auto split: option.split)

lemma rank_newest_ranked: "named_versions g name ps \<Longrightarrow> rank_newest g name 0 ps = ranked g ps"
  by (subst rank_newest_eq) (auto simp: ranked_def named_key dest!: set_zip_leftD intro!: map_cong)

lemma rank_keep_outside:
  assumes "named_versions g name ps" "\<forall>j. idx = Some j \<longrightarrow> j < k \<or> k + length ps \<le> j"
  shows "rank_keep g name idx k nr ps = rank_newest g name nr ps"
  using assms
proof (induction ps arbitrary: k nr)
  case (Cons p ps)
  obtain i where "map_of (sa_vars g) (name @ ''@'' @ p_Version p) = Some i"
    using Cons.prems(1) by (auto simp: pkg_key_def)
  moreover have "idx \<noteq> Some k" using Cons.prems(2) by auto
  moreover have "rank_keep g name idx (Suc k) (Suc nr) ps = rank_newest g name (Suc nr) ps"
    using Cons.prems by (intro Cons.IH) auto
  ultimately show ?case by simp
qed simp

lemma rank_keep_append:
  assumes "named_versions g name xs" "\<forall>j. idx = Some j \<longrightarrow> k + length xs \<le> j"
  shows "rank_keep g name idx k nr (xs @ ys) =
    rank_newest g name nr xs @ rank_keep g name idx (k + length xs) (nr + length xs) ys"
  using assms
proof (induction xs arbitrary: k nr)
  case (Cons p ps)
  obtain i where "map_of (sa_vars g) (name @ ''@'' @ p_Version p) = Some i"
    using Cons.prems(1) by (auto simp: pkg_key_def)
  moreover have "idx \<noteq> Some k" using Cons.prems(2) by auto
  moreover have "rank_keep g name idx (Suc k) (Suc nr) (ps @ ys) =
      rank_newest g name (Suc nr) ps @ rank_keep g name idx (Suc k + length ps) (Suc nr + length ps) ys"
    using Cons.prems by (intro Cons.IH) auto
  ultimately show ?case by simp
qed simp

lemma installed_index_eq:
  assumes "named_versions g name ps"
  shows "installed_index g name k ps =
    (if dropWhile (Not \<circ> installed_pkg g) ps = [] then None
     else Some (k + length (takeWhile (Not \<circ> installed_pkg g) ps)))"
  using assms
proof (induction ps arbitrary: k)
  case (Cons p ps)
  obtain i where i: "map_of (sa_vars g) (name @ ''@'' @ p_Version p) = Some i" "get_var g (pkg_key p) = i"
    using Cons.prems(1) by (auto simp: pkg_key_def get_var_def)
  then have "is_var_installed g i = installed_pkg g p" by (simp add: installed_pkg_def)
  with i Cons show ?case by (simp add: comp_def)
qed simp

lemma rank_keep_installed_first:
  assumes "named_versions g name ps"
  defines "idx \<equiv> installed_index g name 0 ps"
  shows "mset (rank_keep g name idx 0 (if idx = None then 0 else 1) ps) = mset (ranked g (installed_first (installed_pkg g) ps))"
proof (cases "dropWhile (Not \<circ> installed_pkg g) ps")
  case Nil
  then have "idx = None" unfolding idx_def installed_index_eq [OF assms(1)] by simp
  moreover have "installed_first (installed_pkg g) ps = ps" using Nil unfolding installed_first_def by (simp only: list.case)
  ultimately show ?thesis
    using assms(1) by (simp add: rank_keep_outside rank_newest_ranked)
next
  case (Cons p ys)
  let ?xs = "takeWhile (Not \<circ> installed_pkg g) ps"
  have ps: "ps = ?xs @ p # ys" using Cons by (metis takeWhile_dropWhile_id)
  have idx: "idx = Some (length ?xs)" unfolding idx_def installed_index_eq [OF assms(1)] using Cons by simp
  have first: "installed_first (installed_pkg g) ps = p # ?xs @ ys" using Cons by (simp add: installed_first_def)
  have "set ps = set (?xs @ p # ys)" using ps by metis
  then have named: "named_versions g name ?xs" "named_versions g name (p # ?xs @ ys)" "named_versions g name ys"
    using assms(1) by (auto simp del: set_takeWhileD)
  obtain i where i: "map_of (sa_vars g) (name @ ''@'' @ p_Version p) = Some i"
    using named(2) by (auto simp: pkg_key_def)
  have "rank_keep g name idx 0 1 (?xs @ p # ys) =
      rank_newest g name 1 ?xs @ \<lparr>vr_varID = i, vr_rank = 0\<rparr> # rank_newest g name (1 + length ?xs) ys"
    using i named by (subst rank_keep_append) (simp_all add: idx rank_keep_outside)
  moreover have "ranked g (p # ?xs @ ys) =
      \<lparr>vr_varID = i, vr_rank = 0\<rparr> # rank_newest g name 1 ?xs @ rank_newest g name (1 + length ?xs) ys"
    using i unfolding rank_newest_ranked [OF named(2), symmetric]
    by (simp add: rank_newest_append)
  ultimately show ?thesis
    unfolding first using ps idx by simp
qed

subsection \<open>Properties\<close>

definition soft_problem ::
  "(package list \<Rightarrow> package list) \<Rightarrow> bool \<Rightarrow> bool \<Rightarrow> string list \<Rightarrow> int list \<Rightarrow> sat_adapter \<Rightarrow>
   int list list \<times> (int \<times> nat) list" where
  "soft_problem srt upd deep ns os g =
     (let prefs = build_version_preferences srt upd deep ns g
      in relax (int (length (sa_vars g)) + 1) (soft_items prefs @ or_items (or_weight prefs) g os))"

lemma solve_optimal_eq:
  "solve_optimal solver minimize srt upd deep ns os g =
     (if fst (solve solver g) \<noteq> StatusSat then solve solver g
      else if snd (soft_problem srt upd deep ns os g) = [] then (StatusSat, fst (snd (solve solver g)), False)
      else case minimize (sa_clauses g @ fst (soft_problem srt upd deep ns os g)) (snd (soft_problem srt upd deep ns os g)) of
             MinModel bs \<Rightarrow> (StatusSat, Some (extract_solution g bs), False)
           | _ \<Rightarrow> (StatusSat, fst (snd (solve solver g)), False))"
  by (cases "solve solver g") (auto simp: solve_optimal_def soft_problem_def Let_def case_prod_beta split: min_answer.split)

lemma relax_Nil: "snd (relax n items) = [] \<longleftrightarrow> items = []"
  by (induction n items rule: relax.induct) (simp_all add: Let_def case_prod_beta)

text \<open>
  Claim C22. \<open>SolveOptimal\<close> returns an optimum of the preferences. A negative answer of \<open>Solve\<close> is passed
  on; when the minimiser returns a model, the solution is that of a model of the hard clauses whose penalty
  (the sum of the ranks of the selected versions plus the weighted positions of the selected OR
  alternatives) no other model undercuts; when there is nothing to minimise every model has penalty 0, and
  then, as after a timeout, the answer is the solution of \<open>Solve\<close>.
\<close>

theorem optimal_is_least_penalty:
  assumes "adapter_built rx g" "sat_solver solver" "sat_minimizer minimize"
    and "soft_problem srt upd deep ns os g = (soft, ws)"
    and "build_version_preferences srt upd deep ns g = prefs"
  shows "if fst (solve solver g) \<noteq> StatusSat
         then solve_optimal solver minimize srt upd deep ns os g = solve solver g
         else if ws = [] then
           (\<forall>m. penalty prefs os g m = 0) \<and>
           solve_optimal solver minimize srt upd deep ns os g = (StatusSat, fst (snd (solve solver g)), False)
         else case minimize (sa_clauses g @ soft) ws of
             MinModel bs \<Rightarrow>
               solve_optimal solver minimize srt upd deep ns os g = (StatusSat, Some (extract_solution g bs), False) \<and>
               models (model_true bs) g \<and>
               (\<forall>m. models m g \<longrightarrow> penalty prefs os g (model_true bs) \<le> penalty prefs os g m)
           | _ \<Rightarrow> solve_optimal solver minimize srt upd deep ns os g
                    = (StatusSat, fst (snd (solve solver g)), False)"
proof -
  let ?items = "soft_items prefs @ or_items (or_weight prefs) g os"
  have r: "relax (int (length (sa_vars g)) + 1) ?items = (soft, ws)"
    using assms(4,5) by (simp add: soft_problem_def Let_def)
  have known: "\<forall>(i, w) \<in> set ?items. 0 < i \<and> i \<le> int (length (sa_vars g))"
    using items_known [OF assms(1), of srt upd deep ns "or_weight prefs" os] assms(5) by simp
  have "penalty prefs os g m = 0" if "ws = []" for m
    using relax_Nil [of "int (length (sa_vars g)) + 1" ?items] that by (simp add: r penalty_weight)
  moreover note sat_minimizer.min_model_penalty [OF assms(3) built_inv [OF assms(1)] known r]
  ultimately show ?thesis
    by (simp add: solve_optimal_eq assms(4) penalty_weight split: min_answer.split)
qed

definition sample_choice :: sat_adapter where
  "sample_choice = add_clause [1, 2] sample_adapter"

lemma sample_choice_built: "adapter_built ref_coregex sample_choice"
  unfolding sample_choice_def
  by (intro built_raw sample_built) (auto simp: known_lit_def sample_vars)

theorem optimal_is_least_penalty_witness:
  "solve_optimal ref_solver ref_minimize (sort_desc ref_coregex) True True [''a/b'', ''c/d''] [] sample_choice
     = (StatusSat, Some (extract_solution sample_choice [False, True, True, False]), False) \<and>
   models (model_true [False, True, True, False]) sample_choice"
proof -
  let ?prefs = "[\<lparr>vr_varID = 2, vr_rank = 0\<rparr>, \<lparr>vr_varID = 1, vr_rank = 1\<rparr>]"
  have facts: "soft_problem (sort_desc ref_coregex) True True [''a/b'', ''c/d''] [] sample_choice = ([[-1, 4]], [(4, 1)])"
    "build_version_preferences (sort_desc ref_coregex) True True [''a/b'', ''c/d''] sample_choice = ?prefs"
    "sa_clauses sample_choice = [[1, 2]]"
    "ref_solver [[1, 2]] = Sat [True, True]"
    "ref_minimize [[1, 2], [-1, 4]] [(4, 1)] = MinModel [False, True, True, False]"
    by code_simp+
  then have "fst (solve ref_solver sample_choice) = StatusSat" by (simp add: solve_def)
  with optimal_is_least_penalty [OF sample_choice_built ref_sat.sat_solver_axioms ref_min.sat_minimizer_axioms facts(1,2)]
  show ?thesis by (simp add: facts del: One_nat_def)
qed

text \<open>
  The ranks of a package with several versions are 0, 1, 2, ... along the order of preference: newest
  first for a requested package and in deep update mode, and otherwise with the newest installed version
  in front. So rank 0, the choice that costs nothing, is the installed version in keep mode and the newest
  one else.
\<close>

theorem version_ranks_exact:
  assumes "adapter_built rx g" "desc_sorter rx srt" "1 < length (versions_of g n)"
  shows "mset (rank_versions srt upd deep g n) =
    mset (ranked g (if is_root_name g n \<or> upd \<and> deep then srt (versions_of g n)
                    else installed_first (installed_pkg g) (srt (versions_of g n))))"
proof -
  have "named_versions g n (srt (versions_of g n))"
    using versions_of_known [OF sat_invD(2) [OF built_inv [OF assms(1)]]] desc_sorter_set [OF assms(2)] by blast
  from rank_newest_ranked [OF this] rank_keep_installed_first [OF this] assms(3) show ?thesis
    by (simp add: rank_versions_def Let_def)
qed

theorem version_ranks_exact_witness:
  "mset (rank_versions (sort_desc ref_coregex) False False (mark_installed 1 sample_adapter) ''a/b'') =
     {#\<lparr>vr_varID = 1, vr_rank = 0\<rparr>, \<lparr>vr_varID = 2, vr_rank = 1\<rparr>#}"
proof -
  let ?g = "mark_installed 1 sample_adapter"
  have b: "adapter_built ref_coregex ?g" by (intro built_installed sample_built)
  have "1 < length (versions_of ?g ''a/b'')" "\<not> is_root_name ?g ''a/b''" by code_simp+
  moreover have "ranked ?g (installed_first (installed_pkg ?g) (sort_desc ref_coregex (versions_of ?g ''a/b'')))
      = [\<lparr>vr_varID = 1, vr_rank = 0\<rparr>, \<lparr>vr_varID = 2, vr_rank = 1\<rparr>]"
    by code_simp
  ultimately show ?thesis
    using version_ranks_exact [OF b sort_desc_sorter, of "''a/b''" False False] by simp
qed

end
