(* ===== verification/Worklist.thy ===== *)
theory Worklist
  imports Main
begin

text \<open>
  The breadth-first loop that several parts of the program share: a queue, a set of visited elements, and a
  successor function; a successor is marked and enqueued the first time it is met. \<open>None\<close> means the fuel
  ran out. With a finite closed set of elements the loop returns exactly the elements reachable from the
  start, whatever the order of the successors.
\<close>

fun push_unseen :: "'a list \<Rightarrow> 'a list \<times> 'a set \<Rightarrow> 'a list \<times> 'a set" where
  "push_unseen [] (q, seen) = (q, seen)"
| "push_unseen (x # xs) (q, seen) =
     (if x \<in> seen then push_unseen xs (q, seen) else push_unseen xs (q @ [x], insert x seen))"

fun bfs :: "('a \<Rightarrow> 'a list) \<Rightarrow> nat \<Rightarrow> 'a list \<Rightarrow> 'a set \<Rightarrow> 'a set option" where
  "bfs succ n [] seen = Some seen"
| "bfs succ 0 (x # q) seen = None"
| "bfs succ (Suc n) (x # q) seen = (let (q', seen') = push_unseen (succ x) (q, seen) in bfs succ n q' seen')"

definition succ_rel :: "('a \<Rightarrow> 'a list) \<Rightarrow> ('a \<times> 'a) set" where
  "succ_rel succ = {(x, y). y \<in> set (succ x)}"

lemma succ_rel_iff [simp]: "(x, y) \<in> succ_rel succ \<longleftrightarrow> y \<in> set (succ x)"
  by (simp add: succ_rel_def)

lemma push_unseen_split:
  "\<exists>new. push_unseen xs (q, seen) = (q @ new, seen \<union> set xs) \<and> set new = set xs - seen \<and> distinct new"
proof (induction xs arbitrary: q seen)
  case Nil
  show ?case by (rule exI [where x = "[]"]) simp
next
  case (Cons x xs)
  show ?case
  proof (cases "x \<in> seen")
    case True
    obtain new where "push_unseen xs (q, seen) = (q @ new, seen \<union> set xs)" "set new = set xs - seen" "distinct new"
      using Cons.IH [of q seen] by blast
    with True show ?thesis by (intro exI [where x = new]) auto
  next
    case False
    obtain new where "push_unseen xs (q @ [x], insert x seen) = ((q @ [x]) @ new, insert x seen \<union> set xs)"
      "set new = set xs - insert x seen" "distinct new"
      using Cons.IH [of "q @ [x]" "insert x seen"] by blast
    with False show ?thesis by (intro exI [where x = "x # new"]) auto
  qed
qed

text \<open>The invariant: the queue is marked, and everything marked but not queued has marked successors.\<close>

definition frontier :: "('a \<Rightarrow> 'a list) \<Rightarrow> 'a set \<Rightarrow> 'a list \<Rightarrow> 'a set \<Rightarrow> bool" where
  "frontier succ S q seen \<longleftrightarrow> set q \<subseteq> seen \<and> S \<subseteq> seen \<and> seen \<subseteq> (succ_rel succ)\<^sup>* `` S
     \<and> (\<forall>x \<in> seen - set q. set (succ x) \<subseteq> seen)"

lemma frontier_start: "frontier succ (set q) q (set q)"
  by (auto simp: frontier_def)

lemma frontier_step:
  assumes "frontier succ S (x # q) seen" "push_unseen (succ x) (q, seen) = (q', seen')"
  shows "frontier succ S q' seen'"
proof -
  obtain new where new: "q' = q @ new" "seen' = seen \<union> set (succ x)" "set new = set (succ x) - seen"
    using push_unseen_split [of "succ x" q seen] assms(2) by auto
  have "x \<in> (succ_rel succ)\<^sup>* `` S" using assms(1) by (auto simp: frontier_def)
  then obtain s where s: "s \<in> S" "(s, x) \<in> (succ_rel succ)\<^sup>*" by auto
  have "set (succ x) \<subseteq> (succ_rel succ)\<^sup>* `` S"
  proof
    fix y
    assume "y \<in> set (succ x)"
    then have "(s, y) \<in> (succ_rel succ)\<^sup>*" by (intro rtrancl_into_rtrancl [OF s(2)]) simp
    with s(1) show "y \<in> (succ_rel succ)\<^sup>* `` S" by blast
  qed
  with assms(1) new show ?thesis unfolding frontier_def by auto
qed

lemma frontier_done:
  assumes "frontier succ S [] seen"
  shows "seen = (succ_rel succ)\<^sup>* `` S"
proof
  show "seen \<subseteq> (succ_rel succ)\<^sup>* `` S" using assms by (simp add: frontier_def)
  show "(succ_rel succ)\<^sup>* `` S \<subseteq> seen"
  proof
    fix y
    assume "y \<in> (succ_rel succ)\<^sup>* `` S"
    then obtain x where "(x, y) \<in> (succ_rel succ)\<^sup>*" "x \<in> S" by auto
    then show "y \<in> seen"
      by (induction rule: rtrancl_induct) (use assms in \<open>auto simp: frontier_def\<close>)
  qed
qed

lemma bfs_reachable:
  assumes "finite U" "(succ_rel succ)\<^sup>* `` S \<subseteq> U" "frontier succ S q seen"
    "length q + card (U - seen) \<le> n"
  shows "bfs succ n q seen = Some ((succ_rel succ)\<^sup>* `` S)"
  using assms(3,4)
proof (induction n arbitrary: q seen)
  case 0
  then have "q = []" by simp
  with 0 show ?case using frontier_done by auto
next
  case (Suc n)
  show ?case
  proof (cases q)
    case Nil
    with Suc.prems show ?thesis using frontier_done by auto
  next
    case (Cons x q0)
    obtain new where new: "push_unseen (succ x) (q0, seen) = (q0 @ new, seen \<union> set (succ x))"
      "set new = set (succ x) - seen" "distinct new"
      using push_unseen_split [of "succ x" q0 seen] by blast
    have f: "frontier succ S (q0 @ new) (seen \<union> set (succ x))"
      using frontier_step [of succ S x q0 seen "q0 @ new" "seen \<union> set (succ x)"] new(1) Suc.prems(1) Cons by simp
    have "set new \<subseteq> U - seen"
      using f assms(2) new(2) by (auto simp: frontier_def)
    then have "length new + card (U - (seen \<union> set (succ x))) = card (U - seen)"
    proof -
      have "U - seen = set new \<union> (U - (seen \<union> set (succ x)))"
        using \<open>set new \<subseteq> U - seen\<close> new(2) by auto
      moreover have "set new \<inter> (U - (seen \<union> set (succ x))) = {}" using new(2) by auto
      ultimately have "card (U - seen) = card (set new) + card (U - (seen \<union> set (succ x)))"
        using assms(1) by (metis card_Un_disjoint finite_Diff finite_set)
      then show ?thesis using new(3) by (simp add: distinct_card)
    qed
    then have "length (q0 @ new) + card (U - (seen \<union> set (succ x))) \<le> n"
      using Suc.prems(2) Cons by simp
    from Suc.IH [OF f this] show ?thesis using Cons new(1) by simp
  qed
qed

end
