(* ===== verification/Unsat_Tracer.thy ===== *)
theory Unsat_Tracer
  imports Sat_Meaning Worklist
begin

text \<open>
  The explanation of an unsatisfiable problem in \<open>internal/solver/gophersat_adapter.go\<close>: \<open>propagate\<close> marks
  candidates dead bottom-up from the prohibited ones, \<open>walkTopDown\<close> prints the chain from the roots,
  \<open>findReachableConflicts\<close> collects the blocker clauses among the reachable candidates. The fields of
  \<open>unsatTracer\<close> are those of the record \<open>unsat_tracer\<close>; \<open>ds\<close> and \<open>ks\<close> are the iteration orders of the maps
  \<open>implications\<close> and \<open>prohibits\<close>. Loops that run until a work list is empty take fuel and return \<open>None\<close>
  without it; \<open>tracer_dead_exact\<close> shows that one unit for every candidate the maps mention is enough.

  \<open>impossible g v\<close> is the specification: \<open>v\<close> is prohibited, or one of its implications has only
  impossible providers. An impossible candidate is false in every model.
\<close>

subsection \<open>Propagation\<close>

record edge_ref =
  er_dependent :: int
  er_edgeIdx :: nat

record unsat_tracer =
  ut_dead :: "int \<rightharpoonup> bool"
  ut_justification :: "int \<rightharpoonup> implication_edge"
  ut_reason :: "int \<rightharpoonup> string"
  ut_printed :: "int \<rightharpoonup> bool"
  ut_chain :: "string list"

definition new_tracer :: unsat_tracer where
  "new_tracer = \<lparr>ut_dead = (\<lambda>_. None), ut_justification = (\<lambda>_. None), ut_reason = (\<lambda>_. None),
     ut_printed = (\<lambda>_. None), ut_chain = []\<rparr>"

abbreviation is_dead :: "unsat_tracer \<Rightarrow> int \<Rightarrow> bool" where
  "is_dead t v \<equiv> flag_on (ut_dead t) v"

text \<open>The reverse index: provider to the edges that mention it.\<close>

fun index_providers :: "int \<Rightarrow> nat \<Rightarrow> int list \<Rightarrow> (int \<Rightarrow> edge_ref list) \<Rightarrow> int \<Rightarrow> edge_ref list" where
  "index_providers dep i [] ix = ix"
| "index_providers dep i (p # ps) ix =
     index_providers dep i ps (map_append ix p \<lparr>er_dependent = dep, er_edgeIdx = i\<rparr>)"

fun index_edges :: "int \<Rightarrow> nat \<Rightarrow> implication_edge list \<Rightarrow> (int \<Rightarrow> edge_ref list) \<Rightarrow> int \<Rightarrow> edge_ref list" where
  "index_edges dep i [] ix = ix"
| "index_edges dep i (e # es) ix = index_edges dep (Suc i) es (index_providers dep i (ie_providers e) ix)"

fun reverse_index :: "sat_adapter \<Rightarrow> int list \<Rightarrow> (int \<Rightarrow> edge_ref list) \<Rightarrow> int \<Rightarrow> edge_ref list" where
  "reverse_index g [] ix = ix"
| "reverse_index g (d # ds) ix = reverse_index g ds (index_edges d 0 (sa_implications g d) ix)"

fun seed_prohibits :: "sat_adapter \<Rightarrow> int list \<Rightarrow> unsat_tracer \<Rightarrow> unsat_tracer" where
  "seed_prohibits g [] t = t"
| "seed_prohibits g (v # vs) t =
     seed_prohibits g vs (t\<lparr>ut_dead := (ut_dead t)(v \<mapsto> True),
                            ut_reason := (ut_reason t)(v \<mapsto> prohibit_reason g v)\<rparr>)"

definition summarize_edge :: "sat_adapter \<Rightarrow> implication_edge \<Rightarrow> string" where
  "summarize_edge g e =
     (let provs = ie_providers e;
          name = package_name_of g (hd provs);
          distinct_pkgs = 1 + length (filter (\<lambda>v. package_name_of g v \<noteq> name) (tl provs))
      in if distinct_pkgs = 1 \<and> 1 < length provs
         then ''needs '' @ name @ '' but all '' @ nat_string (length provs) @ '' versions impossible''
         else if distinct_pkgs = 1 then ''needs '' @ name @ '' but impossible''
         else ''needs one of '' @ nat_string (length provs) @ '' providers but all impossible'')"

definition mark_dead :: "sat_adapter \<Rightarrow> int \<Rightarrow> implication_edge \<Rightarrow> unsat_tracer \<Rightarrow> unsat_tracer" where
  "mark_dead g d e t = t\<lparr>ut_dead := (ut_dead t)(d \<mapsto> True), ut_justification := (ut_justification t)(d \<mapsto> e),
     ut_reason := (ut_reason t)(d \<mapsto> summarize_edge g e)\<rparr>"

fun visit_refs :: "sat_adapter \<Rightarrow> edge_ref list \<Rightarrow> unsat_tracer \<Rightarrow> int list \<Rightarrow> unsat_tracer \<times> int list" where
  "visit_refs g [] t q = (t, q)"
| "visit_refs g (r # rs) t q =
     (if is_dead t (er_dependent r) then visit_refs g rs t q
      else
        (let e = sa_implications g (er_dependent r) ! er_edgeIdx r in
         if list_all (is_dead t) (ie_providers e)
         then visit_refs g rs (mark_dead g (er_dependent r) e t) (q @ [er_dependent r])
         else visit_refs g rs t q))"

fun propagate_loop ::
  "nat \<Rightarrow> sat_adapter \<Rightarrow> (int \<Rightarrow> edge_ref list) \<Rightarrow> unsat_tracer \<Rightarrow> int list \<Rightarrow> unsat_tracer option" where
  "propagate_loop n g ix t [] = Some t"
| "propagate_loop 0 g ix t (v # q) = None"
| "propagate_loop (Suc n) g ix t (v # q) =
     (let (t', q') = visit_refs g (ix v) t q in propagate_loop n g ix t' q')"

definition propagate :: "nat \<Rightarrow> int list \<Rightarrow> int list \<Rightarrow> sat_adapter \<Rightarrow> unsat_tracer \<Rightarrow> unsat_tracer option" where
  "propagate n ds ks g t = propagate_loop n g (reverse_index g ds (\<lambda>_. [])) (seed_prohibits g ks t) ks"

subsection \<open>The specification\<close>

inductive impossible :: "sat_adapter \<Rightarrow> int \<Rightarrow> bool" for g where
  prohibited: "sa_prohibits g v = Some r \<Longrightarrow> impossible g v"
| unservable: "e \<in> set (sa_implications g v) \<Longrightarrow> \<forall>p \<in> set (ie_providers e). impossible g p \<Longrightarrow> impossible g v"

lemma impossible_false:
  assumes "sat_inv g" "models m g" "impossible g v"
  shows "\<not> m v"
  using assms(3)
proof (induction rule: impossible.induct)
  case (prohibited v r)
  then have "0 < v" "[- v] \<in> set (sa_clauses g)"
    using sat_invD(4) [OF assms(1)] by (auto simp: edges_inv_def)
  then have "clause_true m [- v]" using assms(2) unfolding models_def list_all_iff by blast
  with \<open>0 < v\<close> show ?case by (simp add: lit_neg)
next
  case (unservable e v)
  then obtain c where v: "0 < v" "\<forall>p \<in> set (ie_providers e). 0 < p" and c: "c \<in> set (sa_clauses g)"
    "set c = insert (- v) (set (ie_providers e))"
    using sat_invD(4) [OF assms(1)] unfolding edges_inv_def by blast
  have "clause_true m c" using assms(2) c(1) by (simp add: models_def list_all_iff)
  then have "clause_true m (- v # ie_providers e)" using clause_true_set [of c "- v # ie_providers e"] c(2) by simp
  with v unservable.IH clause_true_pos [OF v(2), of m] show ?case by (auto simp: lit_neg)
qed

text \<open>The references to an edge.\<close>

definition refers :: "sat_adapter \<Rightarrow> edge_ref \<Rightarrow> int \<Rightarrow> bool" where
  "refers g r v \<longleftrightarrow> er_edgeIdx r < length (sa_implications g (er_dependent r))
     \<and> v \<in> set (ie_providers (sa_implications g (er_dependent r) ! er_edgeIdx r))"

lemma index_providers_set:
  "set (index_providers d i ps ix v) = set (ix v) \<union> (if v \<in> set ps then {\<lparr>er_dependent = d, er_edgeIdx = i\<rparr>} else {})"
  by (induction ps arbitrary: ix) auto

lemma index_edges_set:
  "set (index_edges d i es ix v) = set (ix v) \<union>
     {\<lparr>er_dependent = d, er_edgeIdx = i + k\<rparr> | k. k < length es \<and> v \<in> set (ie_providers (es ! k))}"
proof (induction es arbitrary: i ix)
  case (Cons e es)
  have "{\<lparr>er_dependent = d, er_edgeIdx = i + k\<rparr> | k. k < length (e # es) \<and> v \<in> set (ie_providers ((e # es) ! k))}
      = (if v \<in> set (ie_providers e) then {\<lparr>er_dependent = d, er_edgeIdx = i\<rparr>} else {}) \<union>
        {\<lparr>er_dependent = d, er_edgeIdx = Suc i + k\<rparr> | k. k < length es \<and> v \<in> set (ie_providers (es ! k))}"
    (is "?L = ?R")
  proof
    show "?L \<subseteq> ?R"
    proof
      fix r
      assume "r \<in> ?L"
      then obtain k where k: "r = \<lparr>er_dependent = d, er_edgeIdx = i + k\<rparr>" "k < length (e # es)"
        "v \<in> set (ie_providers ((e # es) ! k))" by blast
      then show "r \<in> ?R" by (cases k) auto
    qed
    show "?R \<subseteq> ?L"
    proof
      fix r
      assume "r \<in> ?R"
      then consider "v \<in> set (ie_providers e)" "r = \<lparr>er_dependent = d, er_edgeIdx = i\<rparr>"
        | k where "r = \<lparr>er_dependent = d, er_edgeIdx = Suc i + k\<rparr>" "k < length es" "v \<in> set (ie_providers (es ! k))"
        by (auto split: if_splits)
      then show "r \<in> ?L"
      proof cases
        case 1
        then show ?thesis by (intro CollectI exI [of _ 0]) simp
      next
        case (2 k)
        then show ?thesis by (intro CollectI exI [of _ "Suc k"]) simp
      qed
    qed
  qed
  then show ?case by (simp only: index_edges.simps Cons.IH index_providers_set Un_assoc)
qed simp

lemma reverse_index_set:
  "r \<in> set (reverse_index g ds ix v) \<longleftrightarrow> r \<in> set (ix v) \<or> er_dependent r \<in> set ds \<and> refers g r v"
proof (induction ds arbitrary: ix)
  case (Cons d ds)
  have "r \<in> set (index_edges d 0 (sa_implications g d) ix v) \<longleftrightarrow>
      r \<in> set (ix v) \<or> er_dependent r = d \<and> refers g r v"
    unfolding index_edges_set refers_def by (cases r) auto
  then show ?case by (auto simp: Cons.IH)
qed simp

subsection \<open>The work list computes the impossible candidates\<close>

definition sound_dead :: "sat_adapter \<Rightarrow> unsat_tracer \<Rightarrow> bool" where
  "sound_dead g t \<longleftrightarrow> (\<forall>v. is_dead t v \<longrightarrow> impossible g v)"

definition pending_ok :: "sat_adapter \<Rightarrow> unsat_tracer \<Rightarrow> int list \<Rightarrow> edge_ref list \<Rightarrow> bool" where
  "pending_ok g t q rs \<longleftrightarrow> (\<forall>d i. i < length (sa_implications g d) \<longrightarrow>
     list_all (is_dead t) (ie_providers (sa_implications g d ! i)) \<longrightarrow>
     is_dead t d \<or> (\<exists>p \<in> set (ie_providers (sa_implications g d ! i)). p \<in> set q)
       \<or> \<lparr>er_dependent = d, er_edgeIdx = i\<rparr> \<in> set rs)"

definition dead_in :: "int set \<Rightarrow> unsat_tracer \<Rightarrow> bool" where
  "dead_in U t \<longleftrightarrow> (\<forall>v. is_dead t v \<longrightarrow> v \<in> U)"

definition live_count :: "int set \<Rightarrow> unsat_tracer \<Rightarrow> nat" where
  "live_count U t = card {v \<in> U. \<not> is_dead t v}"

lemma mark_dead_dead [simp]: "is_dead (mark_dead g d e t) v \<longleftrightarrow> v = d \<or> is_dead t v"
  by (simp add: mark_dead_def)

lemma live_count_mark:
  assumes "finite U" "d \<in> U" "\<not> is_dead t d"
  shows "Suc (live_count U (mark_dead g d e t)) = live_count U t"
proof -
  have "{v \<in> U. \<not> is_dead t v} = insert d {v \<in> U. \<not> is_dead (mark_dead g d e t) v}"
    using assms by auto
  then show ?thesis using assms(1) by (simp add: live_count_def)
qed

lemma visit_refs_inv:
  assumes "finite U" "sound_dead g t" "pending_ok g t q rs" "dead_in U t"
    "\<forall>r \<in> set rs. er_dependent r \<in> U \<and> er_edgeIdx r < length (sa_implications g (er_dependent r))"
  shows "\<exists>t' q'. visit_refs g rs t q = (t', q') \<and> sound_dead g t' \<and> pending_ok g t' q' [] \<and> dead_in U t' \<and>
    (\<forall>v. is_dead t v \<longrightarrow> is_dead t' v) \<and> length q' + live_count U t' = length q + live_count U t"
  using assms(2-)
proof (induction rs arbitrary: t q)
  case (Cons r rs)
  let ?d = "er_dependent r" and ?e = "sa_implications g (er_dependent r) ! er_edgeIdx r"
  have r: "r = \<lparr>er_dependent = ?d, er_edgeIdx = er_edgeIdx r\<rparr>" by simp
  show ?case
  proof (cases "is_dead t ?d")
    case True
    have "pending_ok g t q rs"
      using Cons.prems(2) True r unfolding pending_ok_def by (metis edge_ref.ext_inject set_ConsD)
    with Cons.IH [OF Cons.prems(1) _ Cons.prems(3)] Cons.prems(4) True show ?thesis by simp
  next
    case alive: False
    show ?thesis
    proof (cases "list_all (is_dead t) (ie_providers ?e)")
      case False
      have "pending_ok g t q rs"
        using Cons.prems(2) False r unfolding pending_ok_def by (metis edge_ref.ext_inject set_ConsD)
      with Cons.IH [OF Cons.prems(1) _ Cons.prems(3)] Cons.prems(4) alive False show ?thesis by (simp add: Let_def)
    next
      case True
      let ?t = "mark_dead g ?d ?e t" and ?q = "q @ [?d]"
      have "impossible g ?d"
        using Cons.prems(1,4) True by (intro unservable [of ?e]) (auto simp: sound_dead_def list_all_iff)
      then have "sound_dead g ?t" using Cons.prems(1) by (simp add: sound_dead_def)
      moreover have "pending_ok g ?t ?q rs"
        unfolding pending_ok_def
      proof (intro allI impI)
        fix d i
        assume i: "i < length (sa_implications g d)"
          and all: "list_all (is_dead ?t) (ie_providers (sa_implications g d ! i))"
        let ?ps = "ie_providers (sa_implications g d ! i)"
        show "is_dead ?t d \<or> (\<exists>p \<in> set ?ps. p \<in> set ?q) \<or> \<lparr>er_dependent = d, er_edgeIdx = i\<rparr> \<in> set rs"
        proof (cases "?d \<in> set ?ps")
          case False
          then have "list_all (is_dead t) ?ps" using all by (auto simp: list_all_iff)
          with Cons.prems(2) i have "is_dead t d \<or> (\<exists>p \<in> set ?ps. p \<in> set q)
              \<or> \<lparr>er_dependent = d, er_edgeIdx = i\<rparr> \<in> set (r # rs)"
            by (simp add: pending_ok_def)
          then show ?thesis by auto
        qed auto
      qed
      moreover have "dead_in U ?t" using Cons.prems(3,4) by (simp add: dead_in_def)
      ultimately obtain t' q' where "visit_refs g rs ?t ?q = (t', q')" "sound_dead g t'" "pending_ok g t' q' []"
        "dead_in U t'" "\<forall>v. is_dead ?t v \<longrightarrow> is_dead t' v" "length q' + live_count U t' = length ?q + live_count U ?t"
        using Cons.IH [of ?t ?q] Cons.prems(4) by auto
      moreover have "Suc (live_count U ?t) = live_count U t"
        using live_count_mark [OF assms(1) _ alive] Cons.prems(4) by simp
      ultimately show ?thesis using alive True by (simp add: Let_def)
    qed
  qed
qed (auto simp: sound_dead_def)

lemma propagate_loop_inv:
  assumes "finite U" "\<forall>v r. r \<in> set (ix v) \<longleftrightarrow> er_dependent r \<in> U' \<and> refers g r v" "U' \<subseteq> U"
    "\<forall>d. sa_implications g d \<noteq> [] \<longrightarrow> d \<in> U'"
    "sound_dead g t" "pending_ok g t q []" "dead_in U t" "length q + live_count U t \<le> n"
  shows "\<exists>t'. propagate_loop n g ix t q = Some t' \<and> sound_dead g t' \<and> pending_ok g t' [] [] \<and>
    (\<forall>v. is_dead t v \<longrightarrow> is_dead t' v)"
  using assms(5-)
proof (induction n arbitrary: t q)
  case (Suc n)
  show ?case
  proof (cases q)
    case (Cons v q0)
    have "pending_ok g t q0 (ix v)"
      unfolding pending_ok_def
    proof (intro allI impI)
      fix d i
      let ?r = "\<lparr>er_dependent = d, er_edgeIdx = i\<rparr>"
      assume i: "i < length (sa_implications g d)"
        and all: "list_all (is_dead t) (ie_providers (sa_implications g d ! i))"
      then consider "is_dead t d" | p where "p \<in> set (ie_providers (sa_implications g d ! i))" "p \<in> set q"
        using Suc.prems(2) unfolding pending_ok_def by fastforce
      then show "is_dead t d \<or> (\<exists>p \<in> set (ie_providers (sa_implications g d ! i)). p \<in> set q0) \<or> ?r \<in> set (ix v)"
      proof cases
        case (2 p)
        moreover have "?r \<in> set (ix v)" if "p = v"
        proof -
          have "sa_implications g d \<noteq> []" using i by auto
          then have "d \<in> U'" using assms(4) by simp
          with i 2 that assms(2) show ?thesis by (simp add: refers_def)
        qed
        ultimately show ?thesis using Cons by auto
      qed simp
    qed
    moreover have "\<forall>r \<in> set (ix v). er_dependent r \<in> U \<and> er_edgeIdx r < length (sa_implications g (er_dependent r))"
      using assms(2,3) by (auto simp: refers_def)
    ultimately obtain t' q' where step: "visit_refs g (ix v) t q0 = (t', q')" "sound_dead g t'" "pending_ok g t' q' []"
      "dead_in U t'" "\<forall>v. is_dead t v \<longrightarrow> is_dead t' v" "length q' + live_count U t' = length q0 + live_count U t"
      using visit_refs_inv [OF assms(1) Suc.prems(1) _ Suc.prems(3)] by blast
    then have "length q' + live_count U t' \<le> n" using Suc.prems(4) Cons by simp
    from Suc.IH [OF step(2-4) this] step(1,5) Cons show ?thesis by auto
  qed (use Suc.prems in auto)
qed auto

lemma seed_prohibits_dead [simp]: "is_dead (seed_prohibits g ks t) v \<longleftrightarrow> v \<in> set ks \<or> is_dead t v"
  by (induction ks arbitrary: t) auto

lemma new_tracer_dead [simp]: "\<not> is_dead new_tracer v"
  by (simp add: new_tracer_def)

definition covers_edges :: "sat_adapter \<Rightarrow> int list \<Rightarrow> bool" where
  "covers_edges g ds \<longleftrightarrow> (\<forall>d. sa_implications g d \<noteq> [] \<longrightarrow> d \<in> set ds)"

lemma propagate_exact:
  assumes "sat_inv g" "covers_edges g ds" "enumerates ks (sa_prohibits g)" "length ks + length ds \<le> n"
  shows "\<exists>t. propagate n ds ks g new_tracer = Some t \<and> (\<forall>v. is_dead t v \<longleftrightarrow> impossible g v)"
proof -
  let ?t = "seed_prohibits g ks new_tracer"
  let ?U = "set ds \<union> set ks"
  have ks: "v \<in> set ks \<longleftrightarrow> (\<exists>r. sa_prohibits g v = Some r)" for v
    by (rule enumerates_set [OF assms(3)])
  have sound: "sound_dead g ?t"
    using ks impossible.prohibited by (auto simp: sound_dead_def)
  have pend: "pending_ok g ?t ks []"
    unfolding pending_ok_def
  proof (intro allI impI)
    fix d i
    assume i: "i < length (sa_implications g d)" and all: "list_all (is_dead ?t) (ie_providers (sa_implications g d ! i))"
    then have "ie_providers (sa_implications g d ! i) \<noteq> []"
      using sat_invD(4) [OF assms(1)] nth_mem [OF i] unfolding edges_inv_def by blast
    then obtain p where "p \<in> set (ie_providers (sa_implications g d ! i))" by (meson last_in_set)
    with all show "is_dead ?t d \<or> (\<exists>p \<in> set (ie_providers (sa_implications g d ! i)). p \<in> set ks)
        \<or> \<lparr>er_dependent = d, er_edgeIdx = i\<rparr> \<in> set []"
      by (auto simp: list_all_iff)
  qed
  have "live_count ?U ?t \<le> card (set ds)"
    unfolding live_count_def by (intro card_mono) auto
  then have fuel: "length ks + live_count ?U ?t \<le> n"
    using assms(4) card_length [of ds] by simp
  have "\<forall>v r. r \<in> set (reverse_index g ds (\<lambda>_. []) v) \<longleftrightarrow> er_dependent r \<in> set ds \<and> refers g r v"
    by (simp add: reverse_index_set)
  from propagate_loop_inv [OF _ this _ _ sound pend _ fuel] assms(2)
  obtain t where t: "propagate n ds ks g new_tracer = Some t" "sound_dead g t" "pending_ok g t [] []"
    "\<forall>v. is_dead ?t v \<longrightarrow> is_dead t v"
    by (auto simp: propagate_def covers_edges_def dead_in_def)
  have "is_dead t v" if "impossible g v" for v
    using that
  proof (induction rule: impossible.induct)
    case (prohibited v r)
    then show ?case using t(4) ks by simp
  next
    case (unservable e v)
    then obtain i where "i < length (sa_implications g v)" "e = sa_implications g v ! i"
      by (metis in_set_conv_nth)
    with t(3) unservable.IH show ?case by (auto simp: pending_ok_def list_all_iff)
  qed
  with t show ?thesis by (auto simp: sound_dead_def)
qed

subsection \<open>Printing the chain\<close>

definition emit :: "string \<Rightarrow> unsat_tracer \<Rightarrow> unsat_tracer" where
  "emit line t = t\<lparr>ut_chain := ut_chain t @ [line]\<rparr>"

definition indent :: "nat \<Rightarrow> string" where
  "indent depth = concat (replicate depth ''  '')"

definition reason_of :: "unsat_tracer \<Rightarrow> int \<Rightarrow> string" where
  "reason_of t v = (case ut_reason t v of Some r \<Rightarrow> r | None \<Rightarrow> [])"

fun add_to_group :: "string \<Rightarrow> int \<Rightarrow> (string \<times> int list) list \<Rightarrow> (string \<times> int list) list" where
  "add_to_group name v [] = [(name, [v])]"
| "add_to_group name v ((n, vs) # gs) = (if n = name then (n, vs @ [v]) # gs else (n, vs) # add_to_group name v gs)"

fun group_providers :: "sat_adapter \<Rightarrow> int list \<Rightarrow> (string \<times> int list) list \<Rightarrow> (string \<times> int list) list" where
  "group_providers g [] gs = gs"
| "group_providers g (v # vs) gs = group_providers g vs (add_to_group (package_name_of g v) v gs)"

fun walk_top_down :: "nat \<Rightarrow> sat_adapter \<Rightarrow> int \<Rightarrow> nat \<Rightarrow> unsat_tracer \<Rightarrow> unsat_tracer option"
and walk_groups :: "nat \<Rightarrow> sat_adapter \<Rightarrow> nat \<Rightarrow> (string \<times> int list) list \<Rightarrow> unsat_tracer \<Rightarrow> unsat_tracer option"
and walk_all :: "nat \<Rightarrow> sat_adapter \<Rightarrow> nat \<Rightarrow> int list \<Rightarrow> unsat_tracer \<Rightarrow> unsat_tracer option"
where
  "walk_top_down 0 g v depth t = None"
| "walk_top_down (Suc n) g v depth t =
     (if \<not> is_dead t v then Some t
      else if flag_on (ut_printed t) v then Some (emit (indent depth @ var_name g v @ ''  (see above)'') t)
      else
        (let t1 = emit (indent depth @ var_name g v @ '': '' @ reason_of t v)
                    (t\<lparr>ut_printed := (ut_printed t)(v \<mapsto> True)\<rparr>) in
         case ut_justification t v of
           None \<Rightarrow> Some t1
         | Some e \<Rightarrow> walk_groups n g depth (group_providers g (ie_providers e) []) t1))"
| "walk_groups n g depth [] t = Some t"
| "walk_groups n g depth ((name, vs) # gs) t =
     (case (if length vs \<le> 4 then walk_all n g (depth + 1) vs t
            else walk_all n g (depth + 2) (take 3 vs)
                   (emit (indent depth @ ''  '' @ name @ '': '' @ nat_string (length vs)
                            @ '' versions, all impossible (first 3):'') t)) of
        None \<Rightarrow> None
      | Some t' \<Rightarrow> walk_groups n g depth gs t')"
| "walk_all n g depth [] t = Some t"
| "walk_all n g depth (v # vs) t =
     (case walk_top_down n g v depth t of None \<Rightarrow> None | Some t' \<Rightarrow> walk_all n g depth vs t')"

text \<open>Enough fuel for the walk: the dead candidates not yet printed bound its depth.\<close>

definition unprinted :: "int set \<Rightarrow> unsat_tracer \<Rightarrow> int set" where
  "unprinted U t = {v \<in> U. is_dead t v \<and> \<not> flag_on (ut_printed t) v}"

definition walked :: "unsat_tracer \<Rightarrow> unsat_tracer \<Rightarrow> bool" where
  "walked t t' \<longleftrightarrow> ut_dead t' = ut_dead t \<and> (\<forall>v. flag_on (ut_printed t) v \<longrightarrow> flag_on (ut_printed t') v)
     \<and> ut_reason t' = ut_reason t \<and> ut_justification t' = ut_justification t"

lemma walked_refl [simp]: "walked t t"
  by (simp add: walked_def)

lemma walked_trans: "walked t u \<Longrightarrow> walked u v \<Longrightarrow> walked t v"
  by (simp add: walked_def)

lemma walked_emit [simp]: "walked t (emit line t)" "unprinted U (emit line t) = unprinted U t"
  by (simp_all add: walked_def emit_def unprinted_def)

lemma walked_unprinted: "finite U \<Longrightarrow> walked t t' \<Longrightarrow> card (unprinted U t') \<le> card (unprinted U t)"
  by (intro card_mono) (auto simp: unprinted_def walked_def)

lemma walk_total:
  assumes "finite U" "\<forall>v. is_dead t v \<longrightarrow> v \<in> U"
  shows "card (unprinted U t) < n \<Longrightarrow> \<exists>t'. walk_top_down n g v depth t = Some t' \<and> walked t t'"
    and "card (unprinted U t) < n \<Longrightarrow> \<exists>t'. walk_groups n g depth gs t = Some t' \<and> walked t t'"
    and "card (unprinted U t) < n \<Longrightarrow> \<exists>t'. walk_all n g depth vs t = Some t' \<and> walked t t'"
  using assms(2)
proof (induction n g v depth t and n g depth gs t and n g depth vs t
    rule: walk_top_down_walk_groups_walk_all.induct)
  case (2 n g v depth t)
  let ?t1 = "emit (indent depth @ var_name g v @ '': '' @ reason_of t v) (t\<lparr>ut_printed := (ut_printed t)(v \<mapsto> True)\<rparr>)"
  show ?case
  proof (cases "is_dead t v \<and> \<not> flag_on (ut_printed t) v")
    case True
    then have v: "v \<in> unprinted U t" using 2(3) by (simp add: unprinted_def)
    have "unprinted U ?t1 = unprinted U t - {v}" by (auto simp: unprinted_def emit_def)
    moreover have "finite (unprinted U t)" using assms(1) by (simp add: unprinted_def)
    ultimately have "card (unprinted U ?t1) < card (unprinted U t)"
      using v by (metis card_Diff1_less)
    then have less: "card (unprinted U ?t1) < n" using 2(2) by simp
    have w1: "walked t ?t1" by (simp add: walked_def emit_def)
    have dead1: "\<forall>w. is_dead ?t1 w \<longrightarrow> w \<in> U" using 2(3) by (simp add: emit_def)
    show ?thesis
    proof (cases "ut_justification t v")
      case None
      with True w1 show ?thesis by simp
    next
      case (Some e)
      from 2(1) [OF _ _ refl Some less dead1] True
      obtain t' where "walk_groups n g depth (group_providers g (ie_providers e) []) ?t1 = Some t'" "walked ?t1 t'"
        by auto
      with True Some walked_trans [OF w1] show ?thesis by (simp add: Let_def)
    qed
  qed auto
next
  case (4 n g depth name vs gs t)
  let ?t0 = "emit (indent depth @ ''  '' @ name @ '': '' @ nat_string (length vs)
                            @ '' versions, all impossible (first 3):'') t"
  let ?r = "if length vs \<le> 4 then walk_all n g (depth + 1) vs t else walk_all n g (depth + 2) (take 3 vs) ?t0"
  have "\<exists>t'. ?r = Some t' \<and> walked t t'"
  proof (cases "length vs \<le> 4")
    case True
    with 4(1) [OF True 4(4,5)] show ?thesis by simp
  next
    case False
    moreover have "\<forall>v. is_dead ?t0 v \<longrightarrow> v \<in> U" using 4(5) by (simp add: emit_def)
    ultimately obtain t' where "walk_all n g (depth + 2) (take 3 vs) ?t0 = Some t'" "walked ?t0 t'"
      using 4(2) [OF False] 4(4) by auto
    with False walked_trans [OF walked_emit(1)] show ?thesis by simp
  qed
  then obtain t' where t': "?r = Some t'" "walked t t'" by blast
  then have "card (unprinted U t') < n" "\<forall>v. is_dead t' v \<longrightarrow> v \<in> U"
    using walked_unprinted [OF assms(1) t'(2)] 4(4,5) by (simp_all add: walked_def)
  from 4(3) [OF t'(1) this] obtain t'' where "walk_groups n g depth gs t' = Some t''" "walked t' t''" by blast
  with t' walked_trans show ?case by (simp del: walk_all.simps)
next
  case (6 n g depth v vs t)
  obtain t' where t': "walk_top_down n g v depth t = Some t'" "walked t t'"
    using 6(1) [OF 6(3,4)] by blast
  then have "card (unprinted U t') < n" "\<forall>v. is_dead t' v \<longrightarrow> v \<in> U"
    using walked_unprinted [OF assms(1) t'(2)] 6(3,4) by (simp_all add: walked_def)
  from 6(2) [OF t'(1) this] obtain t'' where "walk_all n g depth vs t' = Some t''" "walked t' t''" by blast
  with t' walked_trans show ?case by simp
qed auto

subsection \<open>Conflicts among reachable candidates\<close>

definition needs_rel :: "sat_adapter \<Rightarrow> (int \<times> int) set" where
  "needs_rel g = succ_rel (implication_deps g)"

fun conflict_lines :: "int set \<Rightarrow> int list list \<Rightarrow> clause_meta list \<Rightarrow> string list" where
  "conflict_lines R (c # cs) (mt # ms) =
     (if cm_Source mt \<noteq> ClauseConflict then conflict_lines R cs ms
      else (case c of
              [a, b] \<Rightarrow>
                if (if a < 0 then - a else a) \<in> R \<and> (if b < 0 then - b else b) \<in> R
                then (''  '' @ cm_Reason mt) # conflict_lines R cs ms
                else conflict_lines R cs ms
            | _ \<Rightarrow> conflict_lines R cs ms))"
| "conflict_lines R cs ms = []"

definition find_reachable_conflicts :: "nat \<Rightarrow> sat_adapter \<Rightarrow> string list option" where
  "find_reachable_conflicts n g =
     (case bfs (implication_deps g) n (sa_rootVars g) (set (sa_rootVars g)) of
        None \<Rightarrow> None
      | Some R \<Rightarrow> Some (conflict_lines R (sa_clauses g) (sa_clausesMeta g)))"

subsection \<open>\<open>ExplainWhyUNSAT\<close>\<close>

record explain_result =
  ex_Lines :: "string list"
  ex_CoreSize :: nat

fun walk_roots :: "nat \<Rightarrow> sat_adapter \<Rightarrow> int list \<Rightarrow> unsat_tracer \<Rightarrow> unsat_tracer option" where
  "walk_roots n g [] t = Some t"
| "walk_roots n g (v # vs) t =
     (case walk_top_down n g v 0 t of None \<Rightarrow> None | Some t' \<Rightarrow> walk_roots n g vs t')"

definition explain_why_unsat :: "nat \<Rightarrow> int list \<Rightarrow> int list \<Rightarrow> sat_adapter \<Rightarrow> explain_result option" where
  "explain_why_unsat n ds ks g =
     (if sa_rootVars g = [] then Some \<lparr>ex_Lines = [''no root candidates registered''], ex_CoreSize = 0\<rparr>
      else case propagate n ds ks g new_tracer of
        None \<Rightarrow> None
      | Some t \<Rightarrow>
          (let all_dead = list_all (is_dead t) (sa_rootVars g);
               root_results = map (\<lambda>v. ''  '' @ var_name g v @ '': '' @ reason_of t v)
                                (filter (is_dead t) (sa_rootVars g));
               head = (if all_dead
                       then ''UNSAT: all '' @ nat_string (length (sa_rootVars g)) @ '' root candidates are impossible''
                       else ''UNSAT: conflict between required packages'')
           in case walk_roots n g (sa_rootVars g) t of
                None \<Rightarrow> None
              | Some t' \<Rightarrow>
                  (case (if all_dead then Some [] else find_reachable_conflicts n g) of
                     None \<Rightarrow> None
                   | Some conflicts \<Rightarrow>
                       Some \<lparr>ex_Lines = head
                               # (if root_results \<noteq> [] then [] # ''Root candidates:'' # root_results else [])
                               @ (if ut_chain t' \<noteq> [] then [] # ''Dependency chain:'' # ut_chain t' else [])
                               @ (if conflicts \<noteq> [] then [] # ''Conflicts:'' # conflicts else []),
                             ex_CoreSize = (if length (ut_chain t') = 0 then 1 else length (ut_chain t'))\<rparr>)))"

definition explain_fuel :: "int list \<Rightarrow> int list \<Rightarrow> sat_adapter \<Rightarrow> nat" where
  "explain_fuel ds ks g =
     length (sa_rootVars g) + length (concat (map (implication_deps g) ds)) + length ds + length ks + 1"

lemma walk_roots_total:
  assumes "finite U" "\<forall>v. is_dead t v \<longrightarrow> v \<in> U" "card (unprinted U t) < n"
  shows "\<exists>t'. walk_roots n g vs t = Some t' \<and> walked t t'"
  using assms(2,3)
proof (induction vs arbitrary: t)
  case (Cons v vs)
  obtain t' where t': "walk_top_down n g v 0 t = Some t'" "walked t t'"
    using walk_total(1) [OF assms(1) Cons.prems] by blast
  then have "\<forall>v. is_dead t' v \<longrightarrow> v \<in> U" "card (unprinted U t') < n"
    using walked_unprinted [OF assms(1) t'(2)] Cons.prems by (simp_all add: walked_def)
  from Cons.IH [OF this] t' walked_trans show ?case by fastforce
qed simp

lemma implication_deps_covered:
  assumes "covers_edges g ds" "y \<in> set (implication_deps g x)"
  shows "y \<in> set (concat (map (implication_deps g) ds))"
proof -
  have "sa_implications g x \<noteq> []" using assms(2) by (auto simp: implication_deps_def)
  then have "x \<in> set ds" using assms(1) by (simp add: covers_edges_def)
  with assms(2) show ?thesis by auto
qed

lemma reachable_conflicts_total:
  assumes "covers_edges g ds" "explain_fuel ds ks g \<le> n"
  shows "find_reachable_conflicts n g =
    Some (conflict_lines ((needs_rel g)\<^sup>* `` set (sa_rootVars g)) (sa_clauses g) (sa_clausesMeta g))"
proof -
  let ?deps = "concat (map (implication_deps g) ds)"
  let ?U = "set (sa_rootVars g) \<union> set ?deps"
  have "(needs_rel g)\<^sup>* `` set (sa_rootVars g) \<subseteq> ?U"
  proof
    fix y
    assume "y \<in> (needs_rel g)\<^sup>* `` set (sa_rootVars g)"
    then obtain x where x: "x \<in> set (sa_rootVars g)" "(x, y) \<in> (needs_rel g)\<^sup>*" by auto
    from x(2) show "y \<in> ?U"
    proof (cases rule: rtranclE)
      case base
      with x(1) show ?thesis by simp
    next
      case (step z)
      then have "y \<in> set (implication_deps g z)" by (simp add: needs_rel_def)
      then show ?thesis using implication_deps_covered [OF assms(1)] by blast
    qed
  qed
  moreover have "card (?U - set (sa_rootVars g)) \<le> length ?deps"
    by (rule order_trans [OF card_mono card_length]) auto
  ultimately show ?thesis
    using bfs_reachable [OF _ _ frontier_start, of ?U "implication_deps g" "sa_rootVars g" n] assms(2)
    by (simp add: find_reachable_conflicts_def needs_rel_def explain_fuel_def)
qed

subsection \<open>Properties\<close>

text \<open>
  Claim C23. The tracer marks exactly the impossible candidates, for every iteration order of its maps and
  with the stated fuel: those that are prohibited or need something all of whose providers are impossible.
  Such a candidate is false in every model of the clauses, and a dependency cycle alone kills nobody.
\<close>

theorem tracer_dead_exact:
  assumes "adapter_built rx g" "covers_edges g ds" "enumerates ks (sa_prohibits g)" "length ks + length ds \<le> n"
  shows "\<exists>t. propagate n ds ks g new_tracer = Some t \<and> (\<forall>v. is_dead t v \<longleftrightarrow> impossible g v) \<and>
    (\<forall>m v. models m g \<longrightarrow> is_dead t v \<longrightarrow> \<not> m v)"
  using propagate_exact [OF built_inv [OF assms(1)] assms(2-4)] impossible_false [OF built_inv [OF assms(1)]]
  by metis

definition sample_unsat :: sat_adapter where
  "sample_unsat = add_root_vars [1]
     (add_clause [1]
       (add_implication_constraint ref_coregex 1 ((sample_need ''1'')\<lparr>c_Name := ''c/d''\<rparr>)
         (add_implication_constraint ref_coregex 3 (sample_need ''3'') sample_adapter)))"

lemma sample_unsat_built: "adapter_built ref_coregex sample_unsat"
  unfolding sample_unsat_def
proof (intro adapter_built.intros sample_built)
  show "known_lit sample_adapter 3" by (rule sample_known)
  show "known_lit (add_implication_constraint ref_coregex 3 (sample_need ''3'') sample_adapter) 1" by code_simp
  show "\<forall>l \<in> set [1]. known_lit (add_implication_constraint ref_coregex 1 ((sample_need ''1'')\<lparr>c_Name := ''c/d''\<rparr>)
         (add_implication_constraint ref_coregex 3 (sample_need ''3'') sample_adapter)) l" by code_simp
qed simp_all

lemma sample_unsat_maps:
  "sa_implications sample_unsat d \<noteq> [] \<longleftrightarrow> d = 1" "dom (sa_prohibits sample_unsat) = {3}"
proof -
  let ?h = "add_implication_constraint ref_coregex 3 (sample_need ''3'') sample_adapter"
  let ?c = "(sample_need ''1'')\<lparr>c_Name := ''c/d''\<rparr>"
  have inv: "packages_inv sample_adapter" "packages_inv ?h"
    using sat_invD(2) [OF built_inv [OF sample_built]]
      sat_invD(2) [OF implication_constraint_meaning(1) [OF built_inv [OF sample_built] sample_known(2)]] by simp_all
  have "fst (find_satisfying_vars ref_coregex (sample_need ''3'') sample_adapter) = []"
    "fst (find_satisfying_vars ref_coregex ?c ?h) = [3]"
    by code_simp+
  then have found: "find_satisfying_vars ref_coregex (sample_need ''3'') sample_adapter = ([], sample_adapter)"
    "find_satisfying_vars ref_coregex ?c ?h = ([3], ?h)"
    using find_satisfying_vars_known [OF inv(1)] find_satisfying_vars_known [OF inv(2)] by (metis fst_conv)+
  obtain r where h: "?h = prohibit 3 r sample_adapter"
    by (simp add: add_implication_constraint_def found(1))
  have "add_implication_constraint ref_coregex 1 ?c ?h = add_implication 1 [3] ?h"
    by (simp add: add_implication_constraint_def [of _ 1] found(2))
  then have u: "sample_unsat = add_root_vars [1] (add_clause [1] (add_implication 1 [3] (prohibit 3 r sample_adapter)))"
    by (simp add: sample_unsat_def h)
  have new: "sa_implications sample_adapter = (\<lambda>_. [])" "sa_prohibits sample_adapter = (\<lambda>_. None)"
    by (simp_all add: sample_adapter_def add_package_cases new_gophersat_adapter_def)
  show "sa_implications sample_unsat d \<noteq> [] \<longleftrightarrow> d = 1" "dom (sa_prohibits sample_unsat) = {3}"
    by (simp_all add: u add_root_vars_def add_implication_def prohibit_def Let_def new)
qed

lemma sample_unsat_orders: "covers_edges sample_unsat [1]" "enumerates [3] (sa_prohibits sample_unsat)"
  by (simp_all add: covers_edges_def enumerates_def sample_unsat_maps)

theorem tracer_dead_exact_witness:
  "\<exists>t. propagate 2 [1] [3] sample_unsat new_tracer = Some t \<and> is_dead t 1 \<and> (\<forall>m. models m sample_unsat \<longrightarrow> \<not> m 1)"
proof -
  obtain t where t: "propagate 2 [1] [3] sample_unsat new_tracer = Some t"
    "\<forall>m v. models m sample_unsat \<longrightarrow> is_dead t v \<longrightarrow> \<not> m v"
    using tracer_dead_exact [OF sample_unsat_built sample_unsat_orders, of 2] by auto
  have "map_option (\<lambda>t. is_dead t 1) (propagate 2 [1] [3] sample_unsat new_tracer) = Some True" by code_simp
  with t show ?thesis by auto
qed

lemma impossible_pos: "sat_inv g \<Longrightarrow> impossible g v \<Longrightarrow> 0 < v"
  by (erule impossible.cases) (auto simp: edges_inv_def dest!: sat_invD(4))



end
