(* ===== verification/Resolver.thy ===== *)
theory Resolver
  imports Sat_Optimal Unsat_Tracer
begin

text \<open>
  \<open>internal/solver/resolver.go\<close>: from the requested atoms to an installation plan. The repository is an
  interface of the program (\<open>repo.Repository\<close>) and is the record \<open>repository\<close> of its four methods used
  here, \<open>Inl\<close> carrying the text of their error; the mask manager is the predicate \<open>rv_masked\<close> (false
  everywhere when there is none) with its \<open>GetMaskReason\<close>; the installed database is the list its \<open>List\<close> returns, \<open>None\<close> when none is set,
  an element being \<open>None\<close> where the entry has no package. A \<open>for\<close> over a map takes the order of the keys
  from the record \<open>orders\<close>. Log output is left out.

  The recursion over candidates (\<open>collectDependencies\<close>) follows the repository, so it takes fuel. What
  follows it, the encoding, is total, and \<open>encoding_is_installation\<close> states what its models are: the
  valid installations among the candidates.
\<close>

subsection \<open>Data\<close>

datatype package_action =
  ActionInstall | ActionUpgrade | ActionDowngrade | ActionReinstall | ActionKeep | ActionRemove | ActionNewSlot

fun package_action_string :: "package_action \<Rightarrow> string" where
  "package_action_string ActionInstall = ''N''"
| "package_action_string ActionUpgrade = ''U''"
| "package_action_string ActionDowngrade = ''UD''"
| "package_action_string ActionReinstall = ''R''"
| "package_action_string ActionKeep = ''K''"
| "package_action_string ActionRemove = ''D''"
| "package_action_string ActionNewSlot = ''NS''"

record resolve_entry =
  re_Package :: package
  re_Action :: package_action

type_synonym resolve_result = "slot_key \<rightharpoonup> resolve_entry"

definition package_at :: "resolve_result \<Rightarrow> slot_key \<Rightarrow> package option" where
  "package_at s key = map_option re_Package (s key)"

definition find_by_name :: "slot_key list \<Rightarrow> resolve_result \<Rightarrow> string \<Rightarrow> package list" where
  "find_by_name ks s name =
     List.map_filter (\<lambda>k. if sk_Name k = name then map_option re_Package (s k) else None) ks"

definition find_by_dep :: "slot_key list \<Rightarrow> resolve_result \<Rightarrow> pkg_constraint \<Rightarrow> package list" where
  "find_by_dep ks s dep =
     (let is_operator = c_Slot dep = ''='' \<or> c_Slot dep = ''*'' in
      List.map_filter
        (\<lambda>k. if sk_Name k \<noteq> c_Name dep then None
             else if c_Slot dep \<noteq> [] \<and> \<not> is_operator \<and> sk_Slot k \<noteq> c_Slot dep then None
             else map_option re_Package (s k)) ks)"

record resolve_options =
  ro_WithBdeps :: bool
  ro_Deep :: bool
  ro_NewUse :: bool
  ro_Update :: bool
  ro_EmptyTree :: bool

record repository =
  rp_GetAllVersions :: "string \<Rightarrow> string + package list"
  rp_LoadPackage :: "string \<Rightarrow> string + package"
  rp_LoadPackageVersion :: "string \<Rightarrow> string \<Rightarrow> string + package"
  rp_FindByAtom :: "atom \<Rightarrow> string + package list"

record portage_resolver =
  rv_repo :: repository
  rv_masked :: "package \<Rightarrow> bool"
  rv_maskReason :: "package \<Rightarrow> string \<times> string"
  rv_acceptKeywords :: "string list"
  rv_installedDB :: "package option list option"
  rv_options :: resolve_options
  rv_rootNames :: "string \<rightharpoonup> bool"

text \<open>The packages of the installed database, entries without package skipped.\<close>

definition installed_list :: "portage_resolver \<Rightarrow> package list" where
  "installed_list r = (case rv_installedDB r of None \<Rightarrow> [] | Some ips \<Rightarrow> List.map_filter id ips)"

definition resolver_is_installed :: "portage_resolver \<Rightarrow> string \<Rightarrow> bool" where
  "resolver_is_installed r name =
     (if rv_installedDB r = None \<or> ro_EmptyTree (rv_options r) then False
      else list_ex (\<lambda>p. p_Name p = name) (installed_list r))"

fun sort_alternatives :: "portage_resolver \<Rightarrow> pkg_constraint list \<Rightarrow> pkg_constraint list \<Rightarrow> pkg_constraint list \<Rightarrow>
  pkg_constraint list" where
  "sort_alternatives r [] front rest = front @ rest"
| "sort_alternatives r (alt # alts) front rest =
     (if resolver_is_installed r (c_Name alt) then sort_alternatives r alts (front @ [alt]) rest
      else sort_alternatives r alts front (rest @ [alt]))"

definition sort_alternatives_by_installed :: "portage_resolver \<Rightarrow> pkg_constraint list \<Rightarrow> pkg_constraint list" where
  "sort_alternatives_by_installed r alts = sort_alternatives r alts [] []"

definition is_build_time_dep :: "dep_type \<Rightarrow> bool" where
  "is_build_time_dep t \<longleftrightarrow> t = DepTypeBuild \<or> t = DepTypeBuildHost"

fun group_dependencies ::
  "pkg_constraint list \<Rightarrow> pkg_constraint list \<times> (int \<Rightarrow> pkg_constraint list) \<Rightarrow>
   pkg_constraint list \<times> (int \<Rightarrow> pkg_constraint list)" where
  "group_dependencies [] (req, groups) = (req, groups)"
| "group_dependencies (d # ds) (req, groups) =
     (if c_OrGroupID d = 0 then group_dependencies ds (req @ [d], groups)
      else group_dependencies ds (req, map_append groups (c_OrGroupID d) d))"

definition group_dependencies_by_or_group_id ::
  "pkg_constraint list \<Rightarrow> pkg_constraint list \<times> (int \<Rightarrow> pkg_constraint list)" where
  "group_dependencies_by_or_group_id ds = group_dependencies ds ([], \<lambda>_. [])"

subsection \<open>Masks, keywords and the installed database\<close>

definition is_keyword_masked :: "portage_resolver \<Rightarrow> package \<Rightarrow> bool" where
  "is_keyword_masked r p =
     (if length (rv_acceptKeywords r) = 0 then False else \<not> is_keyword_accepted p (rv_acceptKeywords r))"

definition filter_masked_packages :: "portage_resolver \<Rightarrow> package list \<Rightarrow> package list" where
  "filter_masked_packages r ps = filter (\<lambda>p. \<not> rv_masked r p \<and> \<not> is_keyword_masked r p) ps"

definition is_package_acceptable :: "portage_resolver \<Rightarrow> package \<Rightarrow> bool" where
  "is_package_acceptable r p = (if rv_masked r p then False else if is_keyword_masked r p then False else True)"

fun best_installed :: "coregex \<Rightarrow> string \<Rightarrow> string \<Rightarrow> package list \<Rightarrow> package option \<Rightarrow> package option" where
  "best_installed rx name slot_name [] best = best"
| "best_installed rx name slot_name (p # ps) best =
     best_installed rx name slot_name ps
       (if p_Name p = name \<and> sl_Name (p_Slot p) = slot_name \<and>
           (case best of None \<Rightarrow> True | Some b \<Rightarrow> 0 < compare_version_strings rx (p_Version p) (p_Version b))
        then Some p else best)"

definition find_installed_in_slot :: "coregex \<Rightarrow> portage_resolver \<Rightarrow> string \<Rightarrow> string \<Rightarrow> package option" where
  "find_installed_in_slot rx r name slot_name = best_installed rx name slot_name (installed_list r) None"

definition has_installed_by_name :: "portage_resolver \<Rightarrow> string \<Rightarrow> bool" where
  "has_installed_by_name r name \<longleftrightarrow> list_ex (\<lambda>p. p_Name p = name) (installed_list r)"

definition is_dep_satisfied_by_installed :: "coregex \<Rightarrow> portage_resolver \<Rightarrow> pkg_constraint \<Rightarrow> bool" where
  "is_dep_satisfied_by_installed rx r dep =
     (if rv_installedDB r = None \<or> ro_EmptyTree (rv_options r) then False
      else list_ex
        (\<lambda>p. if p_Name p \<noteq> c_Name dep then False
             else if c_Version dep \<noteq> None \<and> \<not> satisfies rx (c_Version dep) (p_Version p) then False
             else if c_Slot dep \<noteq> [] \<and> c_Slot dep \<noteq> ''*'' \<and> c_Slot dep \<noteq> ''='' then
               (let s = trim_suffix (c_Slot dep) ''='' in \<not> (s \<noteq> [] \<and> sl_Name (p_Slot p) \<noteq> s))
             else True) (installed_list r))"

definition determine_action :: "coregex \<Rightarrow> portage_resolver \<Rightarrow> package \<Rightarrow> package_action" where
  "determine_action rx r p =
     (if rv_installedDB r = None then ActionInstall
      else case find_installed_in_slot rx r (p_Name p) (sl_Name (p_Slot p)) of
        None \<Rightarrow> if has_installed_by_name r (p_Name p) then ActionNewSlot else ActionInstall
      | Some inst \<Rightarrow>
          if p_Version inst = p_Version p then
            (if ro_NewUse (rv_options r) \<or> flag_on (rv_rootNames r) (p_Name p) then ActionReinstall else ActionKeep)
          else if 0 < compare_version_strings rx (p_Version p) (p_Version inst) then ActionUpgrade
          else ActionDowngrade)"

subsection \<open>Collecting candidates\<close>

record collect_state =
  cs_allPackages :: "string \<rightharpoonup> package"
  cs_allCandidates :: "string \<rightharpoonup> package list"
  cs_explored :: nat

definition add_candidate_versions ::
  "(package list \<Rightarrow> package list) \<Rightarrow> portage_resolver \<Rightarrow> string \<Rightarrow> collect_state \<Rightarrow> collect_state" where
  "add_candidate_versions srt r name st =
     (if cs_allCandidates st name \<noteq> None then st
      else
        (let found = (case rp_GetAllVersions (rv_repo r) name of
                        Inl _ \<Rightarrow> []
                      | Inr versions \<Rightarrow>
                          (let filtered = filter_masked_packages r versions
                           in if length filtered = 0 then [] else srt filtered))
         in st\<lparr>cs_allCandidates := (cs_allCandidates st)(name \<mapsto> found), cs_explored := cs_explored st + 1\<rparr>))"

definition candidates_of :: "collect_state \<Rightarrow> string \<Rightarrow> package list" where
  "candidates_of st name = (case cs_allCandidates st name of Some ps \<Rightarrow> ps | None \<Rightarrow> [])"

fun add_blocker_targets ::
  "(package list \<Rightarrow> package list) \<Rightarrow> portage_resolver \<Rightarrow> blocker_entry list \<Rightarrow> collect_state \<Rightarrow> collect_state" where
  "add_blocker_targets srt r [] st = st"
| "add_blocker_targets srt r (b # bs) st =
     add_blocker_targets srt r bs
       (case be_Atom b of None \<Rightarrow> st | Some a \<Rightarrow> add_candidate_versions srt r (atom_cp a) st)"

text \<open>
  The dependencies that \<open>collectDependencies\<close> follows, in order: the required ones and then, group by
  group in the order \<open>gids\<close>, the sorted alternatives.
\<close>

definition same_version_installed :: "coregex \<Rightarrow> portage_resolver \<Rightarrow> package \<Rightarrow> bool" where
  "same_version_installed rx r p \<longleftrightarrow>
     (case find_installed_in_slot rx r (p_Name p) (sl_Name (p_Slot p)) of
        None \<Rightarrow> False
      | Some inst \<Rightarrow> p_Version inst = p_Version p \<and> \<not> ro_NewUse (rv_options r) \<and> \<not> ro_EmptyTree (rv_options r))"

definition followed_deps :: "coregex \<Rightarrow> portage_resolver \<Rightarrow> int list \<Rightarrow> package \<Rightarrow> pkg_constraint list" where
  "followed_deps rx r gids p =
     (let (required, groups) = group_dependencies_by_or_group_id (p_Deps p);
          same = same_version_installed rx r p in
      if same \<and> \<not> ro_Deep (rv_options r) \<and> \<not> flag_on (rv_rootNames r) (p_Name p) then []
      else filter (\<lambda>d. \<not> (same \<and> is_build_time_dep (c_DepType d))) required
        @ concat (map (\<lambda>i. let alts = groups i in
                           if same \<and> 0 < length alts \<and> is_build_time_dep (c_DepType (hd alts)) then []
                           else sort_alternatives_by_installed r alts) gids))"

fun collect_package ::
  "nat \<Rightarrow> coregex \<Rightarrow> (package list \<Rightarrow> package list) \<Rightarrow> (package \<Rightarrow> int list) \<Rightarrow> portage_resolver \<Rightarrow>
   package \<Rightarrow> collect_state \<Rightarrow> collect_state option"
and collect_deps ::
  "nat \<Rightarrow> coregex \<Rightarrow> (package list \<Rightarrow> package list) \<Rightarrow> (package \<Rightarrow> int list) \<Rightarrow> portage_resolver \<Rightarrow>
   pkg_constraint list \<Rightarrow> collect_state \<Rightarrow> collect_state option"
and collect_packages ::
  "nat \<Rightarrow> coregex \<Rightarrow> (package list \<Rightarrow> package list) \<Rightarrow> (package \<Rightarrow> int list) \<Rightarrow> portage_resolver \<Rightarrow>
   package list \<Rightarrow> collect_state \<Rightarrow> collect_state option"
where
  "collect_package 0 rx srt gids r p st = None"
| "collect_package (Suc n) rx srt gids r p st =
     (if cs_allPackages st (pkg_key p) \<noteq> None then Some st
      else if rv_masked r p then Some st
      else
        (let st1 = st\<lparr>cs_allPackages := (cs_allPackages st)(pkg_key p \<mapsto> p)\<rparr>;
             st2 = add_candidate_versions srt r (p_Name p) st1;
             st3 = add_blocker_targets srt r (p_Blockers p) st2
         in collect_deps n rx srt gids r (followed_deps rx r (gids p) p) st3))"
| "collect_deps n rx srt gids r [] st = Some st"
| "collect_deps n rx srt gids r (d # ds) st =
     (let st1 = add_candidate_versions srt r (c_Name d) st in
      case (if \<not> ro_Deep (rv_options r) \<and> is_dep_satisfied_by_installed rx r d then Some st1
            else collect_packages n rx srt gids r (candidates_of st1 (c_Name d)) st1) of
        None \<Rightarrow> None
      | Some st2 \<Rightarrow> collect_deps n rx srt gids r ds st2)"
| "collect_packages n rx srt gids r [] st = Some st"
| "collect_packages n rx srt gids r (p # ps) st =
     (case collect_package n rx srt gids r p st of
        None \<Rightarrow> None
      | Some st1 \<Rightarrow> collect_packages n rx srt gids r ps st1)"

subsection \<open>Loading the requested packages\<close>

definition words_string :: "string list \<Rightarrow> string" where
  "words_string ws = ''['' @ join '' '' ws @ '']''"

definition build_mask_error :: "portage_resolver \<Rightarrow> package \<Rightarrow> string" where
  "build_mask_error r p =
     (if rv_masked r p then
        (let (a, source) = rv_maskReason r p in
         ''all versions of '' @ p_Name p @ '' are masked (by '' @ source @ '': '' @ a @ '')'')
      else if is_keyword_masked r p then
        (if length (p_Keywords p) = 0
         then ''all versions of '' @ p_Name p @ '' are unkeyworded (missing KEYWORDS)''
         else ''all versions of '' @ p_Name p @ '' are keyword-masked (KEYWORDS='' @ words_string (p_Keywords p)
                @ '', ACCEPT_KEYWORDS='' @ words_string (rv_acceptKeywords r) @ '')'')
      else ''all versions of '' @ p_Name p @ '' are masked'')"

definition load_unmasked_package ::
  "(package list \<Rightarrow> package list) \<Rightarrow> portage_resolver \<Rightarrow> string \<Rightarrow> string + package" where
  "load_unmasked_package srt r name =
     (case rp_LoadPackage (rv_repo r) name of
        Inl e \<Rightarrow> Inl e
      | Inr p \<Rightarrow>
          if is_package_acceptable r p then Inr p
          else (case rp_GetAllVersions (rv_repo r) name of
                  Inl e \<Rightarrow> Inl (''failed to get versions for '' @ name @ '': '' @ e)
                | Inr versions \<Rightarrow>
                    (case srt (filter_masked_packages r versions) of
                       [] \<Rightarrow> Inl (build_mask_error r p)
                     | q # _ \<Rightarrow> Inr q)))"

definition load_package_from_atom ::
  "(nat \<Rightarrow> bool) \<Rightarrow> (package list \<Rightarrow> package list) \<Rightarrow> portage_resolver \<Rightarrow> string \<Rightarrow> string + package" where
  "load_package_from_atom ul srt r s =
     (case parse_atom ul s of
        Inl _ \<Rightarrow> load_unmasked_package srt r s
      | Inr a \<Rightarrow>
          if has_version (Some a) \<or> a_Slot a \<noteq> [] then
            (case rp_FindByAtom (rv_repo r) a of
               Inl e \<Rightarrow> Inl (''failed to find packages matching '' @ s @ '': '' @ e)
             | Inr matches \<Rightarrow>
                 if length matches = 0 then Inl (''no packages match atom '' @ s)
                 else
                   (let found = (if a_Operator a \<noteq> ''='' then filter_masked_packages r matches else matches) in
                    case srt found of
                      [] \<Rightarrow> Inl (''all matching packages for '' @ s @ '' are masked'')
                    | q # _ \<Rightarrow> Inr q))
          else load_unmasked_package srt r (atom_cp a))"

text \<open>
  The first loop of \<open>Resolve\<close>. A failure whose text contains the word masked is skipped. The three maps
  of the loop are one map from the package name to the package and the atom that asked for it.
\<close>

record root_state =
  rt_names :: "string list"
  rt_roots :: "string \<rightharpoonup> package \<times> string"

definition contains_text :: "string \<Rightarrow> string \<Rightarrow> bool" where
  "contains_text s sub \<longleftrightarrow> last_index s sub \<noteq> None"

fun load_roots ::
  "(nat \<Rightarrow> bool) \<Rightarrow> (package list \<Rightarrow> package list) \<Rightarrow> portage_resolver \<Rightarrow> string list \<Rightarrow> root_state \<Rightarrow>
   string + root_state" where
  "load_roots ul srt r [] rs = Inr rs"
| "load_roots ul srt r (s # ss) rs =
     (case load_package_from_atom ul srt r s of
        Inl e \<Rightarrow> if contains_text e ''masked'' then load_roots ul srt r ss rs
                 else Inl (''failed to load package '' @ s @ '': '' @ e)
      | Inr p \<Rightarrow> load_roots ul srt r ss
                   (rs\<lparr>rt_names := rt_names rs @ [p_Name p], rt_roots := (rt_roots rs)(p_Name p \<mapsto> (p, s))\<rparr>))"

subsection \<open>Installed packages as candidates\<close>

definition merge_use :: "package \<Rightarrow> package \<Rightarrow> package" where
  "merge_use ip c = c\<lparr>p_UseFlags := (\<lambda>f. if flag_on (p_UseFlags ip) f then Some True else p_UseFlags c f)\<rparr>"

fun merge_first :: "package \<Rightarrow> package list \<Rightarrow> package list" where
  "merge_first ip [] = []"
| "merge_first ip (c # cs) = (if p_Version c = p_Version ip then merge_use ip c # cs else c # merge_first ip cs)"

text \<open>
  The copy of a package in \<open>allPackages\<close> shares its map of USE flags with the candidate, so a merge into
  the candidate shows there too.
\<close>

fun add_installed_candidates :: "package list \<Rightarrow> collect_state \<Rightarrow> string list \<Rightarrow> collect_state \<times> string list" where
  "add_installed_candidates [] st keys = (st, keys)"
| "add_installed_candidates (ip # ips) st keys =
     (case cs_allCandidates st (p_Name ip) of
        None \<Rightarrow> add_installed_candidates ips st keys
      | Some cands \<Rightarrow>
          add_installed_candidates ips
            (if list_ex (\<lambda>c. p_Version c = p_Version ip) cands
             then st\<lparr>cs_allCandidates := (cs_allCandidates st)(p_Name ip \<mapsto> merge_first ip cands),
                     cs_allPackages := (cs_allPackages st)
                       (pkg_key ip := map_option (merge_use ip) (cs_allPackages st (pkg_key ip)))\<rparr>
             else st\<lparr>cs_allCandidates := (cs_allCandidates st)(p_Name ip \<mapsto> cands @ [ip]),
                     cs_allPackages := (cs_allPackages st)(pkg_key ip \<mapsto> ip)\<rparr>)
            (keys @ [pkg_key ip]))"

definition inject_installed :: "portage_resolver \<Rightarrow> collect_state \<Rightarrow> collect_state \<times> string list" where
  "inject_installed r st =
     (if rv_installedDB r = None \<or> ro_EmptyTree (rv_options r) then (st, [])
      else add_installed_candidates (installed_list r) st [])"

subsection \<open>The encoding\<close>

record orders =
  od_candidates :: "string list"
  od_packages :: "string list"
  od_roots :: "string list"
  od_encode :: "string list"
  od_encodePackages :: "string list"
  od_groups :: "package \<Rightarrow> int list"
  od_names :: "string list"
  od_slots :: "slot_key list"

definition register_packages :: "package list \<Rightarrow> sat_adapter \<Rightarrow> sat_adapter" where
  "register_packages ps g = fold adapter_add_package ps g"

definition package_list :: "collect_state \<Rightarrow> string list \<Rightarrow> package list" where
  "package_list st ks = List.map_filter (cs_allPackages st) ks"

definition candidate_list :: "collect_state \<Rightarrow> string list \<Rightarrow> package list" where
  "candidate_list st ns = concat (map (candidates_of st) ns)"

fun mark_keys :: "string list \<Rightarrow> sat_adapter \<Rightarrow> sat_adapter" where
  "mark_keys [] g = g"
| "mark_keys (k # ks) g = mark_keys ks (if get_var g k \<noteq> 0 then mark_installed (get_var g k) g else g)"

definition root_accepts :: "coregex \<Rightarrow> (nat \<Rightarrow> bool) \<Rightarrow> string \<Rightarrow> package \<Rightarrow> bool" where
  "root_accepts rx ul s v =
     (case parse_atom ul s of
        Inl _ \<Rightarrow> True
      | Inr a \<Rightarrow> if has_version (Some a) \<or> a_Slot a \<noteq> [] then atom_matches rx (Some a) (Some v) else True)"

definition root_candidate_vars ::
  "coregex \<Rightarrow> (nat \<Rightarrow> bool) \<Rightarrow> package \<Rightarrow> string \<Rightarrow> sat_adapter \<Rightarrow> int list" where
  "root_candidate_vars rx ul p s g =
     (let vs = filter (\<lambda>i. i \<noteq> 0) (map (\<lambda>v. get_var g (pkg_key v))
                 (filter (root_accepts rx ul s) (versions_of g (p_Name p))))
      in if vs \<noteq> [] then vs
         else if get_var g (pkg_key p) \<noteq> 0 then [get_var g (pkg_key p)] else [])"

fun add_root_constraints ::
  "coregex \<Rightarrow> (nat \<Rightarrow> bool) \<Rightarrow> root_state \<Rightarrow> string list \<Rightarrow> sat_adapter \<Rightarrow> sat_adapter" where
  "add_root_constraints rx ul rs [] g = g"
| "add_root_constraints rx ul rs (n # ns) g =
     (case rt_roots rs n of
        None \<Rightarrow> add_root_constraints rx ul rs ns g
      | Some (p, s) \<Rightarrow>
          (let vs = root_candidate_vars rx ul p s g in
           add_root_constraints rx ul rs ns
             (if 0 < length vs
              then add_root_vars vs (add_clause vs (with_meta ClauseRoot
                     (''root: at-least-one of '' @ p_Name p @ '' (atom='' @ s @ '')'') g))
              else g)))"

fun add_required_deps :: "coregex \<Rightarrow> int \<Rightarrow> pkg_constraint list \<Rightarrow> sat_adapter \<Rightarrow> sat_adapter" where
  "add_required_deps rx v [] g = g"
| "add_required_deps rx v (d # ds) g =
     add_required_deps rx v ds
       (case c_Type d of
          ConstraintTypeSlot \<Rightarrow> add_implication_slot_constraint rx v d g
        | _ \<Rightarrow> add_implication_constraint rx v d g)"

fun add_or_deps :: "coregex \<Rightarrow> int \<Rightarrow> pkg_constraint list list \<Rightarrow> sat_adapter \<Rightarrow> sat_adapter" where
  "add_or_deps rx v [] g = g"
| "add_or_deps rx v (alts # gs) g = add_or_deps rx v gs (add_implication_or_group rx v alts g)"

fun add_blockers :: "coregex \<Rightarrow> int \<Rightarrow> blocker_entry list \<Rightarrow> sat_adapter \<Rightarrow> sat_adapter" where
  "add_blockers rx v [] g = g"
| "add_blockers rx v (b # bs) g =
     add_blockers rx v bs (case be_Atom b of None \<Rightarrow> g | Some a \<Rightarrow> add_blocker_conflict rx v (Some a) g)"

text \<open>The dependencies of a candidate that are encoded; those of an installed one may be skipped.\<close>

definition skip_all_deps :: "portage_resolver \<Rightarrow> string list \<Rightarrow> sat_adapter \<Rightarrow> package \<Rightarrow> bool" where
  "skip_all_deps r roots g p \<longleftrightarrow> is_var_installed g (get_var g (pkg_key p)) \<and> \<not> ro_Deep (rv_options r) \<and>
     \<not> ro_NewUse (rv_options r) \<and> \<not> ro_EmptyTree (rv_options r) \<and> p_Name p \<notin> set roots"

definition skip_bdepend :: "portage_resolver \<Rightarrow> sat_adapter \<Rightarrow> package \<Rightarrow> bool" where
  "skip_bdepend r g p \<longleftrightarrow> is_var_installed g (get_var g (pkg_key p)) \<and> \<not> ro_NewUse (rv_options r)"

definition encoded_deps :: "portage_resolver \<Rightarrow> sat_adapter \<Rightarrow> package \<Rightarrow> pkg_constraint list" where
  "encoded_deps r g p = filter (\<lambda>d. \<not> (skip_bdepend r g p \<and> is_build_time_dep (c_DepType d)))
     (fst (group_dependencies_by_or_group_id (p_Deps p)))"

definition encoded_groups :: "portage_resolver \<Rightarrow> int list \<Rightarrow> sat_adapter \<Rightarrow> package \<Rightarrow> pkg_constraint list list" where
  "encoded_groups r gids g p =
     map (sort_alternatives_by_installed r)
       (filter (\<lambda>alts. \<not> (skip_bdepend r g p \<and> 0 < length alts \<and> is_build_time_dep (c_DepType (hd alts))))
          (map (snd (group_dependencies_by_or_group_id (p_Deps p))) gids))"

definition add_package_constraints ::
  "coregex \<Rightarrow> portage_resolver \<Rightarrow> string list \<Rightarrow> (package \<Rightarrow> int list) \<Rightarrow> package \<Rightarrow> sat_adapter \<Rightarrow> sat_adapter" where
  "add_package_constraints rx r roots gids p g =
     (let v = get_var g (pkg_key p) in
      if v = 0 then g
      else if skip_all_deps r roots g p then g
      else add_blockers rx v (p_Blockers p)
             (add_or_deps rx v (encoded_groups r (gids p) g p)
               (add_required_deps rx v (encoded_deps r g p) g)))"

definition encode_candidates ::
  "coregex \<Rightarrow> portage_resolver \<Rightarrow> string list \<Rightarrow> (package \<Rightarrow> int list) \<Rightarrow> package list \<Rightarrow> sat_adapter \<Rightarrow> sat_adapter" where
  "encode_candidates rx r roots gids ps g = fold (add_package_constraints rx r roots gids) ps g"

definition registered :: "orders \<Rightarrow> collect_state \<Rightarrow> string list \<Rightarrow> sat_adapter" where
  "registered od st keys =
     mark_keys keys
       (register_packages (package_list st (od_packages od))
         (register_packages (candidate_list st (od_candidates od)) new_gophersat_adapter))"

definition encode ::
  "coregex \<Rightarrow> (nat \<Rightarrow> bool) \<Rightarrow> portage_resolver \<Rightarrow> orders \<Rightarrow> root_state \<Rightarrow> collect_state \<Rightarrow> string list \<Rightarrow> sat_adapter" where
  "encode rx ul r od rs st keys =
     add_at_most_one_per_slot (od_names od) (od_slots od)
       (encode_candidates rx r (rt_names rs) (od_groups od)
          (filter (\<lambda>p. cs_allCandidates st (p_Name p) = None) (package_list st (od_encodePackages od)))
          (encode_candidates rx r (rt_names rs) (od_groups od) (candidate_list st (od_encode od))
             (add_root_constraints rx ul rs (od_roots od) (registered od st keys))))"

end
