(* ===== verification/Resolver_Encoding.thy ===== *)
theory Resolver_Encoding
  imports Resolver
begin

text \<open>
  What the clauses of \<open>Resolve\<close> mean. \<open>extends_by g h X\<close>: the adapter \<open>h\<close> is \<open>g\<close> with more clauses, over the
  same variables and packages, and its models are those of \<open>g\<close> that satisfy \<open>X\<close>. Every step of the
  encoding is of that form, so the models of the finished problem are the installations described by
  \<open>installation_ok\<close>.
\<close>

subsection \<open>Steps that only add clauses\<close>

definition same_world :: "sat_adapter \<Rightarrow> sat_adapter \<Rightarrow> bool" where
  "same_world g h \<longleftrightarrow> sa_vars h = sa_vars g \<and> sa_packages h = sa_packages g \<and> sa_varNames h = sa_varNames g
     \<and> sa_installed h = sa_installed g"

lemma same_world_refl [simp]: "same_world g g"
  by (simp add: same_world_def)

lemma same_world_trans: "same_world g h \<Longrightarrow> same_world h k \<Longrightarrow> same_world g k"
  by (simp add: same_world_def)

lemma same_world_reads:
  assumes "same_world g h"
  shows "versions_of h n = versions_of g n" "get_var h k = get_var g k" "selects m h p = selects m g p"
    "is_var_installed h i = is_var_installed g i" "known_lit h l = known_lit g l" "sa_packages h = sa_packages g"
    "blocks rx h v a m = blocks rx g v a m" "alt_provides rx alts h = alt_provides rx alts g"
    "one_per_slot m h = one_per_slot m g" "alt_packages rx alts h = alt_packages rx alts g"
    "depends_on m h v ps = depends_on m g v ps" "slot_groups h ns = slot_groups g ns"
proof -
  show v: "versions_of h n = versions_of g n" for n using assms by (simp add: same_world_def versions_of_def)
  show i: "get_var h k = get_var g k" for k using assms by (simp add: same_world_def get_var_def)
  then show s: "selects m h p = selects m g p" for p by (simp add: selects_def)
  show "is_var_installed h i = is_var_installed g i" "known_lit h l = known_lit g l" "sa_packages h = sa_packages g"
    using assms by (simp_all add: same_world_def is_var_installed_def known_lit_def)
  show "blocks rx h v a m = blocks rx g v a m" by (simp add: blocks_def v i s)
  show "alt_provides rx alts h = alt_provides rx alts g" by (simp add: alt_provides_def v fun_eq_iff)
  show "one_per_slot m h = one_per_slot m g" by (simp add: one_per_slot_def v s)
  show "alt_packages rx alts h = alt_packages rx alts g" by (simp add: alt_packages_def v)
  show "depends_on m h v ps = depends_on m g v ps" by (simp add: depends_on_def s)
  have "slot_groups_of h ps f = slot_groups_of g ps f" for ps f
    using assms by (induction ps arbitrary: f) (simp_all add: same_world_def)
  moreover have "versions_of h = versions_of g" by (simp add: v fun_eq_iff)
  ultimately show "slot_groups h ns = slot_groups g ns" by (simp add: slot_groups_def)
qed

definition extends_by :: "sat_adapter \<Rightarrow> sat_adapter \<Rightarrow> ((int \<Rightarrow> bool) \<Rightarrow> bool) \<Rightarrow> bool" where
  "extends_by g h X \<longleftrightarrow> sat_inv h \<and> same_world g h \<and> (\<forall>m. models m h \<longleftrightarrow> models m g \<and> X m)"

lemma extends_refl: "sat_inv g \<Longrightarrow> extends_by g g (\<lambda>_. True)"
  by (simp add: extends_by_def)

lemma extends_trans:
  "extends_by g h X \<Longrightarrow> extends_by h k Y \<Longrightarrow> extends_by g k (\<lambda>m. X m \<and> Y m)"
  using same_world_trans by (auto simp: extends_by_def)

lemma extends_cong: "extends_by g h X \<Longrightarrow> (\<And>m. X m \<longleftrightarrow> Y m) \<Longrightarrow> extends_by g h Y"
  by (simp add: extends_by_def)

lemma extends_inv: "extends_by g h X \<Longrightarrow> sat_inv h"
  and extends_world: "extends_by g h X \<Longrightarrow> same_world g h"
  by (simp_all add: extends_by_def)

lemma same_world_clause [simp]: "same_world g (add_clause c (with_meta s r g))"
  by (simp add: same_world_def)

lemma same_world_edge:
  "same_world g (prohibit d r g)" "same_world g (add_implication d vs g)"
  by (simp_all add: same_world_def prohibit_def add_implication_def Let_def)

lemma same_world_prefs [simp]: "same_world g (g\<lparr>sa_orGroupPrefs := x\<rparr>)"
  by (simp add: same_world_def)

lemma same_world_implications:
  assumes "packages_inv g"
  shows "same_world g (add_implication_constraint rx d c g)"
    and "same_world g (add_implication_slot_constraint rx d c g)"
    and "same_world g (add_implication_or_group rx d alts g)"
proof -
  show "same_world g (add_implication_constraint rx d c g)"
    by (simp add: add_implication_constraint_def find_satisfying_vars_known [OF assms] same_world_edge)
  show "same_world g (add_implication_slot_constraint rx d c g)"
    by (simp add: add_implication_slot_constraint_def collect_vars_known [OF known_versions [OF assms]] same_world_edge)
  obtain x where "collect_ranked_alternatives rx 0 alts g =
      (vars_for g (\<lambda>_. True) (alt_packages rx alts g), g\<lparr>sa_orGroupPrefs := x\<rparr>)"
    using collect_ranked_alternatives_known [OF assms] by blast
  then show "same_world g (add_implication_or_group rx d alts g)"
    using same_world_trans [OF same_world_prefs same_world_edge(1)] same_world_trans [OF same_world_prefs same_world_edge(2)]
    by (simp add: add_implication_or_group_def)
qed

lemma same_world_block: "same_world g (block_versions rx i key b ps g)"
proof (induction ps arbitrary: g)
  case (Cons p ps)
  let ?h = "if \<not> atom_matches rx (Some b) (Some p) then g
        else case map_of (sa_vars g) (pkg_key p) of
          None \<Rightarrow> g
        | Some j \<Rightarrow>
            if j = i then g
            else add_clause [- i, - j]
                   (with_meta ClauseConflict (''blocker: '' @ key @ '' blocks '' @ pkg_key p
                      @ '' (atom '' @ atom_string b @ '')'') g)"
  have "same_world g ?h" by (simp split: option.split)
  then show ?case using Cons.IH unfolding block_versions.simps by (rule same_world_trans)
qed simp

lemma same_world_exclude: "same_world g (exclude_with sk x ys g)"
proof (induction ys arbitrary: g)
  case (Cons y ys)
  show ?case unfolding exclude_with.simps by (rule same_world_trans [OF same_world_clause Cons.IH])
qed simp

lemma same_world_pairs: "same_world g (exclude_pairs sk xs g)"
proof (induction xs arbitrary: g)
  case (Cons x xs)
  show ?case unfolding exclude_pairs.simps by (rule same_world_trans [OF same_world_exclude Cons.IH])
qed simp

lemma same_world_groups: "same_world g (exclude_groups f sks g)"
proof (induction sks arbitrary: g)
  case (Cons sk sks)
  have "same_world g (if length (f sk) \<le> 1 then g else exclude_pairs sk (f sk) g)" by (simp add: same_world_pairs)
  then show ?case using Cons.IH unfolding exclude_groups.simps by (rule same_world_trans)
qed simp

subsection \<open>One candidate\<close>

definition dep_ok :: "coregex \<Rightarrow> sat_adapter \<Rightarrow> (int \<Rightarrow> bool) \<Rightarrow> int \<Rightarrow> pkg_constraint \<Rightarrow> bool" where
  "dep_ok rx g m v d \<longleftrightarrow>
     (m v \<longrightarrow> (\<exists>q \<in> set (versions_of g (c_Name d)). dep_provides rx d q \<and> selects m g q))"

definition group_ok :: "coregex \<Rightarrow> sat_adapter \<Rightarrow> (int \<Rightarrow> bool) \<Rightarrow> int \<Rightarrow> pkg_constraint list \<Rightarrow> bool" where
  "group_ok rx g m v alts \<longleftrightarrow> (m v \<longrightarrow> (\<exists>q. alt_provides rx alts g q \<and> selects m g q))"

definition blocker_ok :: "coregex \<Rightarrow> sat_adapter \<Rightarrow> (int \<Rightarrow> bool) \<Rightarrow> int \<Rightarrow> blocker_entry \<Rightarrow> bool" where
  "blocker_ok rx g m v b \<longleftrightarrow> (\<forall>a. be_Atom b = Some a \<longrightarrow> \<not> blocks rx g v a m)"

lemma same_world_ok:
  assumes "same_world g h"
  shows "dep_ok rx h m v d = dep_ok rx g m v d" "group_ok rx h m v alts = group_ok rx g m v alts"
    "blocker_ok rx h m v b = blocker_ok rx g m v b"
  by (simp_all add: dep_ok_def group_ok_def blocker_ok_def same_world_reads [OF assms])

lemma required_dep_step:
  assumes "sat_inv g" "known_lit g v" "0 < v"
  shows "extends_by g (case c_Type d of ConstraintTypeSlot \<Rightarrow> add_implication_slot_constraint rx v d g
            | _ \<Rightarrow> add_implication_constraint rx v d g) (\<lambda>m. dep_ok rx g m v d)"
proof (cases "c_Type d")
  case ConstraintTypeSlot
  then have "dep_provides rx d = (\<lambda>p. slot_ok d p \<and> version_ok rx d p \<and> use_ok d p)"
    by (simp add: dep_provides_def fun_eq_iff)
  with ConstraintTypeSlot implication_slot_meaning [OF assms] same_world_implications(2) [OF sat_invD(2) [OF assms(1)]]
  show ?thesis by (auto simp: extends_by_def dep_ok_def depends_on_def)
qed (use implication_constraint_meaning [OF assms] same_world_implications(1) [OF sat_invD(2) [OF assms(1)]]
  in \<open>auto simp: extends_by_def dep_ok_def depends_on_def\<close>)

text \<open>A loop whose every step adds the meaning of its element adds the meanings of all of them.\<close>

lemma extends_fold:
  assumes "sat_inv g"
    and "\<And>x h. x \<in> set xs \<Longrightarrow> sat_inv h \<Longrightarrow> same_world g h \<Longrightarrow> extends_by h (f x h) (P x)"
  shows "extends_by g (fold f xs g) (\<lambda>m. \<forall>x \<in> set xs. P x m)"
proof -
  have "extends_by h (fold f ys h) (\<lambda>m. \<forall>x \<in> set ys. P x m)"
    if "set ys \<subseteq> set xs" "sat_inv h" "same_world g h" for ys h
    using that
  proof (induction ys arbitrary: h)
    case (Cons y ys)
    from Cons.prems have s: "extends_by h (f y h) (P y)" using assms(2) by simp
    have "extends_by (f y h) (fold f ys (f y h)) (\<lambda>m. \<forall>x \<in> set ys. P x m)"
      using Cons.IH Cons.prems extends_inv [OF s] same_world_trans [OF Cons.prems(3) extends_world [OF s]] by simp
    from extends_trans [OF s this] show ?case by simp
  qed (simp add: extends_refl)
  from this [OF subset_refl assms(1) same_world_refl] show ?thesis .
qed

lemma extends_loop:
  assumes "sat_inv g" "h = fold f xs g"
    and "\<And>x k. sat_inv k \<Longrightarrow> same_world g k \<Longrightarrow> extends_by k (f x k) (\<lambda>m. P m x)"
  shows "extends_by g h (\<lambda>m. \<forall>x \<in> set xs. P m x)"
  unfolding assms(2) by (rule extends_fold [OF assms(1)]) (rule assms(3))

lemma same_world_lit: "same_world g h \<Longrightarrow> known_lit g v \<Longrightarrow> known_lit h v"
  by (simp add: same_world_reads(5))

lemma required_deps_fold:
  "add_required_deps rx v ds g = fold (\<lambda>d g. case c_Type d of
     ConstraintTypeSlot \<Rightarrow> add_implication_slot_constraint rx v d g
   | _ \<Rightarrow> add_implication_constraint rx v d g) ds g"
  by (induction ds arbitrary: g) simp_all

lemma required_deps_step:
  assumes "sat_inv g" "known_lit g v" "0 < v"
  shows "extends_by g (add_required_deps rx v ds g) (\<lambda>m. \<forall>d \<in> set ds. dep_ok rx g m v d)"
  unfolding required_deps_fold
proof (rule extends_fold [OF assms(1)])
  fix d h
  assume h: "sat_inv h" "same_world g h"
  from required_dep_step [OF h(1) same_world_lit [OF h(2) assms(2)] assms(3), where d = d and rx = rx]
  show "extends_by h (case c_Type d of ConstraintTypeSlot \<Rightarrow> add_implication_slot_constraint rx v d h
      | _ \<Rightarrow> add_implication_constraint rx v d h) (\<lambda>m. dep_ok rx g m v d)"
    by (simp add: same_world_ok [OF h(2)])
qed

lemma or_deps_step:
  assumes "sat_inv g" "known_lit g v" "0 < v"
  shows "extends_by g (add_or_deps rx v gs g) (\<lambda>m. \<forall>alts \<in> set gs. group_ok rx g m v alts)"
proof -
  have "add_or_deps rx v gs g = fold (add_implication_or_group rx v) gs g"
    by (induction gs arbitrary: g) simp_all
  moreover have "extends_by h (add_implication_or_group rx v alts h) (\<lambda>m. group_ok rx g m v alts)"
    if h: "sat_inv h" "same_world g h" for alts h
    using implication_or_group_meaning [OF h(1) same_world_lit [OF h(2) assms(2)] assms(3)]
      same_world_implications(3) [OF sat_invD(2) [OF h(1)]]
    by (auto simp: extends_by_def group_ok_def depends_on_def alt_packages_set same_world_reads [OF h(2)] Bex_def)
  ultimately show ?thesis by (rule extends_loop [OF assms(1)])
qed

lemma blockers_step:
  assumes "sat_inv g" "known_lit g v" "0 < v"
  shows "extends_by g (add_blockers rx v bs g) (\<lambda>m. \<forall>b \<in> set bs. blocker_ok rx g m v b)"
proof -
  let ?f = "\<lambda>b g. case be_Atom b of None \<Rightarrow> g | Some a \<Rightarrow> add_blocker_conflict rx v (Some a) g"
  have "add_blockers rx v bs g = fold ?f bs g"
    by (induction bs arbitrary: g) simp_all
  moreover have "extends_by h (?f b h) (\<lambda>m. blocker_ok rx g m v b)"
    if h: "sat_inv h" "same_world g h" for b h
  proof (cases "be_Atom b")
    case (Some a)
    have "same_world h (add_blocker_conflict rx v (Some a) h)"
      by (simp add: add_blocker_conflict_def same_world_block)
    with Some blocker_conflict_meaning [OF h(1) same_world_lit [OF h(2) assms(2)] assms(3), where rx = rx and b = a]
    show ?thesis by (simp add: extends_by_def blocker_ok_def same_world_reads [OF h(2)])
  qed (use h(1) in \<open>simp add: extends_by_def blocker_ok_def\<close>)
  ultimately show ?thesis by (rule extends_loop [OF assms(1)])
qed

definition package_ok ::
  "coregex \<Rightarrow> portage_resolver \<Rightarrow> string list \<Rightarrow> (package \<Rightarrow> int list) \<Rightarrow> sat_adapter \<Rightarrow> (int \<Rightarrow> bool) \<Rightarrow> package \<Rightarrow> bool" where
  "package_ok rx r roots gids g m p \<longleftrightarrow>
     (let v = get_var g (pkg_key p) in
      v = 0 \<or> skip_all_deps r roots g p \<or>
      (\<forall>d \<in> set (encoded_deps r g p). dep_ok rx g m v d) \<and>
      (\<forall>alts \<in> set (encoded_groups r (gids p) g p). group_ok rx g m v alts) \<and>
      (\<forall>b \<in> set (p_Blockers p). blocker_ok rx g m v b))"

lemma get_var_lit: "sat_inv g \<Longrightarrow> get_var g k \<noteq> 0 \<Longrightarrow> known_lit g (get_var g k) \<and> 0 < get_var g k"
  using get_var_range [OF sat_invD(1), of g k]
  by (cases "map_of (sa_vars g) k") (auto simp: known_lit_def get_var_def)

lemma package_step:
  assumes "sat_inv g"
  shows "extends_by g (add_package_constraints rx r roots gids p g) (\<lambda>m. package_ok rx r roots gids g m p)"
proof (cases "get_var g (pkg_key p) = 0 \<or> skip_all_deps r roots g p")
  case True
  with extends_refl [OF assms] show ?thesis
    by (auto simp: add_package_constraints_def package_ok_def Let_def elim!: extends_cong)
next
  case False
  let ?v = "get_var g (pkg_key p)"
  have v: "known_lit g ?v" "0 < ?v" using get_var_lit [OF assms] False by auto
  note d = required_deps_step [OF assms v, where rx = rx and ds = "encoded_deps r g p"]
  let ?h = "add_required_deps rx ?v (encoded_deps r g p) g"
  note o = or_deps_step [OF extends_inv [OF d] same_world_lit [OF extends_world [OF d] v(1)] v(2),
      where rx = rx and gs = "encoded_groups r (gids p) g p"]
  let ?k = "add_or_deps rx ?v (encoded_groups r (gids p) g p) ?h"
  note do = extends_trans [OF d o]
  note b = blockers_step [OF extends_inv [OF o] same_world_lit [OF extends_world [OF do] v(1)] v(2),
      where rx = rx and bs = "p_Blockers p"]
  from extends_trans [OF do b] False show ?thesis
    by (auto simp: add_package_constraints_def package_ok_def Let_def same_world_ok [OF extends_world [OF d]]
      same_world_ok [OF extends_world [OF do]] elim!: extends_cong)
qed

lemma same_world_package_ok:
  assumes "same_world g h"
  shows "package_ok rx r roots gids h m p = package_ok rx r roots gids g m p"
  by (simp add: package_ok_def Let_def same_world_reads [OF assms] same_world_ok [OF assms] skip_all_deps_def
    encoded_deps_def encoded_groups_def skip_bdepend_def)

lemma candidates_step:
  assumes "sat_inv g"
  shows "extends_by g (encode_candidates rx r roots gids ps g) (\<lambda>m. \<forall>p \<in> set ps. package_ok rx r roots gids g m p)"
  unfolding encode_candidates_def
proof (rule extends_fold [OF assms])
  fix p h
  assume "sat_inv h" "same_world g h"
  with package_step show "extends_by h (add_package_constraints rx r roots gids p h)
      (\<lambda>m. package_ok rx r roots gids g m p)"
    by (simp add: same_world_package_ok [symmetric, where g = g and h = h])
qed

subsection \<open>The requested packages\<close>

text \<open>
  The packages that may answer a request: the registered versions that its atom accepts, or the loaded
  package itself when there is none and it has a variable.
\<close>

definition root_choices :: "coregex \<Rightarrow> (nat \<Rightarrow> bool) \<Rightarrow> package \<Rightarrow> string \<Rightarrow> sat_adapter \<Rightarrow> package list" where
  "root_choices rx ul p s g =
     (let vs = filter (root_accepts rx ul s) (versions_of g (p_Name p)) in
      if vs \<noteq> [] then vs else if get_var g (pkg_key p) \<noteq> 0 then [p] else [])"

definition root_ok :: "coregex \<Rightarrow> (nat \<Rightarrow> bool) \<Rightarrow> root_state \<Rightarrow> sat_adapter \<Rightarrow> (int \<Rightarrow> bool) \<Rightarrow> string \<Rightarrow> bool" where
  "root_ok rx ul rs g m n \<longleftrightarrow> (\<forall>p s. rt_roots rs n = Some (p, s) \<longrightarrow>
     root_choices rx ul p s g = [] \<or> (\<exists>q \<in> set (root_choices rx ul p s g). selects m g q))"

lemma versions_var:
  assumes "sat_inv g" "q \<in> set (versions_of g n)"
  shows "get_var g (pkg_key q) \<noteq> 0"
proof -
  from assms(2) obtain j where "map_of (sa_vars g) (pkg_key q) = Some j"
    using versions_of_known [OF sat_invD(2) [OF assms(1)]] by blast
  then show ?thesis using get_var_range(1) [OF sat_invD(1) [OF assms(1)]] by fastforce
qed

lemma root_vars_choices:
  assumes "sat_inv g"
  shows "root_candidate_vars rx ul p s g = map (\<lambda>q. get_var g (pkg_key q)) (root_choices rx ul p s g)"
proof -
  have "filter (\<lambda>i. i \<noteq> 0) (map (\<lambda>v. get_var g (pkg_key v)) (filter P (versions_of g n)))
      = map (\<lambda>v. get_var g (pkg_key v)) (filter P (versions_of g n))" for P n
    by (rule filter_True) (use versions_var [OF assms] in auto)
  then show ?thesis unfolding root_candidate_vars_def root_choices_def Let_def by simp
qed

lemma root_choices_var:
  assumes "sat_inv g" "q \<in> set (root_choices rx ul p s g)"
  shows "get_var g (pkg_key q) \<noteq> 0"
  using assms versions_var [OF assms(1)] by (auto simp: root_choices_def Let_def split: if_splits)

lemma same_world_root:
  assumes "same_world g h"
  shows "root_candidate_vars rx ul p s h = root_candidate_vars rx ul p s g"
    "root_ok rx ul rs h m n = root_ok rx ul rs g m n"
  by (simp_all add: root_candidate_vars_def root_ok_def root_choices_def Let_def same_world_reads [OF assms])

lemma same_world_add_roots [simp]: "same_world g (add_root_vars vs h) = same_world g h"
  by (simp add: same_world_def add_root_vars_def)

lemma roots_step:
  assumes "sat_inv g"
  shows "extends_by g (add_root_constraints rx ul rs ns g) (\<lambda>m. \<forall>n \<in> set ns. root_ok rx ul rs g m n)"
proof -
  let ?f = "\<lambda>n g. case rt_roots rs n of None \<Rightarrow> g
      | Some (p, s) \<Rightarrow> (let vs = root_candidate_vars rx ul p s g in
          if 0 < length vs
          then add_root_vars vs (add_clause vs (with_meta ClauseRoot
                 (''root: at-least-one of '' @ p_Name p @ '' (atom='' @ s @ '')'') g))
          else g)"
  have loop: "add_root_constraints rx ul rs ns g = fold ?f ns g"
    by (induction ns arbitrary: g) (simp_all add: Let_def split: option.split prod.split)
  have step: "extends_by h (?f n h) (\<lambda>m. root_ok rx ul rs h m n)" if h: "sat_inv h" for n h
  proof (cases "rt_roots rs n")
    case (Some x)
    obtain p s where x: "x = (p, s)" by (cases x)
    let ?vs = "root_candidate_vars rx ul p s h"
    have pos: "\<forall>l \<in> set ?vs. known_lit h l \<and> 0 < l"
      using root_choices_var [OF h] get_var_lit [OF h] by (auto simp: root_vars_choices [OF h])
    then have "clause_true m ?vs \<longleftrightarrow> (\<exists>q \<in> set (root_choices rx ul p s h). selects m h q)" for m
      by (subst clause_true_pos) (auto simp: root_vars_choices [OF h] selects_def)
    with Some x h pos tagged_clause [OF h, of ?vs] show ?thesis
      by (auto simp: extends_by_def Let_def root_ok_def root_vars_choices [OF h])
  qed (use h in \<open>simp add: extends_by_def root_ok_def\<close>)
  have "extends_by h (?f n h) (\<lambda>m. root_ok rx ul rs g m n)" if w: "sat_inv h" "same_world g h" for n h
    using step [OF w(1), of n] by (simp only: same_world_root(2) [OF w(2)])
  with loop show ?thesis by (rule extends_loop [OF assms])
qed

subsection \<open>The finished problem\<close>

lemma register_built: "adapter_built rx g \<Longrightarrow> adapter_built rx (register_packages ps g)"
  by (induction ps arbitrary: g) (simp_all add: register_packages_def built_package)

lemma mark_keys_built: "adapter_built rx g \<Longrightarrow> adapter_built rx (mark_keys ks g)"
  by (induction ks arbitrary: g) (simp_all add: built_installed)

lemma registered_built: "adapter_built rx (registered od st keys)"
  unfolding registered_def by (intro mark_keys_built register_built built_new)

lemma register_models: "models m (register_packages ps g) = models m g"
  by (induction ps arbitrary: g) (simp_all add: register_packages_def)

lemma mark_keys_models: "models m (mark_keys ks g) = models m g"
  by (induction ks arbitrary: g) simp_all

lemma registered_models: "models m (registered od st keys)"
proof -
  have "models m new_gophersat_adapter" by (simp add: models_def new_gophersat_adapter_def)
  then show ?thesis by (simp add: registered_def mark_keys_models register_models)
qed

definition installation_ok ::
  "coregex \<Rightarrow> (nat \<Rightarrow> bool) \<Rightarrow> portage_resolver \<Rightarrow> orders \<Rightarrow> root_state \<Rightarrow> collect_state \<Rightarrow> sat_adapter \<Rightarrow>
   (int \<Rightarrow> bool) \<Rightarrow> bool" where
  "installation_ok rx ul r od rs st g m \<longleftrightarrow>
     (\<forall>n \<in> set (od_roots od). root_ok rx ul rs g m n) \<and>
     (\<forall>p \<in> set (candidate_list st (od_encode od)). package_ok rx r (rt_names rs) (od_groups od) g m p) \<and>
     (\<forall>p \<in> set (package_list st (od_encodePackages od)). cs_allCandidates st (p_Name p) = None \<longrightarrow>
        package_ok rx r (rt_names rs) (od_groups od) g m p) \<and>
     one_per_slot m g"

lemma encode_extends:
  fixes od st keys
  defines "g \<equiv> registered od st keys"
  assumes "enumerates (od_names od) (sa_packages g)"
    "\<forall>sk. slot_groups g (od_names od) sk \<noteq> [] \<longrightarrow> sk \<in> set (od_slots od)"
  shows "extends_by g (encode rx ul r od rs st keys) (installation_ok rx ul r od rs st g)"
proof -
  let ?a = "add_root_constraints rx ul rs (od_roots od) g"
  let ?enc = "encode_candidates rx r (rt_names rs) (od_groups od)"
  let ?late = "filter (\<lambda>p. cs_allCandidates st (p_Name p) = None) (package_list st (od_encodePackages od))"
  let ?b = "?enc (candidate_list st (od_encode od)) ?a"
  let ?c = "?enc ?late ?b"
  have inv: "sat_inv g" unfolding g_def by (rule built_inv [OF registered_built])
  note a = roots_step [OF inv, where rx = rx and ul = ul and rs = rs and ns = "od_roots od"]
  note b = candidates_step [OF extends_inv [OF a], where rx = rx and r = r and roots = "rt_names rs"
      and gids = "od_groups od" and ps = "candidate_list st (od_encode od)"]
  note ab = extends_trans [OF a b]
  note c = candidates_step [OF extends_inv [OF ab], where rx = rx and r = r and roots = "rt_names rs"
      and gids = "od_groups od" and ps = ?late]
  note abc = extends_trans [OF ab c]
  note w = same_world_reads [OF extends_world [OF abc]]
  have "extends_by ?c (add_at_most_one_per_slot (od_names od) (od_slots od) ?c) (\<lambda>m. one_per_slot m ?c)"
    using at_most_one_per_slot_meaning [OF extends_inv [OF abc], of "od_names od" "od_slots od"] assms(2,3)
    by (simp add: extends_by_def w add_at_most_one_per_slot_def same_world_groups)
  from extends_trans [OF abc this] show ?thesis
    unfolding encode_def g_def [symmetric]
    by (rule extends_cong) (auto simp: installation_ok_def w same_world_package_ok [OF extends_world [OF a]]
      same_world_package_ok [OF extends_world [OF ab]])
qed

end
