(* ===== verification/Resolve_Plan.thy ===== *)
theory Resolve_Plan
  imports Resolver_Encoding
begin

text \<open>
  The second half of \<open>Resolve\<close>: solving in two phases and reading the plan. \<open>Clone\<close> shares its maps with the
  adapter, so the second phase runs on \<open>after_clone\<close>. The solver, the minimiser and \<open>sort.Slice\<close> are
  arguments, as in the theories of the adapter; \<open>ord\<close> gives the order in which a solution is read.
\<close>

subsection \<open>Reading the solution\<close>

text \<open>The name before the first \<open>@\<close> of a key.\<close>

definition key_name :: "string \<Rightarrow> string" where
  "key_name key = (case index_byte key CHR ''@'' of Some i \<Rightarrow> take i key | None \<Rightarrow> key)"

definition selected_package :: "portage_resolver \<Rightarrow> collect_state \<Rightarrow> string \<Rightarrow> string \<Rightarrow> package option" where
  "selected_package r st name version =
     (case rp_LoadPackageVersion (rv_repo r) name version of
        Inr p \<Rightarrow> Some p
      | Inl _ \<Rightarrow> List.find (\<lambda>c. p_Version c = version) (candidates_of st name))"

fun build_result_from_solution ::
  "coregex \<Rightarrow> portage_resolver \<Rightarrow> collect_state \<Rightarrow> (string \<rightharpoonup> string) \<Rightarrow> string list \<Rightarrow> resolve_result \<Rightarrow> resolve_result" where
  "build_result_from_solution rx r st sol [] res = res"
| "build_result_from_solution rx r st sol (key # keys) res =
     build_result_from_solution rx r st sol keys
       (case sol key of
          None \<Rightarrow> res
        | Some version \<Rightarrow>
            (case selected_package r st (key_name key) version of
               None \<Rightarrow> res
             | Some p \<Rightarrow> res(slot_key_of p \<mapsto> \<lparr>re_Package = p, re_Action = determine_action rx r p\<rparr>)))"

text \<open>
  \<open>HasConflictWith\<close>: a conflict clause of two literals that pairs the variable with one that the result
  holds. The result is a Go map; \<open>ks\<close> lists its keys.
\<close>

definition conflict_partner :: "int \<Rightarrow> int list \<Rightarrow> int option" where
  "conflict_partner i c =
     (case c of [a, b] \<Rightarrow> if a = - i then Some (- b) else if b = - i then Some (- a) else None | _ \<Rightarrow> None)"

definition in_result :: "slot_key list \<Rightarrow> resolve_result \<Rightarrow> string \<Rightarrow> bool" where
  "in_result ks res key =
     (case splitn2_byte CHR ''@'' key of
        [name, version] \<Rightarrow> list_ex (\<lambda>k. sk_Name k = name \<and>
          (case res k of Some e \<Rightarrow> p_Version (re_Package e) = version | None \<Rightarrow> False)) ks
      | _ \<Rightarrow> False)"

definition has_conflict_with :: "sat_adapter \<Rightarrow> int \<Rightarrow> slot_key list \<Rightarrow> resolve_result \<Rightarrow> bool" where
  "has_conflict_with g i ks res =
     list_ex (\<lambda>(c, meta). cm_Source meta = ClauseConflict \<and>
       (case conflict_partner i c of
          None \<Rightarrow> False
        | Some j \<Rightarrow> (case sa_varNames g j of None \<Rightarrow> False | Some key \<Rightarrow> in_result ks res key)))
       (zip (sa_clauses g) (sa_clausesMeta g))"

fun remove_installed :: "sat_adapter \<Rightarrow> package list \<Rightarrow> slot_key list \<Rightarrow> resolve_result \<Rightarrow> resolve_result" where
  "remove_installed g [] ks res = res"
| "remove_installed g (p # ps) ks res =
     (let key = slot_key_of p; i = get_var g (pkg_key p) in
      if res key \<noteq> None then remove_installed g ps ks res
      else if i = 0 then remove_installed g ps ks res
      else if has_conflict_with g i ks res
      then remove_installed g ps (ks @ [key]) (res(key \<mapsto> \<lparr>re_Package = p, re_Action = ActionRemove\<rparr>))
      else remove_installed g ps ks res)"

definition add_removed_packages ::
  "portage_resolver \<Rightarrow> sat_adapter \<Rightarrow> slot_key list \<Rightarrow> resolve_result \<Rightarrow> resolve_result" where
  "add_removed_packages r g ks res =
     (if rv_installedDB r = None \<or> ro_EmptyTree (rv_options r) then res
      else remove_installed g (installed_list r) ks res)"

text \<open>The keys of the result: the slots of the packages that the solution selects.\<close>

definition result_keys :: "portage_resolver \<Rightarrow> collect_state \<Rightarrow> (string \<rightharpoonup> string) \<Rightarrow> string list \<Rightarrow> slot_key list" where
  "result_keys r st sol keys = List.map_filter
     (\<lambda>key. case sol key of None \<Rightarrow> None
            | Some version \<Rightarrow> map_option slot_key_of (selected_package r st (key_name key) version)) keys"

definition make_plan ::
  "coregex \<Rightarrow> portage_resolver \<Rightarrow> collect_state \<Rightarrow> ((string \<rightharpoonup> string) \<Rightarrow> string list) \<Rightarrow> sat_adapter \<Rightarrow>
   (string \<rightharpoonup> string) \<Rightarrow> resolve_result" where
  "make_plan rx r st ord g sol =
     add_removed_packages r g (result_keys r st sol (ord sol))
       (build_result_from_solution rx r st sol (ord sol) (\<lambda>_. None))"

subsection \<open>The two phases\<close>

fun force_preferred :: "root_state \<Rightarrow> string list \<Rightarrow> sat_adapter \<Rightarrow> sat_adapter" where
  "force_preferred rs [] g = g"
| "force_preferred rs (n # ns) g =
     force_preferred rs ns
       (case rt_roots rs n of
          None \<Rightarrow> g
        | Some (p, s) \<Rightarrow> if get_var g (pkg_key p) \<noteq> 0 then add_clause [get_var g (pkg_key p)] g else g)"

record solve_orders =
  so_names :: "string list"
  so_prefs :: "int list"

definition resolve_phases ::
  "coregex \<Rightarrow> (int list list \<Rightarrow> sat_answer) \<Rightarrow> (int list list \<Rightarrow> (int \<times> nat) list \<Rightarrow> min_answer) \<Rightarrow>
   (package list \<Rightarrow> package list) \<Rightarrow> ((string \<rightharpoonup> string) \<Rightarrow> string list) \<Rightarrow> solve_orders \<Rightarrow> solve_orders \<Rightarrow>
   string list \<Rightarrow> portage_resolver \<Rightarrow> root_state \<Rightarrow> collect_state \<Rightarrow> sat_adapter \<Rightarrow> string + resolve_result" where
  "resolve_phases rx solver minimize srt ord o1 o2 roots r rs st g =
     (let upd = ro_Update (rv_options r); deep = ro_Deep (rv_options r);
          forced = force_preferred rs roots (clone g);
          rest = after_clone g forced in
      case solve_optimal solver minimize srt upd deep (so_names o1) (so_prefs o1) forced of
        (StatusSat, Some sol, False) \<Rightarrow> Inr (make_plan rx r st ord forced sol)
      | _ \<Rightarrow>
          (case solve_optimal solver minimize srt upd deep (so_names o2) (so_prefs o2) rest of
             (_, _, True) \<Rightarrow> Inl ''solver timeout''
           | (StatusSat, Some sol, False) \<Rightarrow> Inr (make_plan rx r st ord rest sol)
           | _ \<Rightarrow> Inl ''no solution found (UNSAT, see explanation above)''))"

text \<open>The loop over the loaded roots that collects their candidates, and the whole of \<open>Resolve\<close>.\<close>

fun collect_roots ::
  "nat \<Rightarrow> coregex \<Rightarrow> (package list \<Rightarrow> package list) \<Rightarrow> (package \<Rightarrow> int list) \<Rightarrow> portage_resolver \<Rightarrow> root_state \<Rightarrow>
   string list \<Rightarrow> collect_state \<Rightarrow> collect_state option" where
  "collect_roots n rx srt gids r rs [] st = Some st"
| "collect_roots n rx srt gids r rs (name # names) st =
     (case rt_roots rs name of
        None \<Rightarrow> collect_roots n rx srt gids r rs names st
      | Some (p, s) \<Rightarrow>
          (let st1 = add_candidate_versions srt r (p_Name p) st in
           case collect_packages n rx srt gids r (candidates_of st1 (p_Name p)) st1 of
             None \<Rightarrow> None
           | Some st2 \<Rightarrow> collect_roots n rx srt gids r rs names st2))"

definition with_root_names :: "portage_resolver \<Rightarrow> root_state \<Rightarrow> portage_resolver" where
  "with_root_names r rs = r\<lparr>rv_rootNames := (\<lambda>name. if name \<in> set (rt_names rs) then Some True else None)\<rparr>"

definition resolve_candidates ::
  "nat \<Rightarrow> coregex \<Rightarrow> (nat \<Rightarrow> bool) \<Rightarrow> (package list \<Rightarrow> package list) \<Rightarrow> orders \<Rightarrow> portage_resolver \<Rightarrow>
   string list \<Rightarrow> (string + root_state \<times> collect_state \<times> string list) option" where
  "resolve_candidates n rx ul srt od r packages =
     (case load_roots ul srt r packages \<lparr>rt_names = [], rt_roots = (\<lambda>_. None)\<rparr> of
        Inl e \<Rightarrow> Some (Inl e)
      | Inr rs \<Rightarrow>
          (case collect_roots n rx srt (od_groups od) (with_root_names r rs) rs (od_roots od)
                  \<lparr>cs_allPackages = (\<lambda>_. None), cs_allCandidates = (\<lambda>_. None), cs_explored = 0\<rparr> of
             None \<Rightarrow> None
           | Some st \<Rightarrow> Some (Inr (rs, inject_installed (with_root_names r rs) st))))"

definition resolve ::
  "nat \<Rightarrow> coregex \<Rightarrow> (nat \<Rightarrow> bool) \<Rightarrow> (int list list \<Rightarrow> sat_answer) \<Rightarrow>
   (int list list \<Rightarrow> (int \<times> nat) list \<Rightarrow> min_answer) \<Rightarrow> (package list \<Rightarrow> package list) \<Rightarrow>
   ((string \<rightharpoonup> string) \<Rightarrow> string list) \<Rightarrow> orders \<Rightarrow> solve_orders \<Rightarrow> solve_orders \<Rightarrow> portage_resolver \<Rightarrow>
   string list \<Rightarrow> (string + resolve_result) option" where
  "resolve n rx ul solver minimize srt ord od o1 o2 r packages =
     (case resolve_candidates n rx ul srt od r packages of
        None \<Rightarrow> None
      | Some (Inl e) \<Rightarrow> Some (Inl e)
      | Some (Inr (rs, st, keys)) \<Rightarrow>
          (let r1 = with_root_names r rs in
           Some (resolve_phases rx solver minimize srt ord o1 o2 (od_roots od) r1 rs st
                   (encode rx ul r1 od rs st keys))))"

subsection \<open>What the phases answer\<close>

lemma solve_optimal_answer:
  assumes "adapter_built rx g" "sat_solver solver" "sat_minimizer minimize"
  shows "case solve_optimal solver minimize srt upd deep ns os g of
      (StatusSat, Some sol, failed) \<Rightarrow> \<not> failed \<and> (\<exists>bs. models (model_true bs) g \<and> sol = extract_solution g bs)
    | (StatusUnsat, None, failed) \<Rightarrow> \<not> failed \<and> (\<forall>m. \<not> models m g)
    | (StatusIndet, None, failed) \<Rightarrow> failed \<and> solver (sa_clauses g) = Indet
    | _ \<Rightarrow> False"
proof (cases "solver (sa_clauses g)")
  case (Sat bs)
  obtain soft ws where sw: "soft_problem srt upd deep ns os g = (soft, ws)" by fastforce
  let ?prefs = "build_version_preferences srt upd deep ns g"
  let ?items = "soft_items ?prefs @ or_items (or_weight ?prefs) g os"
  have r: "relax (int (length (sa_vars g)) + 1) ?items = (soft, ws)"
    using sw by (simp add: soft_problem_def Let_def)
  have known: "\<forall>(i, w) \<in> set ?items. 0 < i \<and> i \<le> int (length (sa_vars g))"
    by (rule items_known [OF assms(1)])
  have "models (model_true bs) g" by (rule sat_solver.sat_models [OF assms(2) built_inv [OF assms(1)] Sat])
  then show ?thesis
    using sat_minimizer.min_model_penalty(1) [OF assms(3) built_inv [OF assms(1)] known r]
    by (auto simp: solve_optimal_eq solve_def Sat sw split: min_answer.split)
next
  case Unsat
  then show ?thesis
    using sat_solver.unsat_models [OF assms(2) built_inv [OF assms(1)]] by (simp add: solve_optimal_eq solve_def)
qed (simp add: solve_optimal_eq solve_def)

text \<open>
  Forcing a root adds unit clauses and nothing else, so the second phase solves the original problem and a
  plan read from the forced problem is the plan of the original one.
\<close>

definition more_units :: "sat_adapter \<Rightarrow> sat_adapter \<Rightarrow> bool" where
  "more_units g h \<longleftrightarrow> same_world g h \<and> sa_implications h = sa_implications g \<and> sa_prohibits h = sa_prohibits g \<and>
     sa_rootVars h = sa_rootVars g \<and> sa_orGroupPrefs h = sa_orGroupPrefs g \<and>
     (\<exists>cs ms. sa_clauses h = sa_clauses g @ cs \<and> sa_clausesMeta h = sa_clausesMeta g @ ms \<and> length ms = length cs \<and>
        (\<forall>c \<in> set cs. length c = 1))"

lemma more_units_refl: "more_units g g"
  by (simp add: more_units_def)

lemma more_units_clone: "more_units g (clone g)"
  by (simp add: more_units_def same_world_def clone_def)

lemma more_units_add:
  assumes "more_units g h"
  shows "more_units g (add_clause [i] h)"
proof -
  obtain cs ms where u: "sa_clauses h = sa_clauses g @ cs" "sa_clausesMeta h = sa_clausesMeta g @ ms"
      "length ms = length cs" "\<forall>c \<in> set cs. length c = 1"
    using assms by (auto simp: more_units_def)
  have "\<exists>cs ms. sa_clauses (add_clause [i] h) = sa_clauses g @ cs \<and>
      sa_clausesMeta (add_clause [i] h) = sa_clausesMeta g @ ms \<and> length ms = length cs \<and> (\<forall>c \<in> set cs. length c = 1)"
  proof (cases "clause_key [i] \<in> sa_addedClauses h")
    case False
    show ?thesis
      by (rule exI [where x = "cs @ [[i]]"],
          rule exI [where x = "ms @ [case sa_pendingMeta h of Some mt \<Rightarrow> mt | None \<Rightarrow> no_meta]"])
        (simp add: add_clause_def False u)
  qed (use u in \<open>auto simp: add_clause_def\<close>)
  moreover have "sa_orGroupPrefs (add_clause [i] h) = sa_orGroupPrefs h" by (simp add: add_clause_def)
  ultimately show ?thesis using assms by (simp add: more_units_def same_world_def)
qed

lemma more_units_force: "more_units g h \<Longrightarrow> more_units g (force_preferred rs ns h)"
  by (induction ns arbitrary: h) (simp_all add: more_units_add split: option.split prod.split)

lemmas forced_units = more_units_force [OF more_units_clone]

lemma after_forced:
  "after_clone g (force_preferred rs ns (clone g)) = g\<lparr>sa_addedClauses := sa_addedClauses (force_preferred rs ns (clone g))\<rparr>"
  using forced_units [of g rs ns] by (simp add: more_units_def same_world_def after_clone_def)

lemma seen_ignored:
  "rank_newest (g\<lparr>sa_addedClauses := s\<rparr>) name k ps = rank_newest g name k ps"
  "installed_index (g\<lparr>sa_addedClauses := s\<rparr>) name k ps = installed_index g name k ps"
  "rank_keep (g\<lparr>sa_addedClauses := s\<rparr>) name idx k nr ps = rank_keep g name idx k nr ps"
  "or_items w (g\<lparr>sa_addedClauses := s\<rparr>) os = or_items w g os"
proof -
  show "rank_newest (g\<lparr>sa_addedClauses := s\<rparr>) name k ps = rank_newest g name k ps"
    by (induction ps arbitrary: k) (simp_all split: option.split)
  show "installed_index (g\<lparr>sa_addedClauses := s\<rparr>) name k ps = installed_index g name k ps"
    by (induction ps arbitrary: k) (simp_all add: is_var_installed_def split: option.split)
  show "rank_keep (g\<lparr>sa_addedClauses := s\<rparr>) name idx k nr ps = rank_keep g name idx k nr ps"
    by (induction ps arbitrary: k nr idx) (simp_all split: option.split)
  show "or_items w (g\<lparr>sa_addedClauses := s\<rparr>) os = or_items w g os"
    by (induction os) (simp_all split: option.split)
qed

lemma solve_optimal_seen:
  "solve_optimal solver minimize srt upd deep ns os (g\<lparr>sa_addedClauses := s\<rparr>)
     = solve_optimal solver minimize srt upd deep ns os g"
proof -
  let ?g = "g\<lparr>sa_addedClauses := s\<rparr>"
  have "extract_solution ?g = extract_solution g" by (simp add: extract_solution_def fun_eq_iff)
  moreover from this have "solve solver ?g = solve solver g" by (simp add: solve_def split: sat_answer.split)
  moreover have "rank_versions srt upd deep ?g = rank_versions srt upd deep g"
    by (simp add: rank_versions_def versions_of_def is_root_name_def root_name_of_def seen_ignored fun_eq_iff Let_def)
  then have "build_version_preferences srt upd deep ns ?g = build_version_preferences srt upd deep ns g"
    by (simp add: build_version_preferences_def)
  then have "soft_problem srt upd deep ns os ?g = soft_problem srt upd deep ns os g"
    by (simp add: soft_problem_def Let_def seen_ignored)
  ultimately show ?thesis by (simp add: solve_optimal_eq split: min_answer.split)
qed

lemma remove_installed_cong:
  assumes "\<And>i ks res. has_conflict_with h i ks res = has_conflict_with g i ks res" "sa_vars h = sa_vars g"
  shows "remove_installed h ps ks res = remove_installed g ps ks res"
  by (induction ps arbitrary: ks res) (simp_all add: assms get_var_def Let_def)

lemma make_plan_units:
  assumes "more_units g h" "length (sa_clausesMeta g) = length (sa_clauses g)"
  shows "make_plan rx r st ord h sol = make_plan rx r st ord g sol"
proof -
  obtain cs ms where u: "sa_clauses h = sa_clauses g @ cs" "sa_clausesMeta h = sa_clausesMeta g @ ms"
      "length ms = length cs" "\<forall>c \<in> set cs. length c = 1"
    using assms(1) by (auto simp: more_units_def)
  have names: "sa_varNames h = sa_varNames g" "sa_vars h = sa_vars g"
    using assms(1) by (simp_all add: more_units_def same_world_def)
  have "conflict_partner i c = None" if "length c = 1" for i c
    using that by (cases c) (auto simp: conflict_partner_def)
  with u(4) have none: "\<forall>c \<in> set cs. conflict_partner i c = None" for i by simp
  have "has_conflict_with h i ks res = has_conflict_with g i ks res" for i ks res
  proof -
    have "\<not> list_ex (\<lambda>(c, meta). cm_Source meta = ClauseConflict \<and> (case conflict_partner i c of None \<Rightarrow> False
        | Some j \<Rightarrow> (case sa_varNames g j of None \<Rightarrow> False | Some key \<Rightarrow> in_result ks res key))) (zip cs ms)"
      (is "\<not> list_ex ?P _")
    proof
      assume "list_ex ?P (zip cs ms)"
      then obtain c mt where c: "(c, mt) \<in> set (zip cs ms)" "?P (c, mt)" by (auto simp: list_ex_iff)
      from none [of i] set_zip_leftD [OF c(1)] have "conflict_partner i c = None" by blast
      with c(2) show False by simp
    qed
    moreover have "zip (sa_clauses g @ cs) (sa_clausesMeta g @ ms) = zip (sa_clauses g) (sa_clausesMeta g) @ zip cs ms"
      using assms(2) by (intro zip_append) simp
    ultimately show ?thesis unfolding has_conflict_with_def u(1,2) names by (simp only: list_ex_append) blast
  qed
  from remove_installed_cong [OF this names(2)] show ?thesis by (simp add: make_plan_def add_removed_packages_def)
qed

definition prefers :: "root_state \<Rightarrow> string list \<Rightarrow> sat_adapter \<Rightarrow> (int \<Rightarrow> bool) \<Rightarrow> bool" where
  "prefers rs ns g m \<longleftrightarrow> (\<forall>n \<in> set ns. \<forall>p s. rt_roots rs n = Some (p, s) \<longrightarrow>
     get_var g (pkg_key p) \<noteq> 0 \<longrightarrow> selects m g p)"

lemma force_preferred_models:
  assumes "adapter_built rx g"
  shows "adapter_built rx (force_preferred rs ns g) \<and> (models m (force_preferred rs ns g) \<longleftrightarrow> models m g \<and> prefers rs ns g m)"
  using assms
proof (induction ns arbitrary: g)
  case (Cons n ns)
  show ?case
  proof (cases "\<exists>p s. rt_roots rs n = Some (p, s) \<and> get_var g (pkg_key p) \<noteq> 0")
    case True
    then obtain p s where p: "rt_roots rs n = Some (p, s)" "get_var g (pkg_key p) \<noteq> 0" by blast
    let ?c = "[get_var g (pkg_key p)]"
    note lit = get_var_lit [OF built_inv [OF Cons.prems] p(2)]
    have "adapter_built rx (add_clause ?c g)" using lit by (intro built_raw Cons.prems) simp_all
    from Cons.IH [OF this] have "adapter_built rx (force_preferred rs ns (add_clause ?c g))"
      "models m (force_preferred rs ns (add_clause ?c g)) \<longleftrightarrow> models m (add_clause ?c g) \<and> prefers rs ns (add_clause ?c g) m"
      by simp_all
    moreover have "models m (add_clause ?c g) \<longleftrightarrow> models m g \<and> selects m g p"
      using models_add_clause [OF sat_invD(3) [OF built_inv [OF Cons.prems]]] lit by (simp add: lit_pos selects_def)
    moreover have "prefers rs ns (add_clause ?c g) m = prefers rs ns g m"
      by (simp add: prefers_def selects_def get_var_def)
    ultimately show ?thesis using p by (auto simp: prefers_def)
  next
    case False
    then have "force_preferred rs (n # ns) g = force_preferred rs ns g" "prefers rs (n # ns) g m = prefers rs ns g m"
      by (auto simp: prefers_def split: option.split)
    with Cons.IH [OF Cons.prems] show ?thesis by simp
  qed
qed (simp add: prefers_def)

lemma resolve_phases_eq:
  fixes r rs roots g solver minimize srt o1 o2
  defines "first \<equiv> solve_optimal solver minimize srt (ro_Update (rv_options r)) (ro_Deep (rv_options r)) (so_names o1)
      (so_prefs o1) (force_preferred rs roots (clone g))"
    and "second \<equiv> solve_optimal solver minimize srt (ro_Update (rv_options r)) (ro_Deep (rv_options r)) (so_names o2)
      (so_prefs o2) g"
  assumes "length (sa_clausesMeta g) = length (sa_clauses g)"
  shows "resolve_phases rx solver minimize srt ord o1 o2 roots r rs st g =
     (case first of
        (StatusSat, Some sol, False) \<Rightarrow> Inr (make_plan rx r st ord g sol)
      | _ \<Rightarrow> (case second of
             (_, _, True) \<Rightarrow> Inl ''solver timeout''
           | (StatusSat, Some sol, False) \<Rightarrow> Inr (make_plan rx r st ord g sol)
           | _ \<Rightarrow> Inl ''no solution found (UNSAT, see explanation above)''))"
proof -
  have "make_plan rx r st ord (force_preferred rs roots (clone g)) sol = make_plan rx r st ord g sol" for sol
    by (rule make_plan_units [OF forced_units assms(3)])
  moreover have "make_plan rx r st ord (g\<lparr>sa_addedClauses := x\<rparr>) sol = make_plan rx r st ord g sol" for sol x
    by (rule make_plan_units [OF _ assms(3)]) (simp add: more_units_def same_world_def)
  ultimately show ?thesis
    unfolding resolve_phases_def Let_def after_forced solve_optimal_seen first_def [symmetric] second_def [symmetric]
    by presburger
qed

definition extracted :: "sat_adapter \<Rightarrow> (int \<Rightarrow> bool) \<Rightarrow> (string \<rightharpoonup> string) \<Rightarrow> bool" where
  "extracted g m sol \<longleftrightarrow> (\<exists>bs. m = model_true bs \<and> sol = extract_solution g bs)"

lemma resolve_phases_answer:
  assumes "adapter_built rx g" "sat_solver solver" "sat_minimizer minimize"
    "resolve_phases rx solver minimize srt ord o1 o2 roots r rs st g = answer"
  shows "case answer of
      Inr plan \<Rightarrow> \<exists>m sol. models m g \<and> extracted g m sol \<and> plan = make_plan rx r st ord g sol \<and>
        ((\<forall>cls. solver cls \<noteq> Indet) \<and> (\<exists>m'. models m' g \<and> prefers rs roots g m') \<longrightarrow> prefers rs roots g m)
    | Inl e \<Rightarrow> e = ''solver timeout'' \<and> solver (sa_clauses g) = Indet \<or>
        e = ''no solution found (UNSAT, see explanation above)'' \<and> (\<forall>m. \<not> models m g)"
proof -
  note meta = sat_invD(3) [OF built_inv [OF assms(1)], unfolded clauses_inv_def, THEN conjunct1]
  let ?f = "force_preferred rs roots (clone g)"
  let ?first = "solve_optimal solver minimize srt (ro_Update (rv_options r)) (ro_Deep (rv_options r)) (so_names o1)
      (so_prefs o1) ?f"
  let ?second = "solve_optimal solver minimize srt (ro_Update (rv_options r)) (ro_Deep (rv_options r)) (so_names o2)
      (so_prefs o2) g"
  have cl: "prefers rs roots (clone g) m = prefers rs roots g m" for m
    by (simp add: prefers_def selects_def get_var_def clone_def)
  have built: "adapter_built rx ?f" and mod: "models m ?f \<longleftrightarrow> models m g \<and> prefers rs roots g m" for m
    using force_preferred_models [OF built_clone [OF assms(1)], of rs roots] cl by simp_all
  have ext: "extract_solution ?f = extract_solution g"
    using forced_units [of g rs roots] by (simp add: extract_solution_def more_units_def same_world_def fun_eq_iff)
  note a1 = solve_optimal_answer [OF built assms(2,3), of srt "ro_Update (rv_options r)" "ro_Deep (rv_options r)"
      "so_names o1" "so_prefs o1"]
  note a2 = solve_optimal_answer [OF assms(1,2,3), of srt "ro_Update (rv_options r)" "ro_Deep (rv_options r)"
      "so_names o2" "so_prefs o2"]
  obtain s1 sol1 f1 where e1: "?first = (s1, sol1, f1)" by (metis prod_cases3)
  obtain s2 sol2 f2 where e2: "?second = (s2, sol2, f2)" by (metis prod_cases3)
  note eq = resolve_phases_eq [OF meta, of rx solver minimize srt ord o1 o2 roots r rs st, unfolded e1 e2 assms(4)]
  show ?thesis
  proof (cases "\<exists>sol. (s1, sol1, f1) = (StatusSat, Some sol, False)")
    case True
    then obtain sol where s: "s1 = StatusSat" "sol1 = Some sol" "f1 = False" by blast
    with a1 e1 obtain bs where "models (model_true bs) ?f" "sol = extract_solution g bs" by (auto simp: ext)
    then show ?thesis unfolding eq s by (auto simp: mod extracted_def)
  next
    case False
    from a1 have no: "\<not> (\<exists>m. models m g \<and> prefers rs roots g m)" if "\<forall>cls. solver cls \<noteq> Indet"
      using False that unfolding e1 by (auto simp: mod split: status.splits option.splits)
    have a: "answer = (case (s2, sol2, f2) of
             (_, _, True) \<Rightarrow> Inl ''solver timeout''
           | (StatusSat, Some sol, False) \<Rightarrow> Inr (make_plan rx r st ord g sol)
           | _ \<Rightarrow> Inl ''no solution found (UNSAT, see explanation above)'')"
      unfolding eq using False by (auto split: status.splits option.splits bool.splits)
    show ?thesis
    proof (cases f2)
      case True
      with a2 a show ?thesis unfolding e2 by (auto split: status.splits option.splits)
    next
      case ok: False
      show ?thesis
      proof (cases "s2 = StatusSat \<and> sol2 \<noteq> None")
        case True
        then obtain sol where s: "s2 = StatusSat" "sol2 = Some sol" by blast
        with a2 e2 obtain bs where "models (model_true bs) g" "sol = extract_solution g bs" by auto
        then have "models (model_true bs) g \<and> extracted g (model_true bs) sol \<and>
            answer = Inr (make_plan rx r st ord g sol) \<and>
            ((\<forall>cls. solver cls \<noteq> Indet) \<and> (\<exists>m'. models m' g \<and> prefers rs roots g m') \<longrightarrow> prefers rs roots g (model_true bs))"
          using no a s ok by (auto simp: extracted_def)
        then show ?thesis by auto
      next
        case unsat: False
        with a2 ok have "\<forall>m. \<not> models m g" unfolding e2 by (auto split: status.splits option.splits)
        with a unsat ok show ?thesis by (auto split: status.splits option.splits)
      qed
    qed
  qed
qed

subsection \<open>The encoded problem is one the adapter's operations build\<close>

lemma required_built:
  "adapter_built rx g \<Longrightarrow> known_lit g v \<Longrightarrow> 0 < v \<Longrightarrow> adapter_built rx (add_required_deps rx v ds g)"
proof (induction ds arbitrary: g)
  case (Cons d ds)
  let ?h = "case c_Type d of ConstraintTypeSlot \<Rightarrow> add_implication_slot_constraint rx v d g
    | _ \<Rightarrow> add_implication_constraint rx v d g"
  have "adapter_built rx ?h"
    using Cons.prems by (auto intro: built_implication built_implication_slot split: constraint_type.split)
  moreover have "known_lit ?h v"
    by (rule same_world_lit [OF extends_world [OF required_dep_step [OF built_inv [OF Cons.prems(1)] Cons.prems(2,3)]]
        Cons.prems(2)])
  ultimately show ?case using Cons.IH Cons.prems(3) by simp
qed simp

lemma or_built:
  "adapter_built rx g \<Longrightarrow> known_lit g v \<Longrightarrow> 0 < v \<Longrightarrow> adapter_built rx (add_or_deps rx v gs g)"
proof (induction gs arbitrary: g)
  case (Cons alts gs)
  have "adapter_built rx (add_implication_or_group rx v alts g)"
    using Cons.prems by (intro built_implication_or)
  moreover have "known_lit (add_implication_or_group rx v alts g) v"
    using same_world_lit [OF same_world_implications(3) [OF sat_invD(2) [OF built_inv [OF Cons.prems(1)]]]] Cons.prems(2) .
  ultimately show ?case using Cons.IH Cons.prems(3) by simp
qed simp

lemma blockers_built:
  "adapter_built rx g \<Longrightarrow> known_lit g v \<Longrightarrow> 0 < v \<Longrightarrow> adapter_built rx (add_blockers rx v bs g)"
proof (induction bs arbitrary: g)
  case (Cons b bs)
  let ?h = "case be_Atom b of None \<Rightarrow> g | Some a \<Rightarrow> add_blocker_conflict rx v (Some a) g"
  have "adapter_built rx ?h" using Cons.prems by (auto intro: built_blocker split: option.split)
  moreover have "same_world g ?h"
    by (auto simp: add_blocker_conflict_def same_world_block split: option.split)
  then have "known_lit ?h v" using same_world_lit Cons.prems(2) by blast
  ultimately show ?case using Cons.IH Cons.prems(3) by simp
qed simp

lemma package_built:
  assumes "adapter_built rx g"
  shows "adapter_built rx (add_package_constraints rx r roots gids p g)"
proof (cases "get_var g (pkg_key p) = 0")
  case False
  let ?v = "get_var g (pkg_key p)"
  note inv = built_inv [OF assms]
  have v: "known_lit g ?v" "0 < ?v" using get_var_lit [OF inv False] by auto
  note d = required_deps_step [OF inv v, where rx = rx and ds = "encoded_deps r g p"]
  note o = or_deps_step [OF extends_inv [OF d] same_world_lit [OF extends_world [OF d] v(1)] v(2),
      where rx = rx and gs = "encoded_groups r (gids p) g p"]
  have d1: "adapter_built rx (add_required_deps rx ?v (encoded_deps r g p) g)"
    by (rule required_built [OF assms v])
  have d2: "adapter_built rx (add_or_deps rx ?v (encoded_groups r (gids p) g p)
      (add_required_deps rx ?v (encoded_deps r g p) g))"
    by (rule or_built [OF d1 same_world_lit [OF extends_world [OF d] v(1)] v(2)])
  show ?thesis
    using assms blockers_built [OF d2 same_world_lit [OF extends_world [OF extends_trans [OF d o]] v(1)] v(2)]
    by (simp add: add_package_constraints_def Let_def)
qed (simp add: add_package_constraints_def assms)

lemma candidates_built:
  "adapter_built rx g \<Longrightarrow> adapter_built rx (encode_candidates rx r roots gids ps g)"
  by (induction ps arbitrary: g) (simp_all add: encode_candidates_def package_built)

lemma roots_built: "adapter_built rx g \<Longrightarrow> adapter_built rx (add_root_constraints rx ul rs ns g)"
proof (induction ns arbitrary: g)
  case (Cons n ns)
  note inv = built_inv [OF Cons.prems]
  have lits: "\<forall>l \<in> set (root_candidate_vars rx ul p s g). known_lit g l" for p s
    using root_choices_var [OF inv] get_var_lit [OF inv] by (auto simp: root_vars_choices [OF inv])
  have "adapter_built rx (add_root_vars vs (add_clause vs (with_meta a b g)))"
    if "vs = root_candidate_vars rx ul p s g" "vs \<noteq> []" for vs p s a b
    using that lits by (intro built_roots built_tagged Cons.prems) auto
  with Cons.prems Cons.IH show ?case by (auto simp: Let_def split: option.split)
qed simp

lemma encode_built:
  assumes "enumerates (od_names od) (sa_packages (registered od st keys))"
    "\<forall>sk. slot_groups (registered od st keys) (od_names od) sk \<noteq> [] \<longrightarrow> sk \<in> set (od_slots od)"
  shows "adapter_built rx (encode rx ul r od rs st keys)"
proof -
  let ?g = "registered od st keys"
  let ?a = "add_root_constraints rx ul rs (od_roots od) ?g"
  let ?enc = "encode_candidates rx r (rt_names rs) (od_groups od)"
  let ?b = "?enc (candidate_list st (od_encode od)) ?a"
  let ?c = "?enc (filter (\<lambda>p. cs_allCandidates st (p_Name p) = None) (package_list st (od_encodePackages od))) ?b"
  note a = roots_step [OF built_inv [OF registered_built], where rx = rx and ul = ul and rs = rs and ns = "od_roots od"]
  note ab = extends_trans [OF a candidates_step [OF extends_inv [OF a]]]
  note abc = extends_trans [OF ab candidates_step [OF extends_inv [OF ab]]]
  note w = same_world_reads [OF extends_world [OF abc]]
  have "adapter_built rx ?c" by (intro candidates_built roots_built registered_built)
  then show ?thesis
    unfolding encode_def using assms by (intro built_at_most_one) (simp_all only: w)
qed

subsection \<open>Collecting ends\<close>

text \<open>
  The keys of the packages that the repository returns lie in \<open>U\<close>; every candidate in the state came from
  it.
\<close>

definition repository_keys :: "repository \<Rightarrow> string set \<Rightarrow> bool" where
  "repository_keys repo U \<longleftrightarrow> (\<forall>name ps. rp_GetAllVersions repo name = Inr ps \<longrightarrow> pkg_key ` set ps \<subseteq> U)"

definition candidates_in :: "string set \<Rightarrow> collect_state \<Rightarrow> bool" where
  "candidates_in U st \<longleftrightarrow> (\<forall>name. pkg_key ` set (candidates_of st name) \<subseteq> U)"

definition left_to_visit :: "string set \<Rightarrow> collect_state \<Rightarrow> nat" where
  "left_to_visit U st = card (U - dom (cs_allPackages st))"

lemma add_candidates_in:
  assumes "repository_keys (rv_repo r) U" "\<forall>ps. set (srt ps) \<subseteq> set ps" "candidates_in U st"
  shows "candidates_in U (add_candidate_versions srt r name st)"
proof (cases "cs_allCandidates st name = None")
  case True
  have "pkg_key ` set (srt (filter_masked_packages r ps)) \<subseteq> U" if "rp_GetAllVersions (rv_repo r) name = Inr ps" for ps
    using assms(1,2) that unfolding repository_keys_def filter_masked_packages_def by fastforce
  then have "pkg_key ` set (candidates_of (add_candidate_versions srt r name st) n) \<subseteq> U" for n
    using assms(3) True
    by (cases "rp_GetAllVersions (rv_repo r) name")
      (simp_all add: candidates_in_def candidates_of_def add_candidate_versions_def Let_def)
  then show ?thesis by (simp add: candidates_in_def)
qed (simp add: add_candidate_versions_def assms(3))

lemma add_candidates_packages [simp]: "cs_allPackages (add_candidate_versions srt r name st) = cs_allPackages st"
  by (simp add: add_candidate_versions_def Let_def)

lemma blocker_targets_in:
  assumes "repository_keys (rv_repo r) U" "\<forall>ps. set (srt ps) \<subseteq> set ps"
  shows "candidates_in U st \<Longrightarrow> candidates_in U (add_blocker_targets srt r bs st)"
  by (induction bs arbitrary: st) (simp_all add: add_candidates_in [OF assms] split: option.split)

lemma blocker_targets_packages [simp]: "cs_allPackages (add_blocker_targets srt r bs st) = cs_allPackages st"
  by (induction bs arbitrary: st) (simp_all split: option.split)

definition visited_more :: "string set \<Rightarrow> collect_state \<Rightarrow> collect_state option \<Rightarrow> bool" where
  "visited_more U st res \<longleftrightarrow> (\<exists>st'. res = Some st' \<and> candidates_in U st' \<and> left_to_visit U st' \<le> left_to_visit U st)"

lemma visited_moreI: "candidates_in U st' \<Longrightarrow> left_to_visit U st' \<le> left_to_visit U st \<Longrightarrow> visited_more U st (Some st')"
  by (auto simp: visited_more_def)

lemma visited_trans:
  "visited_more U st' res \<Longrightarrow> left_to_visit U st' \<le> left_to_visit U st \<Longrightarrow> visited_more U st res"
  by (auto simp: visited_more_def)

lemma visit_new:
  assumes "finite U" "k \<in> U" "cs_allPackages st k = None" "cs_allPackages st' = (cs_allPackages st)(k \<mapsto> p)"
  shows "left_to_visit U st' < left_to_visit U st"
proof -
  have "U - dom (cs_allPackages st') = (U - dom (cs_allPackages st)) - {k}" using assms(4) by auto
  moreover have "k \<in> U - dom (cs_allPackages st)" using assms(2,3) by auto
  moreover have "finite (U - dom (cs_allPackages st))" using assms(1) by simp
  ultimately show ?thesis unfolding left_to_visit_def by (metis card_Diff1_less)
qed

lemma collecting_step:
  assumes fin: "finite U" and repo: "repository_keys (rv_repo r) U" and srt: "\<forall>ps. set (srt ps) \<subseteq> set ps"
  shows "candidates_in U st \<Longrightarrow> pkg_key p \<in> U \<Longrightarrow> left_to_visit U st < n \<Longrightarrow>
      visited_more U st (collect_package n rx srt gids r p st)"
proof (induction n arbitrary: p st)
  case (Suc n)
  note new = Suc.IH
  have packs: "visited_more U st (collect_packages n rx srt gids r ps st)"
    if "candidates_in U st" "pkg_key ` set ps \<subseteq> U" "left_to_visit U st < n" for ps st
    using that
  proof (induction ps arbitrary: st)
    case (Cons q qs)
    from new [OF Cons.prems(1) _ Cons.prems(3), of q] Cons.prems(2)
    obtain st' where q: "collect_package n rx srt gids r q st = Some st'" "candidates_in U st'"
      "left_to_visit U st' \<le> left_to_visit U st" by (auto simp: visited_more_def)
    with Cons.IH [OF q(2)] Cons.prems(2,3) have "visited_more U st' (collect_packages n rx srt gids r qs st')" by simp
    with q(1,3) show ?case by (auto intro: visited_trans)
  qed (simp add: visited_moreI)
  have deps: "visited_more U st (collect_deps n rx srt gids r ds st)"
    if "candidates_in U st" "left_to_visit U st < n" for ds st
    using that
  proof (induction ds arbitrary: st)
    case (Cons d ds)
    let ?st1 = "add_candidate_versions srt r (c_Name d) st"
    have c: "candidates_in U ?st1" by (rule add_candidates_in [OF repo srt Cons.prems(1)])
    have l: "left_to_visit U ?st1 = left_to_visit U st" by (simp add: left_to_visit_def)
    have "visited_more U ?st1 (collect_packages n rx srt gids r (candidates_of ?st1 (c_Name d)) ?st1)"
      using packs [OF c] c Cons.prems(2) l by (simp add: candidates_in_def)
    then obtain st2 where st2: "(if \<not> ro_Deep (rv_options r) \<and> is_dep_satisfied_by_installed rx r d then Some ?st1
        else collect_packages n rx srt gids r (candidates_of ?st1 (c_Name d)) ?st1) = Some st2"
      "candidates_in U st2" "left_to_visit U st2 \<le> left_to_visit U st"
      using c l by (cases "\<not> ro_Deep (rv_options r) \<and> is_dep_satisfied_by_installed rx r d") (auto simp: visited_more_def)
    with Cons.IH [OF st2(2)] Cons.prems(2) have "visited_more U st2 (collect_deps n rx srt gids r ds st2)" by simp
    with st2(1,3) show ?case by (auto simp: Let_def intro: visited_trans)
  qed (simp add: visited_moreI)
  show ?case
  proof (cases "cs_allPackages st (pkg_key p) \<noteq> None \<or> rv_masked r p")
    case True
    with Suc.prems(1) show ?thesis by (auto simp: visited_moreI)
  next
    case False
    let ?st1 = "st\<lparr>cs_allPackages := (cs_allPackages st)(pkg_key p \<mapsto> p)\<rparr>"
    let ?st3 = "add_blocker_targets srt r (p_Blockers p) (add_candidate_versions srt r (p_Name p) ?st1)"
    have "candidates_in U ?st1" using Suc.prems(1) by (simp add: candidates_in_def candidates_of_def)
    then have c: "candidates_in U ?st3"
      by (intro blocker_targets_in [OF repo srt] add_candidates_in [OF repo srt])
    have l: "left_to_visit U ?st3 < left_to_visit U st"
      by (rule visit_new [OF fin Suc.prems(2)]) (use False in simp_all)
    then have "visited_more U ?st3 (collect_deps n rx srt gids r (followed_deps rx r (gids p) p) ?st3)"
      using deps [OF c] Suc.prems(3) by simp
    with False l show ?thesis by (auto simp: Let_def intro: visited_trans)
  qed
qed simp

lemma collect_packages_total:
  assumes "finite U" "repository_keys (rv_repo r) U" "\<forall>ps. set (srt ps) \<subseteq> set ps"
  shows "candidates_in U st \<Longrightarrow> pkg_key ` set ps \<subseteq> U \<Longrightarrow> left_to_visit U st < n \<Longrightarrow>
      visited_more U st (collect_packages n rx srt gids r ps st)"
proof (induction ps arbitrary: st)
  case (Cons q qs)
  from collecting_step [OF assms Cons.prems(1) _ Cons.prems(3), of q rx gids] Cons.prems(2)
  obtain st' where q: "collect_package n rx srt gids r q st = Some st'" "candidates_in U st'"
    "left_to_visit U st' \<le> left_to_visit U st" by (auto simp: visited_more_def)
  with Cons.IH [OF q(2)] Cons.prems(2,3) have "visited_more U st' (collect_packages n rx srt gids r qs st')" by simp
  with q(1,3) show ?case by (auto intro: visited_trans)
qed (simp add: visited_moreI)

lemma collect_roots_total:
  assumes "finite U" "repository_keys (rv_repo r) U" "\<forall>ps. set (srt ps) \<subseteq> set ps"
  shows "candidates_in U st \<Longrightarrow> left_to_visit U st < n \<Longrightarrow>
      visited_more U st (collect_roots n rx srt gids r rs names st)"
proof (induction names arbitrary: st)
  case (Cons name names)
  show ?case
  proof (cases "rt_roots rs name")
    case (Some x)
    obtain p s where x: "x = (p, s)" by (cases x)
    let ?st1 = "add_candidate_versions srt r (p_Name p) st"
    have c: "candidates_in U ?st1" by (rule add_candidates_in [OF assms(2,3) Cons.prems(1)])
    have l: "left_to_visit U ?st1 = left_to_visit U st" by (simp add: left_to_visit_def)
    have "visited_more U ?st1 (collect_packages n rx srt gids r (candidates_of ?st1 (p_Name p)) ?st1)"
      using collect_packages_total [OF assms c] c Cons.prems(2) l by (simp add: candidates_in_def)
    then obtain st2 where st2: "collect_packages n rx srt gids r (candidates_of ?st1 (p_Name p)) ?st1 = Some st2"
      "candidates_in U st2" "left_to_visit U st2 \<le> left_to_visit U st" using l by (auto simp: visited_more_def)
    with Cons.IH [OF st2(2)] Cons.prems(2) have "visited_more U st2 (collect_roots n rx srt gids r rs names st2)" by simp
    with st2(1,3) Some x show ?thesis by (auto simp: Let_def intro: visited_trans)
  qed (use Cons in simp)
qed (simp add: visited_moreI)

subsection \<open>The action of a package\<close>

definition in_slot :: "string \<Rightarrow> string \<Rightarrow> package \<Rightarrow> bool" where
  "in_slot name slot_name q \<longleftrightarrow> p_Name q = name \<and> sl_Name (p_Slot q) = slot_name"

lemma best_installed_newest:
  assumes "ordered_versions rx A" "set ps \<subseteq> A" "\<forall>b. best = Some b \<longrightarrow> b \<in> A"
  shows "case best_installed rx name slot_name ps best of
      None \<Rightarrow> best = None \<and> (\<forall>q \<in> set ps. \<not> in_slot name slot_name q)
    | Some b \<Rightarrow> b \<in> A \<and> (best = Some b \<or> b \<in> set ps \<and> in_slot name slot_name b) \<and>
        (\<forall>q \<in> set ps. in_slot name slot_name q \<longrightarrow> \<not> newer rx q b) \<and>
        (\<forall>q. best = Some q \<longrightarrow> \<not> newer rx q b)"
  using assms(2,3)
proof (induction ps arbitrary: best)
  case Nil
  then show ?case using assms(1) by (auto simp: ordered_versions_def split: option.split)
next
  case (Cons p ps)
  have asym: "newer rx a b \<Longrightarrow> \<not> newer rx b a" if "a \<in> A" "b \<in> A" for a b
    using assms(1) that unfolding ordered_versions_def by metis
  have tr: "\<not> newer rx b a \<Longrightarrow> \<not> newer rx c b \<Longrightarrow> \<not> newer rx c a" if "a \<in> A" "b \<in> A" "c \<in> A" for a b c
    using assms(1) that unfolding ordered_versions_def by metis
  have pA: "p \<in> A" "set ps \<subseteq> A" using Cons.prems(1) by auto
  show ?case
  proof (cases "in_slot name slot_name p \<and> (\<forall>b. best = Some b \<longrightarrow> newer rx p b)")
    case True
    then have step: "best_installed rx name slot_name (p # ps) best = best_installed rx name slot_name ps (Some p)"
      by (auto simp: in_slot_def newer_def split: option.split)
    from Cons.IH [OF pA(2), of "Some p"] pA(1) obtain b where b: "best_installed rx name slot_name ps (Some p) = Some b"
      "b \<in> A" "b = p \<or> b \<in> set ps \<and> in_slot name slot_name b"
      "\<forall>q \<in> set ps. in_slot name slot_name q \<longrightarrow> \<not> newer rx q b" "\<not> newer rx p b"
      by (auto split: option.splits)
    have "\<not> newer rx q b" if "best = Some q" for q
      using tr [OF b(2) pA(1)] asym [OF pA(1)] b(5) True that Cons.prems(2) by blast
    with b True show ?thesis unfolding step by auto
  next
    case False
    then have step: "best_installed rx name slot_name (p # ps) best = best_installed rx name slot_name ps best"
      by (auto simp: in_slot_def newer_def split: option.split)
    have IH: "case best_installed rx name slot_name ps best of
      None \<Rightarrow> best = None \<and> (\<forall>q \<in> set ps. \<not> in_slot name slot_name q)
    | Some b \<Rightarrow> b \<in> A \<and> (best = Some b \<or> b \<in> set ps \<and> in_slot name slot_name b) \<and>
        (\<forall>q \<in> set ps. in_slot name slot_name q \<longrightarrow> \<not> newer rx q b) \<and>
        (\<forall>q. best = Some q \<longrightarrow> \<not> newer rx q b)" by (rule Cons.IH [OF pA(2) Cons.prems(2)])
    show ?thesis
    proof (cases "best_installed rx name slot_name ps best")
      case None
      with IH False show ?thesis unfolding step by auto
    next
      case (Some b)
      have "\<not> newer rx p b" if p: "in_slot name slot_name p"
      proof -
        from False p obtain b0 where b0: "best = Some b0" "\<not> newer rx p b0" by blast
        then have "\<not> newer rx b0 b" "b \<in> A" "b0 \<in> A" using IH Some Cons.prems(2) by auto
        then show ?thesis using tr b0(2) pA(1) by blast
      qed
      with IH Some show ?thesis unfolding step by auto
    qed
  qed
qed

subsection \<open>Properties\<close>

text \<open>
  A small instance: version 2 of a package depends on one that does not exist, version 1 is installed.
\<close>

definition demo_version :: "string \<Rightarrow> package" where
  "demo_version v = (new_package ''a/b'' v ''0'')\<lparr>p_Deps := if v = ''2'' then [zero_constraint\<lparr>c_Name := ''x/y''\<rparr>] else []\<rparr>"

definition demo_resolver :: portage_resolver where
  "demo_resolver = \<lparr>
     rv_repo = \<lparr>
       rp_GetAllVersions = (\<lambda>name. if name = ''a/b'' then Inr [demo_version ''1'', demo_version ''2''] else Inl ''no package''),
       rp_LoadPackage = (\<lambda>name. if name = ''a/b'' then Inr (demo_version ''2'') else Inl ''no package''),
       rp_LoadPackageVersion = (\<lambda>name v. if name = ''a/b'' then Inr (demo_version v) else Inl ''no package''),
       rp_FindByAtom = (\<lambda>_. Inr [])\<rparr>,
     rv_masked = (\<lambda>_. False), rv_maskReason = (\<lambda>_. ([], [])), rv_acceptKeywords = [],
     rv_installedDB = Some [Some (demo_version ''1'')],
     rv_options = \<lparr>ro_WithBdeps = False, ro_Deep = False, ro_NewUse = False, ro_Update = False, ro_EmptyTree = False\<rparr>,
     rv_rootNames = (\<lambda>_. None)\<rparr>"

definition demo_orders :: orders where
  "demo_orders = \<lparr>od_candidates = [''a/b'', ''x/y''], od_packages = [''a/b@2'', ''a/b@1''], od_roots = [''a/b''],
     od_encode = [''a/b'', ''x/y''], od_encodePackages = [''a/b@2'', ''a/b@1''], od_groups = (\<lambda>_. []),
     od_names = [''a/b''], od_slots = [\<lparr>sk_Name = ''a/b'', sk_Slot = ''0''\<rparr>]\<rparr>"

definition demo_solve_orders :: solve_orders where
  "demo_solve_orders = \<lparr>so_names = [''a/b''], so_prefs = []\<rparr>"

definition demo_keys :: "(string \<rightharpoonup> string) \<Rightarrow> string list" where
  "demo_keys sol = filter (\<lambda>k. sol k \<noteq> None) [''a/b@1'', ''a/b@2'']"

definition demo_problem :: "root_state \<times> collect_state \<times> string list" where
  "demo_problem = (case resolve_candidates 3 ref_coregex (\<lambda>_. False) (sort_desc ref_coregex) demo_orders demo_resolver [''a/b''] of
     Some (Inr x) \<Rightarrow> x | _ \<Rightarrow> (\<lparr>rt_names = [], rt_roots = (\<lambda>_. None)\<rparr>,
       \<lparr>cs_allPackages = (\<lambda>_. None), cs_allCandidates = (\<lambda>_. None), cs_explored = 0\<rparr>, []))"

definition demo_roots :: root_state where
  "demo_roots = fst demo_problem"

definition demo_state :: collect_state where
  "demo_state = fst (snd demo_problem)"

definition demo_registered :: sat_adapter where
  "demo_registered = registered demo_orders demo_state (snd (snd demo_problem))"

definition demo_encoded :: sat_adapter where
  "demo_encoded = encode ref_coregex (\<lambda>_. False) (with_root_names demo_resolver demo_roots) demo_orders demo_roots
     demo_state (snd (snd demo_problem))"

lemma demo_problem_ok:
  "resolve_candidates 3 ref_coregex (\<lambda>_. False) (sort_desc ref_coregex) demo_orders demo_resolver [''a/b'']
     = Some (Inr (demo_roots, demo_state, snd (snd demo_problem)))"
proof -
  have "case resolve_candidates 3 ref_coregex (\<lambda>_. False) (sort_desc ref_coregex) demo_orders demo_resolver [''a/b''] of
      Some (Inr x) \<Rightarrow> True | _ \<Rightarrow> False" by code_simp
  then show ?thesis by (auto simp: demo_problem_def demo_roots_def demo_state_def split: option.splits sum.splits)
qed

lemma dom_register:
  "dom (sa_packages (register_packages ps g)) = set (map p_Name ps) \<union> dom (sa_packages g)"
  by (induction ps arbitrary: g) (auto simp: register_packages_def dom_add_package)

lemma mark_keys_packages [simp]: "sa_packages (mark_keys ks g) = sa_packages g"
  by (induction ks arbitrary: g) (simp_all add: mark_installed_def)

lemma dom_registered:
  "dom (sa_packages (registered od st keys)) =
     set (map p_Name (candidate_list st (od_candidates od))) \<union> set (map p_Name (package_list st (od_packages od)))"
  by (auto simp: registered_def dom_register new_gophersat_adapter_def simp del: set_map)

lemma slots_listed:
  assumes "sat_inv g" "enumerates ns (sa_packages g)" "slot_groups g ns sk \<noteq> []"
  shows "sk \<in> set (map slot_key_of (concat (map (versions_of g) ns)))"
proof -
  note inv = sat_invD(2) [OF assms(1)]
  from slot_groups_eq [OF inv assms(2)] assms(3) obtain p where p: "p \<in> set (versions_of g (sk_Name sk))" "slot_key_of p = sk"
    by (auto simp: vars_for_empty)
  then have "sa_packages g (sk_Name sk) \<noteq> None"
    by (cases "sa_packages g (sk_Name sk)") (auto simp: versions_of_def)
  then have "sk_Name sk \<in> set ns" using assms(2) by (auto simp: enumerates_def)
  with p show ?thesis by force
qed

lemma demo_names: "enumerates (od_names demo_orders) (sa_packages demo_registered)"
proof -
  have "map p_Name (candidate_list demo_state (od_candidates demo_orders)) = [''a/b'', ''a/b'']"
    "map p_Name (package_list demo_state (od_packages demo_orders)) = [''a/b'', ''a/b'']"
    by code_simp+
  then show ?thesis
    by (simp add: enumerates_def demo_registered_def dom_registered demo_orders_def del: set_map)
qed

lemma demo_slots: "\<forall>sk. slot_groups demo_registered (od_names demo_orders) sk \<noteq> [] \<longrightarrow> sk \<in> set (od_slots demo_orders)"
proof -
  have inv: "sat_inv demo_registered" unfolding demo_registered_def by (rule built_inv [OF registered_built])
  have "list_all (\<lambda>k. k \<in> set (od_slots demo_orders))
      (map slot_key_of (concat (map (versions_of demo_registered) (od_names demo_orders))))"
    by code_simp
  with slots_listed [OF inv demo_names] show ?thesis unfolding list_all_iff by blast
qed

lemma demo_phases:
  "case resolve_phases ref_coregex ref_solver ref_minimize (sort_desc ref_coregex) demo_keys demo_solve_orders
      demo_solve_orders (od_roots demo_orders) (with_root_names demo_resolver demo_roots) demo_roots demo_state demo_encoded of
     Inr plan \<Rightarrow> (case plan \<lparr>sk_Name = ''a/b'', sk_Slot = ''0''\<rparr> of
       Some e \<Rightarrow> p_Version (re_Package e) = ''1'' \<and> re_Action e = ActionReinstall | None \<Rightarrow> False)
   | Inl _ \<Rightarrow> False"
  by code_simp





text \<open>
  Claim C5. \<open>Resolve\<close> ends. If the packages that the repository lists have finitely many keys \<open>name@version\<close>,
  the recursion through dependencies returns within one level more than their number, whatever cycles the
  dependencies form, because no key is visited twice.
\<close>

theorem resolve_terminates:
  assumes "finite U" "repository_keys (rv_repo r) U" "\<forall>ps. set (srt ps) \<subseteq> set ps" "card U < n"
  shows "resolve n rx ul solver minimize srt ord od o1 o2 r packages \<noteq> None"
proof -
  let ?st = "\<lparr>cs_allPackages = (\<lambda>_. None), cs_allCandidates = (\<lambda>_. None), cs_explored = 0\<rparr>"
  have "visited_more U ?st (collect_roots n rx srt (od_groups od) (with_root_names r rs) rs (od_roots od) ?st)" for rs
    using collect_roots_total [of U "with_root_names r rs" srt ?st n rx "od_groups od" rs "od_roots od"] assms
    by (simp add: with_root_names_def candidates_in_def candidates_of_def left_to_visit_def)
  then have "collect_roots n rx srt (od_groups od) (with_root_names r rs) rs (od_roots od) ?st \<noteq> None" for rs
    by (metis option.discI visited_more_def)
  then have some: "\<exists>st. collect_roots n rx srt (od_groups od) (with_root_names r rs) rs (od_roots od) ?st = Some st" for rs
    by blast
  have "resolve_candidates n rx ul srt od r packages \<noteq> None"
  proof (cases "load_roots ul srt r packages \<lparr>rt_names = [], rt_roots = (\<lambda>_. None)\<rparr>")
    case (Inr rs)
    with some [of rs] show ?thesis by (auto simp: resolve_candidates_def)
  qed (simp add: resolve_candidates_def)
  then show ?thesis
    by (auto simp: resolve_def Let_def split: option.split sum.split prod.split)
qed

theorem resolve_terminates_witness:
  "resolve 3 ref_coregex (\<lambda>_. False) ref_solver ref_minimize (sort_desc ref_coregex) demo_keys demo_orders
     demo_solve_orders demo_solve_orders demo_resolver [''a/b'', ''q/r''] \<noteq> None"
proof (rule resolve_terminates)
  have "pkg_key (demo_version ''1'') = ''a/b@1''" "pkg_key (demo_version ''2'') = ''a/b@2''" by code_simp+
  then show "repository_keys (rv_repo demo_resolver) {''a/b@1'', ''a/b@2''}"
    by (auto simp: repository_keys_def demo_resolver_def split: if_splits)
  show "\<forall>ps. set (sort_desc ref_coregex ps) \<subseteq> set ps" using desc_sorter_set [OF sort_desc_sorter] by blast
qed simp_all

text \<open>
  The action table. Against an installed database whose versions the comparison orders, a package
  is a new install when no version of it is installed, a new slot when only other slots are, and else it is
  compared with the newest version installed in its slot: reinstall or keep for the same version text,
  upgrade for a newer one, and downgrade for every other, also for one that compares equal but is written
  differently.
\<close>

theorem action_table:
  assumes "rv_installedDB r \<noteq> None" "ordered_versions rx (set (installed_list r))"
    and "slot_mates = {q \<in> set (installed_list r). in_slot (p_Name p) (sl_Name (p_Slot p)) q}"
  shows "if slot_mates = {}
         then determine_action rx r p =
           (if \<exists>q \<in> set (installed_list r). p_Name q = p_Name p then ActionNewSlot else ActionInstall)
         else \<exists>best \<in> slot_mates. (\<forall>q \<in> slot_mates. \<not> newer rx q best) \<and>
           determine_action rx r p =
             (if p_Version best = p_Version p
              then if ro_NewUse (rv_options r) \<or> flag_on (rv_rootNames r) (p_Name p) then ActionReinstall else ActionKeep
              else if newer rx p best then ActionUpgrade else ActionDowngrade)"
proof -
  note best = best_installed_newest [OF assms(2) subset_refl, of None "p_Name p" "sl_Name (p_Slot p)"]
  show ?thesis
  proof (cases "find_installed_in_slot rx r (p_Name p) (sl_Name (p_Slot p))")
    case None
    with best have "slot_mates = {}" by (auto simp: find_installed_in_slot_def assms(3))
    moreover have "determine_action rx r p =
        (if \<exists>q \<in> set (installed_list r). p_Name q = p_Name p then ActionNewSlot else ActionInstall)"
      unfolding determine_action_def None has_installed_by_name_def list_ex_iff using assms(1) by auto
    ultimately show ?thesis by simp
  next
    case (Some b)
    with best have b: "b \<in> slot_mates" "\<forall>q \<in> slot_mates. \<not> newer rx q b"
      by (auto simp: find_installed_in_slot_def assms(3))
    have "determine_action rx r p =
             (if p_Version b = p_Version p
              then if ro_NewUse (rv_options r) \<or> flag_on (rv_rootNames r) (p_Name p) then ActionReinstall else ActionKeep
              else if newer rx p b then ActionUpgrade else ActionDowngrade)"
      using assms(1) Some by (simp add: determine_action_def newer_def)
    with b show ?thesis by auto
  qed
qed

theorem action_table_witness:
  "determine_action ref_coregex demo_resolver (demo_version ''2'') = ActionUpgrade \<and>
   determine_action ref_coregex demo_resolver (demo_version ''1-r0'') = ActionDowngrade"
proof -
  have ip: "installed_list demo_resolver = [demo_version ''1'']" by (simp add: installed_list_def demo_resolver_def map_filter_simps)
  have vs: "map (\<lambda>v. compare_version_strings ref_coregex v ''1'') [''1'', ''2'', ''1-r0''] = [0, 1, 0]" by code_simp
  have pv: "p_Version (demo_version v) = v" "in_slot ''a/b'' ''0'' (demo_version v)" "p_Name (demo_version v) = ''a/b''"
      "sl_Name (p_Slot (demo_version v)) = ''0''" for v
    by code_simp+
  have o: "ordered_versions ref_coregex (set (installed_list demo_resolver))"
    using vs by (simp add: ip ordered_versions_def newer_def pv)
  have db: "rv_installedDB demo_resolver \<noteq> None" by (simp add: demo_resolver_def)
  have mates: "{demo_version ''1''} = {q \<in> set (installed_list demo_resolver).
      in_slot (p_Name (demo_version v)) (sl_Name (p_Slot (demo_version v))) q}" for v
    by (auto simp: ip pv)
  show ?thesis
    using action_table [OF db o mates [of "''2''"]] action_table [OF db o mates [of "''1-r0''"]] vs
    by (simp add: pv newer_def)
qed

end
