(* ===== verification/Scheduler.thy ===== *)
theory Scheduler
  imports Packages
begin

text \<open>
  The parallel build scheduler of the daemon (\<open>internal/daemon/scheduler.go\<close>). The goroutines of \<open>Start\<close> are
  the steps of \<open>sched_step\<close>: the loop \<open>queueReadyTasks\<close> of the main goroutine, the workers and
  \<open>collectResults\<close> interleave freely. A channel is the list of its elements, with the capacity
  \<open>2 * MaxWorkers\<close> of both channels; a send to a full channel has no step, except the non-blocking one in
  \<open>queueReadyDependents\<close>, which drops the task. What a build function returns is the choice between the
  steps \<open>finish_ok\<close> and \<open>finish_fail\<close>. Tasks are named by their ID, as in the Go maps.

  A step is one pass of a loop of one goroutine: marking a task as waiting and sending it is one step, and so
  is one collected result with the dependents it queues. In between, the other goroutines could only take or
  send further tasks and set statuses that the next step of the task overwrites.

  Left out: the clock, the captured output, log lines, the progress callback, and cancelling the context
  from outside (\<open>Stop\<close>).
\<close>

subsection \<open>Data\<close>

datatype build_status =
  BuildStatusPending | BuildStatusWaiting | BuildStatusRunning | BuildStatusCompleted | BuildStatusFailed
| BuildStatusCanceled

fun build_status_string :: "build_status \<Rightarrow> string" where
  "build_status_string BuildStatusPending = ''pending''"
| "build_status_string BuildStatusWaiting = ''waiting''"
| "build_status_string BuildStatusRunning = ''running''"
| "build_status_string BuildStatusCompleted = ''completed''"
| "build_status_string BuildStatusFailed = ''failed''"
| "build_status_string BuildStatusCanceled = ''canceled''"

datatype failure_mode = FailureModeStop | FailureModeContinue

record build_task =
  bt_ID :: string
  bt_Dependencies :: "string list"
  bt_Dependents :: "string list"
  bt_status :: build_status

definition new_build_task :: "package \<Rightarrow> build_task" where
  "new_build_task p = \<lparr>bt_ID = p_Name p @ ''-'' @ p_Version p, bt_Dependencies = [], bt_Dependents = [],
     bt_status = BuildStatusPending\<rparr>"

datatype build_worker = Idle | Building string | Sending string

record build_scheduler =
  bs_MaxWorkers :: nat
  bs_FailureMode :: failure_mode
  bs_tasks :: "string \<rightharpoonup> build_task"
  bs_buildOrder :: "string list"
  bs_completedSet :: "string set"
  bs_readyQueue :: "string list"
  bs_results :: "string list"
  bs_isRunning :: bool
  bs_hasFailed :: bool
  bs_failedTask :: "string option"
  bs_workers :: "build_worker list"
  bs_unqueued :: "string list"
  bs_pendingCount :: nat

definition new_build_scheduler :: "nat \<Rightarrow> int \<Rightarrow> failure_mode \<Rightarrow> build_scheduler" where
  "new_build_scheduler num_cpu workers mode =
     \<lparr>bs_MaxWorkers = (if workers \<le> 0 then num_cpu else nat workers), bs_FailureMode = mode, bs_tasks = (\<lambda>_. None),
      bs_buildOrder = [], bs_completedSet = {}, bs_readyQueue = [], bs_results = [], bs_isRunning = False,
      bs_hasFailed = False, bs_failedTask = None, bs_workers = [], bs_unqueued = [], bs_pendingCount = 0\<rparr>"

definition channel_size :: "build_scheduler \<Rightarrow> nat" where
  "channel_size s = bs_MaxWorkers s * 2"

definition task_status :: "build_scheduler \<Rightarrow> string \<Rightarrow> build_status option" where
  "task_status s i = map_option bt_status (bs_tasks s i)"

text \<open>\<open>GetStats\<close>; the start and the elapsed time are left out.\<close>

record scheduler_stats =
  ss_TotalTasks :: nat
  ss_PendingTasks :: nat
  ss_WaitingTasks :: nat
  ss_RunningTasks :: nat
  ss_CompletedTasks :: nat
  ss_FailedTasks :: nat
  ss_CanceledTasks :: nat
  ss_ActiveWorkers :: nat
  ss_MaxWorkers :: nat

fun is_building :: "build_worker \<Rightarrow> bool" where
  "is_building (Building _) = True"
| "is_building _ = False"

fun count_status :: "build_status \<Rightarrow> scheduler_stats \<Rightarrow> scheduler_stats" where
  "count_status BuildStatusPending t = t\<lparr>ss_PendingTasks := ss_PendingTasks t + 1\<rparr>"
| "count_status BuildStatusWaiting t = t\<lparr>ss_WaitingTasks := ss_WaitingTasks t + 1\<rparr>"
| "count_status BuildStatusRunning t = t\<lparr>ss_RunningTasks := ss_RunningTasks t + 1\<rparr>"
| "count_status BuildStatusCompleted t = t\<lparr>ss_CompletedTasks := ss_CompletedTasks t + 1\<rparr>"
| "count_status BuildStatusFailed t = t\<lparr>ss_FailedTasks := ss_FailedTasks t + 1\<rparr>"
| "count_status BuildStatusCanceled t = t\<lparr>ss_CanceledTasks := ss_CanceledTasks t + 1\<rparr>"

definition get_stats :: "string list \<Rightarrow> build_scheduler \<Rightarrow> scheduler_stats" where
  "get_stats ids s = fold count_status (List.map_filter (task_status s) ids)
     \<lparr>ss_TotalTasks = length ids, ss_PendingTasks = 0, ss_WaitingTasks = 0, ss_RunningTasks = 0, ss_CompletedTasks = 0,
      ss_FailedTasks = 0, ss_CanceledTasks = 0, ss_ActiveWorkers = length (filter is_building (bs_workers s)),
      ss_MaxWorkers = bs_MaxWorkers s\<rparr>"

definition set_status :: "string \<Rightarrow> build_status \<Rightarrow> build_scheduler \<Rightarrow> build_scheduler" where
  "set_status i st s = s\<lparr>bs_tasks := (bs_tasks s)(i := map_option (\<lambda>t. t\<lparr>bt_status := st\<rparr>) (bs_tasks s i))\<rparr>"

definition get_task :: "build_scheduler \<Rightarrow> string \<Rightarrow> build_task option" where
  "get_task s i = bs_tasks s i"

definition task_deps :: "build_scheduler \<Rightarrow> string \<Rightarrow> string list" where
  "task_deps s i = (case bs_tasks s i of Some t \<Rightarrow> bt_Dependencies t | None \<Rightarrow> [])"

definition task_dependents :: "build_scheduler \<Rightarrow> string \<Rightarrow> string list" where
  "task_dependents s i = (case bs_tasks s i of Some t \<Rightarrow> bt_Dependents t | None \<Rightarrow> [])"

subsection \<open>Adding tasks and dependencies\<close>

definition add_task :: "build_task \<Rightarrow> build_scheduler \<Rightarrow> string + build_scheduler" where
  "add_task t s =
     (if bs_isRunning s then Inl ''cannot add tasks while scheduler is running''
      else if bs_tasks s (bt_ID t) \<noteq> None then Inl (''task '' @ bt_ID t @ '' already exists'')
      else Inr (s\<lparr>bs_tasks := (bs_tasks s)(bt_ID t \<mapsto> t)\<rparr>))"

text \<open>\<open>AddTasks\<close> stops at the first error and keeps the tasks added before it.\<close>

fun add_tasks :: "build_task list \<Rightarrow> build_scheduler \<Rightarrow> string option \<times> build_scheduler" where
  "add_tasks [] s = (None, s)"
| "add_tasks (t # ts) s = (case add_task t s of Inl e \<Rightarrow> (Some e, s) | Inr s1 \<Rightarrow> add_tasks ts s1)"

definition scheduler_add_dependency :: "string \<Rightarrow> string \<Rightarrow> build_scheduler \<Rightarrow> string + build_scheduler" where
  "scheduler_add_dependency dependent dependency s =
     (if bs_isRunning s then Inl ''cannot add dependencies while scheduler is running''
      else if bs_tasks s dependent = None then Inl (''dependent task not found: '' @ dependent)
      else if bs_tasks s dependency = None then Inl (''dependency task not found: '' @ dependency)
      else
        (let m1 = (bs_tasks s)(dependent := map_option (\<lambda>t. t\<lparr>bt_Dependencies := bt_Dependencies t @ [dependency]\<rparr>)
                    (bs_tasks s dependent));
             m2 = m1(dependency := map_option (\<lambda>t. t\<lparr>bt_Dependents := bt_Dependents t @ [dependent]\<rparr>) (m1 dependency))
         in Inr (s\<lparr>bs_tasks := m2\<rparr>)))"

text \<open>
  \<open>BuildFromPackages\<close>: \<open>ks\<close> is the order in which the map of packages is read. The task of a dependency is
  looked up under the name of the dependency, which need not be a key of the map: then the program
  dereferences a nil pointer (\<open>None\<close>).
\<close>

fun link_deps :: "(string \<rightharpoonup> package) \<Rightarrow> (string \<Rightarrow> bool) \<Rightarrow> package \<Rightarrow> pkg_constraint list \<Rightarrow> build_scheduler \<Rightarrow>
  build_scheduler option" where
  "link_deps ps named p [] s = Some s"
| "link_deps ps named p (d # ds) s =
     (if \<not> named (c_Name d) then link_deps ps named p ds s
      else case ps (c_Name d) of
        None \<Rightarrow> None
      | Some q \<Rightarrow>
          link_deps ps named p ds
            (case scheduler_add_dependency (p_Name p @ ''-'' @ p_Version p) (p_Name q @ ''-'' @ p_Version q) s of
               Inl _ \<Rightarrow> s | Inr s1 \<Rightarrow> s1))"

fun link_packages :: "(string \<rightharpoonup> package) \<Rightarrow> (string \<Rightarrow> bool) \<Rightarrow> package list \<Rightarrow> build_scheduler \<Rightarrow> build_scheduler option" where
  "link_packages ps named [] s = Some s"
| "link_packages ps named (p # qs) s =
     (case link_deps ps named p (p_Deps p) s of None \<Rightarrow> None | Some s1 \<Rightarrow> link_packages ps named qs s1)"

fun add_package_tasks :: "package list \<Rightarrow> build_scheduler \<Rightarrow> string + build_scheduler" where
  "add_package_tasks [] s = Inr s"
| "add_package_tasks (p # ps) s =
     (case add_task (new_build_task p) s of
        Inl e \<Rightarrow> Inl (''failed to add task for '' @ p_Name p @ '': '' @ e)
      | Inr s1 \<Rightarrow> add_package_tasks ps s1)"

definition build_from_packages ::
  "string list \<Rightarrow> string list \<Rightarrow> (string \<rightharpoonup> package) \<Rightarrow> build_scheduler \<Rightarrow> (string + build_scheduler) option" where
  "build_from_packages ks1 ks2 ps s =
     (case add_package_tasks (List.map_filter ps ks1) s of
        Inl e \<Rightarrow> Some (Inl e)
      | Inr s1 \<Rightarrow>
          (let named = (\<lambda>n. list_ex (\<lambda>p. p_Name p = n) (List.map_filter ps ks1)) in
           map_option Inr (link_packages ps named (List.map_filter ps ks2) s1)))"

subsection \<open>The build order\<close>

text \<open>
  \<open>topologicalSort\<close>, Kahn's algorithm; \<open>ids\<close> is the order in which the in-degrees are read. The work list
  holds every task at most once, so \<open>length ids\<close> rounds are enough.
\<close>

fun lower_degrees :: "string list \<Rightarrow> (string \<Rightarrow> int) \<Rightarrow> string list \<Rightarrow> (string \<Rightarrow> int) \<times> string list" where
  "lower_degrees [] deg queue = (deg, queue)"
| "lower_degrees (d # ds) deg queue =
     (let deg1 = deg(d := deg d - 1) in
      lower_degrees ds deg1 (if deg1 d = 0 then queue @ [d] else queue))"

fun kahn :: "nat \<Rightarrow> build_scheduler \<Rightarrow> (string \<Rightarrow> int) \<Rightarrow> string list \<Rightarrow> string list \<Rightarrow> string list" where
  "kahn 0 s deg queue result = result"
| "kahn (Suc n) s deg [] result = result"
| "kahn (Suc n) s deg (i # queue) result =
     (let (deg1, queue1) = lower_degrees (task_dependents s i) deg queue in kahn n s deg1 queue1 (result @ [i]))"

definition in_degree :: "build_scheduler \<Rightarrow> string \<Rightarrow> int" where
  "in_degree s i = int (length (task_deps s i))"

definition topological_sort :: "string list \<Rightarrow> build_scheduler \<Rightarrow> string list option" where
  "topological_sort ids s =
     (let order = kahn (Suc (length ids)) s (in_degree s) (filter (\<lambda>i. in_degree s i = 0) ids) []
      in if length order \<noteq> length ids then None else Some order)"

subsection \<open>Running\<close>

definition start_scheduler :: "string list \<Rightarrow> string list \<Rightarrow> build_scheduler \<Rightarrow> string + build_scheduler" where
  "start_scheduler ids unqueued s =
     (if bs_isRunning s then Inl ''scheduler is already running''
      else case topological_sort ids s of
        None \<Rightarrow> Inl ''dependency cycle detected: dependency cycle detected in build graph''
      | Some order \<Rightarrow> Inr (s\<lparr>bs_isRunning := True, bs_buildOrder := order,
          bs_workers := replicate (bs_MaxWorkers s) Idle, bs_unqueued := unqueued, bs_pendingCount := length ids\<rparr>))"

text \<open>
  \<open>queueReadyTasks\<close> when no other goroutine runs in between and the channel has room; the interleaved loop
  is the two queue steps below.
\<close>

definition queue_one :: "string \<Rightarrow> string list \<Rightarrow> build_scheduler \<Rightarrow> build_scheduler" where
  "queue_one i rest s =
     (if task_deps s i = []
      then (set_status i BuildStatusWaiting s)\<lparr>bs_unqueued := rest, bs_readyQueue := bs_readyQueue s @ [i]\<rparr>
      else (set_status i BuildStatusWaiting s)\<lparr>bs_unqueued := rest\<rparr>)"

fun queue_ready_tasks :: "string list \<Rightarrow> build_scheduler \<Rightarrow> build_scheduler" where
  "queue_ready_tasks [] s = s"
| "queue_ready_tasks (i # is) s = queue_ready_tasks is (queue_one i is s)"

definition are_dependencies_completed :: "build_scheduler \<Rightarrow> string \<Rightarrow> bool" where
  "are_dependencies_completed s i \<longleftrightarrow> list_all (\<lambda>d. d \<in> bs_completedSet s) (task_deps s i)"

fun queue_ready_dependents :: "string list \<Rightarrow> build_scheduler \<Rightarrow> build_scheduler" where
  "queue_ready_dependents [] s = s"
| "queue_ready_dependents (d # ds) s =
     queue_ready_dependents ds
       (if bs_tasks s d = None then s
        else if are_dependencies_completed s d then
          (if length (bs_readyQueue s) < channel_size s then s\<lparr>bs_readyQueue := bs_readyQueue s @ [d]\<rparr> else s)
        else s)"

definition cancel_remaining_tasks :: "build_scheduler \<Rightarrow> build_scheduler" where
  "cancel_remaining_tasks s = s\<lparr>bs_tasks := (\<lambda>i. map_option (\<lambda>t.
     if bt_status t = BuildStatusPending \<or> bt_status t = BuildStatusWaiting then t\<lparr>bt_status := BuildStatusCanceled\<rparr>
     else t) (bs_tasks s i))\<rparr>"

definition record_failure :: "string \<Rightarrow> build_scheduler \<Rightarrow> build_scheduler" where
  "record_failure i s =
     (let s1 = (if bs_failedTask s = None then s\<lparr>bs_failedTask := Some i\<rparr> else s);
          s2 = s1\<lparr>bs_hasFailed := True\<rparr>
      in if \<not> bs_hasFailed s \<and> bs_FailureMode s = FailureModeStop then cancel_remaining_tasks s2 else s2)"

text \<open>One round of \<open>collectResults\<close> for the task \<open>i\<close>.\<close>

definition collect_result :: "string \<Rightarrow> build_scheduler \<Rightarrow> build_scheduler" where
  "collect_result i s =
     (let s1 = s\<lparr>bs_pendingCount := bs_pendingCount s - 1\<rparr>;
          s2 = (if task_status s1 i = Some BuildStatusFailed then record_failure i s1 else s1)
      in if task_status s2 i = Some BuildStatusCompleted
         then queue_ready_dependents (task_dependents s2 i) (s2\<lparr>bs_completedSet := insert i (bs_completedSet s2)\<rparr>)
         else s2)"

definition stopping :: "build_scheduler \<Rightarrow> bool" where
  "stopping s \<longleftrightarrow> bs_FailureMode s = FailureModeStop \<and> bs_hasFailed s"

inductive sched_step :: "build_scheduler \<Rightarrow> build_scheduler \<Rightarrow> bool" where
  queue_ready: "bs_unqueued s = i # is \<Longrightarrow> task_deps s i = [] \<Longrightarrow> length (bs_readyQueue s) < channel_size s \<Longrightarrow>
    sched_step s ((set_status i BuildStatusWaiting s)\<lparr>bs_unqueued := is, bs_readyQueue := bs_readyQueue s @ [i]\<rparr>)"
| queue_waiting: "bs_unqueued s = i # is \<Longrightarrow> task_deps s i \<noteq> [] \<Longrightarrow>
    sched_step s ((set_status i BuildStatusWaiting s)\<lparr>bs_unqueued := is\<rparr>)"
| take_task: "w < length (bs_workers s) \<Longrightarrow> bs_workers s ! w = Idle \<Longrightarrow> bs_readyQueue s = i # is \<Longrightarrow> \<not> stopping s \<Longrightarrow>
    sched_step s ((set_status i BuildStatusRunning s)
      \<lparr>bs_readyQueue := is, bs_workers := (bs_workers s)[w := Building i]\<rparr>)"
| skip_task: "w < length (bs_workers s) \<Longrightarrow> bs_workers s ! w = Idle \<Longrightarrow> bs_readyQueue s = i # is \<Longrightarrow> stopping s \<Longrightarrow>
    sched_step s ((set_status i BuildStatusCanceled s)
      \<lparr>bs_readyQueue := is, bs_workers := (bs_workers s)[w := Sending i]\<rparr>)"
| finish_ok: "w < length (bs_workers s) \<Longrightarrow> bs_workers s ! w = Building i \<Longrightarrow>
    sched_step s ((set_status i BuildStatusCompleted s)\<lparr>bs_workers := (bs_workers s)[w := Sending i]\<rparr>)"
| finish_fail: "w < length (bs_workers s) \<Longrightarrow> bs_workers s ! w = Building i \<Longrightarrow>
    sched_step s ((set_status i BuildStatusFailed s)\<lparr>bs_workers := (bs_workers s)[w := Sending i]\<rparr>)"
| send_result: "w < length (bs_workers s) \<Longrightarrow> bs_workers s ! w = Sending i \<Longrightarrow> length (bs_results s) < channel_size s \<Longrightarrow>
    sched_step s (s\<lparr>bs_results := bs_results s @ [i], bs_workers := (bs_workers s)[w := Idle]\<rparr>)"
| collect: "0 < bs_pendingCount s \<Longrightarrow> bs_results s = i # is \<Longrightarrow>
    sched_step s (collect_result i (s\<lparr>bs_results := is\<rparr>))"

end
