(* ===== verification/Scheduler_Order.thy ===== *)
theory Scheduler_Order
  imports Scheduler "HOL-Library.Multiset"
begin

text \<open>
  The build order. \<open>task_graph\<close> is what \<open>AddTask\<close> and \<open>AddDependency\<close> keep of the tasks: the lists of
  dependencies and dependents mirror each other, with repetitions, and name existing tasks. On such tasks
  Kahn's algorithm finds an order that respects every dependency or there is a cycle.
\<close>

definition task_graph :: "build_scheduler \<Rightarrow> bool" where
  "task_graph s \<longleftrightarrow> (\<forall>i. set (task_deps s i) \<subseteq> dom (bs_tasks s)) \<and>
     (\<forall>i j. count (mset (task_dependents s i)) j = count (mset (task_deps s j)) i)"

subsection \<open>Adding keeps the graph\<close>

lemma new_scheduler_graph: "task_graph (new_build_scheduler n w mode)"
  by (simp add: task_graph_def new_build_scheduler_def task_deps_def task_dependents_def)

lemma add_task_graph:
  assumes "task_graph s" "add_task (new_build_task p) s = Inr s'"
  shows "task_graph s'"
proof -
  let ?i = "bt_ID (new_build_task p)"
  have n: "bs_tasks s ?i = None" and s': "s' = s\<lparr>bs_tasks := (bs_tasks s)(?i \<mapsto> new_build_task p)\<rparr>"
    using assms(2) by (simp_all add: add_task_def split: if_splits)
  have "task_deps s' j = task_deps s j" "task_dependents s' j = task_dependents s j" for j
    using n by (auto simp: s' task_deps_def task_dependents_def new_build_task_def)
  with assms(1) show ?thesis by (auto simp: task_graph_def s')
qed

lemma add_dependency_lists:
  assumes "scheduler_add_dependency a b s = Inr s'"
  shows "task_deps s' j = (if j = a then task_deps s a @ [b] else task_deps s j)"
    and "task_dependents s' j = (if j = b then task_dependents s b @ [a] else task_dependents s j)"
    and "dom (bs_tasks s') = dom (bs_tasks s)" "bs_tasks s a \<noteq> None" "bs_tasks s b \<noteq> None"
  using assms
  by (auto simp: scheduler_add_dependency_def Let_def task_deps_def task_dependents_def split: if_splits)

lemma add_dependency_graph:
  assumes "task_graph s" "scheduler_add_dependency a b s = Inr s'"
  shows "task_graph s'"
  using assms(1) add_dependency_lists [OF assms(2)] by (auto simp: task_graph_def)

subsection \<open>Kahn's algorithm\<close>

lemma lower_degrees_eq:
  assumes "\<forall>u. int (count (mset ds) u) \<le> deg u"
  shows "\<exists>xs. lower_degrees ds deg queue = (\<lambda>u. deg u - int (count (mset ds) u), queue @ xs) \<and> distinct xs \<and>
    set xs = {u \<in> set ds. deg u = int (count (mset ds) u)}"
  using assms
proof (induction ds arbitrary: deg queue)
  case (Cons d ds)
  let ?deg = "deg(d := deg d - 1)"
  let ?q = "if ?deg d = 0 then queue @ [d] else queue"
  have le: "\<forall>u. int (count (mset ds) u) \<le> ?deg u"
    using Cons.prems by (auto split: if_splits)
  from Cons.IH [OF le, of ?q] obtain xs where xs: "lower_degrees ds ?deg ?q =
      (\<lambda>u. ?deg u - int (count (mset ds) u), ?q @ xs)" "distinct xs"
    "set xs = {u \<in> set ds. ?deg u = int (count (mset ds) u)}" by blast
  have fun_eq: "(\<lambda>u. ?deg u - int (count (mset ds) u)) = (\<lambda>u. deg u - int (count (mset (d # ds)) u))"
    by (auto simp: fun_eq_iff)
  have mem: "u \<in> set xs \<longleftrightarrow> u \<in> set ds \<and> deg u = int (count (mset (d # ds)) u)" for u
    unfolding xs(3) by (simp split: if_splits) arith
  show ?case
  proof (cases "deg d = 1")
    case True
    have "int (count (mset ds) d) \<le> 0" using le [rule_format, of d] True by simp
    then have c: "count (mset ds) d = 0" by simp
    then have "d \<notin> set ds" unfolding count_mset_0_iff .
    then have "d \<notin> set xs" using mem by blast
    moreover have "u \<in> set (d # xs) \<longleftrightarrow> u \<in> set (d # ds) \<and> deg u = int (count (mset (d # ds)) u)" for u
      by (cases "u = d") (simp_all add: mem True c)
    then have "set (d # xs) = {u \<in> set (d # ds). deg u = int (count (mset (d # ds)) u)}" by blast
    moreover have "lower_degrees (d # ds) deg queue = (\<lambda>u. deg u - int (count (mset (d # ds)) u), queue @ d # xs)"
      using xs(1) [unfolded fun_eq] True by (simp add: Let_def)
    ultimately show ?thesis using xs(2) by (intro exI [where x = "d # xs"]) (simp only: distinct.simps simp_thms)
  next
    case False
    have "u \<in> set xs \<longleftrightarrow> u \<in> set (d # ds) \<and> deg u = int (count (mset (d # ds)) u)" for u
    proof (cases "u = d \<and> d \<notin> set ds")
      case True
      then have c: "count (mset ds) d = 0" unfolding count_mset_0_iff by simp
      show ?thesis using False True by (simp add: mem c)
    next
      case False
      then show ?thesis unfolding mem list.set insert_iff by blast
    qed
    then have "set xs = {u \<in> set (d # ds). deg u = int (count (mset (d # ds)) u)}" by blast
    moreover have "lower_degrees (d # ds) deg queue = (\<lambda>u. deg u - int (count (mset (d # ds)) u), queue @ xs)"
      using xs(1) [unfolded fun_eq] False by (simp add: Let_def)
    ultimately show ?thesis using xs(2) by (intro exI [where x = xs]) (simp only: simp_thms)
  qed
qed simp

text \<open>
  The state of the loop: the result and the work list hold distinct tasks, the degree of a task counts its
  dependencies outside the result, and exactly the tasks of degree zero have been found.
\<close>

definition open_deps :: "build_scheduler \<Rightarrow> string list \<Rightarrow> string \<Rightarrow> int" where
  "open_deps s done u = int (length (filter (\<lambda>d. d \<notin> set done) (task_deps s u)))"

definition kahn_inv :: "build_scheduler \<Rightarrow> (string \<Rightarrow> int) \<Rightarrow> string list \<Rightarrow> string list \<Rightarrow> bool" where
  "kahn_inv s deg queue result \<longleftrightarrow> deg = open_deps s result \<and> distinct (result @ queue) \<and>
     set result \<union> set queue = {u \<in> dom (bs_tasks s). deg u = 0}"

fun deps_first :: "build_scheduler \<Rightarrow> string list \<Rightarrow> string list \<Rightarrow> bool" where
  "deps_first s done [] = True"
| "deps_first s done (i # is) = (set (task_deps s i) \<subseteq> set done \<and> deps_first s (done @ [i]) is)"

lemma deps_first_append:
  "deps_first s done (xs @ ys) \<longleftrightarrow> deps_first s done xs \<and> deps_first s (done @ xs) ys"
  by (induction xs arbitrary: "done") auto

lemma open_deps_zero: "open_deps s done u = 0 \<longleftrightarrow> set (task_deps s u) \<subseteq> set done"
  by (auto simp: open_deps_def filter_empty_conv)

lemma open_deps_step:
  assumes "i \<notin> set done"
  shows "open_deps s done u = open_deps s (done @ [i]) u + int (count (mset (task_deps s u)) i)"
proof -
  have "length (filter (\<lambda>d. d \<notin> set done) ds) = length (filter (\<lambda>d. d \<notin> set (done @ [i])) ds) + count (mset ds) i" for ds
    using assms by (induction ds) auto
  then show ?thesis by (simp add: open_deps_def)
qed

lemma kahn_step:
  assumes "task_graph s" "kahn_inv s deg (i # queue) result" "lower_degrees (task_dependents s i) deg queue = (deg1, queue1)"
  shows "kahn_inv s deg1 queue1 (result @ [i])" and "set (task_deps s i) \<subseteq> set result"
proof -
  let ?ds = "task_dependents s i"
  have inv: "deg = open_deps s result" "distinct (result @ i # queue)"
    "set result \<union> set (i # queue) = {u \<in> dom (bs_tasks s). deg u = 0}"
    using assms(2) by (simp_all add: kahn_inv_def)
  have i: "i \<notin> set result" "i \<notin> set queue" "i \<in> dom (bs_tasks s)" "deg i = 0" using inv(2,3) by auto
  then show "set (task_deps s i) \<subseteq> set result" using inv(1) by (simp add: open_deps_zero)
  have mirror: "count (mset ?ds) u = count (mset (task_deps s u)) i" for u
    using assms(1) by (simp add: task_graph_def)
  have deg: "deg u = open_deps s (result @ [i]) u + int (count (mset ?ds) u)" for u
    using open_deps_step [OF i(1), of s u] by (simp add: inv(1) mirror)
  have nonneg: "0 \<le> open_deps s r u" for r u by (simp add: open_deps_def)
  have "\<forall>u. int (count (mset ?ds) u) \<le> deg u" using deg nonneg by simp
  from lower_degrees_eq [OF this, of queue] assms(3) obtain xs where xs: "deg1 = (\<lambda>u. deg u - int (count (mset ?ds) u))"
    "queue1 = queue @ xs" "distinct xs" "set xs = {u \<in> set ?ds. deg u = int (count (mset ?ds) u)}" by auto
  have deg1: "deg1 = open_deps s (result @ [i])" using deg by (simp add: xs(1) fun_eq_iff)
  have in_dom: "u \<in> dom (bs_tasks s)" if "u \<in> set ?ds" for u
  proof -
    have "count (mset (task_deps s u)) i \<noteq> 0" using that mirror [of u] by (metis count_mset_0_iff)
    then show ?thesis by (cases "bs_tasks s u") (auto simp: task_deps_def)
  qed
  have new: "u \<in> set xs \<longleftrightarrow> u \<in> dom (bs_tasks s) \<and> deg1 u = 0 \<and> deg u \<noteq> 0" for u
    using in_dom [of u] by (auto simp: xs(1,4) count_mset_0_iff)
  have old: "deg u = 0 \<Longrightarrow> deg1 u = 0" for u using deg [of u] nonneg [of "result @ [i]" u] by (simp add: deg1)
  have "set (result @ [i]) \<union> set queue1 = {u \<in> dom (bs_tasks s). deg1 u = 0}"
    using inv(3) new old by (auto simp: xs(2))
  moreover have "distinct ((result @ [i]) @ queue1)"
    using inv(2,3) new xs(3) by (auto simp: xs(2))
  ultimately show "kahn_inv s deg1 queue1 (result @ [i])" using deg1 by (simp add: kahn_inv_def)
qed

lemma kahn_result:
  assumes "task_graph s" "finite (dom (bs_tasks s))"
  shows "kahn_inv s deg queue result \<Longrightarrow> deps_first s [] result \<Longrightarrow>
      card (dom (bs_tasks s)) < n + length result \<Longrightarrow>
      kahn_inv s (open_deps s (kahn n s deg queue result)) [] (kahn n s deg queue result) \<and>
      deps_first s [] (kahn n s deg queue result)"
proof (induction n arbitrary: deg queue result)
  case 0
  then have "distinct result" "set result \<subseteq> dom (bs_tasks s)" by (auto simp: kahn_inv_def)
  then have "length result \<le> card (dom (bs_tasks s))" using assms(2) by (metis card_mono distinct_card)
  with 0(3) show ?case by simp
next
  case (Suc n)
  show ?case
  proof (cases queue)
    case Nil
    with Suc.prems(1,2) show ?thesis by (simp add: kahn_inv_def)
  next
    case (Cons i q)
    obtain deg1 q1 where l: "lower_degrees (task_dependents s i) deg q = (deg1, q1)" by fastforce
    note step = kahn_step [OF assms(1) Suc.prems(1) [unfolded Cons] l]
    have "deps_first s [] (result @ [i])" using Suc.prems(2) step(2) by (simp add: deps_first_append)
    from Suc.IH [OF step(1) this] Suc.prems(3) show ?thesis by (simp add: Cons l)
  qed
qed

lemma topological_sort_answer:
  assumes "task_graph s" "distinct ids" "set ids = dom (bs_tasks s)"
  shows "case topological_sort ids s of
      Some order \<Rightarrow> distinct order \<and> set order = dom (bs_tasks s) \<and> deps_first s [] order
    | None \<Rightarrow> \<exists>U. U \<noteq> {} \<and> U \<subseteq> dom (bs_tasks s) \<and> (\<forall>u \<in> U. \<exists>d \<in> set (task_deps s u). d \<in> U)"
proof -
  let ?q = "filter (\<lambda>i. in_degree s i = 0) ids"
  let ?order = "kahn (Suc (length ids)) s (in_degree s) ?q []"
  have fin: "finite (dom (bs_tasks s))" and card: "card (dom (bs_tasks s)) = length ids"
    using assms(2,3) distinct_card by (metis List.finite_set, metis distinct_card)
  have "in_degree s = open_deps s []" by (simp add: in_degree_def open_deps_def fun_eq_iff)
  then have "kahn_inv s (in_degree s) ?q []" using assms(2,3) by (auto simp: kahn_inv_def)
  from kahn_result [OF assms(1) fin this, of "Suc (length ids)"]
  have inv: "kahn_inv s (open_deps s ?order) [] ?order" and first: "deps_first s [] ?order"
    by (simp_all add: card)
  then have order: "distinct ?order" "set ?order \<subseteq> dom (bs_tasks s)" by (auto simp: kahn_inv_def)
  show ?thesis
  proof (cases "length ?order = length ids")
    case True
    then have "set ?order = dom (bs_tasks s)"
      using order card fin by (metis card_subset_eq distinct_card)
    with True order first show ?thesis by (simp add: topological_sort_def Let_def del: kahn.simps)
  next
    case False
    let ?U = "dom (bs_tasks s) - set ?order"
    have "?U \<noteq> {}" using False order card by (metis Diff_eq_empty_iff distinct_card subset_antisym)
    moreover have "\<exists>d \<in> set (task_deps s u). d \<in> ?U" if u: "u \<in> ?U" for u
    proof -
      have "open_deps s ?order u \<noteq> 0" using u inv by (auto simp: kahn_inv_def)
      then obtain d where "d \<in> set (task_deps s u)" "d \<notin> set ?order" unfolding open_deps_zero by blast
      moreover have "set (task_deps s u) \<subseteq> dom (bs_tasks s)" using assms(1) by (simp add: task_graph_def)
      ultimately show ?thesis by blast
    qed
    ultimately have "\<exists>U. U \<noteq> {} \<and> U \<subseteq> dom (bs_tasks s) \<and> (\<forall>u \<in> U. \<exists>d \<in> set (task_deps s u). d \<in> U)"
      by (intro exI [where x = ?U]) blast
    with False show ?thesis by (simp add: topological_sort_def Let_def del: kahn.simps)
  qed
qed

subsection \<open>Property\<close>

text \<open>
  Claim C28. \<open>topologicalSort\<close> on tasks built with \<open>AddTask\<close> and \<open>AddDependency\<close>: a returned order lists every
  task once and every task after all its dependencies; an error is returned exactly when some tasks depend
  on each other in a cycle, that is when there is a non-empty set of tasks each of which depends on one in
  the set.
\<close>

theorem topological_sort_correct:
  assumes "task_graph s" "distinct ids" "set ids = dom (bs_tasks s)"
  shows "case topological_sort ids s of
      Some order \<Rightarrow> distinct order \<and> set order = dom (bs_tasks s) \<and> deps_first s [] order
    | None \<Rightarrow> \<exists>U. U \<noteq> {} \<and> U \<subseteq> dom (bs_tasks s) \<and> (\<forall>u \<in> U. \<exists>d \<in> set (task_deps s u). d \<in> U)"
  using topological_sort_answer [OF assms] .

text \<open>Three tasks in a chain, added by the operations.\<close>

definition demo_package :: "string \<Rightarrow> package" where
  "demo_package name = new_package name ''1'' ''0''"

definition or_keep :: "(build_scheduler \<Rightarrow> string + build_scheduler) \<Rightarrow> build_scheduler \<Rightarrow> build_scheduler" where
  "or_keep f s = (case f s of Inr s1 \<Rightarrow> s1 | Inl _ \<Rightarrow> s)"

definition demo_tasks :: build_scheduler where
  "demo_tasks = fold (\<lambda>n. or_keep (add_task (new_build_task (demo_package n)))) [''a'', ''b'', ''c''] (new_build_scheduler 8 2 FailureModeStop)"

definition demo_scheduler :: build_scheduler where
  "demo_scheduler = or_keep (scheduler_add_dependency ''b-1'' ''a-1'') (or_keep (scheduler_add_dependency ''c-1'' ''b-1'') demo_tasks)"

definition demo_cycle :: build_scheduler where
  "demo_cycle = or_keep (scheduler_add_dependency ''a-1'' ''c-1'') demo_scheduler"

lemma or_keep_task: "task_graph s \<Longrightarrow> task_graph (or_keep (add_task (new_build_task p)) s)"
  using add_task_graph by (auto simp: or_keep_def split: sum.split)

lemma or_keep_dependency: "task_graph s \<Longrightarrow> task_graph (or_keep (scheduler_add_dependency a b) s)"
  using add_dependency_graph by (auto simp: or_keep_def split: sum.split)

lemma demo_tasks_graph: "task_graph demo_tasks"
  by (simp add: demo_tasks_def or_keep_task new_scheduler_graph)

lemma demo_dom: "dom (bs_tasks demo_scheduler) = set [''a-1'', ''b-1'', ''c-1'']" "dom (bs_tasks demo_cycle) = set [''a-1'', ''b-1'', ''c-1'']"
proof -
  have dep: "dom (bs_tasks (or_keep (scheduler_add_dependency a b) s)) = dom (bs_tasks s)" for a b s
    using add_dependency_lists(3) by (auto simp: or_keep_def split: sum.split)
  have "bt_ID (new_build_task (demo_package n)) = n @ ''-1''" for n
    by (simp add: new_build_task_def demo_package_def new_package_def)
  then have "dom (bs_tasks demo_tasks) = set [''a-1'', ''b-1'', ''c-1'']"
    by (auto simp: demo_tasks_def or_keep_def add_task_def new_build_scheduler_def)
  then show "dom (bs_tasks demo_scheduler) = set [''a-1'', ''b-1'', ''c-1'']" "dom (bs_tasks demo_cycle) = set [''a-1'', ''b-1'', ''c-1'']"
    by (simp_all only: demo_scheduler_def demo_cycle_def dep)
qed

theorem topological_sort_correct_witness:
  "topological_sort [''a-1'', ''b-1'', ''c-1''] demo_scheduler = Some [''a-1'', ''b-1'', ''c-1''] \<and>
   deps_first demo_scheduler [] [''a-1'', ''b-1'', ''c-1''] \<and>
   (\<exists>U. U \<noteq> {} \<and> (\<forall>u \<in> U. \<exists>d \<in> set (task_deps demo_cycle u). d \<in> U))"
proof -
  have e: "topological_sort [''a-1'', ''b-1'', ''c-1''] demo_scheduler = Some [''a-1'', ''b-1'', ''c-1'']"
    "topological_sort [''a-1'', ''b-1'', ''c-1''] demo_cycle = None"
    by code_simp+
  have g: "task_graph demo_scheduler" "task_graph demo_cycle"
    by (simp_all add: demo_scheduler_def demo_cycle_def or_keep_dependency demo_tasks_graph)
  have d: "distinct [''a-1'', ''b-1'', ''c-1'']" by simp
  have "deps_first demo_scheduler [] [''a-1'', ''b-1'', ''c-1'']"
    using topological_sort_correct [OF g(1) d demo_dom(1) [symmetric]] unfolding e option.case by (rule conjunct2 [OF conjunct2])
  moreover have "\<exists>U. U \<noteq> {} \<and> (\<forall>u \<in> U. \<exists>d \<in> set (task_deps demo_cycle u). d \<in> U)"
    using topological_sort_correct [OF g(2) d demo_dom(2) [symmetric]] unfolding e option.case by blast
  ultimately show ?thesis using e(1) by blast
qed

end
