(* ===== verification/Worker_Pool.thy ===== *)
theory Worker_Pool
  imports Main "HOL-Library.Multiset"
begin

text \<open>
  Pools of workers: what a sum over the states of all workers becomes when one of them changes its state.
  Shared by the build scheduler and the job queue.
\<close>

lemma sum_list_update_add:
  fixes f :: "'a \<Rightarrow> 'b :: comm_monoid_add"
  shows "w < length ws \<Longrightarrow> sum_list (map f (ws[w := x])) + f (ws ! w) = sum_list (map f ws) + f x"
  by (induction ws arbitrary: w) (auto simp: less_Suc_eq_0_disj ac_simps nth_Cons split: nat.split)

lemma filter_length_sum: "int (length (filter P ws)) = sum_list (map (\<lambda>x. of_bool (P x)) ws)"
  by (induction ws) simp_all

lemma filter_length_update:
  "w < length ws \<Longrightarrow> int (length (filter P (ws[w := x]))) + of_bool (P (ws ! w)) = int (length (filter P ws)) + of_bool (P x)"
  unfolding filter_length_sum by (rule sum_list_update_add)

lemma set_update_cases: "y \<in> set (ws[w := x]) \<Longrightarrow> y = x \<or> y \<in> set ws"
  using set_update_subset_insert by fastforce

end
