(* ===== verification/Scheduler_Run.thy ===== *)
theory Scheduler_Run
  imports Scheduler_Order Worker_Pool
begin

text \<open>
  Runs of the scheduler. \<open>sched_inv\<close> relates the state to the set of collected tasks; every step of every
  interleaving keeps it. From it follow what holds when \<open>Start\<close> returns, and what happens after a failed
  build. \<open>live_inv\<close> is its strengthening for runs without failures, in which no task is ever lost.
\<close>

subsection \<open>Where the tasks are\<close>

fun worker_task :: "build_worker \<Rightarrow> string multiset" where
  "worker_task Idle = {#}"
| "worker_task (Building i) = {#i#}"
| "worker_task (Sending i) = {#i#}"

definition with_workers :: "build_worker list \<Rightarrow> string multiset" where
  "with_workers ws = sum_list (map worker_task ws)"

definition in_flight :: "build_scheduler \<Rightarrow> string multiset" where
  "in_flight s = mset (bs_readyQueue s) + with_workers (bs_workers s) + mset (bs_results s)"

definition leaves_left :: "build_scheduler \<Rightarrow> string multiset" where
  "leaves_left s = mset (filter (\<lambda>i. task_deps s i = []) (bs_unqueued s))"

lemma with_workers_update:
  "w < length ws \<Longrightarrow> with_workers (ws[w := x]) + worker_task (ws ! w) = with_workers ws + worker_task x"
  unfolding with_workers_def by (rule sum_list_update_add)

lemma with_workers_idle: "with_workers (replicate n Idle) = {#}"
  by (induction n) (simp_all add: with_workers_def)

definition once :: "'a multiset \<Rightarrow> bool" where
  "once M \<longleftrightarrow> (\<forall>x. count M x \<le> 1)"

subsection \<open>What the steps leave alone\<close>

lemma set_status_lists [simp]:
  "task_deps (set_status i st s) j = task_deps s j"
  "task_dependents (set_status i st s) j = task_dependents s j"
  "dom (bs_tasks (set_status i st s)) = dom (bs_tasks s)"
  by (auto simp: set_status_def task_deps_def task_dependents_def split: option.split)

lemma set_status_fields [simp]:
  "bs_MaxWorkers (set_status i st s) = bs_MaxWorkers s" "bs_FailureMode (set_status i st s) = bs_FailureMode s"
  "bs_completedSet (set_status i st s) = bs_completedSet s" "bs_readyQueue (set_status i st s) = bs_readyQueue s"
  "bs_results (set_status i st s) = bs_results s" "bs_hasFailed (set_status i st s) = bs_hasFailed s"
  "bs_workers (set_status i st s) = bs_workers s" "bs_unqueued (set_status i st s) = bs_unqueued s"
  "bs_pendingCount (set_status i st s) = bs_pendingCount s"
  by (simp_all add: set_status_def)

lemma set_status_status:
  "task_status (set_status i st s) j = (if j = i then map_option (\<lambda>_. st) (bs_tasks s i) else task_status s j)"
  by (auto simp: set_status_def task_status_def option.map_comp comp_def)

lemma lists_cong:
  "bs_tasks s' = bs_tasks s \<Longrightarrow> task_deps s' = task_deps s \<and> task_dependents s' = task_dependents s"
  by (simp add: task_deps_def task_dependents_def fun_eq_iff)

lemma lists_ignore [simp]:
  "task_deps (s\<lparr>bs_readyQueue := q\<rparr>) = task_deps s" "task_deps (s\<lparr>bs_results := q\<rparr>) = task_deps s"
  "task_deps (s\<lparr>bs_workers := w\<rparr>) = task_deps s" "task_deps (s\<lparr>bs_unqueued := q\<rparr>) = task_deps s"
  "task_deps (s\<lparr>bs_pendingCount := n\<rparr>) = task_deps s" "task_deps (s\<lparr>bs_completedSet := c\<rparr>) = task_deps s"
  "task_dependents (s\<lparr>bs_readyQueue := q\<rparr>) = task_dependents s" "task_dependents (s\<lparr>bs_results := q\<rparr>) = task_dependents s"
  "task_dependents (s\<lparr>bs_workers := w\<rparr>) = task_dependents s" "task_dependents (s\<lparr>bs_unqueued := q\<rparr>) = task_dependents s"
  "task_dependents (s\<lparr>bs_pendingCount := n\<rparr>) = task_dependents s" "task_dependents (s\<lparr>bs_completedSet := c\<rparr>) = task_dependents s"
  by (simp_all add: task_deps_def task_dependents_def fun_eq_iff)

lemma status_ignore [simp]:
  "task_status (s\<lparr>bs_readyQueue := q\<rparr>) = task_status s" "task_status (s\<lparr>bs_results := q\<rparr>) = task_status s"
  "task_status (s\<lparr>bs_workers := w\<rparr>) = task_status s" "task_status (s\<lparr>bs_unqueued := q\<rparr>) = task_status s"
  "task_status (s\<lparr>bs_pendingCount := n\<rparr>) = task_status s" "task_status (s\<lparr>bs_completedSet := c\<rparr>) = task_status s"
  by (simp_all add: task_status_def fun_eq_iff)

text \<open>\<open>same_tasks\<close>: the same tasks with the same dependencies, the statuses aside.\<close>

definition same_tasks :: "build_scheduler \<Rightarrow> build_scheduler \<Rightarrow> bool" where
  "same_tasks s s' \<longleftrightarrow> task_deps s' = task_deps s \<and> task_dependents s' = task_dependents s \<and>
     dom (bs_tasks s') = dom (bs_tasks s) \<and> bs_MaxWorkers s' = bs_MaxWorkers s \<and> bs_FailureMode s' = bs_FailureMode s"

lemma same_tasks_refl [simp]: "same_tasks s s"
  by (simp add: same_tasks_def)

lemma same_tasks_trans: "same_tasks s t \<Longrightarrow> same_tasks t u \<Longrightarrow> same_tasks s u"
  by (simp add: same_tasks_def)

lemma queue_dependents_eq:
  assumes "distinct ds"
  shows "\<exists>xs. queue_ready_dependents ds s = s\<lparr>bs_readyQueue := bs_readyQueue s @ xs\<rparr> \<and> distinct xs \<and>
    set xs \<subseteq> {d \<in> set ds. bs_tasks s d \<noteq> None \<and> are_dependencies_completed s d} \<and>
    (length (bs_readyQueue s) \<le> channel_size s \<longrightarrow> length (bs_readyQueue s) + length xs \<le> channel_size s) \<and>
    (length (bs_readyQueue s) + length ds \<le> channel_size s \<longrightarrow>
       set xs = {d \<in> set ds. bs_tasks s d \<noteq> None \<and> are_dependencies_completed s d})"
  using assms
proof (induction ds arbitrary: s)
  case (Cons d ds)
  let ?ok = "\<lambda>d. bs_tasks s d \<noteq> None \<and> are_dependencies_completed s d"
  show ?case
  proof (cases "?ok d \<and> length (bs_readyQueue s) < channel_size s")
    case True
    let ?s = "s\<lparr>bs_readyQueue := bs_readyQueue s @ [d]\<rparr>"
    have step: "queue_ready_dependents (d # ds) s = queue_ready_dependents ds ?s" using True by auto
    have same: "bs_tasks ?s = bs_tasks s" "are_dependencies_completed ?s u = are_dependencies_completed s u"
      "channel_size ?s = channel_size s" for u
      by (simp_all add: are_dependencies_completed_def channel_size_def)
    from Cons.IH [of ?s] Cons.prems obtain xs where xs: "queue_ready_dependents ds ?s = ?s\<lparr>bs_readyQueue := bs_readyQueue ?s @ xs\<rparr>"
      "distinct xs" "set xs \<subseteq> {d \<in> set ds. ?ok d}"
      "length (bs_readyQueue ?s) \<le> channel_size s \<longrightarrow> length (bs_readyQueue ?s) + length xs \<le> channel_size s"
      "length (bs_readyQueue ?s) + length ds \<le> channel_size s \<longrightarrow> set xs = {d \<in> set ds. ?ok d}"
      unfolding same by auto
    have "d \<notin> set xs" using xs(3) Cons.prems by auto
    then show ?thesis
      unfolding step xs(1) using xs(2-5) True
      by (intro exI [where x = "d # xs"]) auto
  next
    case False
    then have step: "queue_ready_dependents (d # ds) s = queue_ready_dependents ds s" by auto
    from Cons.IH [of s] Cons.prems obtain xs where xs: "queue_ready_dependents ds s = s\<lparr>bs_readyQueue := bs_readyQueue s @ xs\<rparr>"
      "distinct xs" "set xs \<subseteq> {d \<in> set ds. ?ok d}"
      "length (bs_readyQueue s) \<le> channel_size s \<longrightarrow> length (bs_readyQueue s) + length xs \<le> channel_size s"
      "length (bs_readyQueue s) + length ds \<le> channel_size s \<longrightarrow> set xs = {d \<in> set ds. ?ok d}"
      by auto
    then show ?thesis
      unfolding step xs(1) using False by (intro exI [where x = xs]) auto
  qed
qed (intro exI [where x = "[]"], simp)

lemma record_failure_fields [simp]:
  "task_deps (record_failure i s) j = task_deps s j" "task_dependents (record_failure i s) j = task_dependents s j"
  "dom (bs_tasks (record_failure i s)) = dom (bs_tasks s)"
  "bs_MaxWorkers (record_failure i s) = bs_MaxWorkers s" "bs_FailureMode (record_failure i s) = bs_FailureMode s"
  "bs_completedSet (record_failure i s) = bs_completedSet s" "bs_readyQueue (record_failure i s) = bs_readyQueue s"
  "bs_results (record_failure i s) = bs_results s" "bs_workers (record_failure i s) = bs_workers s"
  "bs_unqueued (record_failure i s) = bs_unqueued s" "bs_pendingCount (record_failure i s) = bs_pendingCount s"
  by (auto simp: record_failure_def cancel_remaining_tasks_def Let_def task_deps_def task_dependents_def split: option.split)

lemma record_failure_status:
  "task_status s i = Some BuildStatusFailed \<Longrightarrow> task_status (record_failure i s) i = Some BuildStatusFailed"
  by (cases "bs_tasks s i") (simp_all add: record_failure_def cancel_remaining_tasks_def Let_def task_status_def)

text \<open>One collected result, by the status that is read.\<close>

lemma collect_failed:
  assumes "task_status s i \<noteq> Some BuildStatusCompleted"
  shows "same_tasks s (collect_result i s)" "bs_completedSet (collect_result i s) = bs_completedSet s"
    "bs_readyQueue (collect_result i s) = bs_readyQueue s" "bs_results (collect_result i s) = bs_results s"
    "bs_workers (collect_result i s) = bs_workers s" "bs_unqueued (collect_result i s) = bs_unqueued s"
    "bs_pendingCount (collect_result i s) = bs_pendingCount s - 1"
proof -
  let ?s1 = "s\<lparr>bs_pendingCount := bs_pendingCount s - 1\<rparr>"
  have "task_status (record_failure i ?s1) i = Some BuildStatusFailed" if "task_status s i = Some BuildStatusFailed"
    using record_failure_status [of ?s1 i] that by simp
  then have "collect_result i s = (if task_status s i = Some BuildStatusFailed then record_failure i ?s1 else ?s1)"
    using assms by (simp add: collect_result_def Let_def)
  then show "same_tasks s (collect_result i s)" "bs_completedSet (collect_result i s) = bs_completedSet s"
    "bs_readyQueue (collect_result i s) = bs_readyQueue s" "bs_results (collect_result i s) = bs_results s"
    "bs_workers (collect_result i s) = bs_workers s" "bs_unqueued (collect_result i s) = bs_unqueued s"
    "bs_pendingCount (collect_result i s) = bs_pendingCount s - 1"
    by (auto simp: same_tasks_def fun_eq_iff)
qed

lemma collect_completed:
  assumes "task_status s i = Some BuildStatusCompleted" "distinct (task_dependents s i)"
  obtains xs where "collect_result i s = s\<lparr>bs_pendingCount := bs_pendingCount s - 1,
      bs_completedSet := insert i (bs_completedSet s), bs_readyQueue := bs_readyQueue s @ xs\<rparr>"
    "distinct xs" "set xs \<subseteq> {d \<in> set (task_dependents s i). bs_tasks s d \<noteq> None \<and>
       set (task_deps s d) \<subseteq> insert i (bs_completedSet s)}"
    "length (bs_readyQueue s) \<le> channel_size s \<longrightarrow> length (bs_readyQueue s) + length xs \<le> channel_size s"
    "length (bs_readyQueue s) + length (task_dependents s i) \<le> channel_size s \<longrightarrow>
       set xs = {d \<in> set (task_dependents s i). bs_tasks s d \<noteq> None \<and> set (task_deps s d) \<subseteq> insert i (bs_completedSet s)}"
proof -
  let ?s = "s\<lparr>bs_pendingCount := bs_pendingCount s - 1, bs_completedSet := insert i (bs_completedSet s)\<rparr>"
  have c: "collect_result i s = queue_ready_dependents (task_dependents s i) ?s"
    using assms(1) by (simp add: collect_result_def Let_def)
  have ok: "are_dependencies_completed ?s d \<longleftrightarrow> set (task_deps s d) \<subseteq> insert i (bs_completedSet s)" for d
    by (auto simp: are_dependencies_completed_def list_all_iff)
  have f: "bs_tasks ?s = bs_tasks s" "bs_readyQueue ?s = bs_readyQueue s" "channel_size ?s = channel_size s"
    by (simp_all add: channel_size_def)
  from queue_dependents_eq [OF assms(2), of ?s] obtain xs where "queue_ready_dependents (task_dependents s i) ?s
      = ?s\<lparr>bs_readyQueue := bs_readyQueue s @ xs\<rparr>" "distinct xs"
    "set xs \<subseteq> {d \<in> set (task_dependents s i). bs_tasks s d \<noteq> None \<and> set (task_deps s d) \<subseteq> insert i (bs_completedSet s)}"
    "length (bs_readyQueue s) \<le> channel_size s \<longrightarrow> length (bs_readyQueue s) + length xs \<le> channel_size s"
    "length (bs_readyQueue s) + length (task_dependents s i) \<le> channel_size s \<longrightarrow>
       set xs = {d \<in> set (task_dependents s i). bs_tasks s d \<noteq> None \<and> set (task_deps s d) \<subseteq> insert i (bs_completedSet s)}"
    unfolding ok f by blast
  with c show thesis by (intro that) simp_all
qed

subsection \<open>The invariant of every interleaving\<close>

definition plain_graph :: "build_scheduler \<Rightarrow> bool" where
  "plain_graph s \<longleftrightarrow> task_graph s \<and> (\<forall>i. distinct (task_deps s i))"

lemma plain_graph_cong: "same_tasks s s' \<Longrightarrow> plain_graph s' = plain_graph s"
  by (simp add: plain_graph_def task_graph_def same_tasks_def)

lemma plain_graph_lists:
  assumes "plain_graph s"
  shows "distinct (task_dependents s i)" "d \<in> set (task_dependents s i) \<longleftrightarrow> i \<in> set (task_deps s d)"
    "set (task_deps s i) \<subseteq> dom (bs_tasks s)"
proof -
  have c: "count (mset (task_dependents s i)) j = count (mset (task_deps s j)) i" for j
    using assms by (simp add: plain_graph_def task_graph_def)
  show "d \<in> set (task_dependents s i) \<longleftrightarrow> i \<in> set (task_deps s d)"
    using c [of d] by (metis count_mset_0_iff)
  have "count (mset (task_deps s j)) i \<le> 1" for j
    using assms distinct_count_atmost_1 [of "task_deps s j"] by (auto simp: plain_graph_def)
  then have "count (mset (task_dependents s i)) j \<le> 1" for j using c by simp
  moreover have "count (mset xs) a = (if a \<in> set xs then 1 else 0)" if "count (mset xs) a \<le> 1" for xs :: "string list" and a
    using that by (cases "a \<in> set xs") (auto simp: le_Suc_eq count_mset_0_iff)
  ultimately show "distinct (task_dependents s i)" by (subst distinct_count_atmost_1) blast
  show "set (task_deps s i) \<subseteq> dom (bs_tasks s)" using assms by (simp add: plain_graph_def task_graph_def)
qed

definition sched_inv :: "string set \<Rightarrow> build_scheduler \<Rightarrow> bool" where
  "sched_inv C s \<longleftrightarrow> plain_graph s \<and> finite (dom (bs_tasks s)) \<and>
     once (in_flight s + leaves_left s) \<and>
     set_mset (in_flight s + leaves_left s) \<subseteq> dom (bs_tasks s) - C \<and> C \<subseteq> dom (bs_tasks s) \<and>
     bs_completedSet s \<subseteq> C \<and>
     (\<forall>i \<in> set_mset (in_flight s) \<union> C. set (task_deps s i) \<subseteq> bs_completedSet s) \<and>
     bs_pendingCount s + card C = card (dom (bs_tasks s)) \<and>
     length (bs_readyQueue s) \<le> channel_size s \<and> length (bs_results s) \<le> channel_size s \<and>
     length (bs_workers s) = bs_MaxWorkers s"

lemma channel_size_cong: "bs_MaxWorkers s' = bs_MaxWorkers s \<Longrightarrow> channel_size s' = channel_size s"
  by (simp add: channel_size_def)

text \<open>A step that moves tasks without collecting one keeps the invariant.\<close>

lemma sched_inv_move:
  assumes "sched_inv C s" "same_tasks s s'" "bs_completedSet s' = bs_completedSet s"
    "bs_pendingCount s' = bs_pendingCount s" "in_flight s' + leaves_left s' = in_flight s + leaves_left s"
    "\<forall>i \<in># in_flight s'. i \<in># in_flight s \<or> task_deps s i = []"
    "length (bs_readyQueue s') \<le> channel_size s" "length (bs_results s') \<le> channel_size s"
    "length (bs_workers s') = length (bs_workers s)"
  shows "sched_inv C s'"
proof -
  have t: "task_deps s' = task_deps s" "dom (bs_tasks s') = dom (bs_tasks s)" "bs_MaxWorkers s' = bs_MaxWorkers s"
    "channel_size s' = channel_size s"
    using assms(2) by (simp_all add: same_tasks_def channel_size_def)
  have "set (task_deps s i) \<subseteq> bs_completedSet s" if "i \<in> set_mset (in_flight s') \<union> C" for i
    using assms(1,6) that unfolding sched_inv_def by (metis Un_iff empty_set empty_subsetI)
  moreover note assms(1) [unfolded sched_inv_def]
  ultimately show ?thesis
    unfolding sched_inv_def plain_graph_cong [OF assms(2)] assms(3-5,9) t using assms(7,8) by blast
qed

lemma in_flight_worker:
  assumes "w < length (bs_workers s)" "bs_workers s ! w = x"
  shows "in_flight (s\<lparr>bs_workers := (bs_workers s)[w := y]\<rparr>) + worker_task x = in_flight s + worker_task y"
  using with_workers_update [OF assms(1), of y] assms(2) by (simp add: in_flight_def ac_simps)

lemma sched_invD:
  assumes "sched_inv C s"
  shows "plain_graph s" "finite (dom (bs_tasks s))" "once (in_flight s + leaves_left s)"
    "set_mset (in_flight s + leaves_left s) \<subseteq> dom (bs_tasks s) - C" "C \<subseteq> dom (bs_tasks s)" "bs_completedSet s \<subseteq> C"
    "\<And>i. i \<in># in_flight s \<or> i \<in> C \<Longrightarrow> set (task_deps s i) \<subseteq> bs_completedSet s"
    "bs_pendingCount s + card C = card (dom (bs_tasks s))"
    "length (bs_readyQueue s) \<le> channel_size s" "length (bs_results s) \<le> channel_size s"
    "length (bs_workers s) = bs_MaxWorkers s"
  using assms unfolding sched_inv_def by blast+

lemma once_subset: "once (A + B) \<Longrightarrow> once A"
  unfolding once_def by (metis add_leD1 count_union)

lemma leaves_update:
  "leaves_left (s\<lparr>bs_workers := ws\<rparr>) = leaves_left s" "leaves_left (s\<lparr>bs_results := q\<rparr>) = leaves_left s"
  "leaves_left (s\<lparr>bs_readyQueue := q\<rparr>) = leaves_left s" "leaves_left (set_status i st s) = leaves_left s"
  "leaves_left (s\<lparr>bs_pendingCount := n\<rparr>) = leaves_left s" "leaves_left (s\<lparr>bs_completedSet := c\<rparr>) = leaves_left s"
  by (simp_all add: leaves_left_def)

lemma flight_update:
  "in_flight (s\<lparr>bs_unqueued := q\<rparr>) = in_flight s" "in_flight (set_status i st s) = in_flight s"
  "in_flight (s\<lparr>bs_pendingCount := n\<rparr>) = in_flight s" "in_flight (s\<lparr>bs_completedSet := c\<rparr>) = in_flight s"
  by (simp_all add: in_flight_def)

text \<open>Collecting: the task leaves, its dependents that have become ready enter.\<close>

lemma collect_inv:
  assumes inv: "sched_inv C s" and res: "bs_results s = i # is" and pos: "0 < bs_pendingCount s"
  defines "s0 \<equiv> s\<lparr>bs_results := is\<rparr>"
  shows "sched_inv (insert i C) (collect_result i s0) \<and> i \<notin> C \<and>
    (task_status s i \<noteq> Some BuildStatusCompleted \<longrightarrow> bs_completedSet (collect_result i s0) = bs_completedSet s)"
proof -
  note d = sched_invD [OF inv]
  let ?D = "dom (bs_tasks s)"
  have fl: "in_flight s = in_flight s0 + {#i#}" by (simp add: in_flight_def s0_def res)
  have i: "i \<in> ?D" "i \<notin> C" "i \<in># in_flight s" using d(4) by (auto simp: fl)
  have lv: "leaves_left s0 = leaves_left s" by (simp add: s0_def leaves_update)
  have once0: "once (in_flight s0 + leaves_left s)" and i0: "i \<notin># in_flight s0 + leaves_left s"
  proof -
    have c: "count (in_flight s0 + leaves_left s) x + (if x = i then 1 else 0) \<le> 1" for x
    proof -
      have "count (in_flight s0 + {#i#} + leaves_left s) x \<le> 1" using d(3) unfolding fl once_def by blast
      then show ?thesis by (simp split: if_splits)
    qed
    show "once (in_flight s0 + leaves_left s)" unfolding once_def by (intro allI) (rule add_leD1 [OF c])
    show "i \<notin># in_flight s0 + leaves_left s" using c [of i] unfolding not_in_iff by simp
  qed
  have sub0: "set_mset (in_flight s0 + leaves_left s) \<subseteq> ?D - insert i C" using d(4) i0 by (auto simp: fl)
  have pend: "bs_pendingCount s - 1 + card (insert i C) = card ?D"
    using d(8) pos i(2) finite_subset [OF d(5) d(2)] by simp
  have C': "insert i C \<subseteq> ?D" using d(5) i(1) by simp
  have ch: "channel_size s0 = channel_size s" by (simp add: channel_size_def s0_def)
  have rl: "length is \<le> channel_size s" using d(10) by (simp add: res)
  show ?thesis
  proof (cases "task_status s i = Some BuildStatusCompleted")
    case False
    then have st: "task_status s0 i \<noteq> Some BuildStatusCompleted" by (simp add: s0_def)
    note c = collect_failed [OF st]
    let ?s' = "collect_result i s0"
    have same: "same_tasks s ?s'" using c(1) by (simp add: s0_def same_tasks_def)
    then have t: "task_deps ?s' = task_deps s" "dom (bs_tasks ?s') = ?D" "bs_MaxWorkers ?s' = bs_MaxWorkers s"
      "channel_size ?s' = channel_size s" by (simp_all add: same_tasks_def channel_size_def)
    have f: "in_flight ?s' = in_flight s0" "leaves_left ?s' = leaves_left s"
      using c t by (simp_all add: in_flight_def leaves_left_def s0_def)
    have "sched_inv (insert i C) ?s'"
      unfolding sched_inv_def plain_graph_cong [OF same] f t c
    proof (intro conjI)
      show "\<forall>j \<in> set_mset (in_flight s0) \<union> insert i C. set (task_deps s j) \<subseteq> bs_completedSet s0"
        using d(7) i(3) by (auto simp: s0_def fl [unfolded s0_def])
      show "bs_completedSet s0 \<subseteq> insert i C" using d(6) by (auto simp: s0_def)
    qed (use d(1,2,9,11) once0 sub0 C' pend rl in \<open>simp_all add: s0_def\<close>)
    with i(2) c(2) show ?thesis by (simp add: s0_def)
  next
    case True
    then have st: "task_status s0 i = Some BuildStatusCompleted" by (simp add: s0_def)
    note pg = plain_graph_lists [OF d(1)]
    have "distinct (task_dependents s0 i)" using pg(1) by (simp add: s0_def)
    then obtain xs where c: "collect_result i s0 = s0\<lparr>bs_pendingCount := bs_pendingCount s0 - 1,
        bs_completedSet := insert i (bs_completedSet s0), bs_readyQueue := bs_readyQueue s0 @ xs\<rparr>"
      and xs: "distinct xs" "set xs \<subseteq> {d \<in> set (task_dependents s0 i). bs_tasks s0 d \<noteq> None \<and>
          set (task_deps s0 d) \<subseteq> insert i (bs_completedSet s0)}"
        "length (bs_readyQueue s0) \<le> channel_size s0 \<longrightarrow> length (bs_readyQueue s0) + length xs \<le> channel_size s0"
        "length (bs_readyQueue s0) + length (task_dependents s0 i) \<le> channel_size s0 \<longrightarrow> set xs =
           {d \<in> set (task_dependents s0 i). bs_tasks s0 d \<noteq> None \<and> set (task_deps s0 d) \<subseteq> insert i (bs_completedSet s0)}"
      by (rule collect_completed [OF st])
    let ?s' = "collect_result i s0"
    have same: "same_tasks s ?s'" unfolding c by (simp add: s0_def same_tasks_def)
    have t: "task_deps ?s' = task_deps s" "dom (bs_tasks ?s') = ?D" "channel_size ?s' = channel_size s"
      unfolding c by (simp_all add: s0_def channel_size_def)
    have x: "x \<in> ?D" "x \<notin># in_flight s + leaves_left s" "x \<notin> C" "x \<noteq> i" "set (task_deps s x) \<subseteq> insert i (bs_completedSet s)"
      if "x \<in> set xs" for x
    proof -
      show "x \<in> ?D" "set (task_deps s x) \<subseteq> insert i (bs_completedSet s)" using xs(2) that by (auto simp: s0_def)
      have ix: "i \<in> set (task_deps s x)" using xs(2) that pg(2) by (auto simp: s0_def)
      moreover have "i \<notin> bs_completedSet s" using d(6) i(2) by blast
      ultimately have "\<not> (x \<in># in_flight s \<or> x \<in> C)" using d(7) [of x] by blast
      moreover have "x \<notin># leaves_left s" using ix by (auto simp: leaves_left_def)
      ultimately show "x \<notin># in_flight s + leaves_left s" "x \<notin> C" "x \<noteq> i" using i(3) by auto
    qed
    have f: "in_flight ?s' = in_flight s0 + mset xs" "leaves_left ?s' = leaves_left s"
      unfolding c by (simp_all add: in_flight_def leaves_left_def s0_def)
    have "count (mset xs) a \<le> 1" for a using xs(1) distinct_count_atmost_1 [of xs] by auto
    moreover have "count (in_flight s0 + leaves_left s) a = 0" if "a \<in> set xs" for a
      using x(2) [OF that] by (simp add: fl not_in_iff)
    ultimately have "count (in_flight s0 + mset xs + leaves_left s) a \<le> 1" for a
      using once0 unfolding once_def by (cases "a \<in> set xs") (simp_all add: count_mset_0_iff [THEN iffD2])
    then have o: "once (in_flight s0 + mset xs + leaves_left s)" by (simp add: once_def)
    have "sched_inv (insert i C) ?s'"
      unfolding sched_inv_def plain_graph_cong [OF same] f t
    proof (intro conjI)
      show "set_mset (in_flight s0 + mset xs + leaves_left s) \<subseteq> ?D - insert i C" using sub0 x by auto
      show "\<forall>j \<in> set_mset (in_flight s0 + mset xs) \<union> insert i C. set (task_deps s j) \<subseteq> bs_completedSet ?s'"
        unfolding c using d(7) x(5) i(3) by (auto simp: s0_def fl [unfolded s0_def])
      show "length (bs_readyQueue ?s') \<le> channel_size s" unfolding c using xs(3) d(9) by (simp add: s0_def ch [unfolded s0_def])
    qed (use d(1,2,6,11) o C' pend rl in \<open>auto simp: c [unfolded s0_def] s0_def\<close>)
    with i(2) True show ?thesis by simp
  qed
qed

text \<open>The moves of the workers.\<close>

lemma worker_flight:
  assumes "w < length (bs_workers s)" "bs_workers s ! w = x"
    and "bs_readyQueue s = q1 @ bs_readyQueue s'" "bs_results s' = bs_results s @ r"
    and "mset q1 + worker_task x = worker_task y + mset r" "bs_workers s' = (bs_workers s)[w := y]"
  shows "in_flight s' = in_flight s"
proof -
  let ?q2 = "mset (bs_readyQueue s')" and ?W = "with_workers (bs_workers s)" and ?r0 = "mset (bs_results s)"
  have upd: "with_workers ((bs_workers s)[w := y]) + worker_task x = ?W + worker_task y"
    using with_workers_update [OF assms(1), of y] assms(2) by simp
  have "in_flight s' + worker_task x = ?q2 + (with_workers ((bs_workers s)[w := y]) + worker_task x) + (?r0 + mset r)"
    by (simp add: in_flight_def assms(4,6))
  also have "\<dots> = ?q2 + ?W + ?r0 + (worker_task y + mset r)"
    unfolding upd by (simp add: ac_simps)
  also have "\<dots> = in_flight s + worker_task x"
    unfolding assms(5) [symmetric] by (simp add: in_flight_def assms(3))
  finally show ?thesis by simp
qed

lemma worker_move:
  assumes "sched_inv C s" "w < length (bs_workers s)" "bs_workers s ! w = x"
    and "bs_readyQueue s = q1 @ bs_readyQueue s'" "bs_results s' = bs_results s @ r"
    and "mset q1 + worker_task x = worker_task y + mset r" "length (bs_results s') \<le> channel_size s"
    and "bs_workers s' = (bs_workers s)[w := y]" "same_tasks s s'" "bs_completedSet s' = bs_completedSet s"
    "bs_pendingCount s' = bs_pendingCount s" "bs_unqueued s' = bs_unqueued s"
  shows "sched_inv C s'"
proof -
  note worker_flight [OF assms(2-6,8)]
  moreover have "leaves_left s' = leaves_left s"
    using assms(9,12) by (simp add: leaves_left_def same_tasks_def)
  ultimately show ?thesis
    using assms(7-11) sched_invD(9) [OF assms(1)] assms(4) by (intro sched_inv_move [OF assms(1)]) simp_all
qed

lemma step_inv:
  assumes "sched_step s s'" "sched_inv C s"
  shows "sched_inv C s' \<or> (\<exists>i is. bs_results s = i # is \<and> 0 < bs_pendingCount s \<and>
    s' = collect_result i (s\<lparr>bs_results := is\<rparr>) \<and> i \<notin> C \<and> sched_inv (insert i C) s')"
  using assms
proof (induction rule: sched_step.induct)
  case (queue_ready s i "is")
  note d = sched_invD [OF queue_ready(4)]
  let ?s' = "(set_status i BuildStatusWaiting s)\<lparr>bs_unqueued := is, bs_readyQueue := bs_readyQueue s @ [i]\<rparr>"
  have "in_flight ?s' = in_flight s + {#i#}" by (simp add: in_flight_def)
  moreover have "leaves_left s = leaves_left ?s' + {#i#}"
    using queue_ready(1,2) by (simp add: leaves_left_def task_deps_def) (simp add: task_deps_def [symmetric])
  ultimately have "sched_inv C ?s'"
    using queue_ready(2,3) d(10)
    by (intro sched_inv_move [OF queue_ready(4)]) (auto simp: same_tasks_def fun_eq_iff)
  then show ?case ..
next
  case (queue_waiting s i "is")
  note d = sched_invD [OF queue_waiting(3)]
  let ?s' = "(set_status i BuildStatusWaiting s)\<lparr>bs_unqueued := is\<rparr>"
  have "in_flight ?s' = in_flight s" by (simp add: in_flight_def)
  moreover have "leaves_left s = leaves_left ?s'" using queue_waiting(1,2) by (simp add: leaves_left_def)
  ultimately have "sched_inv C ?s'"
    using d(9,10) by (intro sched_inv_move [OF queue_waiting(3)]) (auto simp: same_tasks_def fun_eq_iff)
  then show ?case ..
next
  case (take_task w s i "is")
  have "sched_inv C ((set_status i BuildStatusRunning s)\<lparr>bs_readyQueue := is, bs_workers := (bs_workers s)[w := Building i]\<rparr>)"
    by (rule worker_move [OF take_task(5,1,2), where ?q1.0 = "[i]" and r = "[]" and y = "Building i"])
      (use take_task sched_invD(10) [OF take_task(5)] in \<open>simp_all add: same_tasks_def fun_eq_iff\<close>)
  then show ?case ..
next
  case (skip_task w s i "is")
  have "sched_inv C ((set_status i BuildStatusCanceled s)\<lparr>bs_readyQueue := is, bs_workers := (bs_workers s)[w := Sending i]\<rparr>)"
    by (rule worker_move [OF skip_task(5,1,2), where ?q1.0 = "[i]" and r = "[]" and y = "Sending i"])
      (use skip_task sched_invD(10) [OF skip_task(5)] in \<open>simp_all add: same_tasks_def fun_eq_iff\<close>)
  then show ?case ..
next
  case (finish_ok w s i)
  have "sched_inv C ((set_status i BuildStatusCompleted s)\<lparr>bs_workers := (bs_workers s)[w := Sending i]\<rparr>)"
    by (rule worker_move [OF finish_ok(3,1,2), where ?q1.0 = "[]" and r = "[]" and y = "Sending i"])
      (use sched_invD(10) [OF finish_ok(3)] in \<open>simp_all add: same_tasks_def fun_eq_iff\<close>)
  then show ?case ..
next
  case (finish_fail w s i)
  have "sched_inv C ((set_status i BuildStatusFailed s)\<lparr>bs_workers := (bs_workers s)[w := Sending i]\<rparr>)"
    by (rule worker_move [OF finish_fail(3,1,2), where ?q1.0 = "[]" and r = "[]" and y = "Sending i"])
      (use sched_invD(10) [OF finish_fail(3)] in \<open>simp_all add: same_tasks_def fun_eq_iff\<close>)
  then show ?case ..
next
  case (send_result w s i)
  have "sched_inv C (s\<lparr>bs_results := bs_results s @ [i], bs_workers := (bs_workers s)[w := Idle]\<rparr>)"
    by (rule worker_move [OF send_result(4,1,2), where ?q1.0 = "[]" and r = "[i]" and y = Idle])
      (use send_result(3) in \<open>simp_all add: same_tasks_def\<close>)
  then show ?case ..
next
  case (collect s i "is")
  with collect_inv [OF collect(3,2,1)] show ?case by blast
qed

subsection \<open>Runs\<close>

inductive_cases sched_step_from: "sched_step s s'"

abbreviation sched_run :: "build_scheduler \<Rightarrow> build_scheduler \<Rightarrow> bool" where
  "sched_run \<equiv> sched_step\<^sup>*\<^sup>*"

definition fresh_scheduler :: "build_scheduler \<Rightarrow> bool" where
  "fresh_scheduler s \<longleftrightarrow> plain_graph s \<and> finite (dom (bs_tasks s)) \<and> bs_completedSet s = {} \<and> bs_readyQueue s = [] \<and>
     bs_results s = [] \<and> \<not> bs_hasFailed s"

lemma started_inv:
  assumes "fresh_scheduler s" "start_scheduler ids order s = Inr s0"
    "distinct ids" "set ids = dom (bs_tasks s)" "distinct order" "set order = dom (bs_tasks s)"
  shows "sched_inv {} s0" and "same_tasks s s0" and "bs_unqueued s0 = order" and "bs_hasFailed s0 = bs_hasFailed s"
    and "bs_completedSet s0 = {}" and "bs_results s0 = []" and "bs_readyQueue s0 = []" and "bs_workers s0 = replicate (bs_MaxWorkers s) Idle"
proof -
  obtain ord where s0: "s0 = s\<lparr>bs_isRunning := True, bs_buildOrder := ord,
      bs_workers := replicate (bs_MaxWorkers s) Idle, bs_unqueued := order, bs_pendingCount := length ids\<rparr>"
    using assms(2) by (auto simp: start_scheduler_def split: if_splits option.splits)
  have same: "same_tasks s s0"
    by (simp add: s0 same_tasks_def task_deps_def task_dependents_def fun_eq_iff)
  then show "same_tasks s s0" .
  show "bs_unqueued s0 = order" "bs_hasFailed s0 = bs_hasFailed s" "bs_workers s0 = replicate (bs_MaxWorkers s) Idle"
    by (simp_all add: s0)
  show "bs_completedSet s0 = {}" "bs_results s0 = []" "bs_readyQueue s0 = []"
    using assms(1) by (simp_all add: s0 fresh_scheduler_def)
  have t: "task_deps s0 = task_deps s" "dom (bs_tasks s0) = dom (bs_tasks s)" "bs_MaxWorkers s0 = bs_MaxWorkers s"
    using same by (simp_all add: same_tasks_def)
  have f: "in_flight s0 = {#}" using assms(1) by (simp add: s0 in_flight_def with_workers_idle fresh_scheduler_def)
  have l: "leaves_left s0 = mset (filter (\<lambda>i. task_deps s i = []) order)"
    unfolding leaves_left_def t by (simp add: s0)
  have o: "once (mset xs)" if "distinct xs" for xs :: "string list"
    using that distinct_count_atmost_1 [of xs] by (simp add: once_def)
  show "sched_inv {} s0"
    unfolding sched_inv_def plain_graph_cong [OF same] t f l
    using assms(1,3-6) o [of "filter (\<lambda>i. task_deps s i = []) order"] distinct_card [OF assms(3)]
    by (auto simp: fresh_scheduler_def s0)
qed

lemma step_same: "sched_step s s' \<Longrightarrow> sched_inv C s \<Longrightarrow> same_tasks s s'"
proof (induction rule: sched_step.induct)
  case (collect s i "is")
  show ?case
  proof (cases "task_status s i = Some BuildStatusCompleted")
    case False
    then have st: "task_status (s\<lparr>bs_results := is\<rparr>) i \<noteq> Some BuildStatusCompleted" by simp
    from collect_failed(1) [OF st] show ?thesis by (simp add: same_tasks_def)
  next
    case True
    then have st: "task_status (s\<lparr>bs_results := is\<rparr>) i = Some BuildStatusCompleted" by simp
    have "distinct (task_dependents (s\<lparr>bs_results := is\<rparr>) i)"
      using plain_graph_lists(1) [OF sched_invD(1) [OF collect(3)]] by simp
    then obtain xs where c: "collect_result i (s\<lparr>bs_results := is\<rparr>) = (s\<lparr>bs_results := is\<rparr>)
        \<lparr>bs_pendingCount := bs_pendingCount (s\<lparr>bs_results := is\<rparr>) - 1,
         bs_completedSet := insert i (bs_completedSet (s\<lparr>bs_results := is\<rparr>)),
         bs_readyQueue := bs_readyQueue (s\<lparr>bs_results := is\<rparr>) @ xs\<rparr>"
      using collect_completed [OF st] by metis
    show ?thesis unfolding c by (simp add: same_tasks_def)
  qed
qed (auto simp: same_tasks_def fun_eq_iff)

lemma collect_result_cases:
  assumes "sched_inv C s" "bs_results s = i # is"
  obtains (failed) "task_status s i \<noteq> Some BuildStatusCompleted"
      "bs_completedSet (collect_result i (s\<lparr>bs_results := is\<rparr>)) = bs_completedSet s"
      "bs_readyQueue (collect_result i (s\<lparr>bs_results := is\<rparr>)) = bs_readyQueue s"
      "bs_results (collect_result i (s\<lparr>bs_results := is\<rparr>)) = is"
      "bs_workers (collect_result i (s\<lparr>bs_results := is\<rparr>)) = bs_workers s"
      "bs_unqueued (collect_result i (s\<lparr>bs_results := is\<rparr>)) = bs_unqueued s"
    | (completed) xs where "task_status s i = Some BuildStatusCompleted"
      "collect_result i (s\<lparr>bs_results := is\<rparr>) = s\<lparr>bs_results := is, bs_pendingCount := bs_pendingCount s - 1,
         bs_completedSet := insert i (bs_completedSet s), bs_readyQueue := bs_readyQueue s @ xs\<rparr>"
      "length (bs_readyQueue s) + length (task_dependents s i) \<le> channel_size s \<longrightarrow>
         set xs = {d \<in> set (task_dependents s i). bs_tasks s d \<noteq> None \<and> set (task_deps s d) \<subseteq> insert i (bs_completedSet s)}"
proof (cases "task_status s i = Some BuildStatusCompleted")
  case False
  then have st: "task_status (s\<lparr>bs_results := is\<rparr>) i \<noteq> Some BuildStatusCompleted" by simp
  show thesis by (rule failed) (use False collect_failed [OF st] in simp_all)
next
  case True
  let ?s = "s\<lparr>bs_results := is\<rparr>"
  from True have st: "task_status ?s i = Some BuildStatusCompleted" by simp
  have dd: "distinct (task_dependents ?s i)"
    using plain_graph_lists(1) [OF sched_invD(1) [OF assms(1)]] by simp
  obtain xs where xs: "collect_result i ?s = ?s\<lparr>bs_pendingCount := bs_pendingCount ?s - 1,
      bs_completedSet := insert i (bs_completedSet ?s), bs_readyQueue := bs_readyQueue ?s @ xs\<rparr>"
    "distinct xs" "set xs \<subseteq> {d \<in> set (task_dependents ?s i). bs_tasks ?s d \<noteq> None \<and>
       set (task_deps ?s d) \<subseteq> insert i (bs_completedSet ?s)}"
    "length (bs_readyQueue ?s) \<le> channel_size ?s \<longrightarrow> length (bs_readyQueue ?s) + length xs \<le> channel_size ?s"
    "length (bs_readyQueue ?s) + length (task_dependents ?s i) \<le> channel_size ?s \<longrightarrow>
       set xs = {d \<in> set (task_dependents ?s i). bs_tasks ?s d \<noteq> None \<and> set (task_deps ?s d) \<subseteq> insert i (bs_completedSet ?s)}"
    by (rule collect_completed [OF st dd])
  show thesis by (rule completed [OF True, of xs]) (use xs in \<open>simp_all add: channel_size_def\<close>)
qed

lemma step_completed:
  assumes "sched_step s s'" "sched_inv C s"
  shows "bs_completedSet s' = bs_completedSet s \<or>
    (\<exists>i is. bs_results s = i # is \<and> bs_completedSet s' = insert i (bs_completedSet s))"
  using assms
proof (induction rule: sched_step.induct)
  case (collect s i "is")
  show ?case by (rule collect_result_cases [OF collect(3,2)]) (use collect(2) in auto)
qed simp_all

text \<open>What has been collected stays collected, and what was not completed then never is.\<close>

lemma run_inv:
  assumes "sched_run s s'" "sched_inv C s"
  shows "\<exists>C'. C \<subseteq> C' \<and> sched_inv C' s' \<and> same_tasks s s' \<and> C \<inter> bs_completedSet s' \<subseteq> bs_completedSet s"
  using assms
proof (induction arbitrary: C rule: converse_rtranclp_induct)
  case base
  then show ?case by (intro exI [where x = C]) auto
next
  case (step s s1)
  note d = sched_invD [OF step.prems]
  obtain C1 where C1: "C \<subseteq> C1" "sched_inv C1 s1" using step_inv [OF step(1) step.prems] by blast
  from step.IH [OF C1(2)] obtain C' where C': "C1 \<subseteq> C'" "sched_inv C' s'" "same_tasks s1 s'"
    "C1 \<inter> bs_completedSet s' \<subseteq> bs_completedSet s1" by blast
  have "C \<inter> bs_completedSet s1 \<subseteq> bs_completedSet s"
    using step_completed [OF step(1) step.prems] d(4) by (auto simp: in_flight_def)
  then show ?case
    using C1 C' same_tasks_trans [OF step_same [OF step(1) step.prems] C'(3)] by (intro exI [where x = C']) auto
qed

subsection \<open>Every run is finite\<close>

fun worker_cost :: "build_worker \<Rightarrow> nat" where
  "worker_cost Idle = 0"
| "worker_cost (Building i) = 3"
| "worker_cost (Sending i) = 2"

definition run_cost :: "string set \<Rightarrow> build_scheduler \<Rightarrow> nat" where
  "run_cost C s = length (bs_unqueued s) + 5 * (card (dom (bs_tasks s)) - card C - size (in_flight s)) +
     4 * length (bs_readyQueue s) + sum_list (map worker_cost (bs_workers s)) + length (bs_results s)"

lemma in_flight_size:
  assumes "sched_inv C s"
  shows "size (in_flight s) + card C \<le> card (dom (bs_tasks s))"
proof -
  note d = sched_invD [OF assms]
  have "\<forall>x \<in># in_flight s. count (in_flight s) x = 1"
    using once_subset [OF d(3)] unfolding once_def by (metis One_nat_def count_eq_zero_iff le_Suc_eq le_zero_eq)
  then have "size (in_flight s) = card (set_mset (in_flight s))" by (simp add: size_multiset_overloaded_eq)
  also have "\<dots> \<le> card (dom (bs_tasks s) - C)" using d(2,4) by (intro card_mono) auto
  also have "\<dots> = card (dom (bs_tasks s)) - card C"
    using d(2,5) by (simp add: card_Diff_subset finite_subset)
  finally show ?thesis using card_mono [OF d(2,5)] by simp
qed

lemma worker_sums:
  assumes "w < length ws" "ws ! w = x"
  shows "size (with_workers (ws[w := y])) + size (worker_task x) = size (with_workers ws) + size (worker_task y)"
    and "sum_list (map worker_cost (ws[w := y])) + worker_cost x = sum_list (map worker_cost ws) + worker_cost y"
  using arg_cong [OF with_workers_update [OF assms(1), of y], of size]
    sum_list_update_add [OF assms(1), of worker_cost y] assms(2) by simp_all

lemma collect_pending:
  assumes "sched_inv C s" "bs_results s = i # is"
  shows "bs_pendingCount (collect_result i (s\<lparr>bs_results := is\<rparr>)) = bs_pendingCount s - 1"
proof (cases "task_status s i = Some BuildStatusCompleted")
  case True
  show ?thesis by (rule collect_result_cases [OF assms]) (use True in simp_all)
next
  case False
  then show ?thesis using collect_failed(7) [of "s\<lparr>bs_results := is\<rparr>" i] by simp
qed

lemma move_cost:
  assumes "sched_step s s'" "sched_inv C s" "sched_inv C s'"
  shows "run_cost C s' < run_cost C s"
proof -
  note le = in_flight_size [OF assms(2)] in_flight_size [OF assms(3)]
  have "dom (bs_tasks s') = dom (bs_tasks s)" using step_same [OF assms(1,2)] by (simp add: same_tasks_def)
  with assms(1) le assms(2,3) show ?thesis
  proof (induction rule: sched_step.induct)
    case (take_task w s i "is")
    with worker_sums [OF take_task(1,2), of "Building i"] show ?case by (simp add: run_cost_def in_flight_def)
  next
    case (skip_task w s i "is")
    with worker_sums [OF skip_task(1,2), of "Sending i"] show ?case by (simp add: run_cost_def in_flight_def)
  next
    case (finish_ok w s i)
    with worker_sums [OF finish_ok(1,2), of "Sending i"] show ?case by (simp add: run_cost_def in_flight_def)
  next
    case (finish_fail w s i)
    with worker_sums [OF finish_fail(1,2), of "Sending i"] show ?case by (simp add: run_cost_def in_flight_def)
  next
    case (send_result w s i)
    with worker_sums [OF send_result(1,2), of Idle] show ?case by (simp add: run_cost_def in_flight_def)
  next
    case (collect s i "is")
    have "bs_pendingCount (collect_result i (s\<lparr>bs_results := is\<rparr>)) = bs_pendingCount s"
      using sched_invD(8) [OF collect(5)] sched_invD(8) [OF collect(6)] collect(7) by simp
    then show ?case using collect_pending [OF collect(5,2)] collect(1) by simp
  qed (simp_all add: run_cost_def in_flight_def)
qed

lemma collect_cost:
  assumes "sched_inv C s" "bs_results s = i # is" "0 < bs_pendingCount s"
  shows "run_cost (insert i C) (collect_result i (s\<lparr>bs_results := is\<rparr>)) < run_cost C s"
proof -
  let ?s' = "collect_result i (s\<lparr>bs_results := is\<rparr>)"
  have inv': "sched_inv (insert i C) ?s'" "i \<notin> C" using collect_inv [OF assms] by simp_all
  have fin: "finite C" using sched_invD(2,5) [OF assms(1)] finite_subset by blast
  have dom: "dom (bs_tasks ?s') = dom (bs_tasks s)"
    using step_same [OF sched_step.collect [OF assms(3,2)] assms(1)] by (simp add: same_tasks_def)
  note le = in_flight_size [OF assms(1)] in_flight_size [OF inv'(1)]
  show ?thesis
  proof (rule collect_result_cases [OF assms(1,2)])
    assume "bs_readyQueue ?s' = bs_readyQueue s" "bs_results ?s' = is" "bs_workers ?s' = bs_workers s"
      "bs_unqueued ?s' = bs_unqueued s"
    with le inv'(2) fin show ?thesis by (simp add: run_cost_def in_flight_def dom assms(2))
  next
    fix xs
    assume c: "?s' = s\<lparr>bs_results := is, bs_pendingCount := bs_pendingCount s - 1,
         bs_completedSet := insert i (bs_completedSet s), bs_readyQueue := bs_readyQueue s @ xs\<rparr>"
    from le inv'(2) fin show ?thesis unfolding c by (simp add: run_cost_def in_flight_def assms(2))
  qed
qed

lemma run_bounded:
  assumes "(sched_step ^^ n) s s'" "sched_inv C s"
  shows "\<exists>C'. sched_inv C' s' \<and> n + run_cost C' s' \<le> run_cost C s"
  using assms
proof (induction n arbitrary: s C)
  case (Suc n)
  then obtain s1 where s1: "sched_step s s1" "(sched_step ^^ n) s1 s'" by (metis relpowp_Suc_D2)
  from step_inv [OF s1(1) Suc.prems(2)] obtain C1 where "sched_inv C1 s1" "run_cost C1 s1 < run_cost C s"
    using move_cost [OF s1(1) Suc.prems(2)] collect_cost [OF Suc.prems(2)] by blast
  with Suc.IH [OF s1(2)] show ?case by fastforce
qed auto

end
