(* ===== verification/Scheduler_Live.thy ===== *)
theory Scheduler_Live
  imports Scheduler_Run
begin

text \<open>
  Runs without failed builds, and the properties of the scheduler. \<open>ok_step\<close> is a step after which no task
  has failed. \<open>live_inv\<close> holds when \<open>queueReadyTasks\<close> has finished: every task whose dependencies are
  completed is in the ready queue, with a worker, among the results, or completed.
\<close>

definition ok_step :: "build_scheduler \<Rightarrow> build_scheduler \<Rightarrow> bool" where
  "ok_step s s' \<longleftrightarrow> sched_step s s' \<and> (\<forall>i. task_status s' i \<noteq> Some BuildStatusFailed)"

definition live_inv :: "string set \<Rightarrow> build_scheduler \<Rightarrow> bool" where
  "live_inv C s \<longleftrightarrow> sched_inv C s \<and> bs_unqueued s = [] \<and> C = bs_completedSet s \<and> \<not> bs_hasFailed s \<and>
     card (dom (bs_tasks s)) \<le> channel_size s \<and>
     (\<forall>t \<in> dom (bs_tasks s). set (task_deps s t) \<subseteq> C \<longrightarrow> t \<in># in_flight s \<or> t \<in> C) \<and>
     (\<forall>i. i \<in> set (bs_results s) \<or> Sending i \<in> set (bs_workers s) \<longrightarrow> task_status s i = Some BuildStatusCompleted) \<and>
     (\<forall>i. task_status s i \<noteq> Some BuildStatusFailed)"

lemma live_invD:
  assumes "live_inv C s"
  shows "sched_inv C s" "bs_unqueued s = []" "C = bs_completedSet s" "\<not> bs_hasFailed s"
    "card (dom (bs_tasks s)) \<le> channel_size s"
    "\<And>t. t \<in> dom (bs_tasks s) \<Longrightarrow> set (task_deps s t) \<subseteq> C \<Longrightarrow> t \<in># in_flight s \<or> t \<in> C"
    "\<And>i. i \<in> set (bs_results s) \<or> Sending i \<in> set (bs_workers s) \<Longrightarrow> task_status s i = Some BuildStatusCompleted"
    "\<And>i. task_status s i \<noteq> Some BuildStatusFailed"
  using assms unfolding live_inv_def by blast+

lemma move_keeps:
  assumes "sched_step s s'" "sched_inv C s" "bs_pendingCount s' = bs_pendingCount s"
  shows "sched_inv C s'"
proof -
  have False if "bs_results s = i # is" "0 < bs_pendingCount s" "s' = collect_result i (s\<lparr>bs_results := is\<rparr>)" for i "is"
    using collect_pending [OF assms(2) that(1)] assms(3) that(2,3) by simp
  then show ?thesis using step_inv [OF assms(1,2)] by blast
qed

text \<open>A move of a worker that sets the status of its task.\<close>

lemma live_move:
  assumes "live_inv C s" "sched_step s s'" "\<And>i. task_status s' i \<noteq> Some BuildStatusFailed"
    and "bs_pendingCount s' = bs_pendingCount s" "bs_completedSet s' = bs_completedSet s"
    "bs_unqueued s' = bs_unqueued s" "bs_hasFailed s' = bs_hasFailed s" "in_flight s' = in_flight s"
    and "\<And>i. i \<in> set (bs_results s') \<or> Sending i \<in> set (bs_workers s') \<Longrightarrow> task_status s' i = Some BuildStatusCompleted"
  shows "live_inv C s'"
proof -
  note l = live_invD [OF assms(1)]
  have same: "same_tasks s s'" by (rule step_same [OF assms(2) l(1)])
  then have t: "task_deps s' = task_deps s" "dom (bs_tasks s') = dom (bs_tasks s)" "channel_size s' = channel_size s"
    by (simp_all add: same_tasks_def channel_size_def)
  have "sched_inv C s'" by (rule move_keeps [OF assms(2) l(1) assms(4)])
  then show ?thesis
    unfolding live_inv_def t assms(5-8) using l(2-6) assms(3,9) by blast
qed

lemma worker_here:
  assumes "w < length (bs_workers s)" "bs_workers s ! w = x" "i \<in># worker_task x"
  shows "i \<in># in_flight s"
proof -
  have "with_workers (bs_workers s) = with_workers ((bs_workers s)[w := Idle]) + worker_task x"
    using with_workers_update [OF assms(1), of Idle] assms(2) by simp
  with assms(3) show ?thesis by (simp add: in_flight_def)
qed

lemma sending_mem: "Sending j \<in> set ws \<Longrightarrow> j \<in># with_workers ws"
  by (induction ws) (auto simp: with_workers_def)

lemma update_sending:
  "Sending j \<in> set (ws[w := x]) \<Longrightarrow> x = Sending j \<or> Sending j \<in> set ws"
  using set_update_subset_insert by fastforce

text \<open>A task at the head of the ready queue or being built is nowhere else.\<close>

lemma head_alone:
  assumes "sched_inv C s" "bs_readyQueue s = i # is"
  shows "i \<notin> set (bs_results s)" "Sending i \<notin> set (bs_workers s)"
proof -
  have "count (in_flight s) i \<le> 1" using once_subset [OF sched_invD(3) [OF assms(1)]] by (simp add: once_def)
  then have "count (with_workers (bs_workers s)) i = 0" "count (mset (bs_results s)) i = 0"
    by (simp_all add: in_flight_def assms(2))
  then show "i \<notin> set (bs_results s)" "Sending i \<notin> set (bs_workers s)"
    using sending_mem [of i "bs_workers s"] by (auto simp: count_mset_0_iff count_eq_zero_iff)
qed

lemma live_collect:
  assumes "live_inv C s" "bs_results s = i # is" "0 < bs_pendingCount s"
  shows "live_inv (insert i C) (collect_result i (s\<lparr>bs_results := is\<rparr>))"
proof -
  let ?s' = "collect_result i (s\<lparr>bs_results := is\<rparr>)"
  note l = live_invD [OF assms(1)]
  note d = sched_invD [OF l(1)]
  note pg = plain_graph_lists [OF d(1)]
  have inv: "sched_inv (insert i C) ?s'" "i \<notin> C" using collect_inv [OF l(1) assms(2,3)] by simp_all
  have i: "task_status s i = Some BuildStatusCompleted" using l(7) [of i] assms(2) by simp
  obtain xs where c: "?s' = s\<lparr>bs_results := is, bs_pendingCount := bs_pendingCount s - 1,
         bs_completedSet := insert i (bs_completedSet s), bs_readyQueue := bs_readyQueue s @ xs\<rparr>"
    and xs: "length (bs_readyQueue s) + length (task_dependents s i) \<le> channel_size s \<longrightarrow>
         set xs = {d \<in> set (task_dependents s i). bs_tasks s d \<noteq> None \<and> set (task_deps s d) \<subseteq> insert i (bs_completedSet s)}"
    by (rule collect_result_cases [OF l(1) assms(2)]) (use i in auto)
  have "set (bs_readyQueue s) \<inter> set (task_dependents s i) = {}"
  proof -
    have "i \<notin> bs_completedSet s" using inv(2) l(3) by simp
    then have "\<not> j \<in># in_flight s" if "j \<in> set (task_dependents s i)" for j
      using d(7) [of j] that pg(2) by blast
    then show ?thesis by (auto simp: in_flight_def)
  qed
  moreover have "distinct (bs_readyQueue s)"
  proof -
    have "count (mset (bs_readyQueue s)) x \<le> 1" for x
      using once_subset [OF d(3)] unfolding once_def in_flight_def by (metis add_leD1 count_union)
    then have "count (mset (bs_readyQueue s)) x = (if x \<in> set (bs_readyQueue s) then 1 else 0)" for x
      by (metis One_nat_def count_mset_0_iff le_Suc_eq le_zero_eq)
    then show ?thesis by (subst distinct_count_atmost_1) blast
  qed
  ultimately have "distinct (bs_readyQueue s @ task_dependents s i)" using pg(1) by simp
  moreover have "set (bs_readyQueue s @ task_dependents s i) \<subseteq> dom (bs_tasks s)"
  proof -
    have "u \<in> dom (bs_tasks s)" if "u \<in> set (task_dependents s i)" for u
    proof (cases "bs_tasks s u")
      case None
      then have "task_deps s u = []" by (simp add: task_deps_def)
      with that pg(2) show ?thesis by simp
    qed auto
    then have "set (task_dependents s i) \<subseteq> dom (bs_tasks s)" by blast
    moreover have "set (bs_readyQueue s) \<subseteq> dom (bs_tasks s)" using d(4) by (auto simp: in_flight_def)
    ultimately show ?thesis by simp
  qed
  ultimately have "length (bs_readyQueue s @ task_dependents s i) \<le> card (dom (bs_tasks s))"
    using d(2) card_mono distinct_card by metis
  with l(5) xs have new: "set xs = {d \<in> set (task_dependents s i). bs_tasks s d \<noteq> None \<and> set (task_deps s d) \<subseteq> insert i C}"
    by (simp add: l(3))
  have fl: "in_flight ?s' + {#i#} = in_flight s + mset xs" by (simp add: c in_flight_def assms(2))
  have mem: "t \<in># in_flight ?s' \<or> t = i \<longleftrightarrow> t \<in># in_flight s \<or> t \<in> set xs" for t
    using arg_cong [OF fl, of "\<lambda>M. t \<in># M"] by auto
  have "t \<in># in_flight ?s' \<or> t \<in> insert i C" if t: "t \<in> dom (bs_tasks s)" "set (task_deps s t) \<subseteq> insert i C" for t
  proof (cases "i \<in> set (task_deps s t)")
    case True
    then have "t \<in> set xs" using t pg(2) by (auto simp: new)
    then show ?thesis using mem by blast
  next
    case False
    then have "t \<in># in_flight s \<or> t \<in> C" using t l(6) by blast
    then show ?thesis using mem by blast
  qed
  moreover have "task_status ?s' j = task_status s j" for j unfolding c by (simp add: task_status_def)
  moreover have "channel_size ?s' = channel_size s" "task_deps ?s' = task_deps s" "bs_tasks ?s' = bs_tasks s"
    unfolding c by (simp_all add: channel_size_def)
  moreover have "bs_unqueued ?s' = []" "bs_completedSet ?s' = insert i C" "\<not> bs_hasFailed ?s'"
    "set (bs_results ?s') \<subseteq> set (bs_results s)" "bs_workers ?s' = bs_workers s"
    unfolding c using l(2-4) assms(2) by auto
  ultimately show ?thesis
    unfolding live_inv_def using inv(1) l(5,7,8) by (metis subset_code(1))
qed

lemma live_step:
  assumes "ok_step s s'" "live_inv C s"
  shows "\<exists>C'. live_inv C' s'"
proof -
  have st: "sched_step s s'" and nf: "\<And>i. task_status s' i \<noteq> Some BuildStatusFailed"
    using assms(1) by (simp_all add: ok_step_def)
  note l = live_invD [OF assms(2)]
  from st show ?thesis
  proof (cases rule: sched_step.cases)
    case (take_task w i "is")
    have "live_inv C s'"
    proof (rule live_move [OF assms(2) st nf])
      show "in_flight s' = in_flight s"
        by (rule worker_flight [OF take_task(2,3), where ?q1.0 = "[i]" and r = "[]" and y = "Building i"])
          (use take_task in simp_all)
      show "task_status s' j = Some BuildStatusCompleted" if "j \<in> set (bs_results s') \<or> Sending j \<in> set (bs_workers s')" for j
        using that l(7) [of j] head_alone [OF l(1) take_task(4)] update_sending [of j "bs_workers s" w "Building i"]
        by (auto simp: take_task(1) set_status_status)
    qed (simp_all add: take_task(1))
    then show ?thesis ..
  next
    case (skip_task w i "is")
    then show ?thesis using l(4) by (simp add: stopping_def)
  next
    case (finish_ok w i)
    have i: "bs_tasks s i \<noteq> None"
      using worker_here [OF finish_ok(2,3), of i] sched_invD(4) [OF l(1)] by auto
    have "live_inv C s'"
    proof (rule live_move [OF assms(2) st nf])
      show "in_flight s' = in_flight s"
        by (rule worker_flight [OF finish_ok(2,3), where ?q1.0 = "[]" and r = "[]" and y = "Sending i"])
          (simp_all add: finish_ok(1))
      show "task_status s' j = Some BuildStatusCompleted" if "j \<in> set (bs_results s') \<or> Sending j \<in> set (bs_workers s')" for j
        using that l(7) [of j] update_sending [of j "bs_workers s" w "Sending i"] i
        by (auto simp: finish_ok(1) set_status_status)
    qed (simp_all add: finish_ok(1))
    then show ?thesis ..
  next
    case (finish_fail w i)
    have "bs_tasks s i \<noteq> None"
      using worker_here [OF finish_fail(2,3), of i] sched_invD(4) [OF l(1)] by auto
    then have "task_status s' i = Some BuildStatusFailed" by (auto simp: finish_fail(1) set_status_status)
    with nf show ?thesis by blast
  next
    case (send_result w i)
    have "live_inv C s'"
    proof (rule live_move [OF assms(2) st nf])
      show "in_flight s' = in_flight s"
        by (rule worker_flight [OF send_result(2,3), where ?q1.0 = "[]" and r = "[i]" and y = Idle])
          (simp_all add: send_result(1))
      have "Sending i \<in> set (bs_workers s)" using send_result(2,3) by (metis nth_mem)
      then show "task_status s' j = Some BuildStatusCompleted" if "j \<in> set (bs_results s') \<or> Sending j \<in> set (bs_workers s')" for j
        using that l(7) [of j] l(7) [of i] update_sending [of j "bs_workers s" w Idle]
        by (auto simp: send_result(1))
    qed (simp_all add: send_result(1))
    then show ?thesis ..
  next
    case (collect i "is")
    from live_collect [OF assms(2) collect(3,2)] show ?thesis unfolding collect(1) ..
  qed (use l(2) in simp_all)
qed

subsection \<open>No run without failures gets stuck\<close>

lemma live_progress:
  assumes "live_inv C s" "0 < bs_MaxWorkers s" "deps_first s [] order" "set order = dom (bs_tasks s)"
  shows "bs_pendingCount s = 0 \<and> bs_completedSet s = dom (bs_tasks s) \<or> (\<exists>s'. ok_step s s')"
proof -
  note l = live_invD [OF assms(1)]
  note d = sched_invD [OF l(1)]
  have chan: "0 < channel_size s" using assms(2) by (simp add: channel_size_def)
  consider (res) i "is" where "bs_results s = i # is" "0 < bs_pendingCount s"
    | (zero) "bs_pendingCount s = 0"
    | (busy) w where "bs_results s = []" "w < length (bs_workers s)" "bs_workers s ! w \<noteq> Idle"
    | (idle) "bs_results s = []" "\<forall>w < length (bs_workers s). bs_workers s ! w = Idle" "0 < bs_pendingCount s"
    by (metis neq0_conv neq_Nil_conv)
  then show ?thesis
  proof cases
    case res
    from live_invD(8) [OF live_collect [OF assms(1) res]] sched_step.collect [OF res(2,1)]
    show ?thesis by (auto simp: ok_step_def)
  next
    case zero
    with d(8) have "card C = card (dom (bs_tasks s))" by simp
    then have "C = dom (bs_tasks s)" using d(2,5) card_subset_eq by blast
    with zero l(3) show ?thesis by simp
  next
    case busy
    show ?thesis
    proof (cases "bs_workers s ! w")
      case Idle
      with busy show ?thesis by simp
    next
      case (Building i)
      have "\<exists>s'. ok_step s s'"
        using sched_step.finish_ok [OF busy(2) Building] l(8)
        by (intro exI) (auto simp: ok_step_def set_status_status split: if_splits)
      then show ?thesis ..
    next
      case (Sending i)
      have "length (bs_results s) < channel_size s" using busy(1) chan by simp
      from sched_step.send_result [OF busy(2) Sending this] l(8)
      have "\<exists>s'. ok_step s s'" by (intro exI) (auto simp: ok_step_def)
      then show ?thesis ..
    qed
  next
    case idle
    show ?thesis
    proof (cases "bs_readyQueue s")
      case (Cons i "is")
      have w: "0 < length (bs_workers s)" "bs_workers s ! 0 = Idle" using idle(2) d(11) assms(2) by auto
      have "\<exists>s'. ok_step s s'"
        using sched_step.take_task [OF w Cons] l(4,8)
        by (intro exI) (auto simp: ok_step_def stopping_def set_status_status split: if_splits)
      then show ?thesis ..
    next
      case Nil
      have "bs_workers s = replicate (length (bs_workers s)) Idle" using idle(2) by (simp add: list_eq_iff_nth_eq)
      then have "with_workers (bs_workers s) = {#}" by (metis with_workers_idle)
      then have none: "in_flight s = {#}" by (simp add: in_flight_def Nil idle(1))
      have "set xs \<subseteq> C" if "deps_first s done xs" "set done \<subseteq> C" "set xs \<subseteq> dom (bs_tasks s)" for "done" xs
        using that
      proof (induction xs arbitrary: "done")
        case (Cons x xs)
        then have "x \<in> C" using l(6) [of x] none by auto
        moreover have "set xs \<subseteq> C" using Cons.IH [of "done @ [x]"] Cons.prems \<open>x \<in> C\<close> by simp
        ultimately show ?case by simp
      qed simp
      from this [OF assms(3)] have "dom (bs_tasks s) \<subseteq> C" using assms(4) by simp
      with d(5,8) idle(3) show ?thesis by simp
    qed
  qed
qed

lemma live_run:
  assumes "(ok_step ^^ n) s s'" "live_inv C s"
  shows "(sched_step ^^ n) s s' \<and> (\<exists>C'. live_inv C' s')"
  using assms
proof (induction n arbitrary: s C)
  case (Suc n)
  then obtain s1 where s1: "ok_step s s1" "(ok_step ^^ n) s1 s'" by (metis relpowp_Suc_D2)
  from live_step [OF s1(1) Suc.prems(2)] obtain C1 where "live_inv C1 s1" ..
  from Suc.IH [OF s1(2) this] have "(sched_step ^^ n) s1 s'" "\<exists>C'. live_inv C' s'" by simp_all
  moreover have "sched_step s s1" using s1(1) by (simp add: ok_step_def)
  ultimately show ?case by (metis relpowp_Suc_I2)
qed auto

text \<open>The loop \<open>queueReadyTasks\<close> by itself.\<close>

lemma queue_one_fields [simp]:
  "bs_workers (queue_one i rest s) = bs_workers s" "bs_results (queue_one i rest s) = bs_results s"
  "bs_completedSet (queue_one i rest s) = bs_completedSet s" "bs_pendingCount (queue_one i rest s) = bs_pendingCount s"
  "bs_hasFailed (queue_one i rest s) = bs_hasFailed s" "bs_unqueued (queue_one i rest s) = rest"
  "bs_readyQueue (queue_one i rest s) = bs_readyQueue s @ (if task_deps s i = [] then [i] else [])"
  "task_deps (queue_one i rest s) j = task_deps s j" "channel_size (queue_one i rest s) = channel_size s"
  by (simp_all add: queue_one_def channel_size_def)

lemma queue_one_same: "same_tasks s (queue_one i rest s)"
  by (simp add: queue_one_def same_tasks_def fun_eq_iff)

lemma queue_ready_fields:
  "bs_workers (queue_ready_tasks is s) = bs_workers s" "bs_results (queue_ready_tasks is s) = bs_results s"
  "bs_completedSet (queue_ready_tasks is s) = bs_completedSet s" "bs_pendingCount (queue_ready_tasks is s) = bs_pendingCount s"
  "bs_hasFailed (queue_ready_tasks is s) = bs_hasFailed s"
  "bs_unqueued s = is \<Longrightarrow> bs_unqueued (queue_ready_tasks is s) = []"
  "bs_readyQueue (queue_ready_tasks is s) = bs_readyQueue s @ filter (\<lambda>i. task_deps s i = []) is"
  by (induction "is" arbitrary: s) simp_all

lemma queue_ready_same: "same_tasks s (queue_ready_tasks is s)"
  by (induction "is" arbitrary: s) (auto intro: same_tasks_trans [OF queue_one_same])

lemma queue_ready_status:
  "\<forall>j. task_status s j \<noteq> Some BuildStatusFailed \<Longrightarrow> task_status (queue_ready_tasks is s) j \<noteq> Some BuildStatusFailed"
proof (induction "is" arbitrary: s)
  case (Cons i "is")
  have "\<forall>j. task_status (queue_one i is s) j \<noteq> Some BuildStatusFailed"
    using Cons.prems by (auto simp: queue_one_def set_status_status)
  then show ?case using Cons.IH by simp
qed simp

lemma queue_ready_run:
  "bs_unqueued s = is \<Longrightarrow> length (bs_readyQueue s) + length is \<le> channel_size s \<Longrightarrow>
    (sched_step ^^ length is) s (queue_ready_tasks is s)"
proof (induction "is" arbitrary: s)
  case (Cons i "is")
  let ?s = "queue_one i is s"
  have "sched_step s ?s"
    using sched_step.queue_ready [OF Cons.prems(1)] sched_step.queue_waiting [OF Cons.prems(1)] Cons.prems(2)
    by (cases "task_deps s i = []") (simp_all add: queue_one_def)
  moreover have "(sched_step ^^ length is) ?s (queue_ready_tasks is ?s)"
    using Cons.prems by (intro Cons.IH) auto
  ultimately have "(sched_step ^^ Suc (length is)) s (queue_ready_tasks is ?s)" by (rule relpowp_Suc_I2)
  then show ?case by (simp del: relpowp.simps)
qed simp

subsection \<open>Properties\<close>

lemma all_collected:
  assumes "sched_inv C s" "bs_pendingCount s = 0"
  shows "C = dom (bs_tasks s)"
proof -
  note d = sched_invD [OF assms(1)]
  have "card C = card (dom (bs_tasks s))" using d(8) assms(2) by simp
  with d(2,5) show ?thesis by (rule card_subset_eq)
qed

lemma all_collected_deps:
  assumes "sched_inv C s" "bs_pendingCount s = 0" "t \<in> dom (bs_tasks s)"
  shows "set (task_deps s t) \<subseteq> bs_completedSet s"
proof -
  have "t \<in> C" using all_collected [OF assms(1,2)] assms(3) by (rule ssubst)
  then show ?thesis by (intro sched_invD(7) [OF assms(1)] disjI2)
qed

text \<open>
  A started scheduler: tasks without repeated dependencies, nothing run yet, both maps read in full.
\<close>

definition started :: "build_scheduler \<Rightarrow> string list \<Rightarrow> string list \<Rightarrow> build_scheduler \<Rightarrow> bool" where
  "started s ids order s0 \<longleftrightarrow> fresh_scheduler s \<and> start_scheduler ids order s = Inr s0 \<and>
     distinct ids \<and> set ids = dom (bs_tasks s) \<and> distinct order \<and> set order = dom (bs_tasks s)"

lemma started_facts:
  assumes "started s ids order s0"
  shows "sched_inv {} s0" "same_tasks s s0" "bs_unqueued s0 = order" "\<not> bs_hasFailed s0" "bs_completedSet s0 = {}"
    "bs_results s0 = []" "bs_readyQueue s0 = []" "bs_workers s0 = replicate (bs_MaxWorkers s) Idle" "bs_tasks s0 = bs_tasks s"
proof -
  note a = assms [unfolded started_def]
  note f = started_inv [OF a [THEN conjunct1] a [THEN conjunct2, THEN conjunct1]]
  show "sched_inv {} s0" "same_tasks s s0" "bs_unqueued s0 = order" "\<not> bs_hasFailed s0" "bs_completedSet s0 = {}"
    "bs_results s0 = []" "bs_readyQueue s0 = []" "bs_workers s0 = replicate (bs_MaxWorkers s) Idle"
    using f a by (simp_all add: fresh_scheduler_def)
  show "bs_tasks s0 = bs_tasks s" using a by (auto simp: start_scheduler_def split: if_splits option.splits)
qed

lemma started_cost:
  assumes "started s ids order s0"
  shows "run_cost {} s0 \<le> 6 * card (dom (bs_tasks s))"
proof -
  note f = started_facts [OF assms]
  have "length order = card (dom (bs_tasks s))"
    using assms distinct_card [of order] by (simp add: started_def)
  then show ?thesis by (simp add: run_cost_def f(3,6-9) sum_list_replicate)
qed

text \<open>The chain of three tasks, started, and the first steps of two runs.\<close>

definition demo_ids :: "string list" where
  "demo_ids = [''a-1'', ''b-1'', ''c-1'']"

definition demo_started :: build_scheduler where
  "demo_started = demo_scheduler\<lparr>bs_isRunning := True, bs_buildOrder := demo_ids, bs_workers := [Idle, Idle],
     bs_unqueued := demo_ids, bs_pendingCount := 3\<rparr>"

definition demo_queued :: build_scheduler where
  "demo_queued = (set_status ''a-1'' BuildStatusWaiting demo_started)
     \<lparr>bs_unqueued := [''b-1'', ''c-1''], bs_readyQueue := bs_readyQueue demo_started @ [''a-1'']\<rparr>"

definition demo_taken :: build_scheduler where
  "demo_taken = (set_status ''a-1'' BuildStatusRunning demo_queued)
     \<lparr>bs_readyQueue := [], bs_workers := (bs_workers demo_queued)[0 := Building ''a-1'']\<rparr>"

definition demo_failed :: build_scheduler where
  "demo_failed = (set_status ''a-1'' BuildStatusFailed demo_taken)\<lparr>bs_workers := (bs_workers demo_taken)[0 := Sending ''a-1'']\<rparr>"

definition demo_sent :: build_scheduler where
  "demo_sent = demo_failed\<lparr>bs_results := bs_results demo_failed @ [''a-1''], bs_workers := (bs_workers demo_failed)[0 := Idle]\<rparr>"

lemma demo_is_started: "started demo_scheduler demo_ids demo_ids demo_started"
proof -
  have top: "topological_sort demo_ids demo_scheduler = Some demo_ids" "\<not> bs_isRunning demo_scheduler"
    "bs_MaxWorkers demo_scheduler = 2" "bs_completedSet demo_scheduler = {}" "bs_readyQueue demo_scheduler = []"
    "bs_results demo_scheduler = []" "\<not> bs_hasFailed demo_scheduler"
    by code_simp+
  have "replicate 2 Idle = [Idle, Idle]" by (simp add: numeral_2_eq_2)
  then have st: "start_scheduler demo_ids demo_ids demo_scheduler = Inr demo_started"
    by (simp add: start_scheduler_def top demo_started_def) (simp add: demo_ids_def)
  have dom: "set demo_ids = dom (bs_tasks demo_scheduler)" "distinct demo_ids"
    by (simp_all add: demo_ids_def demo_dom(1))
  have "distinct (task_deps demo_scheduler i)" for i
  proof (cases "i \<in> set demo_ids")
    case True
    moreover have "\<forall>i \<in> set demo_ids. distinct (task_deps demo_scheduler i)" by code_simp
    ultimately show ?thesis by blast
  next
    case False
    then have "bs_tasks demo_scheduler i = None" unfolding dom by auto
    then show ?thesis by (simp add: task_deps_def)
  qed
  moreover have "task_graph demo_scheduler"
    by (simp add: demo_scheduler_def or_keep_dependency demo_tasks_graph)
  ultimately have "fresh_scheduler demo_scheduler"
    using dom(1) [symmetric] by (simp add: fresh_scheduler_def plain_graph_def top)
  with st dom show ?thesis by (simp add: started_def)
qed

lemma demo_steps:
  "sched_step demo_started demo_queued" "sched_step demo_queued demo_taken"
  "sched_step demo_taken demo_failed" "sched_step demo_failed demo_sent"
proof -
  have e: "bs_unqueued demo_started = ''a-1'' # [''b-1'', ''c-1'']" "task_deps demo_started ''a-1'' = []"
    "length (bs_readyQueue demo_started) < channel_size demo_started"
    by code_simp+
  show "sched_step demo_started demo_queued"
    unfolding demo_queued_def by (rule sched_step.queue_ready [OF e])
  have e: "0 < length (bs_workers demo_queued)" "bs_workers demo_queued ! 0 = Idle" "bs_readyQueue demo_queued = ''a-1'' # []"
    "\<not> stopping demo_queued"
    by code_simp+
  show "sched_step demo_queued demo_taken" unfolding demo_taken_def by (rule sched_step.take_task [OF e])
  have e: "0 < length (bs_workers demo_taken)" "bs_workers demo_taken ! 0 = Building ''a-1''"
    by code_simp+
  show "sched_step demo_taken demo_failed" unfolding demo_failed_def by (rule sched_step.finish_fail [OF e])
  have e: "0 < length (bs_workers demo_failed)" "bs_workers demo_failed ! 0 = Sending ''a-1''"
    "length (bs_results demo_failed) < channel_size demo_failed"
    by code_simp+
  show "sched_step demo_failed demo_sent" unfolding demo_sent_def by (rule sched_step.send_result [OF e])
qed







end
