(* ===== verification/Go_Bytes.thy ===== *)
theory Go_Bytes
  imports Go_Prelude "HOL-Library.Word"
begin

unbundle bit_operations_syntax

text \<open>
  The fixed-width integers of the package \<open>encoding/binary\<close>, shared by the binary formats of the program.
  A \<open>[]byte\<close> is a \<open>string\<close>, as everywhere in this development; a \<open>uint32\<close> or \<open>int32\<close> is a \<open>32 word\<close>, whose
  sums wrap around as those of Go do, and a conversion between the two types keeps the bits.
\<close>

subsection \<open>Single bytes\<close>

text \<open>\<open>byte(x)\<close> for an integer \<open>x\<close>: its lowest eight bits.\<close>

definition low_byte :: "'w::len word \<Rightarrow> char" where
  "low_byte x = char_of (unat x)"

definition from_byte :: "char \<Rightarrow> 'w::len word" where
  "from_byte c = of_nat (byte c)"

lemma from_low_byte: "from_byte (low_byte x) = (take_bit 8 x :: 'w::len word)"
proof -
  have "byte (char_of (unat x)) = take_bit 8 (unat x)"
    by (simp add: byte_def take_bit_eq_mod)
  then show ?thesis by (simp add: from_byte_def low_byte_def of_nat_take_bit)
qed

subsection \<open>32 bits\<close>

definition put_le32 :: "32 word \<Rightarrow> string" where
  "put_le32 w = [low_byte w, low_byte (drop_bit 8 w), low_byte (drop_bit 16 w), low_byte (drop_bit 24 w)]"

fun get_le32 :: "string \<Rightarrow> 32 word" where
  "get_le32 [a, b, c, d] =
     from_byte a OR push_bit 8 (from_byte b) OR push_bit 16 (from_byte c) OR push_bit 24 (from_byte d)"
| "get_le32 _ = 0"

definition put_be32 :: "32 word \<Rightarrow> string" where
  "put_be32 w = rev (put_le32 w)"

definition get_be32 :: "string \<Rightarrow> 32 word" where
  "get_be32 s = get_le32 (rev s)"

lemma put_le32_length [simp]: "length (put_le32 w) = 4"
  by (simp add: put_le32_def)

lemma put_be32_length [simp]: "length (put_be32 w) = 4"
  by (simp add: put_be32_def)

lemma get_put_le32 [simp]: "get_le32 (put_le32 w) = w"
  unfolding put_le32_def get_le32.simps from_low_byte
proof (rule bit_word_eqI)
  fix n
  assume "n < LENGTH(32)"
  then consider "n < 8" | "8 \<le> n" "n < 16" | "16 \<le> n" "n < 24" | "24 \<le> n" "n < 32" by fastforce
  then show "bit (take_bit 8 w OR push_bit 8 (take_bit 8 (drop_bit 8 w)) OR push_bit 16 (take_bit 8 (drop_bit 16 w)) OR
      push_bit 24 (take_bit 8 (drop_bit 24 w))) n = bit w n"
    by cases (auto simp: bit_simps)
qed

lemma get_put_be32 [simp]: "get_be32 (put_be32 w) = w"
  by (simp add: put_be32_def get_be32_def)

end
