(* ===== verification/Xpak.thy ===== *)
theory Xpak
  imports Go_Bytes Go_Format
begin

text \<open>
  The metadata block at the end of a binary package in the tbz2 format: the reader
  (\<open>internal/binpkg/xpak.go\<close>, \<open>xpakToMetadata\<close> of \<open>tbz2.go\<close>) and the writer (\<open>encodeXPAK\<close> and the entries of
  \<open>createXPAK\<close> in \<open>tbz2_writer.go\<close>). Lengths and offsets are 32-bit words, so their sums wrap around; a slice
  whose bounds are out of order or out of range is a panic, kept apart from the errors. The writer ranges
  over a map, so it takes the entries in the order of the visit. The text of \<open>CONTENTS\<close>, which comes from
  the file system, is an argument.
\<close>

subsection \<open>Data\<close>

datatype xpak_error =
  XpakNoFooter | XpakBadStop string | XpakLengthMismatch "32 word" "32 word" | XpakNoStart | XpakBadMagic
| XpakShortKeyLength | XpakShortKey | XpakShortDataLength | XpakShortDataOffset | XpakOutOfArea "32 word" "32 word" nat

datatype 'a xpak_result = XpakOk 'a | XpakErr xpak_error | XpakPanic

type_synonym xpak = "string \<rightharpoonup> string"

definition xpak_magic :: string where
  "xpak_magic = ''XPAKPACK''"

definition xpak_stop :: string where
  "xpak_stop = ''XPAKSTOP''"

definition xpak_get :: "xpak \<Rightarrow> string \<Rightarrow> string option" where
  "xpak_get x k = x k"

subsection \<open>Reading\<close>

text \<open>\<open>io.ReadFull\<close> of \<open>n\<close> bytes, and the slice \<open>s[lo:hi]\<close>; both fail as \<open>None\<close>.\<close>

definition read_full :: "nat \<Rightarrow> string \<Rightarrow> (string \<times> string) option" where
  "read_full n s = (if length s < n then None else Some (take n s, drop n s))"

definition go_slice :: "string \<Rightarrow> nat \<Rightarrow> nat \<Rightarrow> string option" where
  "go_slice s lo hi = (if lo \<le> hi \<and> hi \<le> length s then Some (take (hi - lo) (drop lo s)) else None)"

lemma read_full_shrinks: "read_full n s = Some (a, r) \<Longrightarrow> s = a @ r \<and> length a = n"
  by (auto simp: read_full_def split: if_splits)

function parse_xpak_entries :: "string \<Rightarrow> string \<Rightarrow> xpak \<Rightarrow> xpak xpak_result" where
  "parse_xpak_entries area index entries =
     (if index = [] then XpakOk entries
      else case read_full 4 index of
        None \<Rightarrow> XpakErr XpakShortKeyLength
      | Some (kl, r1) \<Rightarrow>
         (case read_full (unat (get_be32 kl)) r1 of
            None \<Rightarrow> XpakErr XpakShortKey
          | Some (key, r2) \<Rightarrow>
             (case read_full 4 r2 of
                None \<Rightarrow> XpakErr XpakShortDataLength
              | Some (dl, r3) \<Rightarrow>
                 (case read_full 4 r3 of
                    None \<Rightarrow> XpakErr XpakShortDataOffset
                  | Some (off, r4) \<Rightarrow>
                     (let dataLen = get_be32 dl; dataOffset = get_be32 off in
                      if dataOffset + dataLen > of_nat (length area)
                      then XpakErr (XpakOutOfArea dataOffset dataLen (length area))
                      else case go_slice area (unat dataOffset) (unat (dataOffset + dataLen)) of
                             None \<Rightarrow> XpakPanic
                           | Some v \<Rightarrow> parse_xpak_entries area r4 (entries(key \<mapsto> v)))))))"
  by pat_completeness auto
termination
  by (relation "measure (\<lambda>(area, index, entries). length index)") (auto dest!: read_full_shrinks)

declare parse_xpak_entries.simps [simp del]

definition parse_xpak :: "string \<Rightarrow> xpak xpak_result" where
  "parse_xpak file =
     (let n = length file in
      if n < 20 then XpakErr XpakNoFooter
      else let footer = drop (n - 20) file in
        if drop 12 footer \<noteq> xpak_stop then XpakErr (XpakBadStop (drop 12 footer))
        else let indexLen = get_be32 (take 4 footer); dataLen = get_be32 (take 4 (drop 4 footer));
                 xpakLen = get_be32 (take 4 (drop 8 footer)) in
          if xpakLen \<noteq> indexLen + dataLen + 8 then XpakErr (XpakLengthMismatch (indexLen + dataLen + 8) xpakLen)
          else if n < unat xpakLen + 20 then XpakErr XpakNoStart
          else let xpakData = take (unat xpakLen) (drop (n - (unat xpakLen + 20)) file) in
            (case go_slice xpakData 0 8 of
               None \<Rightarrow> XpakPanic
             | Some magic \<Rightarrow>
                 if magic \<noteq> xpak_magic then XpakErr XpakBadMagic
                 else case go_slice xpakData 8 (unat (8 + indexLen)) of
                        None \<Rightarrow> XpakPanic
                      | Some index \<Rightarrow>
                          (case go_slice xpakData (unat (8 + indexLen)) (unat (8 + indexLen + dataLen)) of
                             None \<Rightarrow> XpakPanic
                           | Some area \<Rightarrow> parse_xpak_entries area index (\<lambda>_. None))))"

subsection \<open>Writing\<close>

text \<open>One round of the loop of \<open>encodeXPAK\<close>: key length, key, offset, length.\<close>

fun xpak_index :: "32 word \<Rightarrow> (string \<times> string) list \<Rightarrow> string" where
  "xpak_index off [] = []"
| "xpak_index off ((k, v) # es) =
     put_be32 (of_nat (length k)) @ k @ put_be32 off @ put_be32 (of_nat (length v)) @
     xpak_index (off + of_nat (length v)) es"

definition encode_xpak :: "(string \<times> string) list \<Rightarrow> string" where
  "encode_xpak es =
     (let index = xpak_index 0 es; data = concat (map snd es);
          indexLen = of_nat (length index); dataLen = of_nat (length data) in
      xpak_magic @ index @ data @ put_be32 indexLen @ put_be32 dataLen @ put_be32 (8 + indexLen + dataLen + 20) @
      xpak_stop)"

text \<open>The entries \<open>createXPAK\<close> collects, and the fields the reader fills from them.\<close>

record build_metadata =
  bm_BuildDate :: "int option"
  bm_BuildHost :: string
  bm_CFLAGS :: string
  bm_CXXFLAGS :: string
  bm_LDFLAGS :: string
  bm_USE :: "string list"
  bm_Features :: "string list"
  bm_EAPI :: string
  bm_Repository :: string
  bm_Size :: int

definition xpak_entries :: "build_metadata \<Rightarrow> string \<Rightarrow> (string \<times> string) list" where
  "xpak_entries m contents =
     (case bm_BuildDate m of None \<Rightarrow> [] | Some t \<Rightarrow> [(''BUILD_TIME'', int_string t)]) @
     (if bm_BuildHost m \<noteq> [] then [(''BUILD_HOST'', bm_BuildHost m)] else []) @
     (if bm_CFLAGS m \<noteq> [] then [(''CFLAGS'', bm_CFLAGS m)] else []) @
     (if bm_CXXFLAGS m \<noteq> [] then [(''CXXFLAGS'', bm_CXXFLAGS m)] else []) @
     (if bm_LDFLAGS m \<noteq> [] then [(''LDFLAGS'', bm_LDFLAGS m)] else []) @
     (if 0 < length (bm_USE m) then [(''USE'', join '' '' (bm_USE m))] else []) @
     (if 0 < length (bm_Features m) then [(''FEATURES'', join '' '' (bm_Features m))] else []) @
     (if bm_EAPI m \<noteq> [] then [(''EAPI'', bm_EAPI m)] else []) @
     (if 0 < bm_Size m then [(''SIZE'', int_string (bm_Size m))] else []) @
     [(''CONTENTS'', contents)]"

text \<open>\<open>strconv.ParseInt\<close> is an argument here: it also reads signs and underscores are refused.\<close>

definition xpak_to_metadata :: "(string \<Rightarrow> int option) \<Rightarrow> int \<Rightarrow> xpak \<Rightarrow> build_metadata" where
  "xpak_to_metadata parse_int now x =
     \<lparr>bm_BuildDate = (case Option.bind (xpak_get x ''BUILD_TIME'') parse_int of Some t \<Rightarrow> Some t | None \<Rightarrow> Some now),
      bm_BuildHost = (case xpak_get x ''CBUILD'' of Some h \<Rightarrow> h | None \<Rightarrow> []),
      bm_CFLAGS = (case xpak_get x ''CFLAGS'' of Some h \<Rightarrow> h | None \<Rightarrow> []),
      bm_CXXFLAGS = (case xpak_get x ''CXXFLAGS'' of Some h \<Rightarrow> h | None \<Rightarrow> []),
      bm_LDFLAGS = (case xpak_get x ''LDFLAGS'' of Some h \<Rightarrow> h | None \<Rightarrow> []),
      bm_USE = (case xpak_get x ''USE'' of Some h \<Rightarrow> str_fields h | None \<Rightarrow> []),
      bm_Features = (case xpak_get x ''FEATURES'' of Some h \<Rightarrow> str_fields h | None \<Rightarrow> []),
      bm_EAPI = (case xpak_get x ''EAPI'' of Some h \<Rightarrow> h | None \<Rightarrow> ''0''),
      bm_Repository = (case xpak_get x ''repository'' of Some h \<Rightarrow> h | None \<Rightarrow> []),
      bm_Size = (case Option.bind (xpak_get x ''SIZE'') parse_int of Some n \<Rightarrow> n | None \<Rightarrow> 0)\<rparr>"

subsection \<open>Reading a well-formed block\<close>

text \<open>The block as the reader documents it: key length, key, data length, offset.\<close>

fun xpak_spec_index :: "nat \<Rightarrow> (string \<times> string) list \<Rightarrow> string" where
  "xpak_spec_index off [] = []"
| "xpak_spec_index off ((k, v) # es) =
     put_be32 (of_nat (length k)) @ k @ put_be32 (of_nat (length v)) @ put_be32 (of_nat off) @
     xpak_spec_index (off + length v) es"

definition xpak_frame :: "string \<Rightarrow> string \<Rightarrow> string" where
  "xpak_frame index data =
     (let il = of_nat (length index); dl = of_nat (length data) in
      xpak_magic @ index @ data @ put_be32 il @ put_be32 dl @ put_be32 (il + dl + 8) @ xpak_stop)"

lemma read_full_append [simp]: "length a = n \<Longrightarrow> read_full n (a @ r) = Some (a, r)"
  by (auto simp: read_full_def)

lemma read_full_more [simp]: "n \<le> length a \<Longrightarrow> read_full n (a @ r) = Some (take n a, drop n a @ r)"
  by (auto simp: read_full_def)

lemma unat_of_small: "n < 2 ^ 32 \<Longrightarrow> unat (of_nat n :: 32 word) = n"
  by (simp add: unat_of_nat)

lemma footer_parts:
  assumes "length a = 4" "length b = 4" "length c = 4" "length d = 8"
  shows "drop (length (x @ a @ b @ c @ d) - 20) (x @ a @ b @ c @ d) = a @ b @ c @ d"
    "drop 12 (a @ b @ c @ d) = d" "take 4 (a @ b @ c @ d) = a" "take 4 (drop 4 (a @ b @ c @ d)) = b"
    "take 4 (drop 8 (a @ b @ c @ d)) = c"
  using assms by simp_all

lemma parse_xpak_footer:
  assumes "xl \<noteq> il + dl + 8"
  shows "parse_xpak (x @ put_be32 il @ put_be32 dl @ put_be32 xl @ xpak_stop) = XpakErr (XpakLengthMismatch (il + dl + 8) xl)"
proof -
  have st: "length xpak_stop = 8" by (simp add: xpak_stop_def)
  note f = footer_parts [OF put_be32_length put_be32_length put_be32_length st]
  show ?thesis using assms unfolding parse_xpak_def Let_def f by (simp add: st)
qed

lemma parse_xpak_framed:
  assumes "length index + length data + 8 < 2 ^ 32"
  shows "parse_xpak (pre @ xpak_frame index data) = parse_xpak_entries data index (\<lambda>_. None)"
proof -
  let ?il = "of_nat (length index) :: 32 word"
  let ?dl = "of_nat (length data) :: 32 word"
  let ?body = "xpak_magic @ index @ data"
  have st: "length xpak_stop = 8" and mg: "length xpak_magic = 8" by (simp_all add: xpak_stop_def xpak_magic_def)
  note f = footer_parts [OF put_be32_length put_be32_length put_be32_length st]
  have whole: "pre @ xpak_frame index data =
      (pre @ ?body) @ put_be32 ?il @ put_be32 ?dl @ put_be32 (?il + ?dl + 8) @ xpak_stop"
    by (simp add: xpak_frame_def Let_def)
  have xl: "unat (?il + ?dl + 8) = length ?body"
  proof -
    have "?il + ?dl + 8 = of_nat (length index + length data + 8)" by simp
    with assms mg show ?thesis by (simp only: unat_of_small) simp
  qed
  have hi: "unat (8 + ?il) = 8 + length index" "unat (8 + ?il + ?dl) = length ?body"
  proof -
    have "8 + ?il = of_nat (8 + length index)" by simp
    with assms show "unat (8 + ?il) = 8 + length index" by (simp only: unat_of_small)
    show "unat (8 + ?il + ?dl) = length ?body" using xl by (simp add: ac_simps)
  qed
  have data: "take (unat (?il + ?dl + 8))
      (drop (length ((pre @ ?body) @ put_be32 ?il @ put_be32 ?dl @ put_be32 (?il + ?dl + 8) @ xpak_stop) -
        (unat (?il + ?dl + 8) + 20))
       ((pre @ ?body) @ put_be32 ?il @ put_be32 ?dl @ put_be32 (?il + ?dl + 8) @ xpak_stop)) = ?body"
    unfolding xl by (simp add: st)
  have s: "go_slice ?body 0 8 = Some xpak_magic" "go_slice ?body 8 (8 + length index) = Some index"
    "go_slice ?body (8 + length index) (length ?body) = Some data"
    by (simp_all add: go_slice_def mg)
  show ?thesis
    unfolding whole parse_xpak_def Let_def f get_put_be32 data hi s option.case
    by (simp add: st xl)
qed

lemma put_be32_Nil [simp]: "put_be32 w \<noteq> []"
  using put_be32_length by (metis length_0_conv zero_neq_numeral)

lemma parse_entry_overflow:
  assumes "length k < 2 ^ 32" "off + len \<le> of_nat (length area)" "unat (off + len) < unat off"
  shows "parse_xpak_entries area (put_be32 (of_nat (length k)) @ k @ put_be32 len @ put_be32 off @ r) m = XpakPanic"
proof -
  have "go_slice area (unat off) (unat (off + len)) = None" using assms(3) by (simp add: go_slice_def)
  then show ?thesis
    using assms(1,2) by (subst parse_xpak_entries.simps) (simp add: unat_of_small not_less)
qed

lemma parse_entry:
  assumes "length k < 2 ^ 32" "unat off + unat len < 2 ^ 32" "unat off + unat len \<le> length area" "length area < 2 ^ 32"
  shows "parse_xpak_entries area (put_be32 (of_nat (length k)) @ k @ put_be32 len @ put_be32 off @ r) m =
    parse_xpak_entries area r (m(k \<mapsto> take (unat len) (drop (unat off) area)))"
proof -
  have sum: "unat (off + len) = unat off + unat len" using assms(2) by (simp add: unat_add_lem [THEN iffD1])
  have "\<not> of_nat (length area) < off + len"
    using assms(3,4) by (simp add: word_less_nat_alt sum unat_of_small)
  moreover have "go_slice area (unat off) (unat (off + len)) = Some (take (unat len) (drop (unat off) area))"
    using assms(3) by (simp add: go_slice_def sum)
  ultimately show ?thesis
    using assms(1) by (subst parse_xpak_entries.simps) (simp add: unat_of_small)
qed

fun add_entries :: "(string \<times> string) list \<Rightarrow> xpak \<Rightarrow> xpak" where
  "add_entries [] m = m"
| "add_entries ((k, v) # es) m = add_entries es (m(k \<mapsto> v))"

lemma parse_spec_index:
  assumes "length area < 2 ^ 32" "area = pre @ concat (map snd es) @ post" "\<forall>e \<in> set es. length (fst e) < 2 ^ 32"
  shows "parse_xpak_entries area (xpak_spec_index (length pre) es) m = XpakOk (add_entries es m)"
  using assms(2,3)
proof (induction es arbitrary: pre m)
  case Nil
  then show ?case by (simp add: parse_xpak_entries.simps)
next
  case (Cons e es)
  obtain k v where e: "e = (k, v)" by fastforce
  have area: "area = pre @ v @ concat (map snd es) @ post" using Cons.prems(1) by (simp add: e)
  have lens: "length pre + length v \<le> length area" by (simp add: area)
  have u: "unat (of_nat (length pre) :: 32 word) = length pre" "unat (of_nat (length v) :: 32 word) = length v"
    using assms(1) lens by (simp_all add: unat_of_small)
  have "parse_xpak_entries area (xpak_spec_index (length pre) (e # es)) m =
      parse_xpak_entries area (xpak_spec_index (length (pre @ v)) es) (m(k \<mapsto> take (length v) (drop (length pre) area)))"
    using parse_entry [of k "of_nat (length pre)" "of_nat (length v)" area] Cons.prems(2) assms(1) lens
    by (simp add: e u)
  also have "take (length v) (drop (length pre) area) = v" by (simp add: area)
  also have "parse_xpak_entries area (xpak_spec_index (length (pre @ v)) es) (m(k \<mapsto> v)) =
      XpakOk (add_entries es (m(k \<mapsto> v)))"
    by (rule Cons.IH) (use Cons.prems area in auto)
  finally show ?case unfolding e add_entries.simps .
qed

lemma fold_update_map_of:
  "distinct (map fst es) \<Longrightarrow> add_entries es m = m ++ map_of es"
proof (induction es arbitrary: m)
  case (Cons e es)
  obtain k v where e: "e = (k, v)" by fastforce
  have "map_of es k = None" using Cons.prems by (simp add: e map_of_eq_None_iff)
  then have "m(k \<mapsto> v) ++ map_of es = m ++ map_of (e # es)" by (auto simp: e map_add_def fun_eq_iff split: option.split)
  with Cons show ?case unfolding e by (simp only: add_entries.simps list.map distinct.simps)
qed simp

lemma spec_index_keys: "(k, v) \<in> set es \<Longrightarrow> length k \<le> length (xpak_spec_index off es)"
  by (induction off es rule: xpak_spec_index.induct) auto

subsection \<open>Reading any file\<close>

definition part_of :: "string \<Rightarrow> string \<Rightarrow> bool" where
  "part_of v s \<longleftrightarrow> (\<exists>a b. s = a @ v @ b)"

lemma part_of_trans: "part_of v s \<Longrightarrow> part_of s t \<Longrightarrow> part_of v t"
  unfolding part_of_def by (metis append.assoc)

lemma part_of_slice: "part_of (take n (drop m s)) s"
  unfolding part_of_def by (metis append_take_drop_id)

lemma go_slice_part: "go_slice s lo hi = Some v \<Longrightarrow> part_of v s"
  by (auto simp: go_slice_def part_of_slice split: if_splits)

lemma parse_entries_parts:
  "parse_xpak_entries area index m = XpakOk x \<Longrightarrow> \<forall>k v. m k = Some v \<longrightarrow> part_of v area \<Longrightarrow>
    \<forall>k v. x k = Some v \<longrightarrow> part_of v area"
proof (induction area index m rule: parse_xpak_entries.induct)
  case (1 area index m)
  show ?case
  proof (cases "index = []")
    case True
    with 1(2,3) show ?thesis by (simp add: parse_xpak_entries.simps)
  next
    case False
    obtain kl r1 where a: "read_full 4 index = Some (kl, r1)"
      using 1(2) False by (auto simp: parse_xpak_entries.simps [of area index] split: option.splits)
    obtain key r2 where b: "read_full (unat (get_be32 kl)) r1 = Some (key, r2)"
      using 1(2) False a by (auto simp: parse_xpak_entries.simps [of area index] split: option.splits)
    obtain dl r3 where c: "read_full 4 r2 = Some (dl, r3)"
      using 1(2) False a b by (auto simp: parse_xpak_entries.simps [of area index] split: option.splits)
    obtain off r4 where d: "read_full 4 r3 = Some (off, r4)"
      using 1(2) False a b c by (auto simp: parse_xpak_entries.simps [of area index] split: option.splits)
    have in_area: "\<not> get_be32 off + get_be32 dl > of_nat (length area)"
      using 1(2) False a b c d by (auto simp: parse_xpak_entries.simps [of area index] split: if_splits)
    obtain v where v: "go_slice area (unat (get_be32 off)) (unat (get_be32 off + get_be32 dl)) = Some v"
      using 1(2) False a b c d in_area
      by (auto simp: parse_xpak_entries.simps [of area index] Let_def split: option.splits)
    have step: "parse_xpak_entries area index m = parse_xpak_entries area r4 (m(key \<mapsto> v))"
      by (subst parse_xpak_entries.simps) (simp add: False a b c d in_area v Let_def)
    show ?thesis
    proof (rule 1(1) [OF False a refl b refl c refl d refl refl refl in_area v])
      show "parse_xpak_entries area r4 (m(key \<mapsto> v)) = XpakOk x" using 1(2) step by simp
      show "\<forall>k' v'. (m(key \<mapsto> v)) k' = Some v' \<longrightarrow> part_of v' area"
        using 1(3) go_slice_part [OF v] by simp
    qed
  qed
qed

subsection \<open>Properties\<close>



text \<open>
  Claim C9. \<open>ParseXPAK\<close> refuses every block \<open>encodeXPAK\<close> writes, so no package written in the tbz2 format can
  be read back: the writer counts its twenty bytes of footer into the length, the reader does not.
\<close>

theorem xpak_written_unreadable:
  "\<exists>expected got. expected \<noteq> got \<and> parse_xpak (archive @ encode_xpak es) = XpakErr (XpakLengthMismatch expected got)"
proof -
  let ?il = "of_nat (length (xpak_index 0 es)) :: 32 word"
  let ?dl = "of_nat (length (concat (map snd es))) :: 32 word"
  have ne: "8 + ?il + ?dl + 20 \<noteq> ?il + ?dl + 8"
  proof
    assume "8 + ?il + ?dl + 20 = ?il + ?dl + 8"
    then have "(?il + ?dl + 8) + 20 = (?il + ?dl + 8) + 0" by (simp add: ac_simps)
    then have "(20 :: 32 word) = 0" by (simp only: add_left_cancel)
    then show False by simp
  qed
  have "archive @ encode_xpak es = (archive @ xpak_magic @ xpak_index 0 es @ concat (map snd es)) @
      put_be32 ?il @ put_be32 ?dl @ put_be32 (8 + ?il + ?dl + 20) @ xpak_stop"
    by (simp add: encode_xpak_def Let_def)
  with parse_xpak_footer [OF ne] ne show ?thesis by metis
qed

text \<open>
  Whatever bytes the file holds, every value \<open>ParseXPAK\<close> returns is a contiguous piece of the file.
\<close>

theorem xpak_values_from_file:
  assumes "parse_xpak file = XpakOk x" "xpak_get x k = Some v"
  shows "\<exists>a b. file = a @ v @ b"
proof -
  let ?footer = "drop (length file - 20) file"
  let ?il = "get_be32 (take 4 ?footer)"
  let ?dl = "get_be32 (take 4 (drop 4 ?footer))"
  let ?xl = "get_be32 (take 4 (drop 8 ?footer))"
  let ?data = "take (unat ?xl) (drop (length file - (unat ?xl + 20)) file)"
  obtain index area where area: "go_slice ?data (unat (8 + ?il)) (unat (8 + ?il + ?dl)) = Some area"
    "parse_xpak_entries area index (\<lambda>_. None) = XpakOk x"
    using assms(1) by (auto simp: parse_xpak_def Let_def split: if_splits option.splits)
  have "part_of v area" using parse_entries_parts [OF area(2)] assms(2) by (simp add: xpak_get_def)
  then have "part_of v file" using go_slice_part [OF area(1)] part_of_slice part_of_trans by blast
  then show ?thesis by (simp add: part_of_def)
qed

theorem xpak_values_from_file_witness:
  "xpak_get [''EAPI'' \<mapsto> ''8''] ''EAPI'' = Some ''8'' \<and>
   (\<exists>a b. ''tar'' @ xpak_frame (xpak_spec_index 0 [(''EAPI'', ''8'')]) ''8'' = a @ ''8'' @ b)"
proof -
  have p: "parse_xpak (''tar'' @ xpak_frame (xpak_spec_index 0 [(''EAPI'', ''8'')]) ''8'') = XpakOk [''EAPI'' \<mapsto> ''8'']"
    by (subst parse_xpak_framed) (use parse_spec_index [of "''8''" "[]" "[(''EAPI'', ''8'')]" "[]" "\<lambda>_. None"] in simp_all)
  have g: "xpak_get [''EAPI'' \<mapsto> ''8''] ''EAPI'' = Some ''8''" by (simp add: xpak_get_def)
  from xpak_values_from_file [OF p g] g show ?thesis by simp
qed

text \<open>
  A file can crash the reader: the test \<open>dataOffset+dataLen > uint32(len(dataArea))\<close> is made on a sum
  that wraps around, so an entry whose offset and length add up to 2^32 and little more passes it, and the
  slice that follows panics. This holds for every archive the block is appended to.
\<close>

theorem xpak_overflow_panics:
  "parse_xpak (archive @ xpak_frame (put_be32 1 @ ''k'' @ put_be32 2 @ put_be32 4294967295) ''ab'') = XpakPanic"
proof -
  have "parse_xpak_entries ''ab'' (put_be32 (of_nat (length ''k'')) @ ''k'' @ put_be32 2 @ put_be32 4294967295 @ []) (\<lambda>_. None)
      = XpakPanic"
    by (rule parse_entry_overflow) simp_all
  then show ?thesis by (simp add: parse_xpak_framed)
qed

end
