(* ===== verification/Ebuild_Deps.thy ===== *)
theory Ebuild_Deps
  imports Packages Use_Flags
begin

text \<open>
  Dependency strings: from the value of \<open>DEPEND\<close> and its companions to the constraints of a package
  (\<open>internal/repo/ebuild_parser.go\<close> from \<open>parseDependencyString\<close> on, and the loops of
  \<open>internal/repo/portage.go\<close> that keep the dependencies whose USE conditions are active). The variables of an
  ebuild are found with a third-party regular expression library; they are an argument, and so is the
  expression \<open>ebuildAtomVersionRe\<close>. The counter \<open>nextOrGroupID\<close> of the parser is passed through.

  \<open>prev\<close> is the token before the first of the remaining ones: the code reads \<open>tokens[i-1]\<close>. Strings are valid
  UTF-8, so copying them rune by rune copies their bytes.
\<close>

subsection \<open>Data\<close>

record parsed_dependency =
  pd_Atom :: "atom option"
  pd_Constraint :: pkg_constraint
  pd_UseFlag :: string
  pd_IsBlocker :: bool
  pd_IsHardBlock :: bool
  pd_DepType :: dep_type
  pd_OrGroupID :: int

definition last_flag :: "string list \<Rightarrow> string" where
  "last_flag use = (if 0 < length use then last use else [])"

definition new_dependency :: "dep_type \<Rightarrow> string list \<Rightarrow> int \<Rightarrow> parsed_dependency" where
  "new_dependency dt use g = \<lparr>pd_Atom = None, pd_Constraint = zero_constraint, pd_UseFlag = last_flag use,
     pd_IsBlocker = False, pd_IsHardBlock = False, pd_DepType = dt, pd_OrGroupID = g\<rparr>"

subsection \<open>Tokens\<close>

definition flush_token :: "string \<Rightarrow> string list" where
  "flush_token cur = (if 0 < length cur then [trim_space cur] else [])"

fun tokenize_loop :: "string \<Rightarrow> bool \<Rightarrow> string \<Rightarrow> string list" where
  "tokenize_loop cur br [] = flush_token cur"
| "tokenize_loop cur br (c # cs) =
     (if c = CHR ''['' then tokenize_loop (cur @ [c]) True cs
      else if c = CHR '']'' then tokenize_loop (cur @ [c]) False cs
      else if c = CHR ''('' \<or> c = CHR '')'' then
        (if br then tokenize_loop (cur @ [c]) br cs else flush_token cur @ [c] # tokenize_loop [] br cs)
      else if c \<in> {CHR '' '', CHR 0x09, CHR 0x0A} then
        (if br then tokenize_loop (cur @ [c]) br cs
         else if 0 < length cur then trim_space cur # tokenize_loop [] br cs
         else tokenize_loop cur br cs)
      else tokenize_loop (cur @ [c]) br cs)"

definition tokenize_dependencies :: "string \<Rightarrow> string list" where
  "tokenize_dependencies s = tokenize_loop [] False s"

fun contains :: "string \<Rightarrow> string \<Rightarrow> bool" where
  "contains [] p = (p = [])"
| "contains (c # s) p = (has_prefix (c # s) p \<or> contains s p)"

definition is_package_atom :: "string \<Rightarrow> bool" where
  "is_package_atom t =
     (if t = [] \<or> t = ''('' \<or> t = '')'' then False
      else if \<not> contains t ''/'' then False
      else if has_prefix t ''$'' \<or> has_prefix t [CHR 0x27] \<or> has_prefix t [CHR 0x22] \<or> has_prefix t [CHR 0x60] then False
      else if contains t ''${'' then False
      else True)"

subsection \<open>One atom\<close>

definition split_atom_name_version :: "(string \<Rightarrow> (string \<times> string) option) \<Rightarrow> string \<Rightarrow> string \<times> string" where
  "split_atom_name_version rx a = (case rx a of Some nv \<Rightarrow> nv | None \<Rightarrow> (a, []))"

definition atom_version_operators :: "(string \<times> (string \<Rightarrow> version_constraint)) list" where
  "atom_version_operators = [(''>='', new_min_version_constraint), (''<='', new_max_version_constraint),
     (''>'', new_version_constraint OpGreater), (''<'', new_version_constraint OpLess),
     (''~'', new_min_version_constraint), (''='', new_exact_version_constraint)]"

definition parse_atom_version ::
  "(string \<Rightarrow> (string \<times> string) option) \<Rightarrow> string \<Rightarrow> string + pkg_constraint" where
  "parse_atom_version rx a =
     (let c = zero_constraint\<lparr>c_Type := ConstraintTypeVersion\<rparr> in
      if has_prefix a ''='' \<and> contains a ''*'' then
        (let (name, version) = split_atom_name_version rx (trim_prefix a ''='') in
         Inr (c\<lparr>c_Name := name, c_Version := Some (new_version_constraint OpEqualGlob (trim_suffix version ''*''))\<rparr>))
      else case find (\<lambda>(p, _). has_prefix a p) atom_version_operators of
        None \<Rightarrow> Inr (c\<lparr>c_Name := a\<rparr>)
      | Some (p, handler) \<Rightarrow>
          (let (name, version) = split_atom_name_version rx (trim_prefix a p) in
           if version = [] then Inl (''invalid atom format: missing version after '' @ p)
           else Inr (c\<lparr>c_Name := name, c_Version := Some (handler version)\<rparr>)))"

text \<open>The fallback for atoms \<open>ParseAtom\<close> refuses: blocker, brackets, slot, version, in this order.\<close>

definition legacy_blocker :: "string \<Rightarrow> parsed_dependency \<Rightarrow> string \<times> parsed_dependency" where
  "legacy_blocker a d =
     (if has_prefix a ''!!'' then (trim_prefix a ''!!'', d\<lparr>pd_IsBlocker := True, pd_IsHardBlock := True\<rparr>)
      else if has_prefix a ''!'' then (trim_prefix a ''!'', d\<lparr>pd_IsBlocker := True\<rparr>)
      else (a, d))"

definition legacy_flag :: "pkg_constraint \<Rightarrow> string \<Rightarrow> pkg_constraint" where
  "legacy_flag c flag =
     (if list_ex (\<lambda>x. x \<in> set flag) ''?()'' then c
      else if has_prefix flag ''-'' then c\<lparr>c_UseBlock := c_UseBlock c @ [trim_prefix flag ''-'']\<rparr>
      else c\<lparr>c_UseRequire := c_UseRequire c @ [flag]\<rparr>)"

definition legacy_use :: "string \<Rightarrow> pkg_constraint \<Rightarrow> string \<times> pkg_constraint" where
  "legacy_use a c =
     (case (index_byte a CHR ''['', index_byte a CHR '']'') of
        (Some i, Some j) \<Rightarrow>
          if i < j then
            (let flags = map (\<lambda>x. if x = CHR '','' then CHR '' '' else x) (take (j - Suc i) (drop (Suc i) a)) in
             (take i a @ drop (Suc j) a, foldl legacy_flag (c\<lparr>c_Condition := flags\<rparr>) (str_fields flags)))
          else (a, c)
      | _ \<Rightarrow> (a, c))"

definition legacy_slot :: "string \<Rightarrow> pkg_constraint \<Rightarrow> string \<times> pkg_constraint" where
  "legacy_slot a c =
     (case split_byte CHR '':'' a of
        b # s # _ \<Rightarrow>
          (let s1 = (if has_suffix s ''='' \<and> s \<noteq> ''='' then take (length s - 1) s else s);
               s2 = (case index_byte s1 CHR ''/'' of Some i \<Rightarrow> take i s1 | None \<Rightarrow> s1)
           in (b, c\<lparr>c_Slot := s2, c_Type := ConstraintTypeSlot\<rparr>))
      | _ \<Rightarrow> (a, c))"

definition parse_package_atom_legacy ::
  "(string \<Rightarrow> (string \<times> string) option) \<Rightarrow> string \<Rightarrow> dep_type \<Rightarrow> string list \<Rightarrow> int \<Rightarrow> string + parsed_dependency" where
  "parse_package_atom_legacy rx s dt use g =
     (let (a1, d) = legacy_blocker s (new_dependency dt use g);
          (a2, c2) = legacy_use a1 (pd_Constraint d);
          (a3, c3) = legacy_slot a2 c2 in
      case parse_atom_version rx a3 of
        Inl e \<Rightarrow> Inl e
      | Inr v \<Rightarrow>
          (let c4 = c3\<lparr>c_Name := c_Name v, c_Version := c_Version v\<rparr>;
               c5 = (if c_Type c4 = ConstraintTypeVersion then c4\<lparr>c_Type := ConstraintTypeVersion\<rparr> else c4)
           in Inr (d\<lparr>pd_Constraint := (if 0 < length use then c5\<lparr>c_Conditions := use\<rparr> else c5)\<rparr>)))"

definition atom_slot_constraint :: "atom \<Rightarrow> pkg_constraint \<Rightarrow> pkg_constraint" where
  "atom_slot_constraint a c =
     (if has_slot (Some a)
      then c\<lparr>c_Slot := (if a_Subslot a \<noteq> [] then a_Slot a @ ''/'' @ a_Subslot a else a_Slot a),
             c_Type := ConstraintTypeSlot\<rparr>
      else c)"

definition atom_condition :: "atom \<Rightarrow> pkg_constraint \<Rightarrow> pkg_constraint" where
  "atom_condition a c =
     (if 0 < length (a_UseRequire a) \<or> 0 < length (a_UseBlock a) \<or> 0 < length (a_UseConditional a)
      then c\<lparr>c_Condition := join '' '' (a_UseRequire a @ map (\<lambda>f. ''-'' @ f) (a_UseBlock a) @ a_UseConditional a)\<rparr>
      else c)"

definition parse_package_atom ::
  "(nat \<Rightarrow> bool) \<Rightarrow> (string \<Rightarrow> (string \<times> string) option) \<Rightarrow> string \<Rightarrow> dep_type \<Rightarrow> string list \<Rightarrow> int \<Rightarrow>
   string + parsed_dependency" where
  "parse_package_atom ul rx s dt use g =
     (case parse_atom ul s of
        Inl _ \<Rightarrow> parse_package_atom_legacy rx s dt use g
      | Inr a \<Rightarrow>
          (let c1 = (to_constraint a)\<lparr>c_OrGroupID := g\<rparr>;
               c2 = atom_condition a (atom_slot_constraint a c1);
               c3 = (if 0 < length use then c2\<lparr>c_Conditions := use\<rparr> else c2)
           in Inr ((new_dependency dt use g)\<lparr>pd_Atom := Some a, pd_IsBlocker := is_blocker (Some a),
                     pd_IsHardBlock := is_strong_blocker (Some a), pd_Constraint := c3\<rparr>)))"

subsection \<open>Groups\<close>

text \<open>
  \<open>parseTokens\<close> and \<open>parseGroup\<close>: the dependencies found, the tokens left and the group counter. Each token
  costs one unit of fuel; \<open>None\<close> means that it ran out.
\<close>

type_synonym parse_state = "parsed_dependency list \<times> string list \<times> int"

fun parse_tokens ::
  "nat \<Rightarrow> (string \<Rightarrow> string list \<Rightarrow> int \<Rightarrow> string + parsed_dependency) \<Rightarrow> string \<Rightarrow> string list \<Rightarrow> string list \<Rightarrow> int \<Rightarrow> int \<Rightarrow>
   parsed_dependency list \<Rightarrow> parse_state option"
and parse_group ::
  "nat \<Rightarrow> (string \<Rightarrow> string list \<Rightarrow> int \<Rightarrow> string + parsed_dependency) \<Rightarrow> string \<Rightarrow> string list \<Rightarrow> string list \<Rightarrow> int \<Rightarrow> int \<Rightarrow>
   parse_state option"
where
  "parse_tokens 0 pa prev ts use g k deps = None"
| "parse_tokens (Suc n) pa prev [] use g k deps = Some (deps, [], k)"
| "parse_tokens (Suc n) pa prev (t # ts) use g k deps =
     (if t = '')'' then Some (deps, ts, k)
      else if t = ''('' then
        (case parse_group n pa prev ts use g k of
           None \<Rightarrow> None
         | Some (ds, rest, k1) \<Rightarrow> parse_tokens n pa '')'' rest use g k1 (deps @ ds))
      else if t = ''||'' \<or> has_suffix t ''?'' then parse_tokens n pa t ts use g k deps
      else if is_package_atom t then
        (case pa t use g of
           Inl _ \<Rightarrow> parse_tokens n pa t ts use g k deps
         | Inr d \<Rightarrow> parse_tokens n pa t ts use g k (deps @ [d]))
      else parse_tokens n pa t ts use g k deps)"
| "parse_group n pa prev ts use g k =
     (if has_suffix prev ''?'' then parse_tokens n pa ''('' ts (use @ [trim_suffix prev ''?'']) g k []
      else if prev = ''||'' then parse_tokens n pa ''('' ts use k (k + 1) []
      else parse_tokens n pa ''('' ts use g k [])"

definition parse_dependency_string ::
  "(nat \<Rightarrow> bool) \<Rightarrow> (string \<Rightarrow> (string \<times> string) option) \<Rightarrow> string \<Rightarrow> dep_type \<Rightarrow> int \<Rightarrow>
   (parsed_dependency list \<times> int) option" where
  "parse_dependency_string ul rx s dt k =
     (let ts = tokenize_dependencies s in
      map_option (\<lambda>(ds, _, k1). (ds, k1))
        (parse_tokens (Suc (length ts)) (\<lambda>t use g. parse_package_atom ul rx t dt use g) [] ts [] 0 k []))"

text \<open>\<open>ParseDependencies\<close>: the five variables in the order of the code; \<open>value\<close> is \<open>ExtractVariable\<close>.\<close>

fun parse_variables ::
  "(nat \<Rightarrow> bool) \<Rightarrow> (string \<Rightarrow> (string \<times> string) option) \<Rightarrow> (string \<Rightarrow> string) \<Rightarrow> (string \<times> dep_type) list \<Rightarrow> int \<Rightarrow>
   (parsed_dependency list \<times> int) option" where
  "parse_variables ul rx value [] k = Some ([], k)"
| "parse_variables ul rx value ((v, dt) # vs) k =
     (if value v = [] then parse_variables ul rx value vs k
      else case parse_dependency_string ul rx (value v) dt k of
        None \<Rightarrow> None
      | Some (ds, k1) \<Rightarrow> map_option (\<lambda>(es, k2). (ds @ es, k2)) (parse_variables ul rx value vs k1))"

definition parse_dependencies ::
  "(nat \<Rightarrow> bool) \<Rightarrow> (string \<Rightarrow> (string \<times> string) option) \<Rightarrow> (string \<Rightarrow> string) \<Rightarrow> (parsed_dependency list \<times> int) option" where
  "parse_dependencies ul rx value =
     parse_variables ul rx value [(''RDEPEND'', DepTypeRuntime), (''DEPEND'', DepTypeBuild), (''BDEPEND'', DepTypeBuildHost),
       (''IDEPEND'', DepTypeInstall), (''PDEPEND'', DepTypePostMerge)] 1"

subsection \<open>Into the package\<close>

text \<open>
  The loop of \<open>portage.go\<close> over the parsed dependencies: inactive conditions are skipped, blockers with an atom
  are kept apart, the rest are appended to the dependencies of the package.
\<close>

definition dependency_active :: "(string \<rightharpoonup> bool) \<Rightarrow> parsed_dependency \<Rightarrow> bool" where
  "dependency_active eff d =
     (if 0 < length (c_Conditions (pd_Constraint d)) then are_use_conditions_active (c_Conditions (pd_Constraint d)) eff
      else is_use_conditional_active (pd_UseFlag d) eff)"

definition add_parsed_dependency :: "(string \<rightharpoonup> bool) \<Rightarrow> parsed_dependency \<Rightarrow> package \<Rightarrow> package" where
  "add_parsed_dependency eff d p =
     (if \<not> dependency_active eff d then p
      else if pd_IsBlocker d then
        (case pd_Atom d of
           None \<Rightarrow> p
         | Some a \<Rightarrow> p\<lparr>p_Blockers := p_Blockers p @ [\<lparr>be_Atom = Some a, be_IsStrong = pd_IsHardBlock d\<rparr>]\<rparr>)
      else p\<lparr>p_Deps := p_Deps p @ [(pd_Constraint d)\<lparr>c_OrGroupID := pd_OrGroupID d, c_DepType := pd_DepType d\<rparr>]\<rparr>)"

definition add_parsed_dependencies :: "(string \<rightharpoonup> bool) \<Rightarrow> parsed_dependency list \<Rightarrow> package \<Rightarrow> package" where
  "add_parsed_dependencies eff ds p = fold (add_parsed_dependency eff) ds p"

end
