(* ===== verification/Ebuild_Meaning.thy ===== *)
theory Ebuild_Meaning
  imports Ebuild_Deps Resolver
begin

text \<open>
  What a dependency string means after parsing. \<open>dep_expr\<close> is the grammar of the PMS (section 8.2): atoms,
  all-of groups, any-of groups and USE conditionals. \<open>expr_deps\<close> says which dependencies the parser makes of
  an expression: the atoms in their order, each with the stack of its conditions and the number of the
  innermost any-of group around it. \<open>expr_holds\<close> is the meaning of an expression, \<open>deps_hold\<close> that of the
  constraints the resolver works with; they agree when the members of any-of groups are single atoms.
\<close>

subsection \<open>The parser returns\<close>

lemma parse_tokens_total:
  "length ts < n \<Longrightarrow> \<exists>ds rest k1. parse_tokens n pa prev ts use g k deps = Some (ds, rest, k1) \<and> length rest \<le> length ts"
proof (induction n arbitrary: prev ts use g k deps)
  case (Suc n)
  show ?case
  proof (cases ts)
    case (Cons t ts')
    then have len: "length ts' < n" using Suc.prems by simp
    consider "t = '')''" | "t = ''(''" | "t \<noteq> '')''" "t \<noteq> ''(''" by blast
    then show ?thesis
    proof cases
      case 2
      have "\<exists>ds rest k1. parse_group n pa prev ts' use g k = Some (ds, rest, k1) \<and> length rest \<le> length ts'"
        using Suc.IH [OF len] by simp
      then obtain ds rest k1 where g: "parse_group n pa prev ts' use g k = Some (ds, rest, k1)" "length rest \<le> length ts'" by blast
      have "length rest < n" using g(2) len by simp
      from Suc.IH [OF this, of "'')''" use g k1 "deps @ ds"] g show ?thesis
        by (auto simp: Cons 2 simp del: parse_group.simps intro: le_SucI order_trans)
    next
      case 3
      have "\<exists>ds rest k1. parse_tokens n pa t ts' use g k deps' = Some (ds, rest, k1) \<and> length rest \<le> length ts" for deps'
        using Suc.IH [OF len, of t use g k deps'] by (auto simp: Cons intro: le_SucI)
      with 3 show ?thesis by (simp add: Cons split: sum.split)
    qed (simp add: Cons)
  qed simp
qed simp

lemma parse_tokens_fuel:
  "length ts < n \<Longrightarrow> length ts < m \<Longrightarrow> parse_tokens n pa prev ts use g k deps = parse_tokens m pa prev ts use g k deps"
proof (induction n arbitrary: m prev ts use g k deps)
  case (Suc n)
  obtain m' where m: "m = Suc m'" using Suc.prems(2) by (cases m) auto
  show ?case
  proof (cases ts)
    case (Cons t ts')
    then have len: "length ts' < n" "length ts' < m'" using Suc.prems by (simp_all add: m)
    note same = Suc.IH [OF len]
    have group: "parse_group n pa prev ts' use g k = parse_group m' pa prev ts' use g k" using same by simp
    show ?thesis
    proof (cases "parse_group m' pa prev ts' use g k")
      case None
      then show ?thesis using same group by (simp add: Cons m del: parse_group.simps split: sum.split)
    next
      case (Some r)
      obtain ds rest k1 where r: "r = (ds, rest, k1)" by (cases r)
      have "\<exists>ds rest k1. parse_group m' pa prev ts' use g k = Some (ds, rest, k1) \<and> length rest \<le> length ts'"
        using parse_tokens_total [OF len(2)] by simp
      then have "length rest \<le> length ts'" using Some r by simp
      then have "parse_tokens n pa '')'' rest use g k1 (deps @ ds) = parse_tokens m' pa '')'' rest use g k1 (deps @ ds)"
        using len by (intro Suc.IH) simp_all
      then show ?thesis using same group Some r by (simp add: Cons m del: parse_group.simps split: sum.split)
    qed
  qed (simp add: m)
qed simp

text \<open>The result with enough fuel.\<close>

definition run_tokens ::
  "(string \<Rightarrow> string list \<Rightarrow> int \<Rightarrow> string + parsed_dependency) \<Rightarrow> string \<Rightarrow> string list \<Rightarrow> string list \<Rightarrow> int \<Rightarrow> int \<Rightarrow>
   parsed_dependency list \<Rightarrow> parse_state" where
  "run_tokens pa prev ts use g k deps = the (parse_tokens (Suc (length ts)) pa prev ts use g k deps)"

definition run_group ::
  "(string \<Rightarrow> string list \<Rightarrow> int \<Rightarrow> string + parsed_dependency) \<Rightarrow> string \<Rightarrow> string list \<Rightarrow> string list \<Rightarrow> int \<Rightarrow> int \<Rightarrow>
   parse_state" where
  "run_group pa prev ts use g k =
     (if has_suffix prev ''?'' then run_tokens pa ''('' ts (use @ [trim_suffix prev ''?'']) g k []
      else if prev = ''||'' then run_tokens pa ''('' ts use k (k + 1) []
      else run_tokens pa ''('' ts use g k [])"

lemma parse_tokens_run: "length ts < n \<Longrightarrow> parse_tokens n pa prev ts use g k deps = Some (run_tokens pa prev ts use g k deps)"
  unfolding run_tokens_def
  using parse_tokens_total [of ts "Suc (length ts)" pa prev use g k deps] parse_tokens_fuel [of ts n "Suc (length ts)"]
  by fastforce

lemma parse_group_run: "length ts < n \<Longrightarrow> parse_group n pa prev ts use g k = Some (run_group pa prev ts use g k)"
  by (simp add: parse_tokens_run run_group_def)

lemma run_group_length: "run_group pa prev ts use g k = (ds, rest, k1) \<Longrightarrow> length rest \<le> length ts"
proof -
  assume r: "run_group pa prev ts use g k = (ds, rest, k1)"
  have "\<exists>ds rest k1. parse_group (Suc (length ts)) pa prev ts use g k = Some (ds, rest, k1) \<and> length rest \<le> length ts"
    using parse_tokens_total [of ts "Suc (length ts)"] by simp
  with r show ?thesis by (simp add: parse_group_run del: parse_group.simps)
qed

lemma run_tokens_simps:
  "run_tokens pa prev [] use g k deps = (deps, [], k)"
  "run_tokens pa prev ('')'' # ts) use g k deps = (deps, ts, k)"
  "t = ''||'' \<or> has_suffix t ''?'' \<Longrightarrow> run_tokens pa prev (t # ts) use g k deps = run_tokens pa t ts use g k deps"
  "is_package_atom t \<Longrightarrow> t \<noteq> ''||'' \<Longrightarrow> \<not> has_suffix t ''?'' \<Longrightarrow>
    run_tokens pa prev (t # ts) use g k deps =
      run_tokens pa t ts use g k (deps @ (case pa t use g of Inl _ \<Rightarrow> [] | Inr d \<Rightarrow> [d]))"
proof -
  have t: "run_tokens pa prev (t # ts) use g k deps = the (parse_tokens (Suc (Suc (length ts))) pa prev (t # ts) use g k deps)"
    for t prev ts deps by (simp add: run_tokens_def)
  have s: "parse_tokens (Suc (length ts)) pa u ts use g k d = Some (run_tokens pa u ts use g k d)" for u d
    by (rule parse_tokens_run) simp
  show "run_tokens pa prev [] use g k deps = (deps, [], k)" by (simp add: run_tokens_def)
  show "run_tokens pa prev ('')'' # ts) use g k deps = (deps, ts, k)" by (simp add: t)
  show "run_tokens pa prev (t # ts) use g k deps = run_tokens pa t ts use g k deps" if "t = ''||'' \<or> has_suffix t ''?''"
    using that by (auto simp: t s simp del: parse_tokens.simps(3) parse_group.simps) (auto simp: s parse_tokens.simps(3) has_suffix_def)
  show "run_tokens pa prev (t # ts) use g k deps =
      run_tokens pa t ts use g k (deps @ (case pa t use g of Inl _ \<Rightarrow> [] | Inr d \<Rightarrow> [d]))"
    if "is_package_atom t" "t \<noteq> ''||''" "\<not> has_suffix t ''?''"
  proof -
    have "t \<noteq> ''(''" "t \<noteq> '')''" using that(1) by (auto simp: is_package_atom_def)
    then show ?thesis using that s by (simp add: t split: sum.split)
  qed
qed

lemma run_tokens_open:
  assumes "run_group pa prev ts use g k = (ds, rest, k1)"
  shows "run_tokens pa prev (''('' # ts) use g k deps = run_tokens pa '')'' rest use g k1 (deps @ ds)"
proof -
  have "parse_group (Suc (length ts)) pa prev ts use g k = Some (ds, rest, k1)"
    using assms by (simp add: parse_group_run del: parse_group.simps)
  moreover have "parse_tokens (Suc (length ts)) pa '')'' rest use g k1 (deps @ ds) = Some (run_tokens pa '')'' rest use g k1 (deps @ ds))"
    using run_group_length [OF assms] by (intro parse_tokens_run) simp
  ultimately show ?thesis by (simp add: run_tokens_def [of pa prev "''('' # ts"] del: parse_group.simps)
qed

subsection \<open>Expressions\<close>

datatype dep_expr =
  DepAtom string | AllOf "dep_expr list" | AnyOf "dep_expr list" | UseCond string "dep_expr list"

fun expr_tokens :: "dep_expr \<Rightarrow> string list" where
  "expr_tokens (DepAtom a) = [a]"
| "expr_tokens (AllOf es) = ''('' # concat (map expr_tokens es) @ ['')'']"
| "expr_tokens (AnyOf es) = ''||'' # ''('' # concat (map expr_tokens es) @ ['')'']"
| "expr_tokens (UseCond f es) = (f @ ''?'') # ''('' # concat (map expr_tokens es) @ ['')'']"

definition expr_text :: "dep_expr list \<Rightarrow> string" where
  "expr_text es = join '' '' (concat (map expr_tokens es))"

fun expr_deps ::
  "(string \<Rightarrow> string list \<Rightarrow> int \<Rightarrow> string + parsed_dependency) \<Rightarrow> string list \<Rightarrow> int \<Rightarrow> int \<Rightarrow> dep_expr \<Rightarrow>
   parsed_dependency list \<times> int"
and exprs_deps ::
  "(string \<Rightarrow> string list \<Rightarrow> int \<Rightarrow> string + parsed_dependency) \<Rightarrow> string list \<Rightarrow> int \<Rightarrow> int \<Rightarrow> dep_expr list \<Rightarrow>
   parsed_dependency list \<times> int"
where
  "expr_deps pa use g k (DepAtom a) = ((case pa a use g of Inl _ \<Rightarrow> [] | Inr d \<Rightarrow> [d]), k)"
| "expr_deps pa use g k (AllOf es) = exprs_deps pa use g k es"
| "expr_deps pa use g k (AnyOf es) = exprs_deps pa use k (k + 1) es"
| "expr_deps pa use g k (UseCond f es) = exprs_deps pa (use @ [f]) g k es"
| "exprs_deps pa use g k [] = ([], k)"
| "exprs_deps pa use g k (e # es) =
     (let (ds, k1) = expr_deps pa use g k e; (ds2, k2) = exprs_deps pa use g k1 es in (ds @ ds2, k2))"

definition atom_token :: "string \<Rightarrow> bool" where
  "atom_token a \<longleftrightarrow> is_package_atom a \<and> a \<noteq> ''||'' \<and> \<not> has_suffix a ''?''"

fun wf_expr :: "dep_expr \<Rightarrow> bool" where
  "wf_expr (DepAtom a) = atom_token a"
| "wf_expr (AllOf es) = list_all wf_expr es"
| "wf_expr (AnyOf es) = list_all wf_expr es"
| "wf_expr (UseCond f es) = list_all wf_expr es"

definition plain_prev :: "string \<Rightarrow> bool" where
  "plain_prev p \<longleftrightarrow> p \<noteq> ''||'' \<and> \<not> has_suffix p ''?''"

lemma run_plain_prev: "plain_prev p \<Longrightarrow> run_tokens pa p ts use g k deps = run_tokens pa [] ts use g k deps"
proof (cases ts)
  case (Cons t ts')
  assume p: "plain_prev p"
  have "plain_prev []" by (simp add: plain_prev_def)
  with p have "run_group pa p ts' use g k = run_group pa [] ts' use g k" by (simp add: run_group_def plain_prev_def)
  moreover obtain ds rest k1 where "run_group pa [] ts' use g k = (ds, rest, k1)" by (cases "run_group pa [] ts' use g k")
  ultimately have "run_tokens pa p (''('' # ts') use g k deps = run_tokens pa [] (''('' # ts') use g k deps"
    by (metis run_tokens_open)
  then show ?thesis
    by (cases "t = ''(''") (simp_all add: Cons run_tokens_def)
qed (simp add: run_tokens_simps)

lemma plain_prevs: "plain_prev ''(''" "plain_prev '')''" "atom_token a \<Longrightarrow> plain_prev a"
  by (simp_all add: plain_prev_def atom_token_def has_suffix_def)

text \<open>A group whose body is parsed up to its closing parenthesis.\<close>

lemma run_body:
  assumes "run_group pa prev (body @ '')'' # rest) use g k = run_tokens pa ''('' (body @ '')'' # rest) use' g' k' []"
    and "run_tokens pa [] (body @ '')'' # rest) use' g' k' [] = run_tokens pa [] ('')'' # rest) use' g' k1 ds"
  shows "run_tokens pa prev (''('' # body @ '')'' # rest) use g k deps = run_tokens pa [] rest use g k1 (deps @ ds)"
proof -
  have "run_group pa prev (body @ '')'' # rest) use g k = (ds, rest, k1)"
    using assms by (simp add: run_plain_prev [OF plain_prevs(1)] run_tokens_simps)
  then show ?thesis by (simp only: run_tokens_open run_plain_prev [OF plain_prevs(2)])
qed

lemma run_expr:
  "wf_expr e \<Longrightarrow> expr_deps pa use g k e = (ds, k1) \<Longrightarrow>
    run_tokens pa [] (expr_tokens e @ rest) use g k deps = run_tokens pa [] rest use g k1 (deps @ ds)"
  "list_all wf_expr es \<Longrightarrow> exprs_deps pa use g k es = (ds, k1) \<Longrightarrow>
    run_tokens pa [] (concat (map expr_tokens es) @ rest) use g k deps = run_tokens pa [] rest use g k1 (deps @ ds)"
proof (induction pa use g k e and pa use g k es arbitrary: ds k1 rest deps and ds k1 rest deps
    rule: expr_deps_exprs_deps.induct)
  case (1 pa use g k a)
  then have "atom_token a" by simp
  then show ?case
    using 1 by (simp add: run_tokens_simps(4) atom_token_def run_plain_prev [OF plain_prevs(3)])
next
  case (2 pa use g k es)
  have "run_tokens pa [] (''('' # concat (map expr_tokens es) @ '')'' # rest) use g k deps = run_tokens pa [] rest use g k1 (deps @ ds)"
    by (rule run_body [where use' = use and g' = g and k' = k])
      (use 2(1) [of ds k1 "'')'' # rest" "[]"] 2(2,3) in \<open>simp_all add: run_group_def has_suffix_def\<close>)
  then show ?case by simp
next
  case (3 pa use g k es)
  have "run_tokens pa ''||'' (''('' # concat (map expr_tokens es) @ '')'' # rest) use g k deps = run_tokens pa [] rest use g k1 (deps @ ds)"
    by (rule run_body [where use' = use and g' = k and k' = "k + 1"])
      (use 3(1) [of ds k1 "'')'' # rest" "[]"] 3(2,3) in \<open>simp_all add: run_group_def has_suffix_def\<close>)
  then show ?case by (simp add: run_tokens_simps(3))
next
  case (4 pa use g k f es)
  have "run_tokens pa (f @ ''?'') (''('' # concat (map expr_tokens es) @ '')'' # rest) use g k deps = run_tokens pa [] rest use g k1 (deps @ ds)"
    by (rule run_body [where use' = "use @ [f]" and g' = g and k' = k])
      (use 4(1) [of ds k1 "'')'' # rest" "[]"] 4(2,3) in \<open>simp_all add: run_group_def\<close>)
  then show ?case by (simp add: run_tokens_simps(3))
next
  case (5 pa use g k)
  then show ?case by simp
next
  case (6 pa use g k e es)
  obtain ds1 ka where a: "expr_deps pa use g k e = (ds1, ka)" by fastforce
  obtain ds2 kb where b: "exprs_deps pa use g ka es = (ds2, kb)" by fastforce
  have "ds = ds1 @ ds2" "k1 = kb" using 6(4) by (simp_all add: a b)
  then show ?case
    using 6(1) [of ds1 ka "concat (map expr_tokens es) @ rest" deps] 6(2) [OF a [symmetric] refl, of ds2 kb rest "deps @ ds1"] 6(3) a b
    by simp
qed

subsection \<open>The tokens of a printed expression\<close>

fun closed_token :: "bool \<Rightarrow> string \<Rightarrow> bool" where
  "closed_token br [] = (\<not> br)"
| "closed_token br (c # cs) =
     (if c = CHR ''['' then closed_token True cs
      else if c = CHR '']'' then closed_token False cs
      else (c \<in> {CHR ''('', CHR '')'', CHR '' '', CHR 0x09, CHR 0x0A} \<longrightarrow> br) \<and> closed_token br cs)"

definition plain_token :: "string \<Rightarrow> bool" where
  "plain_token t \<longleftrightarrow> t = ''('' \<or> t = '')'' \<or> t \<noteq> [] \<and> trim_space t = t \<and> closed_token False t"

lemma tokenize_closed:
  "closed_token br t \<Longrightarrow> tokenize_loop cur br (t @ rest) = tokenize_loop (cur @ t) False rest"
proof (induction br t arbitrary: cur rule: closed_token.induct)
  case (2 br c cs)
  consider "c = CHR ''[''" | "c = CHR '']''" | "c \<noteq> CHR ''[''" "c \<noteq> CHR '']''" br
    | "c \<noteq> CHR ''[''" "c \<noteq> CHR '']''" "\<not> br" "c \<notin> {CHR ''('', CHR '')'', CHR '' '', CHR 0x09, CHR 0x0A}"
    using 2(4) by (auto split: if_splits)
  then show ?case
  proof cases
    case 1
    then show ?thesis using 2(1) [of "cur @ [c]"] 2(4) by simp
  next
    case 2
    then show ?thesis using "2.IH"(2) [of "cur @ [c]"] "2.prems" by simp
  next
    case 3
    then show ?thesis using "2.IH"(3) [of "cur @ [c]"] "2.prems" by simp
  next
    case 4
    then show ?thesis using "2.IH"(3) [of "cur @ [c]"] "2.prems" by simp
  qed
qed simp

lemma tokenize_join_deps:
  "list_all plain_token ts \<Longrightarrow> tokenize_loop [] False (join '' '' ts) = ts"
proof (induction "'' ''" ts rule: join.induct)
  case (2 t)
  then show ?case using tokenize_closed [of False t "[]" "[]"] by (auto simp: plain_token_def flush_token_def)
next
  case (3 t u us)
  then have "plain_token t" "tokenize_loop [] False (join '' '' (u # us)) = u # us" by simp_all
  then show ?case
    using tokenize_closed [of False t "[]" "'' '' @ join '' '' (u # us)"] by (auto simp: plain_token_def flush_token_def)
qed (simp add: flush_token_def)

fun plain_expr :: "dep_expr \<Rightarrow> bool" where
  "plain_expr (DepAtom a) = plain_token a"
| "plain_expr (AllOf es) = list_all plain_expr es"
| "plain_expr (AnyOf es) = list_all plain_expr es"
| "plain_expr (UseCond f es) = (plain_token (f @ ''?'') \<and> list_all plain_expr es)"

lemma plain_expr_tokens: "plain_expr e \<Longrightarrow> list_all plain_token (expr_tokens e)"
proof (induction e rule: expr_tokens.induct)
  case (3 es)
  have "plain_token ''||''" by (simp add: plain_token_def) (simp add: trim_space_def is_space_def)
  with 3 show ?case by (auto simp: list_all_iff plain_token_def)
qed (auto simp: list_all_iff plain_token_def)

lemma parse_printed:
  assumes "list_all wf_expr es" "list_all plain_expr es"
  shows "parse_dependency_string ul rx (expr_text es) dt k =
    Some (exprs_deps (\<lambda>t use g. parse_package_atom ul rx t dt use g) [] 0 k es)"
proof -
  let ?pa = "\<lambda>t use g. parse_package_atom ul rx t dt use g"
  obtain ds k1 where d: "exprs_deps ?pa [] 0 k es = (ds, k1)" by fastforce
  have "list_all plain_token (concat (map expr_tokens es))"
    using assms(2) plain_expr_tokens by (auto simp: list_all_iff)
  then have t: "tokenize_dependencies (expr_text es) = concat (map expr_tokens es)"
    by (simp add: tokenize_dependencies_def expr_text_def tokenize_join_deps)
  have "run_tokens ?pa [] (concat (map expr_tokens es)) [] 0 k [] = (ds, [], k1)"
    using run_expr(2) [OF assms(1) d, of "[]" "[]"] by (simp add: run_tokens_simps)
  then show ?thesis by (simp add: parse_dependency_string_def Let_def t parse_tokens_run d)
qed

subsection \<open>Group numbers\<close>

lemma package_atom_group: "parse_package_atom ul rx t dt use g = Inr d \<Longrightarrow> pd_OrGroupID d = g"
  by (auto simp: parse_package_atom_def parse_package_atom_legacy_def legacy_blocker_def new_dependency_def Let_def
      split: sum.splits prod.splits if_splits)

definition fresh_groups :: "int \<Rightarrow> int \<Rightarrow> int \<Rightarrow> parsed_dependency list \<Rightarrow> bool" where
  "fresh_groups g k k1 ds \<longleftrightarrow> k \<le> k1 \<and> list_all (\<lambda>d. pd_OrGroupID d = g \<or> k \<le> pd_OrGroupID d \<and> pd_OrGroupID d < k1) ds"

lemma fresh_groups_append:
  "fresh_groups g k k1 ds \<Longrightarrow> fresh_groups g k1 k2 es \<Longrightarrow> fresh_groups g k k2 (ds @ es)"
  by (auto simp: fresh_groups_def list_all_iff)

lemma parse_tokens_groups:
  assumes "\<And>t use g d. pa t use g = Inr d \<Longrightarrow> pd_OrGroupID d = g"
  shows "parse_tokens n pa prev ts use g k deps = Some (ds, rest, k1) \<Longrightarrow>
    \<exists>new. ds = deps @ new \<and> fresh_groups g k k1 new"
proof (induction n arbitrary: prev ts use g k deps ds rest k1)
  case (Suc n)
  show ?case
  proof (cases ts)
    case Nil
    with Suc.prems show ?thesis by (intro exI [where x = "[]"]) (simp add: fresh_groups_def)
  next
    case (Cons t ts')
    consider "t = '')''" | "t = ''(''" | "t \<noteq> '')''" "t \<noteq> ''(''" by blast
    then show ?thesis
    proof cases
      case 1
      with Suc.prems Cons show ?thesis by (intro exI [where x = "[]"]) (simp add: fresh_groups_def)
    next
      case 2
      obtain gs r k' where g: "parse_group n pa prev ts' use g k = Some (gs, r, k')"
        and c: "parse_tokens n pa '')'' r use g k' (deps @ gs) = Some (ds, rest, k1)"
        using Suc.prems Cons 2 by (auto simp del: parse_group.simps split: option.splits)
      have "fresh_groups g k k' gs"
      proof (cases "prev = ''||'' \<and> \<not> has_suffix prev ''?''")
        case True
        then have "parse_tokens n pa ''('' ts' use k (k + 1) [] = Some (gs, r, k')" using g by (auto split: if_splits)
        from Suc.IH [OF this] show ?thesis by (fastforce simp: fresh_groups_def list_all_iff)
      next
        case False
        then obtain use' where "parse_tokens n pa ''('' ts' use' g k [] = Some (gs, r, k')" using g by (auto split: if_splits)
        from Suc.IH [OF this] show ?thesis by auto
      qed
      with Suc.IH [OF c] show ?thesis by (auto intro: fresh_groups_append)
    next
      case 3
      have keep: "\<exists>new. ds = deps @ new \<and> fresh_groups g k k1 new"
        if "parse_tokens n pa t ts' use g k deps = Some (ds, rest, k1)" using Suc.IH [OF that] .
      have step: "\<exists>new. ds = deps @ new \<and> fresh_groups g k k1 new"
        if p: "parse_tokens n pa t ts' use g k (deps @ [d]) = Some (ds, rest, k1)" and d: "pa t use g = Inr d" for d
      proof -
        from Suc.IH [OF p] obtain new where "ds = deps @ d # new" "fresh_groups g k k1 new" by auto
        moreover have "pd_OrGroupID d = g" by (rule assms [OF d])
        ultimately show ?thesis by (intro exI [where x = "d # new"]) (simp add: fresh_groups_def)
      qed
      from Suc.prems Cons 3 keep step show ?thesis by (auto split: if_splits sum.splits)
    qed
  qed
qed simp

lemma parse_string_total:
  "\<exists>ds k1. parse_dependency_string ul rx s dt k = Some (ds, k1) \<and> fresh_groups 0 k k1 ds"
proof -
  let ?pa = "\<lambda>t use g. parse_package_atom ul rx t dt use g"
  let ?ts = "tokenize_dependencies s"
  obtain ds rest k1 where p: "parse_tokens (Suc (length ?ts)) ?pa [] ?ts [] 0 k [] = Some (ds, rest, k1)"
    using parse_tokens_total [of ?ts "Suc (length ?ts)"] by blast
  have "fresh_groups 0 k k1 ds"
    using parse_tokens_groups [of ?pa, OF package_atom_group p] by simp
  with p show ?thesis by (simp add: parse_dependency_string_def Let_def)
qed

lemma parse_variables_total: "\<exists>ds k1. parse_variables ul rx value vs k = Some (ds, k1) \<and> fresh_groups 0 k k1 ds"
proof (induction vs arbitrary: k)
  case Nil
  show ?case by (simp add: fresh_groups_def)
next
  case (Cons v vs)
  obtain x dt where v: "v = (x, dt)" by fastforce
  show ?case
  proof (cases "value x = []")
    case True
    with Cons.IH [of k] show ?thesis by (simp add: v)
  next
    case False
    from parse_string_total obtain ds k1 where d: "parse_dependency_string ul rx (value x) dt k = Some (ds, k1)"
      "fresh_groups 0 k k1 ds" by blast
    from Cons.IH [of k1] obtain es k2 where e: "parse_variables ul rx value vs k1 = Some (es, k2)" "fresh_groups 0 k1 k2 es" by blast
    from d e False fresh_groups_append [OF d(2) e(2)] show ?thesis by (simp add: v)
  qed
qed

subsection \<open>Meaning\<close>

definition active_constraints :: "(string \<rightharpoonup> bool) \<Rightarrow> parsed_dependency list \<Rightarrow> pkg_constraint list" where
  "active_constraints eff ds = map (\<lambda>d. (pd_Constraint d)\<lparr>c_OrGroupID := pd_OrGroupID d, c_DepType := pd_DepType d\<rparr>)
     (filter (\<lambda>d. dependency_active eff d \<and> \<not> pd_IsBlocker d) ds)"

lemma active_append [simp]: "active_constraints eff (ds @ es) = active_constraints eff ds @ active_constraints eff es"
  by (simp add: active_constraints_def)

lemma active_single: "active_constraints eff [d] = (if dependency_active eff d \<and> \<not> pd_IsBlocker d
    then [(pd_Constraint d)\<lparr>c_OrGroupID := pd_OrGroupID d, c_DepType := pd_DepType d\<rparr>] else [])"
  by (simp add: active_constraints_def)

lemma added_deps: "p_Deps (add_parsed_dependencies eff ds p) = p_Deps p @ active_constraints eff ds"
proof (induction ds arbitrary: p)
  case (Cons d ds)
  have "add_parsed_dependencies eff (d # ds) p = add_parsed_dependencies eff ds (add_parsed_dependency eff d p)"
    by (simp add: add_parsed_dependencies_def)
  moreover have "p_Deps (add_parsed_dependency eff d p) = p_Deps p @ active_constraints eff [d]"
    by (simp add: add_parsed_dependency_def active_constraints_def split: option.split)
  ultimately show ?case using Cons.IH [of "add_parsed_dependency eff d p"] active_append [of eff "[d]" ds] by simp
qed (simp add: add_parsed_dependencies_def active_constraints_def)

text \<open>What the resolver asks of the dependencies of a package: each one without a group, and one of each group.\<close>

definition deps_hold :: "(pkg_constraint \<Rightarrow> bool) \<Rightarrow> pkg_constraint list \<Rightarrow> bool" where
  "deps_hold P cs =
     (let (req, groups) = group_dependencies_by_or_group_id cs in
      list_all P req \<and> (\<forall>g. groups g \<noteq> [] \<longrightarrow> list_ex P (groups g)))"

lemma group_dependencies_eq:
  "group_dependencies cs (req, groups) = (req @ filter (\<lambda>c. c_OrGroupID c = 0) cs,
     \<lambda>g. groups g @ filter (\<lambda>c. c_OrGroupID c = g \<and> g \<noteq> 0) cs)"
  by (induction cs arbitrary: req groups) (auto simp: map_append_def fun_eq_iff)

definition hold_in :: "(pkg_constraint \<Rightarrow> bool) \<Rightarrow> pkg_constraint list \<Rightarrow> bool" where
  "hold_in P cs \<longleftrightarrow> (\<forall>c \<in> set cs. c_OrGroupID c = 0 \<longrightarrow> P c) \<and>
     (\<forall>c \<in> set cs. c_OrGroupID c \<noteq> 0 \<longrightarrow> (\<exists>b \<in> set cs. c_OrGroupID b = c_OrGroupID c \<and> P b))"

lemma deps_hold_iff: "deps_hold P cs = hold_in P cs"
proof -
  let ?grp = "\<lambda>g. filter (\<lambda>c. c_OrGroupID c = g \<and> g \<noteq> 0) cs"
  have "(\<forall>g. ?grp g \<noteq> [] \<longrightarrow> list_ex P (?grp g)) \<longleftrightarrow>
      (\<forall>c \<in> set cs. c_OrGroupID c \<noteq> 0 \<longrightarrow> (\<exists>b \<in> set cs. c_OrGroupID b = c_OrGroupID c \<and> P b))"
    by (fastforce simp: filter_empty_conv list_ex_iff)
  then show ?thesis
    unfolding deps_hold_def group_dependencies_by_or_group_id_def group_dependencies_eq hold_in_def
    by (auto simp: list_all_iff)
qed

lemma hold_in_append:
  assumes "\<forall>c \<in> set cs. \<forall>b \<in> set bs. c_OrGroupID c = c_OrGroupID b \<longrightarrow> c_OrGroupID c = 0"
  shows "hold_in P (cs @ bs) \<longleftrightarrow> hold_in P cs \<and> hold_in P bs"
proof
  assume l: "hold_in P (cs @ bs)"
  have "\<exists>b' \<in> set cs. c_OrGroupID b' = c_OrGroupID c \<and> P b'" if "c \<in> set cs" "c_OrGroupID c \<noteq> 0" for c
    using l that assms unfolding hold_in_def set_append by (metis Un_iff)
  moreover have "\<exists>b' \<in> set bs. c_OrGroupID b' = c_OrGroupID c \<and> P b'" if "c \<in> set bs" "c_OrGroupID c \<noteq> 0" for c
    using l that assms unfolding hold_in_def set_append by (metis Un_iff)
  ultimately show "hold_in P cs \<and> hold_in P bs" using l unfolding hold_in_def by simp
next
  assume "hold_in P cs \<and> hold_in P bs"
  then show "hold_in P (cs @ bs)" unfolding hold_in_def set_append by blast
qed

text \<open>The constraint of an atom, before the group, the conditions and the kind are filled in.\<close>

definition base_constraint :: "atom \<Rightarrow> pkg_constraint" where
  "base_constraint a = atom_condition a (atom_slot_constraint a (to_constraint a))"

definition provider_token :: "(nat \<Rightarrow> bool) \<Rightarrow> string \<Rightarrow> bool" where
  "provider_token ul t = (case parse_atom ul t of Inl _ \<Rightarrow> False | Inr a \<Rightarrow> \<not> is_blocker (Some a))"

definition atom_holds :: "(pkg_constraint \<Rightarrow> bool) \<Rightarrow> (nat \<Rightarrow> bool) \<Rightarrow> string \<Rightarrow> bool" where
  "atom_holds P ul t = (case parse_atom ul t of Inl _ \<Rightarrow> False | Inr a \<Rightarrow> P (base_constraint a))"

definition blind :: "(pkg_constraint \<Rightarrow> bool) \<Rightarrow> bool" where
  "blind P \<longleftrightarrow> (\<forall>c g. P (c\<lparr>c_OrGroupID := g\<rparr>) = P c) \<and> (\<forall>c cs. P (c\<lparr>c_Conditions := cs\<rparr>) = P c) \<and>
     (\<forall>c dt. P (c\<lparr>c_DepType := dt\<rparr>) = P c)"

lemma add_conditional_conditions: "c_Conditions (add_conditional c x) = c_Conditions c"
  by (simp add: add_conditional_def Let_def)

lemma foldl_conditional_conditions: "c_Conditions (foldl add_conditional c xs) = c_Conditions c"
  by (induction xs arbitrary: c) (simp_all add: add_conditional_conditions)

lemma base_conditions: "c_Conditions (base_constraint a) = []"
  by (simp add: base_constraint_def atom_condition_def atom_slot_constraint_def to_constraint_def
      foldl_conditional_conditions zero_constraint_def)

lemma base_group: "atom_condition a (atom_slot_constraint a ((to_constraint a)\<lparr>c_OrGroupID := g\<rparr>)) =
    (base_constraint a)\<lparr>c_OrGroupID := g\<rparr>"
  by (simp add: base_constraint_def atom_condition_def atom_slot_constraint_def)

text \<open>The dependency of an atom that is no blocker, after the loop of \<open>portage.go\<close>.\<close>

lemma active_atom:
  assumes "provider_token ul t" "blind P"
  shows "\<exists>d. parse_package_atom ul rx t dt use g = Inr d \<and>
    (\<exists>c. active_constraints eff [d] = (if are_use_conditions_active use eff then [c] else []) \<and> c_OrGroupID c = g \<and>
       P c = atom_holds P ul t)"
proof -
  obtain a where a: "parse_atom ul t = Inr a" "\<not> is_blocker (Some a)" using assms(1) by (auto simp: provider_token_def split: sum.splits)
  let ?c3 = "if 0 < length use then (base_constraint a)\<lparr>c_OrGroupID := g, c_Conditions := use\<rparr>
    else (base_constraint a)\<lparr>c_OrGroupID := g\<rparr>"
  let ?d = "(new_dependency dt use g)\<lparr>pd_Atom := Some a, pd_IsBlocker := is_blocker (Some a),
    pd_IsHardBlock := is_strong_blocker (Some a), pd_Constraint := ?c3\<rparr>"
  have p: "parse_package_atom ul rx t dt use g = Inr ?d"
    by (simp add: parse_package_atom_def a(1) base_group Let_def)
  have act: "dependency_active eff ?d = are_use_conditions_active use eff"
    by (simp add: dependency_active_def base_conditions new_dependency_def last_flag_def are_use_conditions_active_def
        is_use_conditional_active_def)
  have "P ((pd_Constraint ?d)\<lparr>c_OrGroupID := g, c_DepType := dt\<rparr>) = atom_holds P ul t"
    using assms(2) by (simp add: blind_def atom_holds_def a(1))
  moreover have "pd_OrGroupID ?d = g" "pd_DepType ?d = dt" "pd_IsBlocker ?d = False" using a(2) by (simp_all add: new_dependency_def)
  ultimately obtain d where d: "parse_package_atom ul rx t dt use g = Inr d"
    "dependency_active eff d = are_use_conditions_active use eff" "\<not> pd_IsBlocker d" "pd_OrGroupID d = g" "pd_DepType d = dt"
    "P ((pd_Constraint d)\<lparr>c_OrGroupID := g, c_DepType := dt\<rparr>) = atom_holds P ul t"
    using p act by blast
  then show ?thesis
    unfolding active_single
    by (intro exI [where x = d] conjI exI [where x = "(pd_Constraint d)\<lparr>c_OrGroupID := g, c_DepType := dt\<rparr>"]) simp_all
qed

fun member_active :: "(string \<rightharpoonup> bool) \<Rightarrow> dep_expr \<Rightarrow> bool" where
  "member_active eff (UseCond f es) = (is_use_conditional_active f eff \<and> list_all (member_active eff) es)"
| "member_active eff _ = True"

text \<open>
  The meaning of an expression: a conditional that is off asks for nothing, and as a member of an any-of group
  it is not counted; a group all of whose members are off is satisfied.
\<close>

fun expr_holds :: "(string \<Rightarrow> bool) \<Rightarrow> (string \<rightharpoonup> bool) \<Rightarrow> dep_expr \<Rightarrow> bool" where
  "expr_holds A eff (DepAtom t) = A t"
| "expr_holds A eff (AllOf es) = list_all (expr_holds A eff) es"
| "expr_holds A eff (AnyOf es) =
     (list_ex (\<lambda>e. member_active eff e \<and> expr_holds A eff e) es \<or> \<not> list_ex (member_active eff) es)"
| "expr_holds A eff (UseCond f es) = (is_use_conditional_active f eff \<longrightarrow> list_all (expr_holds A eff) es)"

fun single_member :: "dep_expr \<Rightarrow> bool" where
  "single_member (DepAtom t) = True"
| "single_member (UseCond f [e]) = single_member e"
| "single_member _ = False"

fun atoms_in_groups :: "dep_expr \<Rightarrow> bool" where
  "atoms_in_groups (DepAtom t) = True"
| "atoms_in_groups (AllOf es) = list_all atoms_in_groups es"
| "atoms_in_groups (AnyOf es) = list_all single_member es"
| "atoms_in_groups (UseCond f es) = list_all atoms_in_groups es"

fun provider_expr :: "(nat \<Rightarrow> bool) \<Rightarrow> dep_expr \<Rightarrow> bool" where
  "provider_expr ul (DepAtom t) = provider_token ul t"
| "provider_expr ul (AllOf es) = list_all (provider_expr ul) es"
| "provider_expr ul (AnyOf es) = list_all (provider_expr ul) es"
| "provider_expr ul (UseCond f es) = list_all (provider_expr ul) es"

lemma conditions_snoc:
  "are_use_conditions_active (use @ [f]) eff \<longleftrightarrow> are_use_conditions_active use eff \<and> is_use_conditional_active f eff"
  by (simp add: are_use_conditions_active_def)

lemma member_deps:
  assumes "blind P"
  shows "single_member e \<Longrightarrow> provider_expr ul e \<Longrightarrow>
    \<exists>ds c. expr_deps (\<lambda>t use g. parse_package_atom ul rx t dt use g) use g k e = (ds, k) \<and>
      active_constraints eff ds = (if are_use_conditions_active use eff \<and> member_active eff e then [c] else []) \<and>
      c_OrGroupID c = g \<and> P c = expr_holds (atom_holds P ul) eff e \<or>
      expr_deps (\<lambda>t use g. parse_package_atom ul rx t dt use g) use g k e = (ds, k) \<and> active_constraints eff ds = [] \<and>
      \<not> (are_use_conditions_active use eff \<and> member_active eff e)"
proof (induction e arbitrary: use rule: single_member.induct)
  case (1 t)
  then have "provider_token ul t" by simp
  from active_atom [OF this assms, of rx dt use g eff] obtain d c where
    "parse_package_atom ul rx t dt use g = Inr d"
    "active_constraints eff [d] = (if are_use_conditions_active use eff then [c] else [])" "c_OrGroupID c = g"
    "P c = atom_holds P ul t" by blast
  then show ?case by (intro exI [where x = "[d]"] exI [where x = c]) simp
next
  case (2 f e)
  let ?pa = "\<lambda>t use g. parse_package_atom ul rx t dt use g"
  have deps: "expr_deps ?pa use g k (UseCond f [e]) = (ds, k)" if "expr_deps ?pa (use @ [f]) g k e = (ds, k)" for ds
    using that by simp
  from 2 obtain ds c where "expr_deps ?pa (use @ [f]) g k e = (ds, k)"
    "active_constraints eff ds = (if are_use_conditions_active (use @ [f]) eff \<and> member_active eff e then [c] else []) \<and>
      c_OrGroupID c = g \<and> P c = expr_holds (atom_holds P ul) eff e \<or>
     active_constraints eff ds = [] \<and> \<not> (are_use_conditions_active (use @ [f]) eff \<and> member_active eff e)"
    by fastforce
  then show ?case
    using deps [of ds] by (intro exI [where x = ds] exI [where x = c]) (auto simp: conditions_snoc)
qed simp_all

lemma members_deps:
  assumes "blind P"
  shows "list_all single_member es \<Longrightarrow> list_all (provider_expr ul) es \<Longrightarrow>
    \<exists>ds. exprs_deps (\<lambda>t use g. parse_package_atom ul rx t dt use g) use g k es = (ds, k) \<and>
      (\<forall>c \<in> set (active_constraints eff ds). c_OrGroupID c = g) \<and>
      (active_constraints eff ds \<noteq> [] \<longleftrightarrow> are_use_conditions_active use eff \<and> list_ex (member_active eff) es) \<and>
      (list_ex P (active_constraints eff ds) \<longleftrightarrow> are_use_conditions_active use eff \<and>
         list_ex (\<lambda>e. member_active eff e \<and> expr_holds (atom_holds P ul) eff e) es)"
proof (induction es)
  case Nil
  show ?case by (simp add: active_constraints_def)
next
  case (Cons e es)
  let ?pa = "\<lambda>t use g. parse_package_atom ul rx t dt use g"
  from Cons obtain es' where es: "exprs_deps ?pa use g k es = (es', k)"
    "\<forall>c \<in> set (active_constraints eff es'). c_OrGroupID c = g"
    "active_constraints eff es' \<noteq> [] \<longleftrightarrow> are_use_conditions_active use eff \<and> list_ex (member_active eff) es"
    "list_ex P (active_constraints eff es') \<longleftrightarrow> are_use_conditions_active use eff \<and>
         list_ex (\<lambda>e. member_active eff e \<and> expr_holds (atom_holds P ul) eff e) es" by auto
  have e: "single_member e" "provider_expr ul e" using Cons.prems by simp_all
  from member_deps [OF assms e, of rx dt use g k eff] obtain ds where ds: "expr_deps ?pa use g k e = (ds, k)"
    "\<forall>c \<in> set (active_constraints eff ds). c_OrGroupID c = g"
    "active_constraints eff ds \<noteq> [] \<longleftrightarrow> are_use_conditions_active use eff \<and> member_active eff e"
    "list_ex P (active_constraints eff ds) \<longleftrightarrow> are_use_conditions_active use eff \<and> member_active eff e \<and>
       expr_holds (atom_holds P ul) eff e" by auto
  show ?case
    using es ds by (intro exI [where x = "ds @ es'"]) auto
qed

text \<open>One expression outside any-of groups.\<close>

definition means ::
  "(pkg_constraint \<Rightarrow> bool) \<Rightarrow> (nat \<Rightarrow> bool) \<Rightarrow> (string \<Rightarrow> (string \<times> string) option) \<Rightarrow> dep_type \<Rightarrow> (string \<rightharpoonup> bool) \<Rightarrow>
   string list \<Rightarrow> int \<Rightarrow> int \<Rightarrow> parsed_dependency list \<Rightarrow> bool \<Rightarrow> bool" where
  "means P ul rx dt eff use k k1 ds h \<longleftrightarrow> k \<le> k1 \<and>
     (\<forall>c \<in> set (active_constraints eff ds). c_OrGroupID c = 0 \<or> k \<le> c_OrGroupID c \<and> c_OrGroupID c < k1) \<and>
     (hold_in P (active_constraints eff ds) \<longleftrightarrow> (are_use_conditions_active use eff \<longrightarrow> h))"

lemma means_append:
  assumes "means P ul rx dt eff use k k1 ds h" "means P ul rx dt eff use k1 k2 es i" "1 \<le> k"
  shows "means P ul rx dt eff use k k2 (ds @ es) (h \<and> i)"
proof -
  have "\<forall>c \<in> set (active_constraints eff ds). \<forall>b \<in> set (active_constraints eff es).
      c_OrGroupID c = c_OrGroupID b \<longrightarrow> c_OrGroupID c = 0"
    using assms unfolding means_def by fastforce
  note h = hold_in_append [OF this, of P]
  show ?thesis
    unfolding means_def active_append h
    using assms unfolding means_def set_append by (intro conjI ballI) (fastforce, fastforce, blast)
qed

lemma exprs_mean:
  assumes "blind P" "\<And>e use k ds k1. e \<in> set es \<Longrightarrow> 1 \<le> k \<Longrightarrow>
      expr_deps (\<lambda>t use g. parse_package_atom ul rx t dt use g) use 0 k e = (ds, k1) \<Longrightarrow>
      means P ul rx dt eff use k k1 ds (expr_holds (atom_holds P ul) eff e)"
  shows "1 \<le> k \<Longrightarrow> exprs_deps (\<lambda>t use g. parse_package_atom ul rx t dt use g) use 0 k es = (ds, k1) \<Longrightarrow>
    means P ul rx dt eff use k k1 ds (list_all (expr_holds (atom_holds P ul) eff) es)"
  using assms(2)
proof (induction es arbitrary: k ds k1)
  case Nil
  then show ?case by (simp add: means_def hold_in_def active_constraints_def)
next
  case (Cons e es)
  let ?pa = "\<lambda>t use g. parse_package_atom ul rx t dt use g"
  obtain ds1 ka where a: "expr_deps ?pa use 0 k e = (ds1, ka)" by fastforce
  obtain ds2 kb where b: "exprs_deps ?pa use 0 ka es = (ds2, kb)" by fastforce
  have r: "ds = ds1 @ ds2" "k1 = kb" using Cons.prems(2) by (simp_all add: a b)
  have m1: "means P ul rx dt eff use k ka ds1 (expr_holds (atom_holds P ul) eff e)"
    using Cons.prems(1) a by (intro Cons.prems(3)) simp_all
  then have "1 \<le> ka" using Cons.prems(1) by (simp add: means_def)
  then have m2: "means P ul rx dt eff use ka kb ds2 (list_all (expr_holds (atom_holds P ul) eff) es)"
    using b Cons.prems(3) by (intro Cons.IH) simp_all
  from means_append [OF m1 m2 Cons.prems(1)] show ?case unfolding r by simp
qed

lemma expr_means:
  assumes "blind P"
  shows "atoms_in_groups e \<Longrightarrow> provider_expr ul e \<Longrightarrow> 1 \<le> k \<Longrightarrow>
    expr_deps (\<lambda>t use g. parse_package_atom ul rx t dt use g) use 0 k e = (ds, k1) \<Longrightarrow>
    means P ul rx dt eff use k k1 ds (expr_holds (atom_holds P ul) eff e)"
proof (induction e arbitrary: use k ds k1)
  case (DepAtom t)
  then have "provider_token ul t" by simp
  from active_atom [OF this assms, of rx dt use 0 eff] obtain d c where
    "parse_package_atom ul rx t dt use 0 = Inr d"
    "active_constraints eff [d] = (if are_use_conditions_active use eff then [c] else [])" "c_OrGroupID c = 0"
    "P c = atom_holds P ul t" by blast
  with DepAtom show ?case by (auto simp: means_def hold_in_def)
next
  case (AllOf es)
  have "means P ul rx dt eff use k k1 ds (list_all (expr_holds (atom_holds P ul) eff) es)"
    by (rule exprs_mean [OF assms _ AllOf.prems(3)]) (use AllOf in \<open>auto simp: list_all_iff\<close>)
  then show ?case by simp
next
  case (AnyOf es)
  from members_deps [OF assms, of es ul rx dt use k "k + 1" eff] AnyOf.prems obtain ds' where
    d: "exprs_deps (\<lambda>t use g. parse_package_atom ul rx t dt use g) use k (k + 1) es = (ds', k + 1)"
    "\<forall>c \<in> set (active_constraints eff ds'). c_OrGroupID c = k"
    "active_constraints eff ds' \<noteq> [] \<longleftrightarrow> are_use_conditions_active use eff \<and> list_ex (member_active eff) es"
    "list_ex P (active_constraints eff ds') \<longleftrightarrow> are_use_conditions_active use eff \<and>
         list_ex (\<lambda>e. member_active eff e \<and> expr_holds (atom_holds P ul) eff e) es" by auto
  have r: "ds = ds'" "k1 = k + 1" using AnyOf.prems(4) d(1) by simp_all
  have "hold_in P (active_constraints eff ds) \<longleftrightarrow> active_constraints eff ds = [] \<or> list_ex P (active_constraints eff ds)"
  proof -
    have "k \<noteq> 0" using AnyOf.prems(3) by simp
    with d(2) show ?thesis unfolding r hold_in_def list_ex_iff by (metis list.set_intros(1) neq_Nil_conv empty_iff list.set(1))
  qed
  with d(3,4) have "hold_in P (active_constraints eff ds) \<longleftrightarrow>
      (are_use_conditions_active use eff \<longrightarrow> expr_holds (atom_holds P ul) eff (AnyOf es))"
    unfolding r expr_holds.simps by blast
  then show ?case using d(2) unfolding means_def r by simp
next
  case (UseCond f es)
  have "means P ul rx dt eff (use @ [f]) k k1 ds (list_all (expr_holds (atom_holds P ul) eff) es)"
    by (rule exprs_mean [OF assms _ UseCond.prems(3)]) (use UseCond in \<open>auto simp: list_all_iff\<close>)
  then show ?case by (simp add: means_def conditions_snoc) blast
qed

subsection \<open>Properties\<close>

text \<open>
  Claim C20. Parsing a printed dependency expression gives exactly its atoms, in order, each with the stack of
  the USE conditions and the number of the innermost any-of group around it; groups are numbered in the
  order in which they open.
\<close>

theorem dependency_string_parsed:
  assumes "list_all wf_expr es" "list_all plain_expr es"
  shows "parse_dependency_string ul rx (expr_text es) dt k =
    Some (exprs_deps (\<lambda>t use g. parse_package_atom ul rx t dt use g) [] 0 k es)"
  by (rule parse_printed [OF assms])

definition demo_expr :: "dep_expr list" where
  "demo_expr = [DepAtom ''sys-libs/zlib'', UseCond ''ssl'' [AnyOf [DepAtom ''dev-libs/openssl'', DepAtom ''net-libs/gnutls'']]]"

lemma demo_expr_ok: "list_all wf_expr demo_expr" "list_all plain_expr demo_expr"
  by code_simp+

theorem dependency_string_parsed_witness:
  "expr_text demo_expr = ''sys-libs/zlib ssl? ( || ( dev-libs/openssl net-libs/gnutls ) )'' \<and>
   parse_dependency_string (\<lambda>_. False) (\<lambda>_. None) (expr_text demo_expr) DepTypeBuild 1 =
     Some (exprs_deps (\<lambda>t use g. parse_package_atom (\<lambda>_. False) (\<lambda>_. None) t DepTypeBuild use g) [] 0 1 demo_expr)"
proof
  show "expr_text demo_expr = ''sys-libs/zlib ssl? ( || ( dev-libs/openssl net-libs/gnutls ) )''" by code_simp
qed (rule dependency_string_parsed [OF demo_expr_ok])

text \<open>
  On every string, however badly nested, the parser returns within one step per token, and every
  group number it hands out is new: it lies between the counter before and the counter after. The same holds
  for the five variables together, so groups of different variables never merge.
\<close>

theorem dependency_string_total:
  "(\<exists>ds k1. parse_dependency_string ul rx s dt k = Some (ds, k1) \<and> k \<le> k1 \<and>
     list_all (\<lambda>d. pd_OrGroupID d = 0 \<or> k \<le> pd_OrGroupID d \<and> pd_OrGroupID d < k1) ds) \<and>
   (\<exists>ds k1. parse_dependencies ul rx value = Some (ds, k1) \<and>
     list_all (\<lambda>d. pd_OrGroupID d = 0 \<or> 1 \<le> pd_OrGroupID d \<and> pd_OrGroupID d < k1) ds)"
  using parse_string_total [of ul rx s dt k] parse_variables_total [of ul rx "value" _ 1]
  unfolding fresh_groups_def parse_dependencies_def by blast


definition name_in :: "string list \<Rightarrow> pkg_constraint \<Rightarrow> bool" where
  "name_in ns c \<longleftrightarrow> c_Name c \<in> set ns"

lemma name_in_blind: "blind (name_in ns)"
  by (simp add: blind_def name_in_def)


text \<open>
  The restriction matters: a group inside an any-of group is flattened into it. Of
  \<open>|| ( ( a/b c/d ) e/f )\<close>, which asks for both \<open>a/b\<close> and \<open>c/d\<close> or for \<open>e/f\<close>, the resolver gets the three
  alternatives of one group, and \<open>a/b\<close> alone satisfies it.
\<close>

theorem nested_group_flattened:
  "\<exists>ds k1. parse_dependency_string (\<lambda>_. False) (\<lambda>_. None) ''|| ( ( a/b c/d ) e/f )'' DepTypeRuntime 1 = Some (ds, k1) \<and>
     deps_hold (name_in [''a/b'']) (p_Deps (add_parsed_dependencies eff ds (new_package ''x/y'' ''1'' ''0''))) \<and>
     \<not> expr_holds (\<lambda>t. t = ''a/b'') eff (AnyOf [AllOf [DepAtom ''a/b'', DepAtom ''c/d''], DepAtom ''e/f''])"
proof -
  let ?es = "[AnyOf [AllOf [DepAtom ''a/b'', DepAtom ''c/d''], DepAtom ''e/f'']]"
  let ?pa = "\<lambda>t use g. parse_package_atom (\<lambda>_. False) (\<lambda>_. None) t DepTypeRuntime use g"
  have t: "expr_text ?es = ''|| ( ( a/b c/d ) e/f )''" "list_all wf_expr ?es" "list_all plain_expr ?es" by code_simp+
  note parsed = parse_printed [OF t(2,3), of "\<lambda>_. False" "\<lambda>_. None" DepTypeRuntime 1, unfolded t(1)]
  have ok: "provider_token (\<lambda>_. False) ''a/b''" "provider_token (\<lambda>_. False) ''c/d''" "provider_token (\<lambda>_. False) ''e/f''"
    and holds: "atom_holds (name_in [''a/b'']) (\<lambda>_. False) ''a/b''" by code_simp+
  have on: "are_use_conditions_active [] eff" by (simp add: are_use_conditions_active_def)
  note atom = active_atom [OF _ name_in_blind, of "\<lambda>_. False" _ "\<lambda>_. None" DepTypeRuntime "[]" 1 eff "[''a/b'']"]
  from atom [OF ok(1)] on obtain d1 c1 where 1: "?pa ''a/b'' [] 1 = Inr d1" "active_constraints eff [d1] = [c1]"
    "c_OrGroupID c1 = 1" "name_in [''a/b''] c1" using holds by auto
  from atom [OF ok(2)] on obtain d2 c2 where 2: "?pa ''c/d'' [] 1 = Inr d2" "active_constraints eff [d2] = [c2]"
    "c_OrGroupID c2 = 1" by auto
  from atom [OF ok(3)] on obtain d3 c3 where 3: "?pa ''e/f'' [] 1 = Inr d3" "active_constraints eff [d3] = [c3]"
    "c_OrGroupID c3 = 1" by auto
  have ds: "exprs_deps ?pa [] 0 1 ?es = ([d1, d2, d3], 2)" using 1(1) 2(1) 3(1) by simp
  have "active_constraints eff [d1, d2, d3] = [c1, c2, c3]"
    using active_append [of eff "[d1]" "[d2, d3]"] active_append [of eff "[d2]" "[d3]"] 1(2) 2(2) 3(2) by simp
  moreover have "hold_in (name_in [''a/b'']) [c1, c2, c3]" using 1(3,4) 2(3) 3(3) by (simp add: hold_in_def)
  ultimately show ?thesis
    using parsed ds by (simp add: added_deps new_package_def deps_hold_iff)
qed

end
