(* ===== verification/Depclean.thy ===== *)
theory Depclean
  imports Packages Worklist "HOL-Library.Char_ord" "HOL-Library.List_Lexorder"
begin

text \<open>
  The search for orphaned packages (\<open>internal/solver/depclean.go\<close>) with the package sets it reads
  (\<open>PackageSet\<close> of \<open>internal/state/sets.go\<close>). The installed packages come as the list \<open>db.List()\<close>, the world set
  from the set manager, an argument. \<open>order\<close> is the order in which the map of needed atoms is read, \<open>keys\<close> that
  of the packages of the graph. \<open>sort.Strings\<close> is \<open>sort\<close> with the bytewise order of strings.
\<close>

subsection \<open>Package sets\<close>

record package_set =
  ps_name :: string
  ps_atoms :: "string list"
  ps_atomSet :: "string set"

fun unique_atoms :: "string list \<Rightarrow> string set \<Rightarrow> string list" where
  "unique_atoms [] seen = []"
| "unique_atoms (a # as) seen =
     (let t = trim_space a in
      if t = [] then unique_atoms as seen
      else if t \<in> seen then unique_atoms as seen
      else t # unique_atoms as (insert t seen))"

definition new_package_set :: "string \<Rightarrow> string list \<Rightarrow> package_set" where
  "new_package_set name atoms =
     (let u = unique_atoms atoms {} in \<lparr>ps_name = name, ps_atoms = sort u, ps_atomSet = set u\<rparr>)"

definition set_contains :: "package_set \<Rightarrow> string \<Rightarrow> bool" where
  "set_contains s a \<longleftrightarrow> a \<in> ps_atomSet s"

definition set_union :: "package_set \<Rightarrow> package_set \<Rightarrow> package_set" where
  "set_union s t = new_package_set ''@world'' (ps_atoms s @ ps_atoms t)"

subsection \<open>Atoms\<close>

text \<open>The last hyphen before a digit.\<close>

fun version_dash :: "string \<Rightarrow> nat option" where
  "version_dash [] = None"
| "version_dash (c # s) =
     (case version_dash s of
        Some i \<Rightarrow> Some (Suc i)
      | None \<Rightarrow> if c = CHR ''-'' \<and> s \<noteq> [] \<and> is_digit (hd s) then Some 0 else None)"

definition extract_base_atom :: "string \<Rightarrow> string" where
  "extract_base_atom s =
     (let a1 = foldl trim_prefix s [''>='', ''<='', ''>'', ''<'', ''='', ''~''];
          a2 = (case index_byte a1 CHR '':'' of Some i \<Rightarrow> take i a1 | None \<Rightarrow> a1);
          a3 = (case index_byte a2 CHR ''['' of Some i \<Rightarrow> take i a2 | None \<Rightarrow> a2)
      in case version_dash a3 of Some i \<Rightarrow> take i a3 | None \<Rightarrow> a3)"

subsection \<open>The graph\<close>

record installed_package =
  ip_Package :: "package option"
  ip_Size :: int

record reverse_graph =
  rg_dependents :: "string \<rightharpoonup> string list"
  rg_dependencies :: "string \<rightharpoonup> string list"
  rg_packages :: "string \<rightharpoonup> installed_package"

definition new_reverse_graph :: reverse_graph where
  "new_reverse_graph = \<lparr>rg_dependents = (\<lambda>_. None), rg_dependencies = (\<lambda>_. None), rg_packages = (\<lambda>_. None)\<rparr>"

definition list_at :: "(string \<rightharpoonup> string list) \<Rightarrow> string \<Rightarrow> string list" where
  "list_at m k = (case m k of Some xs \<Rightarrow> xs | None \<Rightarrow> [])"

fun dependency_atoms :: "pkg_constraint list \<Rightarrow> string set \<Rightarrow> string list" where
  "dependency_atoms [] seen = []"
| "dependency_atoms (d # ds) seen =
     (let a = extract_base_atom (c_Name d) in
      if a \<noteq> [] \<and> a \<notin> seen then a # dependency_atoms ds (insert a seen) else dependency_atoms ds seen)"

definition reverse_add_package :: "installed_package option \<Rightarrow> reverse_graph \<Rightarrow> reverse_graph" where
  "reverse_add_package ip g =
     (case ip of
        None \<Rightarrow> g
      | Some i \<Rightarrow>
          (case ip_Package i of
             None \<Rightarrow> g
           | Some p \<Rightarrow>
               (let atom = extract_base_atom (p_Name p);
                    deps = dependency_atoms (p_Deps p) {};
                    d0 = (if rg_dependents g atom = None then (rg_dependents g)(atom \<mapsto> []) else rg_dependents g)
                in g\<lparr>rg_packages := (rg_packages g)(atom \<mapsto> i), rg_dependencies := (rg_dependencies g)(atom \<mapsto> deps),
                     rg_dependents := fold (\<lambda>d m. m(d \<mapsto> list_at m d @ [atom])) deps d0\<rparr>)))"

definition build_reverse_graph :: "installed_package option list \<Rightarrow> reverse_graph" where
  "build_reverse_graph db = fold reverse_add_package db new_reverse_graph"

definition get_dependencies :: "reverse_graph \<Rightarrow> string \<Rightarrow> string list" where
  "get_dependencies g a = list_at (rg_dependencies g) (extract_base_atom a)"

definition get_dependents :: "reverse_graph \<Rightarrow> string \<Rightarrow> string list" where
  "get_dependents g a = list_at (rg_dependents g) (extract_base_atom a)"

definition has_dependents :: "reverse_graph \<Rightarrow> string \<Rightarrow> bool" where
  "has_dependents g a \<longleftrightarrow> 0 < length (get_dependents g a)"

definition get_package :: "reverse_graph \<Rightarrow> string \<Rightarrow> installed_package option" where
  "get_package g a = rg_packages g (extract_base_atom a)"

definition all_atoms :: "string list \<Rightarrow> reverse_graph \<Rightarrow> string list" where
  "all_atoms keys g = sort (filter (\<lambda>k. rg_packages g k \<noteq> None) keys)"

subsection \<open>The search\<close>

datatype orphan_reason = OrphanReasonNotInWorld | OrphanReasonNotRequired | OrphanReasonUnused

record orphan_info =
  oi_Atom :: string
  oi_Version :: string
  oi_Slot :: string
  oi_Size :: int
  oi_Reason :: orphan_reason

record depclean_result =
  dr_Orphans :: "orphan_info list"
  dr_Protected :: "string list"
  dr_TotalSize :: int

record depclean_options =
  do_Exclude :: "string list"
  do_IncludeSystem :: bool

definition needed_roots :: "depclean_options \<Rightarrow> package_set \<Rightarrow> string set" where
  "needed_roots opts world = set (map extract_base_atom (do_Exclude opts @ ps_atoms world))"

text \<open>
  The loop of \<open>markNeededPackages\<close>. An atom is queued at most once, so as many rounds as there are atoms are
  enough.
\<close>

fun mark_deps :: "string list \<Rightarrow> string list \<Rightarrow> string set \<Rightarrow> string list \<times> string set" where
  "mark_deps [] queue needed = (queue, needed)"
| "mark_deps (d # ds) queue needed =
     (let b = extract_base_atom d in
      if b \<notin> needed then mark_deps ds (queue @ [b]) (insert b needed) else mark_deps ds queue needed)"

fun mark_loop :: "nat \<Rightarrow> reverse_graph \<Rightarrow> string list \<Rightarrow> string set \<Rightarrow> string set \<Rightarrow> string set option" where
  "mark_loop n g [] needed processed = Some needed"
| "mark_loop 0 g (a # queue) needed processed = None"
| "mark_loop (Suc n) g (a # queue) needed processed =
     (if a \<in> processed then mark_loop n g queue needed processed
      else (let (queue1, needed1) = mark_deps (get_dependencies g a) queue needed in
            mark_loop n g queue1 needed1 (insert a processed)))"

definition mark_needed_packages :: "nat \<Rightarrow> string list \<Rightarrow> depclean_options \<Rightarrow> package_set \<Rightarrow> reverse_graph \<Rightarrow> string set option" where
  "mark_needed_packages n order opts world g = mark_loop n g order (needed_roots opts world) {}"

definition determine_orphan_reason :: "string \<Rightarrow> package_set \<Rightarrow> reverse_graph \<Rightarrow> orphan_reason" where
  "determine_orphan_reason a world g =
     (if set_contains world a then OrphanReasonUnused
      else if has_dependents g a then OrphanReasonUnused
      else OrphanReasonNotRequired)"

fun find_orphans_loop :: "string list \<Rightarrow> reverse_graph \<Rightarrow> string set \<Rightarrow> package_set \<Rightarrow> depclean_result \<Rightarrow> depclean_result" where
  "find_orphans_loop [] g needed world r = r"
| "find_orphans_loop (a # as) g needed world r =
     (if a \<in> needed then find_orphans_loop as g needed world (r\<lparr>dr_Protected := dr_Protected r @ [a]\<rparr>)
      else case get_package g a of
        None \<Rightarrow> find_orphans_loop as g needed world r
      | Some i \<Rightarrow>
          (case ip_Package i of
             None \<Rightarrow> find_orphans_loop as g needed world r
           | Some p \<Rightarrow>
               find_orphans_loop as g needed world
                 (r\<lparr>dr_Orphans := dr_Orphans r @ [\<lparr>oi_Atom = a, oi_Version = p_Version p, oi_Slot = sl_Name (p_Slot p),
                       oi_Size = ip_Size i, oi_Reason = determine_orphan_reason a world g\<rparr>],
                    dr_TotalSize := dr_TotalSize r + ip_Size i\<rparr>)))"

definition find_orphans :: "string list \<Rightarrow> reverse_graph \<Rightarrow> string set \<Rightarrow> package_set \<Rightarrow> depclean_result" where
  "find_orphans keys g needed world =
     (let r = find_orphans_loop (all_atoms keys g) g needed world \<lparr>dr_Orphans = [], dr_Protected = [], dr_TotalSize = 0\<rparr>
      in r\<lparr>dr_Orphans := sort_key oi_Atom (dr_Orphans r)\<rparr>)"

text \<open>
  \<open>Calculate\<close>: \<open>db\<close> and \<open>sets\<close> are \<open>None\<close> when the calculator was made without them; the set manager answers for
  \<open>GetWorld\<close> or, without the system set, for \<open>GetSelected\<close>.
\<close>

definition load_world_set :: "depclean_options \<Rightarrow> (bool \<Rightarrow> string + package_set) option \<Rightarrow> string + package_set" where
  "load_world_set opts sets =
     (case sets of None \<Rightarrow> Inr (new_package_set ''@world'' []) | Some get \<Rightarrow> get (do_IncludeSystem opts))"

definition calculate_depclean ::
  "nat \<Rightarrow> string list \<Rightarrow> string list \<Rightarrow> depclean_options \<Rightarrow> (bool \<Rightarrow> string + package_set) option \<Rightarrow>
   installed_package option list option \<Rightarrow> (string + depclean_result) option" where
  "calculate_depclean n order keys opts sets db =
     (case db of
        None \<Rightarrow> Some (Inl ''package database is nil'')
      | Some ips \<Rightarrow>
          (case load_world_set opts sets of
             Inl e \<Rightarrow> Some (Inl (''failed to load @world set: '' @ e))
           | Inr world \<Rightarrow>
               (let g = build_reverse_graph ips in
                map_option (\<lambda>needed. Inr (find_orphans keys g needed world))
                  (mark_needed_packages n order opts world g))))"

subsection \<open>The loop is a breadth-first search\<close>

definition needs :: "reverse_graph \<Rightarrow> string \<Rightarrow> string list" where
  "needs g a = map extract_base_atom (get_dependencies g a)"

definition needed_set :: "depclean_options \<Rightarrow> package_set \<Rightarrow> reverse_graph \<Rightarrow> string set" where
  "needed_set opts world g = (succ_rel (needs g))\<^sup>* `` needed_roots opts world"

definition depclean_atoms :: "depclean_options \<Rightarrow> package_set \<Rightarrow> reverse_graph \<Rightarrow> string set" where
  "depclean_atoms opts world g =
     needed_roots opts world \<union> extract_base_atom ` (\<Union>ds \<in> ran (rg_dependencies g). set ds)"

lemma mark_deps_push: "mark_deps ds queue needed = push_unseen (map extract_base_atom ds) (queue, needed)"
  by (induction ds queue needed rule: mark_deps.induct) (auto simp: Let_def)

lemma mark_loop_bfs:
  "distinct queue \<Longrightarrow> set queue \<inter> processed = {} \<Longrightarrow> processed \<union> set queue \<subseteq> needed \<Longrightarrow>
    mark_loop n g queue needed processed = bfs (needs g) n queue needed"
proof (induction n g queue needed processed rule: mark_loop.induct)
  case (3 n g a queue needed processed)
  obtain new where new: "push_unseen (needs g a) (queue, needed) = (queue @ new, needed \<union> set (needs g a))"
    "set new = set (needs g a) - needed" "distinct new"
    using push_unseen_split [of "needs g a" queue needed] by blast
  have m: "mark_deps (get_dependencies g a) queue needed = (queue @ new, needed \<union> set (needs g a))"
    using new(1) by (simp add: mark_deps_push needs_def)
  have a: "a \<notin> processed" using 3(4) by simp
  have "mark_loop n g (queue @ new) (needed \<union> set (needs g a)) (insert a processed) =
      bfs (needs g) n (queue @ new) (needed \<union> set (needs g a))"
    by (rule 3(2) [OF a m [symmetric] refl]) (use 3(3-5) new in auto)
  then show ?case using a by (simp add: m new(1))
qed simp_all

lemma needed_closed: "needed_set opts world g \<subseteq> depclean_atoms opts world g"
proof
  fix a
  assume "a \<in> needed_set opts world g"
  then obtain r where r: "(r, a) \<in> (succ_rel (needs g))\<^sup>*" "r \<in> needed_roots opts world" by (auto simp: needed_set_def)
  from r show "a \<in> depclean_atoms opts world g"
  proof (induction rule: rtrancl_induct)
    case base
    then show ?case by (simp add: depclean_atoms_def)
  next
    case (step b c)
    then have "c \<in> extract_base_atom ` set (list_at (rg_dependencies g) (extract_base_atom b))"
      by (simp add: needs_def get_dependencies_def)
    then obtain ds where ds: "rg_dependencies g (extract_base_atom b) = Some ds" "c \<in> extract_base_atom ` set ds"
      by (cases "rg_dependencies g (extract_base_atom b)") (simp_all add: list_at_def)
    from ds(1) have "ds \<in> ran (rg_dependencies g)" by (auto simp: ran_def)
    with ds(2) show ?case unfolding depclean_atoms_def by blast
  qed
qed

lemma reverse_graph_finite: "finite (dom (rg_dependencies (build_reverse_graph ips)))"
proof -
  have "finite (dom (rg_dependencies (fold reverse_add_package ips g)))" if "finite (dom (rg_dependencies g))" for g
    using that
    by (induction ips arbitrary: g) (simp_all add: reverse_add_package_def Let_def split: option.splits)
  then show ?thesis by (simp add: build_reverse_graph_def new_reverse_graph_def)
qed

lemma mark_needed:
  assumes "finite (dom (rg_dependencies g))" "distinct order" "set order = needed_roots opts world"
    "card (depclean_atoms opts world g) \<le> n"
  shows "mark_needed_packages n order opts world g = Some (needed_set opts world g)"
proof -
  let ?S = "needed_roots opts world"
  let ?U = "depclean_atoms opts world g"
  have fin: "finite ?U"
    using finite_ran [OF assms(1)] by (simp add: depclean_atoms_def needed_roots_def)
  have "mark_loop n g order ?S {} = bfs (needs g) n order ?S"
    using assms(2,3) by (intro mark_loop_bfs) simp_all
  also have "\<dots> = Some ((succ_rel (needs g))\<^sup>* `` ?S)"
  proof (rule bfs_reachable [OF fin])
    show "(succ_rel (needs g))\<^sup>* `` ?S \<subseteq> ?U" using needed_closed unfolding needed_set_def .
    show "frontier (needs g) ?S order ?S" using frontier_start [of "needs g" order] by (simp add: assms(3))
    have "length order = card ?S" using assms(2,3) distinct_card by metis
    moreover have "?S \<subseteq> ?U" by (simp add: depclean_atoms_def)
    ultimately have "length order + card (?U - ?S) = card ?U"
      using fin by (simp add: card_Diff_subset finite_subset card_mono)
    with assms(4) show "length order + card (?U - ?S) \<le> n" by simp
  qed
  finally show ?thesis by (simp add: mark_needed_packages_def needed_set_def)
qed

subsection \<open>The result\<close>

definition removable :: "reverse_graph \<Rightarrow> string set \<Rightarrow> string \<Rightarrow> bool" where
  "removable g needed a \<longleftrightarrow> a \<notin> needed \<and> (\<exists>i p. get_package g a = Some i \<and> ip_Package i = Some p)"

lemma find_orphans_atoms:
  "map oi_Atom (dr_Orphans (find_orphans_loop as g needed world r)) =
     map oi_Atom (dr_Orphans r) @ filter (removable g needed) as"
  "dr_Protected (find_orphans_loop as g needed world r) = dr_Protected r @ filter (\<lambda>a. a \<in> needed) as"
  by (induction as arbitrary: r) (auto simp: removable_def split: option.splits)

lemma sort_key_sorted_map: "sorted (map f xs) \<Longrightarrow> sort_key f xs = xs"
  by (rule sort_key_id_if_sorted) simp

lemma find_orphans_result:
  "map oi_Atom (dr_Orphans (find_orphans keys g needed world)) = filter (removable g needed) (all_atoms keys g)"
  "dr_Protected (find_orphans keys g needed world) = filter (\<lambda>a. a \<in> needed) (all_atoms keys g)"
proof -
  let ?r = "find_orphans_loop (all_atoms keys g) g needed world \<lparr>dr_Orphans = [], dr_Protected = [], dr_TotalSize = 0\<rparr>"
  have atoms: "map oi_Atom (dr_Orphans ?r) = filter (removable g needed) (all_atoms keys g)"
    by (simp add: find_orphans_atoms)
  moreover have "sorted (map oi_Atom (dr_Orphans ?r))"
    unfolding atoms by (simp add: all_atoms_def sorted_filter [of "\<lambda>x. x", simplified])
  ultimately show "map oi_Atom (dr_Orphans (find_orphans keys g needed world)) = filter (removable g needed) (all_atoms keys g)"
    by (simp add: find_orphans_def Let_def sort_key_sorted_map)
  show "dr_Protected (find_orphans keys g needed world) = filter (\<lambda>a. a \<in> needed) (all_atoms keys g)"
    by (simp add: find_orphans_def Let_def find_orphans_atoms)
qed

subsection \<open>What the graph holds\<close>

definition installed_as :: "installed_package option \<Rightarrow> package option" where
  "installed_as ip = Option.bind ip ip_Package"

lemma add_other:
  "installed_as ip = None \<or> (\<exists>p. installed_as ip = Some p \<and> extract_base_atom (p_Name p) \<noteq> a) \<Longrightarrow>
    rg_dependencies (reverse_add_package ip g) a = rg_dependencies g a \<and> rg_packages (reverse_add_package ip g) a = rg_packages g a"
  by (auto simp: reverse_add_package_def installed_as_def Let_def split: option.splits)

lemma add_same:
  "installed_as (Some i) = Some p \<Longrightarrow> extract_base_atom (p_Name p) = a \<Longrightarrow>
    rg_dependencies (reverse_add_package (Some i) g) a = Some (dependency_atoms (p_Deps p) {}) \<and>
    rg_packages (reverse_add_package (Some i) g) a = Some i"
  by (auto simp: reverse_add_package_def installed_as_def Let_def split: option.splits)

lemma fold_other:
  "\<forall>ip \<in> set ips. \<forall>q. installed_as ip = Some q \<longrightarrow> extract_base_atom (p_Name q) \<noteq> a \<Longrightarrow>
    rg_dependencies (fold reverse_add_package ips g) a = rg_dependencies g a \<and>
    rg_packages (fold reverse_add_package ips g) a = rg_packages g a"
proof (induction ips arbitrary: g)
  case (Cons ip ips)
  have "rg_dependencies (reverse_add_package ip g) a = rg_dependencies g a \<and> rg_packages (reverse_add_package ip g) a = rg_packages g a"
    using Cons.prems by (intro add_other) auto
  moreover have "rg_dependencies (fold reverse_add_package ips (reverse_add_package ip g)) a = rg_dependencies (reverse_add_package ip g) a \<and>
      rg_packages (fold reverse_add_package ips (reverse_add_package ip g)) a = rg_packages (reverse_add_package ip g) a"
    using Cons.prems by (intro Cons.IH) simp
  ultimately show ?case by simp
qed simp

lemma graph_of_unique:
  assumes "ips = xs @ Some i # ys" "ip_Package i = Some p"
    and "\<forall>ip \<in> set ys. \<forall>q. installed_as ip = Some q \<longrightarrow> extract_base_atom (p_Name q) \<noteq> extract_base_atom (p_Name p)"
  shows "rg_dependencies (build_reverse_graph ips) (extract_base_atom (p_Name p)) = Some (dependency_atoms (p_Deps p) {})"
    and "rg_packages (build_reverse_graph ips) (extract_base_atom (p_Name p)) = Some i"
proof -
  have "installed_as (Some i) = Some p" by (simp add: installed_as_def assms(2))
  note same = add_same [OF this refl]
  have "build_reverse_graph ips = fold reverse_add_package ys (reverse_add_package (Some i) (fold reverse_add_package xs new_reverse_graph))"
    by (simp add: build_reverse_graph_def assms(1))
  with fold_other [OF assms(3)] same show
    "rg_dependencies (build_reverse_graph ips) (extract_base_atom (p_Name p)) = Some (dependency_atoms (p_Deps p) {})"
    "rg_packages (build_reverse_graph ips) (extract_base_atom (p_Name p)) = Some i" by simp_all
qed

lemma dependency_atoms_set:
  "set (dependency_atoms ds seen) = extract_base_atom ` c_Name ` set ds - {[]} - seen"
  by (induction ds seen rule: dependency_atoms.induct) (auto simp: Let_def)

lemma depclean_answer:
  assumes "load_world_set opts sets = Inr world" "distinct order" "set order = needed_roots opts world"
    and "distinct keys" "set keys = dom (rg_packages (build_reverse_graph ips))"
    and "card (depclean_atoms opts world (build_reverse_graph ips)) \<le> n"
  shows "\<exists>r. calculate_depclean n order keys opts sets (Some ips) = Some (Inr r) \<and>
    sorted (dr_Protected r) \<and> distinct (dr_Protected r) \<and>
    set (dr_Protected r) = set keys \<inter> needed_set opts world (build_reverse_graph ips) \<and>
    sorted (map oi_Atom (dr_Orphans r)) \<and> distinct (map oi_Atom (dr_Orphans r)) \<and>
    oi_Atom ` set (dr_Orphans r) = {a \<in> set keys. removable (build_reverse_graph ips) (needed_set opts world (build_reverse_graph ips)) a}"
proof -
  let ?g = "build_reverse_graph ips"
  let ?needed = "needed_set opts world ?g"
  let ?r = "find_orphans keys ?g ?needed world"
  have all: "set (all_atoms keys ?g) = set keys" "distinct (all_atoms keys ?g)" "sorted (all_atoms keys ?g)"
    using assms(4,5) by (auto simp: all_atoms_def)
  have orphans: "oi_Atom ` set (dr_Orphans ?r) = set (filter (removable ?g ?needed) (all_atoms keys ?g))"
    using arg_cong [OF find_orphans_result(1), of set] by (simp only: set_map)
  have "calculate_depclean n order keys opts sets (Some ips) = Some (Inr ?r)"
    using mark_needed [OF reverse_graph_finite assms(2,3,6)] assms(1) by (simp add: calculate_depclean_def Let_def)
  then show ?thesis
    using all by (intro exI [where x = ?r]) (auto simp: find_orphans_result orphans sorted_filter [of "\<lambda>x. x", simplified])
qed

subsection \<open>Properties\<close>

text \<open>An example with two slots of one package.\<close>

definition demo_installed :: "string \<Rightarrow> string \<Rightarrow> string \<Rightarrow> string list \<Rightarrow> installed_package option" where
  "demo_installed name version slot deps = Some \<lparr>ip_Package =
     Some ((new_package name version slot)\<lparr>p_Deps := map new_simple_constraint deps\<rparr>), ip_Size = 1\<rparr>"

definition demo_options :: depclean_options where
  "demo_options = \<lparr>do_Exclude = [], do_IncludeSystem = True\<rparr>"

definition demo_world :: "bool \<Rightarrow> string + package_set" where
  "demo_world _ = Inr (new_package_set ''@world'' [''dev-lang/python''])"

definition two_slots :: "installed_package option list" where
  "two_slots = [demo_installed ''dev-lang/python'' ''3.11.1'' ''3.11'' [''dev-libs/a''],
     demo_installed ''dev-lang/python'' ''3.12.1'' ''3.12'' [''dev-libs/b''],
     demo_installed ''dev-libs/a'' ''1'' ''0'' [], demo_installed ''dev-libs/b'' ''1'' ''0'' []]"

definition demo_atoms :: "string list" where
  "demo_atoms = [''dev-lang/python'', ''dev-libs/a'', ''dev-libs/b'']"

lemma demo_base: "extract_base_atom ''dev-lang/python'' = ''dev-lang/python''" "extract_base_atom ''dev-libs/a'' = ''dev-libs/a''"
  "extract_base_atom ''dev-libs/b'' = ''dev-libs/b''" "extract_base_atom [] = []"
  by code_simp+

lemma demo_graph:
  "rg_packages (build_reverse_graph two_slots) =
     [''dev-lang/python'' \<mapsto> the (demo_installed ''dev-lang/python'' ''3.12.1'' ''3.12'' [''dev-libs/b'']),
      ''dev-libs/a'' \<mapsto> the (demo_installed ''dev-libs/a'' ''1'' ''0'' []),
      ''dev-libs/b'' \<mapsto> the (demo_installed ''dev-libs/b'' ''1'' ''0'' [])]"
  "rg_dependencies (build_reverse_graph two_slots) =
     [''dev-lang/python'' \<mapsto> [''dev-libs/b''], ''dev-libs/a'' \<mapsto> [], ''dev-libs/b'' \<mapsto> []]"
  by (simp_all add: build_reverse_graph_def two_slots_def demo_installed_def reverse_add_package_def new_reverse_graph_def
      new_package_def new_simple_constraint_def demo_base Let_def fun_eq_iff)

lemma demo_hypotheses:
  "load_world_set demo_options (Some demo_world) = Inr (new_package_set ''@world'' [''dev-lang/python''])"
  "set [''dev-lang/python''] = needed_roots demo_options (new_package_set ''@world'' [''dev-lang/python''])"
  "distinct demo_atoms" "set demo_atoms = dom (rg_packages (build_reverse_graph two_slots))"
  "card (depclean_atoms demo_options (new_package_set ''@world'' [''dev-lang/python'']) (build_reverse_graph two_slots)) \<le> 3"
proof -
  let ?w = "new_package_set ''@world'' [''dev-lang/python'']"
  show "load_world_set demo_options (Some demo_world) = Inr ?w"
    by (simp add: load_world_set_def demo_world_def)
  have "needed_roots demo_options ?w = {''dev-lang/python''}" by code_simp
  then show r: "set [''dev-lang/python''] = needed_roots demo_options ?w" by simp
  show "distinct demo_atoms" by (simp add: demo_atoms_def)
  show "set demo_atoms = dom (rg_packages (build_reverse_graph two_slots))"
    by (auto simp: demo_graph(1) demo_atoms_def)
  have "depclean_atoms demo_options ?w (build_reverse_graph two_slots) \<subseteq> set demo_atoms"
    unfolding depclean_atoms_def r [symmetric] demo_graph(2)
    by (auto simp: ran_def demo_atoms_def demo_base split: if_splits)
  then have "card (depclean_atoms demo_options ?w (build_reverse_graph two_slots)) \<le> card (set demo_atoms)"
    by (rule card_mono [OF finite_set])
  then show "card (depclean_atoms demo_options ?w (build_reverse_graph two_slots)) \<le> 3"
    by (simp add: demo_atoms_def)
qed



definition plain_atom :: "string \<Rightarrow> bool" where
  "plain_atom s \<longleftrightarrow> extract_base_atom s = s"

text \<open>
  Claim C27. When no other slot or version of a package is listed after it, \<open>depclean\<close> keeps what the package
  needs: unless the package is an orphan itself, none of its dependencies is. The names must be plain, that
  is, reading them once more changes nothing.
\<close>

theorem depclean_keeps_dependencies:
  assumes "load_world_set opts sets = Inr world" "distinct order" "set order = needed_roots opts world"
    and "distinct keys" "set keys = dom (rg_packages (build_reverse_graph ips))"
    and "card (depclean_atoms opts world (build_reverse_graph ips)) \<le> n"
    and "calculate_depclean n order keys opts sets (Some ips) = Some (Inr r)"
    and "ips = xs @ Some i # ys" "ip_Package i = Some p"
    and "\<forall>ip \<in> set ys. \<forall>q. installed_as ip = Some q \<longrightarrow> extract_base_atom (p_Name q) \<noteq> extract_base_atom (p_Name p)"
    and "plain_atom (extract_base_atom (p_Name p))" "d \<in> set (p_Deps p)" "plain_atom (extract_base_atom (c_Name d))"
    and "extract_base_atom (c_Name d) \<noteq> []" "extract_base_atom (p_Name p) \<notin> oi_Atom ` set (dr_Orphans r)"
  shows "extract_base_atom (c_Name d) \<notin> oi_Atom ` set (dr_Orphans r)"
proof -
  let ?g = "build_reverse_graph ips"
  let ?a = "extract_base_atom (p_Name p)"
  let ?b = "extract_base_atom (c_Name d)"
  note g = graph_of_unique [OF assms(8-10)]
  have r: "oi_Atom ` set (dr_Orphans r) = {a \<in> set keys. removable ?g (needed_set opts world ?g) a}"
    using depclean_answer [OF assms(1-6)] assms(7) by auto
  have "?a \<in> set keys" using g(2) assms(5) by auto
  moreover have "get_package ?g ?a = Some i" using g(2) assms(11) by (simp add: get_package_def plain_atom_def)
  ultimately have "?a \<in> needed_set opts world ?g" using assms(9,15) unfolding r removable_def by blast
  moreover have "?b \<in> set (needs ?g ?a)"
  proof -
    have "?b \<in> set (dependency_atoms (p_Deps p) {})" using assms(12,14) by (auto simp: dependency_atoms_set)
    then have "?b \<in> set (get_dependencies ?g ?a)"
      using g(1) assms(11) by (simp add: get_dependencies_def plain_atom_def list_at_def)
    then have "extract_base_atom ?b \<in> set (needs ?g ?a)" by (simp add: needs_def)
    then show ?thesis using assms(13) by (simp add: plain_atom_def)
  qed
  ultimately have "?b \<in> needed_set opts world ?g"
    unfolding needed_set_def by (meson ImageE ImageI rtrancl.rtrancl_into_rtrancl succ_rel_iff)
  then show ?thesis unfolding r removable_def by blast
qed

theorem depclean_keeps_dependencies_witness:
  "\<exists>r. calculate_depclean 3 [''dev-lang/python''] demo_atoms demo_options (Some demo_world) (Some two_slots) = Some (Inr r) \<and>
     ''dev-libs/b'' \<notin> oi_Atom ` set (dr_Orphans r)"
proof -
  let ?p = "(new_package ''dev-lang/python'' ''3.12.1'' ''3.12'')\<lparr>p_Deps := [new_simple_constraint ''dev-libs/b'']\<rparr>"
  have "(case calculate_depclean 3 [''dev-lang/python''] demo_atoms demo_options (Some demo_world) (Some two_slots) of
      Some (Inr r) \<Rightarrow> Some (map oi_Atom (dr_Orphans r)) | _ \<Rightarrow> None) = Some [''dev-libs/a'']"
    by code_simp
  then obtain r where r: "calculate_depclean 3 [''dev-lang/python''] demo_atoms demo_options (Some demo_world) (Some two_slots) = Some (Inr r)"
    "map oi_Atom (dr_Orphans r) = [''dev-libs/a'']" by (auto split: option.splits sum.splits)
  have o: "oi_Atom ` set (dr_Orphans r) = {''dev-libs/a''}" using arg_cong [OF r(2), of set] by simp
  have split: "two_slots = [demo_installed ''dev-lang/python'' ''3.11.1'' ''3.11'' [''dev-libs/a'']] @
      Some \<lparr>ip_Package = Some ?p, ip_Size = 1\<rparr> # [demo_installed ''dev-libs/a'' ''1'' ''0'' [], demo_installed ''dev-libs/b'' ''1'' ''0'' []]"
    by (simp add: two_slots_def demo_installed_def)
  have n: "p_Name ?p = ''dev-lang/python''" "p_Deps ?p = [new_simple_constraint ''dev-libs/b'']"
    "c_Name (new_simple_constraint ''dev-libs/b'') = ''dev-libs/b''"
    by (simp_all add: new_package_def new_simple_constraint_def)
  have ys: "\<forall>ip \<in> set [demo_installed ''dev-libs/a'' ''1'' ''0'' [], demo_installed ''dev-libs/b'' ''1'' ''0'' []].
      \<forall>q. installed_as ip = Some q \<longrightarrow> extract_base_atom (p_Name q) \<noteq> extract_base_atom (p_Name ?p)"
    by (simp add: installed_as_def demo_installed_def new_package_def demo_base)
  have "extract_base_atom (c_Name (new_simple_constraint ''dev-libs/b'')) \<notin> oi_Atom ` set (dr_Orphans r)"
    by (rule depclean_keeps_dependencies [OF demo_hypotheses(1) _ demo_hypotheses(2-5) r(1) split _ ys])
      (simp_all add: n demo_base plain_atom_def o)
  with r(1) show ?thesis by (simp add: n demo_base)
qed

text \<open>
  With two slots of a package installed the second overwrites the dependencies of the first: here
  Python 3.11 stays installed but what only it needs is reported as an orphan.
\<close>

theorem depclean_slot_loss:
  "\<exists>r. calculate_depclean 3 [''dev-lang/python''] demo_atoms demo_options (Some demo_world) (Some two_slots) = Some (Inr r) \<and>
     dr_Protected r = [''dev-lang/python'', ''dev-libs/b''] \<and> map oi_Atom (dr_Orphans r) = [''dev-libs/a'']"
proof -
  have "(case calculate_depclean 3 [''dev-lang/python''] demo_atoms demo_options (Some demo_world) (Some two_slots) of
      Some (Inr r) \<Rightarrow> Some (dr_Protected r, map oi_Atom (dr_Orphans r)) | _ \<Rightarrow> None) =
      Some ([''dev-lang/python'', ''dev-libs/b''], [''dev-libs/a''])"
    by code_simp
  then show ?thesis by (auto split: option.splits sum.splits)
qed

end
