(* ===== verification/Job_Conflicts.thy ===== *)
theory Job_Conflicts
  imports Go_Prelude
begin

text \<open>
  The jobs of the daemon (\<open>internal/daemon/job.go\<close>) and the detector of conflicts between them
  (\<open>internal/daemon/conflict_detector.go\<close>). A job is shared by pointer; here it is known by its identifier, a
  fresh UUID. Clock readings are integers. \<open>PackageService.ResolvePackage\<close> is an argument: an error, or the
  packages to install with their versions, in the order in which the map is read, and the packages to update.
\<close>

subsection \<open>Jobs\<close>

datatype job_status = JobStatusPending | JobStatusRunning | JobStatusCompleted | JobStatusFailed | JobStatusCancelled

fun job_status_string :: "job_status \<Rightarrow> string" where
  "job_status_string JobStatusPending = ''pending''"
| "job_status_string JobStatusRunning = ''running''"
| "job_status_string JobStatusCompleted = ''completed''"
| "job_status_string JobStatusFailed = ''failed''"
| "job_status_string JobStatusCancelled = ''canceled''"

datatype job_priority = JobPriorityLow | JobPriorityNormal | JobPriorityHigh

datatype job_type = JobTypeInstall | JobTypeRemove | JobTypeUpdate | JobTypeSync

fun job_type_string :: "job_type \<Rightarrow> string" where
  "job_type_string JobTypeInstall = ''install''"
| "job_type_string JobTypeRemove = ''remove''"
| "job_type_string JobTypeUpdate = ''update''"
| "job_type_string JobTypeSync = ''sync''"

text \<open>\<open>jb_cancelled\<close>: the context of the job is cancelled, so \<open>ctx.Err()\<close> is not nil.\<close>

record job =
  jb_ID :: string
  jb_Type :: job_type
  jb_PackageName :: string
  jb_Priority :: job_priority
  jb_CreatedAt :: int
  jb_status :: job_status
  jb_progress :: int
  jb_error :: string
  jb_startedAt :: "int option"
  jb_completedAt :: "int option"
  jb_cancelled :: bool

definition new_job :: "string \<Rightarrow> job_type \<Rightarrow> string \<Rightarrow> job_priority \<Rightarrow> int \<Rightarrow> job" where
  "new_job uuid ty pkg prio now =
     \<lparr>jb_ID = uuid, jb_Type = ty, jb_PackageName = pkg, jb_Priority = prio, jb_CreatedAt = now,
      jb_status = JobStatusPending, jb_progress = 0, jb_error = [], jb_startedAt = None, jb_completedAt = None,
      jb_cancelled = False\<rparr>"

definition update_progress :: "int \<Rightarrow> job \<Rightarrow> job" where
  "update_progress n j = j\<lparr>jb_progress := n\<rparr>"

text \<open>\<open>Cancel\<close> in its two steps: the context, then the status.\<close>

definition cancel_context :: "job \<Rightarrow> job" where
  "cancel_context j = j\<lparr>jb_cancelled := True\<rparr>"

definition cancel_status :: "job \<Rightarrow> job" where
  "cancel_status j = j\<lparr>jb_status := JobStatusCancelled\<rparr>"

definition cancel_job_now :: "job \<Rightarrow> job" where
  "cancel_job_now j = cancel_status (cancel_context j)"

text \<open>The two critical sections of \<open>executeJob\<close>.\<close>

definition begin_job :: "int \<Rightarrow> job \<Rightarrow> job" where
  "begin_job now j = j\<lparr>jb_startedAt := Some now, jb_status := JobStatusRunning\<rparr>"

definition finish_job :: "int \<Rightarrow> string option \<Rightarrow> job \<Rightarrow> job" where
  "finish_job now err j =
     (let j1 = j\<lparr>jb_completedAt := Some now\<rparr> in
      if jb_status j1 = JobStatusCancelled then j1
      else case err of
        Some e \<Rightarrow> j1\<lparr>jb_status := (if jb_cancelled j1 then JobStatusCancelled else JobStatusFailed), jb_error := e\<rparr>
      | None \<Rightarrow> j1\<lparr>jb_status := JobStatusCompleted, jb_progress := 100\<rparr>)"

subsection \<open>Package names\<close>

definition version_byte :: "char \<Rightarrow> bool" where
  "version_byte c \<longleftrightarrow> is_digit c \<or> is_lower c \<or> is_upper c \<or>
     c \<in> {CHR ''.'', CHR ''-'', CHR ''_''}"

definition looks_like_version :: "string \<Rightarrow> bool" where
  "looks_like_version s \<longleftrightarrow> s \<noteq> [] \<and> is_digit (hd s) \<and> list_all version_byte s \<and> list_ex is_digit s"

text \<open>The rightmost hyphen with something like a version behind it.\<close>

fun version_hyphen :: "string \<Rightarrow> nat option" where
  "version_hyphen [] = None"
| "version_hyphen (c # s) =
     (case version_hyphen s of
        Some i \<Rightarrow> Some (Suc i)
      | None \<Rightarrow> if c = CHR ''-'' \<and> looks_like_version s then Some 0 else None)"

definition extract_package_name :: "string \<Rightarrow> string" where
  "extract_package_name p =
     (case split_byte CHR ''/'' p of
        [category, nameWithVersion] \<Rightarrow>
          (case version_hyphen nameWithVersion of
             Some i \<Rightarrow> category @ ''/'' @ take i nameWithVersion
           | None \<Rightarrow> p)
      | _ \<Rightarrow> p)"

definition is_same_package :: "string \<Rightarrow> string \<Rightarrow> bool" where
  "is_same_package p q \<longleftrightarrow> extract_package_name p = extract_package_name q"

subsection \<open>Conflicts\<close>

datatype job_conflict_type = ConflictNone | ConflictSamePackage | ConflictDependency | ConflictSlot | ConflictBlocker

fun job_conflict_type_string :: "job_conflict_type \<Rightarrow> string" where
  "job_conflict_type_string ConflictNone = ''none''"
| "job_conflict_type_string ConflictSamePackage = ''same_package''"
| "job_conflict_type_string ConflictDependency = ''dependency''"
| "job_conflict_type_string ConflictSlot = ''slot''"
| "job_conflict_type_string ConflictBlocker = ''blocker''"

record package_conflict =
  pc_Type :: job_conflict_type
  pc_Job1 :: job
  pc_Job2 :: job
  pc_ConflictingPkg :: string
  pc_Reason :: string

type_synonym package_service = "string list \<Rightarrow> string + (string \<times> string) list \<times> string list"

definition get_affected_packages :: "package_service \<Rightarrow> job \<Rightarrow> string + string list" where
  "get_affected_packages svc j =
     (if jb_Type j = JobTypeInstall \<or> jb_Type j = JobTypeUpdate then
        (case svc [jb_PackageName j] of
           Inl e \<Rightarrow> Inr [jb_PackageName j]
         | Inr (install, update) \<Rightarrow> Inr ([jb_PackageName j] @ map (\<lambda>(n, v). n @ ''-'' @ v) install @ update))
      else Inr [jb_PackageName j])"

definition job_active :: "job \<Rightarrow> bool" where
  "job_active j \<longleftrightarrow> jb_status j = JobStatusRunning \<or> jb_status j = JobStatusPending"

definition filter_active_jobs :: "job list \<Rightarrow> job list" where
  "filter_active_jobs js = filter job_active js"

definition shared_package :: "string list \<Rightarrow> string list \<Rightarrow> string option" where
  "shared_package news olds = find (\<lambda>n. list_ex (\<lambda>e. is_same_package n e) olds) news"

definition check_job_conflict :: "package_service \<Rightarrow> job \<Rightarrow> job \<Rightarrow> string list \<Rightarrow> package_conflict option" where
  "check_job_conflict svc new old newAffected =
     (if is_same_package (jb_PackageName new) (jb_PackageName old) then
        Some \<lparr>pc_Type = ConflictSamePackage, pc_Job1 = new, pc_Job2 = old, pc_ConflictingPkg = jb_PackageName new,
              pc_Reason = ''Cannot perform '' @ job_type_string (jb_Type new) @ '' on '' @ jb_PackageName new @
                '' while '' @ job_type_string (jb_Type old) @ '' is in progress''\<rparr>
      else case get_affected_packages svc old of
        Inl _ \<Rightarrow> Some \<lparr>pc_Type = ConflictDependency, pc_Job1 = new, pc_Job2 = old, pc_ConflictingPkg = jb_PackageName old,
                       pc_Reason = ''Cannot determine dependency safety - assuming conflict''\<rparr>
      | Inr existingAffected \<Rightarrow>
          (case shared_package newAffected existingAffected of
             None \<Rightarrow> None
           | Some n \<Rightarrow> Some \<lparr>pc_Type = ConflictDependency, pc_Job1 = new, pc_Job2 = old, pc_ConflictingPkg = n,
                            pc_Reason = ''Both jobs affect shared dependency: '' @ extract_package_name n\<rparr>))"

fun first_conflict :: "package_service \<Rightarrow> job \<Rightarrow> string list \<Rightarrow> job list \<Rightarrow> package_conflict option" where
  "first_conflict svc new affected [] = None"
| "first_conflict svc new affected (old # js) =
     (case check_job_conflict svc new old affected of Some c \<Rightarrow> Some c | None \<Rightarrow> first_conflict svc new affected js)"

definition detect_job_conflicts :: "package_service \<Rightarrow> job \<Rightarrow> job list \<Rightarrow> string + package_conflict option" where
  "detect_job_conflicts svc new existing =
     (let active = filter_active_jobs existing in
      if length active = 0 then Inr None
      else case get_affected_packages svc new of
        Inl e \<Rightarrow> Inl (''failed to resolve new job dependencies: '' @ e)
      | Inr affected \<Rightarrow> Inr (first_conflict svc new affected active))"

text \<open>\<open>FormatConflictError\<close>; the identifier of the second job is cut to eight bytes.\<close>

definition format_conflict_error :: "package_conflict \<Rightarrow> string" where
  "format_conflict_error c =
     ''Package conflict detected ('' @ job_conflict_type_string (pc_Type c) @ ''):'' @ [CHR 0x0A] @
     ''  New job: '' @ job_type_string (jb_Type (pc_Job1 c)) @ '' '' @ jb_PackageName (pc_Job1 c) @ [CHR 0x0A] @
     ''  Conflicts with: '' @ job_type_string (jb_Type (pc_Job2 c)) @ '' '' @ jb_PackageName (pc_Job2 c) @
     '' (job '' @ take 8 (jb_ID (pc_Job2 c)) @ '')'' @ [CHR 0x0A] @ ''  Reason: '' @ pc_Reason c"

subsection \<open>What the detector decides\<close>


text \<open>The packages a job touches, up to their versions.\<close>

definition touched :: "package_service \<Rightarrow> job \<Rightarrow> string set" where
  "touched svc j = (case get_affected_packages svc j of Inl _ \<Rightarrow> {} | Inr ps \<Rightarrow> extract_package_name ` set ps)"

lemma affected_ok: "\<exists>ps. get_affected_packages svc j = Inr ps \<and> jb_PackageName j \<in> set ps"
  by (auto simp: get_affected_packages_def split: sum.splits)

lemma shared_package_iff:
  "shared_package ps qs = None \<longleftrightarrow> extract_package_name ` set ps \<inter> extract_package_name ` set qs = {}"
  by (auto simp: shared_package_def find_None_iff list_ex_iff is_same_package_def)

lemma check_conflict_iff:
  assumes "get_affected_packages svc new = Inr ps"
  shows "check_job_conflict svc new old ps = None \<longleftrightarrow> touched svc new \<inter> touched svc old = {}"
proof -
  obtain qs where qs: "get_affected_packages svc old = Inr qs" "jb_PackageName old \<in> set qs" using affected_ok by blast
  have ps: "jb_PackageName new \<in> set ps" using affected_ok [of svc new] assms by auto
  have t: "touched svc new = extract_package_name ` set ps" "touched svc old = extract_package_name ` set qs"
    by (simp_all add: touched_def assms qs)
  show ?thesis
  proof (cases "is_same_package (jb_PackageName new) (jb_PackageName old)")
    case True
    then have "touched svc new \<inter> touched svc old \<noteq> {}" using ps qs(2) unfolding t is_same_package_def by blast
    with True show ?thesis by (simp add: check_job_conflict_def)
  next
    case False
    with shared_package_iff [of ps qs] show ?thesis
      unfolding t by (auto simp: check_job_conflict_def qs split: option.split)
  qed
qed

lemma first_conflict_iff:
  "first_conflict svc new ps js = None \<longleftrightarrow> (\<forall>j \<in> set js. check_job_conflict svc new j ps = None)"
  by (induction js) (auto split: option.splits)

lemma first_conflict_member:
  "first_conflict svc new ps js = Some c \<Longrightarrow> \<exists>j \<in> set js. check_job_conflict svc new j ps = Some c"
  by (induction js) (auto split: option.splits)

lemma detect_none:
  "detect_job_conflicts svc new js = Inr None \<longleftrightarrow> (\<forall>j \<in> set js. job_active j \<longrightarrow> touched svc new \<inter> touched svc j = {})"
proof -
  obtain ps where ps: "get_affected_packages svc new = Inr ps" using affected_ok by blast
  have "detect_job_conflicts svc new js = Inr None \<longleftrightarrow>
      (\<forall>j \<in> set js. job_active j \<longrightarrow> check_job_conflict svc new j ps = None)"
    by (auto simp: detect_job_conflicts_def Let_def ps first_conflict_iff filter_active_jobs_def filter_empty_conv)
  then show ?thesis by (simp only: check_conflict_iff [OF ps])
qed

lemma detect_never_fails: "\<exists>c. detect_job_conflicts svc new js = Inr c"
  using affected_ok [of svc new] by (auto simp: detect_job_conflicts_def Let_def)

lemma detected_job:
  assumes "detect_job_conflicts svc new js = Inr (Some c)"
  shows "pc_Job1 c = new \<and> pc_Job2 c \<in> set js \<and> job_active (pc_Job2 c)"
proof -
  obtain ps where ps: "get_affected_packages svc new = Inr ps" using affected_ok by blast
  have "first_conflict svc new ps (filter_active_jobs js) = Some c"
    using assms by (auto simp: detect_job_conflicts_def Let_def ps split: if_splits)
  from first_conflict_member [OF this] obtain j where j: "j \<in> set js" "job_active j" "check_job_conflict svc new j ps = Some c"
    by (auto simp: filter_active_jobs_def)
  then have "pc_Job1 c = new \<and> pc_Job2 c = j"
    by (auto simp: check_job_conflict_def split: if_splits sum.splits option.splits)
  with j show ?thesis by simp
qed

lemma touched_name: "extract_package_name (jb_PackageName j) \<in> touched svc j"
  using affected_ok [of svc j] by (auto simp: touched_def)

lemma touched_same: "jb_Type j = jb_Type k \<Longrightarrow> jb_PackageName j = jb_PackageName k \<Longrightarrow> touched svc j = touched svc k"
  by (simp add: touched_def get_affected_packages_def cong: sum.case_cong)

subsection \<open>Names with versions\<close>

lemma version_hyphen_append:
  "version_hyphen t = Some i \<Longrightarrow> version_hyphen (s @ t) = Some (length s + i)"
  by (induction s) simp_all

lemma version_hyphen_no: "list_all (\<lambda>c. c \<noteq> CHR ''-'') s \<Longrightarrow> version_hyphen s = None"
  by (induction s) simp_all

lemma version_hyphen_revision:
  "list_all (\<lambda>c. c \<noteq> CHR ''-'') s \<Longrightarrow> list_all (\<lambda>c. c \<noteq> CHR ''-'') r \<Longrightarrow> \<not> looks_like_version r \<Longrightarrow>
    version_hyphen (s @ CHR ''-'' # r) = None"
  by (induction s) (simp_all add: version_hyphen_no)

lemma extract_version:
  assumes "CHR ''/'' \<notin> set category" "CHR ''/'' \<notin> set n" "CHR ''/'' \<notin> set v"
    "looks_like_version v" "version_hyphen v = None"
  shows "extract_package_name (category @ ''/'' @ n @ ''-'' @ v) = category @ ''/'' @ n"
proof -
  have "version_hyphen (CHR ''-'' # v) = Some 0" using assms(4,5) by simp
  from version_hyphen_append [OF this, of n] have "version_hyphen (n @ CHR ''-'' # v) = Some (length n)" by simp
  moreover have "split_byte CHR ''/'' (category @ CHR ''/'' # n @ CHR ''-'' # v) = [category, n @ CHR ''-'' # v]"
    using assms(1-3) by (simp add: split_byte_append split_byte_none)
  ultimately show ?thesis by (simp add: extract_package_name_def)
qed

lemma extract_plain_iff:
  assumes "CHR ''/'' \<notin> set category" "CHR ''/'' \<notin> set n"
  shows "extract_package_name (category @ ''/'' @ n) = category @ ''/'' @ n \<longleftrightarrow> version_hyphen n = None"
proof -
  have p: "split_byte CHR ''/'' (category @ CHR ''/'' # n) = [category, n]"
    using assms by (simp add: split_byte_append split_byte_none)
  have "i < length n" if "version_hyphen n = Some i" for i
    using that by (induction n arbitrary: i) (auto split: option.splits if_splits)
  then show ?thesis by (auto simp: extract_package_name_def p split: option.splits)
qed

text \<open>A version text: digits first, no hyphen but that of the revision.\<close>

definition hyphen_version :: "string \<Rightarrow> bool" where
  "hyphen_version v \<longleftrightarrow> (\<exists>main rev. v = main @ rev \<and> main \<noteq> [] \<and> is_digit (hd main) \<and> list_all version_byte main \<and>
     CHR ''-'' \<notin> set main \<and> (rev = [] \<or> (\<exists>ds. rev = ''-r'' @ ds \<and> list_all is_digit ds)))"

lemma version_bytes: "list_all version_byte v \<Longrightarrow> CHR ''/'' \<notin> set v"
proof
  assume "list_all version_byte v" "CHR ''/'' \<in> set v"
  then have "version_byte CHR ''/''" by (auto simp: list_all_iff)
  then show False by (simp add: version_byte_def is_digit_def is_lower_def is_upper_def)
qed

lemma hyphen_version_ok:
  assumes "hyphen_version v"
  shows "CHR ''/'' \<notin> set v \<and> looks_like_version v \<and> version_hyphen v = None"
proof -
  from assms obtain main rev where v: "v = main @ rev" "main \<noteq> []" "is_digit (hd main)" "list_all version_byte main"
    "CHR ''-'' \<notin> set main" and rev: "rev = [] \<or> (\<exists>ds. rev = ''-r'' @ ds \<and> list_all is_digit ds)"
    by (auto simp: hyphen_version_def)
  have main: "list_all (\<lambda>c. c \<noteq> CHR ''-'') main" using v(5) by (auto simp: list_all_iff)
  have ex: "list_ex is_digit main" using v(2,3) by (cases main) simp_all
  from rev show ?thesis
  proof
    assume "rev = []"
    with v main ex show ?thesis by (simp add: looks_like_version_def version_hyphen_no version_bytes)
  next
    assume "\<exists>ds. rev = ''-r'' @ ds \<and> list_all is_digit ds"
    then obtain ds where r: "rev = CHR ''-'' # CHR ''r'' # ds" "list_all is_digit ds" by auto
    have nd: "list_all (\<lambda>c. c \<noteq> CHR ''-'') (CHR ''r'' # ds)" using r(2) by (auto simp: list_all_iff is_digit_def)
    have "list_all version_byte (CHR ''-'' # CHR ''r'' # ds)"
      using r(2) by (auto simp: list_all_iff version_byte_def is_lower_def)
    then have all: "list_all version_byte v" using v(1,4) r(1) by simp
    have "\<not> looks_like_version (CHR ''r'' # ds)" by (simp add: looks_like_version_def is_digit_def)
    from version_hyphen_revision [OF main nd this] have "version_hyphen v = None" by (simp add: v(1) r(1))
    with all v(1-3) ex version_bytes [OF all] show ?thesis by (simp add: looks_like_version_def)
  qed
qed

subsection \<open>Properties\<close>

text \<open>
  The names of two versions of a package are recognised as the same package, whatever the name of
  the package. A versioned name is recognised as the package itself exactly when no part of the unversioned
  name looks like a version.
\<close>

theorem same_package_versions:
  assumes "CHR ''/'' \<notin> set category" "CHR ''/'' \<notin> set n" "hyphen_version v" "hyphen_version w"
  shows "is_same_package (category @ ''/'' @ n @ ''-'' @ v) (category @ ''/'' @ n @ ''-'' @ w) \<and>
    (is_same_package (category @ ''/'' @ n @ ''-'' @ v) (category @ ''/'' @ n) \<longleftrightarrow> version_hyphen n = None)"
proof -
  note e = extract_version [OF assms(1,2)]
  have v: "extract_package_name (category @ ''/'' @ n @ ''-'' @ v) = category @ ''/'' @ n"
    and w: "extract_package_name (category @ ''/'' @ n @ ''-'' @ w) = category @ ''/'' @ n"
    using e hyphen_version_ok [OF assms(3)] hyphen_version_ok [OF assms(4)] by blast+
  show ?thesis unfolding is_same_package_def v w using extract_plain_iff [OF assms(1,2)] by metis
qed

theorem same_package_versions_witness:
  "is_same_package ''dev-lang/go-1.22.0'' ''dev-lang/go-1.21-r1'' \<and> is_same_package ''dev-lang/go-1.22.0'' ''dev-lang/go''"
proof -
  have c: "CHR ''/'' \<notin> set ''dev-lang''" "CHR ''/'' \<notin> set ''go''" by simp_all
  have v: "hyphen_version ''1.22.0''" unfolding hyphen_version_def
    by (rule exI [where x = "''1.22.0''"], rule exI [where x = "[]"]) (simp add: version_byte_def is_digit_def)
  have w: "hyphen_version ''1.21-r1''" unfolding hyphen_version_def
    by (rule exI [where x = "''1.21''"], rule exI [where x = "''-r1''"]) (simp add: version_byte_def is_digit_def)
  have "version_hyphen ''go'' = None" by simp
  with same_package_versions [OF c v w] show ?thesis by simp
qed

end
