(* ===== verification/Job_Queue.thy ===== *)
theory Job_Queue
  imports Job_Conflicts Worker_Pool
begin

text \<open>
  The job queue of the daemon (\<open>JobQueue\<close> of \<open>internal/daemon/job.go\<close>): every interleaving of the callers of
  \<open>Submit\<close> and \<open>CancelJob\<close>, the workers and \<open>Stop\<close>. Each step is what one goroutine does under one lock, or one
  channel operation; the check of \<open>Submit\<close> is one step, although it reads the statuses one after the other.
  \<open>jq_jobs\<close> holds the shared job objects by identifier, so \<open>updateJob\<close> of a stored job changes
  nothing. A channel without buffer is not modelled: \<open>queueSize\<close> counts buffered jobs.
\<close>

subsection \<open>State\<close>

text \<open>Where a goroutine is: in \<open>Submit\<close> after the check and after storing; a worker in \<open>worker\<close> and \<open>executeJob\<close>.\<close>

datatype submit_state = Checked job | Stored string

datatype worker_state =
  WorkerIdle | WorkerTaken string | WorkerStarting string | WorkerRunning string | WorkerReturned string "string option"
| WorkerLeaving string | WorkerExited

record job_queue =
  jq_maxWorkers :: nat
  jq_queueSize :: nat
  jq_detector :: "package_service option"
  jq_jobs :: "string \<rightharpoonup> job"
  jq_queue :: "string list"
  jq_activeWorkers :: int
  jq_stopped :: bool
  jq_workers :: "worker_state list"
  jq_submits :: "submit_state list"
  jq_cancels :: "string list"
  jq_returned :: "(string \<times> string option) list"

definition new_job_queue :: "nat \<Rightarrow> nat \<Rightarrow> package_service option \<Rightarrow> job_queue" where
  "new_job_queue maxWorkers queueSize detector =
     \<lparr>jq_maxWorkers = maxWorkers, jq_queueSize = queueSize, jq_detector = detector, jq_jobs = (\<lambda>_. None),
      jq_queue = [], jq_activeWorkers = 0, jq_stopped = False, jq_workers = [], jq_submits = [], jq_cancels = [],
      jq_returned = []\<rparr>"

definition start_workers :: "job_queue \<Rightarrow> job_queue" where
  "start_workers q = q\<lparr>jq_workers := replicate (jq_maxWorkers q) WorkerIdle\<rparr>"

subsection \<open>Operations\<close>

definition get_job :: "job_queue \<Rightarrow> string \<Rightarrow> string + job" where
  "get_job q i = (case jq_jobs q i of None \<Rightarrow> Inl (''job not found: '' @ i) | Some j \<Rightarrow> Inr j)"

definition update_job :: "string \<Rightarrow> (job \<Rightarrow> job) \<Rightarrow> job_queue \<Rightarrow> job_queue" where
  "update_job i f q = q\<lparr>jq_jobs := (jq_jobs q)(i := map_option f (jq_jobs q i))\<rparr>"

definition list_jobs :: "string list \<Rightarrow> job_queue \<Rightarrow> job list" where
  "list_jobs order q = List.map_filter (jq_jobs q) order"

text \<open>\<open>Submit\<close>: the check against a snapshot of all jobs, storing, and the send that does not block.\<close>

definition submit_check :: "string list \<Rightarrow> job \<Rightarrow> job_queue \<Rightarrow> job_queue" where
  "submit_check order j q =
     (case jq_detector q of
        None \<Rightarrow> q\<lparr>jq_submits := jq_submits q @ [Checked j]\<rparr>
      | Some svc \<Rightarrow>
          (case detect_job_conflicts svc j (list_jobs order q) of
             Inl e \<Rightarrow> q\<lparr>jq_returned := jq_returned q @ [(jb_ID j, Some (''conflict detection failed: '' @ e))]\<rparr>
           | Inr (Some c) \<Rightarrow>
               q\<lparr>jq_returned := jq_returned q @ [(jb_ID j, Some (''package conflict: '' @ format_conflict_error c))]\<rparr>
           | Inr None \<Rightarrow> q\<lparr>jq_submits := jq_submits q @ [Checked j]\<rparr>))"

definition submit_store :: "job \<Rightarrow> job_queue \<Rightarrow> job_queue" where
  "submit_store j q = q\<lparr>jq_jobs := (jq_jobs q)(jb_ID j \<mapsto> j)\<rparr>"

definition submit_enqueue :: "string \<Rightarrow> job_queue \<Rightarrow> job_queue" where
  "submit_enqueue i q =
     (if length (jq_queue q) < jq_queueSize q
      then q\<lparr>jq_queue := jq_queue q @ [i], jq_returned := jq_returned q @ [(i, None)]\<rparr>
      else q\<lparr>jq_returned := jq_returned q @ [(i, Some ''job queue is full'')]\<rparr>)"

text \<open>\<open>Submit\<close> without interruption, and \<open>CancelJob\<close>.\<close>

definition submit :: "string list \<Rightarrow> job \<Rightarrow> job_queue \<Rightarrow> job_queue" where
  "submit order j q =
     (let q1 = submit_check order j q in
      if jq_submits q1 = jq_submits q then q1 else submit_enqueue (jb_ID j) (submit_store j q))"

definition cancel_job :: "string \<Rightarrow> job_queue \<Rightarrow> string + job_queue" where
  "cancel_job i q = (case get_job q i of Inl e \<Rightarrow> Inl e | Inr _ \<Rightarrow> Inr (update_job i cancel_job_now q))"

definition set_worker :: "nat \<Rightarrow> worker_state \<Rightarrow> job_queue \<Rightarrow> job_queue" where
  "set_worker w x q = q\<lparr>jq_workers := (jq_workers q)[w := x]\<rparr>"

definition add_active :: "int \<Rightarrow> job_queue \<Rightarrow> job_queue" where
  "add_active n q = q\<lparr>jq_activeWorkers := jq_activeWorkers q + n\<rparr>"

text \<open>The identifiers in use: of stored jobs and of jobs being submitted. A new UUID is none of them.\<close>

fun submit_id :: "submit_state \<Rightarrow> string" where
  "submit_id (Checked j) = jb_ID j"
| "submit_id (Stored i) = i"

definition fresh_id :: "string \<Rightarrow> job_queue \<Rightarrow> bool" where
  "fresh_id i q \<longleftrightarrow> jq_jobs q i = None \<and> i \<notin> submit_id ` set (jq_submits q) \<and> i \<notin> fst ` set (jq_returned q)"

subsection \<open>Steps\<close>

inductive jq_step :: "job_queue \<Rightarrow> job_queue \<Rightarrow> bool" where
  js_check: "fresh_id i q \<Longrightarrow> distinct order \<Longrightarrow> set order = dom (jq_jobs q) \<Longrightarrow>
    jq_step q (submit_check order (new_job i ty p prio now) q)"
| js_store: "jq_submits q = xs @ Checked j # ys \<Longrightarrow>
    jq_step q (submit_store j (q\<lparr>jq_submits := xs @ Stored (jb_ID j) # ys\<rparr>))"
| js_enqueue: "jq_submits q = xs @ Stored i # ys \<Longrightarrow> jq_step q (submit_enqueue i (q\<lparr>jq_submits := xs @ ys\<rparr>))"
| js_take: "w < length (jq_workers q) \<Longrightarrow> jq_workers q ! w = WorkerIdle \<Longrightarrow> jq_queue q = i # is \<Longrightarrow>
    jq_step q (add_active 1 (set_worker w (WorkerTaken i) (q\<lparr>jq_queue := is\<rparr>)))"
| js_skip: "w < length (jq_workers q) \<Longrightarrow> jq_workers q ! w = WorkerTaken i \<Longrightarrow> jq_jobs q i = Some j \<Longrightarrow>
    jb_status j = JobStatusCancelled \<Longrightarrow> jq_step q (set_worker w (WorkerLeaving i) q)"
| js_pass: "w < length (jq_workers q) \<Longrightarrow> jq_workers q ! w = WorkerTaken i \<Longrightarrow> jq_jobs q i = Some j \<Longrightarrow>
    jb_status j \<noteq> JobStatusCancelled \<Longrightarrow> jq_step q (set_worker w (WorkerStarting i) q)"
| js_begin: "w < length (jq_workers q) \<Longrightarrow> jq_workers q ! w = WorkerStarting i \<Longrightarrow>
    jq_step q (set_worker w (WorkerRunning i) (update_job i (begin_job now) q))"
| js_progress: "w < length (jq_workers q) \<Longrightarrow> jq_workers q ! w = WorkerRunning i \<Longrightarrow>
    jq_step q (update_job i (update_progress n) q)"
| js_return: "w < length (jq_workers q) \<Longrightarrow> jq_workers q ! w = WorkerRunning i \<Longrightarrow>
    jq_step q (set_worker w (WorkerReturned i err) q)"
| js_finish: "w < length (jq_workers q) \<Longrightarrow> jq_workers q ! w = WorkerReturned i err \<Longrightarrow>
    jq_step q (set_worker w (WorkerLeaving i) (update_job i (finish_job now err) q))"
| js_leave: "w < length (jq_workers q) \<Longrightarrow> jq_workers q ! w = WorkerLeaving i \<Longrightarrow>
    jq_step q (add_active (- 1) (set_worker w WorkerIdle q))"
| js_exit: "w < length (jq_workers q) \<Longrightarrow> jq_workers q ! w = WorkerIdle \<Longrightarrow> jq_stopped q \<Longrightarrow>
    jq_step q (set_worker w WorkerExited q)"
| js_cancel: "get_job q i = Inr j \<Longrightarrow>
    jq_step q (update_job i cancel_context (q\<lparr>jq_cancels := jq_cancels q @ [i]\<rparr>))"
| js_cancelled: "jq_cancels q = xs @ i # ys \<Longrightarrow> jq_step q (update_job i cancel_status (q\<lparr>jq_cancels := xs @ ys\<rparr>))"
| js_stop: "jq_step q (q\<lparr>jq_stopped := True\<rparr>)"

definition jq_reachable :: "nat \<Rightarrow> nat \<Rightarrow> package_service option \<Rightarrow> job_queue \<Rightarrow> bool" where
  "jq_reachable m n det q \<longleftrightarrow> jq_step\<^sup>*\<^sup>* (start_workers (new_job_queue m n det)) q"

subsection \<open>Where a job is\<close>

text \<open>
  A job waits (being submitted, queued, taken but not begun, or refused) or is executed; a job in neither
  place has ended. \<open>places\<close> is the multiset of both; a returned error counts as a place of waiting.
\<close>

datatype place = Waiting | Executing

fun worker_place :: "worker_state \<Rightarrow> (string \<times> place) multiset" where
  "worker_place (WorkerTaken i) = {#(i, Waiting)#}"
| "worker_place (WorkerStarting i) = {#(i, Waiting)#}"
| "worker_place (WorkerRunning i) = {#(i, Executing)#}"
| "worker_place (WorkerReturned i e) = {#(i, Executing)#}"
| "worker_place _ = {#}"

fun return_place :: "string \<times> string option \<Rightarrow> (string \<times> place) multiset" where
  "return_place (i, None) = {#}"
| "return_place (i, Some e) = {#(i, Waiting)#}"

definition places :: "job_queue \<Rightarrow> (string \<times> place) multiset" where
  "places q = sum_list (map (\<lambda>i. {#(i, Waiting)#}) (jq_queue q)) + sum_list (map worker_place (jq_workers q)) +
     sum_list (map (\<lambda>s. {#(submit_id s, Waiting)#}) (jq_submits q)) + sum_list (map return_place (jq_returned q))"

fun worker_busy :: "worker_state \<Rightarrow> bool" where
  "worker_busy WorkerIdle = False"
| "worker_busy WorkerExited = False"
| "worker_busy _ = True"

fun worker_job :: "worker_state \<Rightarrow> string option" where
  "worker_job (WorkerTaken i) = Some i"
| "worker_job (WorkerStarting i) = Some i"
| "worker_job (WorkerRunning i) = Some i"
| "worker_job (WorkerReturned i e) = Some i"
| "worker_job _ = None"

definition allowed :: "place \<Rightarrow> job \<Rightarrow> bool" where
  "allowed p j \<longleftrightarrow> (case p of
       Waiting \<Rightarrow> jb_status j \<in> {JobStatusPending, JobStatusCancelled} \<and> jb_startedAt j = None
     | Executing \<Rightarrow> jb_status j \<in> {JobStatusRunning, JobStatusCancelled})"

definition job_ok :: "string \<Rightarrow> job \<Rightarrow> bool" where
  "job_ok i j \<longleftrightarrow> jb_ID j = i \<and> (jb_status j = JobStatusCancelled \<longrightarrow> jb_cancelled j) \<and>
     (jb_status j = JobStatusCompleted \<longrightarrow> jb_progress j = 100 \<and> jb_completedAt j \<noteq> None) \<and>
     (jb_status j = JobStatusFailed \<longrightarrow> jb_completedAt j \<noteq> None)"

definition job_place :: "(string \<times> place) multiset \<Rightarrow> string \<Rightarrow> job \<Rightarrow> bool" where
  "job_place M i j \<longleftrightarrow> (\<forall>p. (i, p) \<in># M \<longrightarrow> allowed p j) \<and>
     (jb_status j = JobStatusPending \<longrightarrow> (i, Waiting) \<in># M) \<and> (jb_status j = JobStatusRunning \<longrightarrow> (i, Executing) \<in># M)"

definition places_inv :: "(string \<times> place) multiset \<Rightarrow> (string \<rightharpoonup> job) \<Rightarrow> bool" where
  "places_inv M jobs \<longleftrightarrow> (\<forall>i. count (image_mset fst M) i \<le> 1) \<and>
     (\<forall>i j. jobs i = Some j \<longrightarrow> job_ok i j \<and> job_place M i j)"

definition stored_ids :: "job_queue \<Rightarrow> string set" where
  "stored_ids q = set (jq_queue q) \<union> {i. \<exists>x \<in> set (jq_workers q). worker_job x = Some i} \<union>
     {i. Stored i \<in> set (jq_submits q)} \<union> {i. (i, Some ''job queue is full'') \<in> set (jq_returned q)}"

definition fresh_submits :: "job_queue \<Rightarrow> bool" where
  "fresh_submits q \<longleftrightarrow> (\<forall>j. Checked j \<in> set (jq_submits q) \<longrightarrow> jq_jobs q (jb_ID j) = None \<and>
     jb_status j = JobStatusPending \<and> jb_startedAt j = None)"

definition cancels_ok :: "job_queue \<Rightarrow> bool" where
  "cancels_ok q \<longleftrightarrow> (\<forall>i \<in> set (jq_cancels q). \<exists>j. jq_jobs q i = Some j \<and> jb_cancelled j)"

definition counts_ok :: "job_queue \<Rightarrow> bool" where
  "counts_ok q \<longleftrightarrow> length (jq_workers q) = jq_maxWorkers q \<and> length (jq_queue q) \<le> jq_queueSize q \<and>
     jq_activeWorkers q = int (length (filter worker_busy (jq_workers q))) \<and>
     (\<not> jq_stopped q \<longrightarrow> WorkerExited \<notin> set (jq_workers q))"

definition jq_inv :: "job_queue \<Rightarrow> bool" where
  "jq_inv q \<longleftrightarrow> places_inv (places q) (jq_jobs q) \<and> stored_ids q \<subseteq> dom (jq_jobs q) \<and> fresh_submits q \<and>
     cancels_ok q \<and> counts_ok q"

lemma fields [simp]:
  "jq_queue (update_job i f q) = jq_queue q" "jq_workers (update_job i f q) = jq_workers q"
  "jq_submits (update_job i f q) = jq_submits q" "jq_returned (update_job i f q) = jq_returned q"
  "jq_cancels (update_job i f q) = jq_cancels q" "jq_stopped (update_job i f q) = jq_stopped q"
  "jq_activeWorkers (update_job i f q) = jq_activeWorkers q" "jq_maxWorkers (update_job i f q) = jq_maxWorkers q"
  "jq_queueSize (update_job i f q) = jq_queueSize q" "jq_detector (update_job i f q) = jq_detector q"
  "jq_jobs (update_job i f q) = (jq_jobs q)(i := map_option f (jq_jobs q i))"
  "jq_queue (set_worker w x q) = jq_queue q" "jq_workers (set_worker w x q) = (jq_workers q)[w := x]"
  "jq_submits (set_worker w x q) = jq_submits q" "jq_returned (set_worker w x q) = jq_returned q"
  "jq_cancels (set_worker w x q) = jq_cancels q" "jq_stopped (set_worker w x q) = jq_stopped q"
  "jq_activeWorkers (set_worker w x q) = jq_activeWorkers q" "jq_maxWorkers (set_worker w x q) = jq_maxWorkers q"
  "jq_queueSize (set_worker w x q) = jq_queueSize q" "jq_detector (set_worker w x q) = jq_detector q"
  "jq_jobs (set_worker w x q) = jq_jobs q"
  "jq_queue (add_active n q) = jq_queue q" "jq_workers (add_active n q) = jq_workers q"
  "jq_submits (add_active n q) = jq_submits q" "jq_returned (add_active n q) = jq_returned q"
  "jq_cancels (add_active n q) = jq_cancels q" "jq_stopped (add_active n q) = jq_stopped q"
  "jq_activeWorkers (add_active n q) = jq_activeWorkers q + n" "jq_maxWorkers (add_active n q) = jq_maxWorkers q"
  "jq_queueSize (add_active n q) = jq_queueSize q" "jq_detector (add_active n q) = jq_detector q"
  "jq_jobs (add_active n q) = jq_jobs q"
  by (simp_all add: update_job_def set_worker_def add_active_def)

lemma places_worker:
  assumes "w < length (jq_workers q)" "jq_workers q' = (jq_workers q)[w := x]" "jq_queue q' = jq_queue q"
    "jq_submits q' = jq_submits q" "jq_returned q' = jq_returned q"
  shows "places q' + worker_place (jq_workers q ! w) = places q + worker_place x"
  using sum_list_update_add [OF assms(1), of worker_place x] by (simp add: places_def assms(2-5) ac_simps)

lemma sum_list_member: "x \<in> set xs \<Longrightarrow> y \<in># f x \<Longrightarrow> y \<in># sum_list (map f xs)"
  by (induction xs) auto

lemma sum_list_memberD: "y \<in># sum_list (map f xs) \<Longrightarrow> \<exists>x \<in> set xs. y \<in># f x"
  by (induction xs) auto

lemma worker_place_in: "w < length (jq_workers q) \<Longrightarrow> y \<in># worker_place (jq_workers q ! w) \<Longrightarrow> y \<in># places q"
  using sum_list_member [of "jq_workers q ! w" "jq_workers q" y worker_place] by (simp add: places_def)

lemma place_unique:
  assumes "places_inv M jobs" "(i, p) \<in># M" "(i, p') \<in># M"
  shows "p' = p"
proof (rule ccontr)
  assume ne: "p' \<noteq> p"
  obtain N where N: "M = add_mset (i, p) N" using assms(2) by (meson multi_member_split)
  then have "(i, p') \<in># N" using assms(3) ne by simp
  then obtain L where "N = add_mset (i, p') L" by (meson multi_member_split)
  then have "count (image_mset fst M) i = Suc (Suc (count (image_mset fst L) i))" by (simp add: N)
  then show False using assms(1) unfolding places_inv_def by (metis Suc_le_mono not_less_eq_eq zero_le One_nat_def)
qed

lemma places_inv_update:
  assumes "places_inv M jobs" "jobs i = Some j" "job_ok i j'" "job_place M i j'"
  shows "places_inv M (jobs(i \<mapsto> j'))"
  using assms unfolding places_inv_def by auto

lemma places_move:
  assumes inv: "places_inv M jobs" and "(i, p) \<in># M" and move: "M' + {#(i, p)#} = M + N"
    and N: "N = {#} \<or> (\<exists>p'. N = {#(i, p')#})" and j: "jobs i = Some j" "job_ok i j'"
    and ok: "\<And>x. (i, x) \<in># N \<Longrightarrow> allowed x j'" "jb_status j' = JobStatusPending \<Longrightarrow> (i, Waiting) \<in># N"
      "jb_status j' = JobStatusRunning \<Longrightarrow> (i, Executing) \<in># N"
  shows "places_inv M' (jobs(i \<mapsto> j'))"
proof -
  obtain L where L: "M = add_mset (i, p) L" using assms(2) by (meson multi_member_split)
  have M': "M' = L + N" using move by (simp add: L)
  have cnt: "count (image_mset fst M') k \<le> count (image_mset fst M) k" for k using N by (auto simp: M' L)
  have once: "count (image_mset fst M) k \<le> 1" for k using inv by (simp add: places_inv_def)
  have "count (image_mset fst L) i = 0" using once [of i] by (simp add: L)
  then have i: "(i, x) \<notin># L" for x by (force simp: count_eq_zero_iff)
  have other: "(k, x) \<in># M' \<longleftrightarrow> (k, x) \<in># M" if "k \<noteq> i" for k x using N that by (auto simp: M' L)
  have here: "(i, x) \<in># M' \<longleftrightarrow> (i, x) \<in># N" for x using i by (simp add: M')
  show ?thesis
    unfolding places_inv_def
  proof (intro conjI allI impI)
    show "count (image_mset fst M') k \<le> 1" for k using cnt once le_trans by blast
    fix k a
    assume a: "(jobs(i \<mapsto> j')) k = Some a"
    show "job_ok k a" using a inv j(2) by (auto simp: places_inv_def split: if_splits)
    show "job_place M' k a"
    proof (cases "k = i")
      case True
      with a ok show ?thesis by (simp add: job_place_def here)
    next
      case False
      with a inv have "job_place M k a" by (auto simp: places_inv_def)
      then show ?thesis by (simp add: job_place_def other [OF False])
    qed
  qed
qed

lemma stored_workers:
  assumes "stored_ids q \<subseteq> D" "w < length (jq_workers q)"
    "jq_workers q' = (jq_workers q)[w := x]" "set (jq_queue q') \<subseteq> set (jq_queue q)" "jq_submits q' = jq_submits q"
    "jq_returned q' = jq_returned q" "\<And>i. worker_job x = Some i \<Longrightarrow> i \<in> D"
  shows "stored_ids q' \<subseteq> D"
proof
  fix i
  assume "i \<in> stored_ids q'"
  then consider "i \<in> stored_ids q" | "worker_job x = Some i"
    using assms(3-6) unfolding stored_ids_def by (auto dest!: set_update_cases)
  then show "i \<in> D" using assms(1,7) by cases auto
qed

lemma worker_stored:
  "jq_inv q \<Longrightarrow> w < length (jq_workers q) \<Longrightarrow> worker_job (jq_workers q ! w) = Some i \<Longrightarrow> \<exists>j. jq_jobs q i = Some j"
  unfolding jq_inv_def stored_ids_def using nth_mem by blast

lemma inv_job: "jq_inv q \<Longrightarrow> jq_jobs q i = Some j \<Longrightarrow> job_ok i j \<and> job_place (places q) i j"
  by (simp add: jq_inv_def places_inv_def)

subsection \<open>Every step keeps the invariant\<close>

lemma worker_inv:
  assumes inv: "jq_inv q" and w: "w < length (jq_workers q)"
    and same: "jq_workers q' = (jq_workers q)[w := y]" "set (jq_queue q') \<subseteq> set (jq_queue q)"
      "length (jq_queue q') \<le> length (jq_queue q)" "jq_submits q' = jq_submits q" "jq_returned q' = jq_returned q"
      "jq_cancels q' = jq_cancels q" "jq_stopped q' = jq_stopped q" "jq_maxWorkers q' = jq_maxWorkers q"
      "jq_queueSize q' = jq_queueSize q"
      "jq_activeWorkers q' + of_bool (worker_busy (jq_workers q ! w)) = jq_activeWorkers q + of_bool (worker_busy y)"
    and dom: "dom (jq_jobs q') = dom (jq_jobs q)"
    and keeps: "\<And>i j. jq_jobs q i = Some j \<Longrightarrow> jb_cancelled j \<Longrightarrow> \<exists>j'. jq_jobs q' i = Some j' \<and> jb_cancelled j'"
    and y: "\<And>i. worker_job y = Some i \<Longrightarrow> i \<in> dom (jq_jobs q)" "y = WorkerExited \<Longrightarrow> jq_stopped q"
    and places: "places_inv (places q') (jq_jobs q')"
  shows "jq_inv q'"
  unfolding jq_inv_def
proof (intro conjI)
  show "places_inv (places q') (jq_jobs q')" by (rule places)
  have st: "stored_ids q \<subseteq> dom (jq_jobs q)" using inv by (simp add: jq_inv_def)
  show "stored_ids q' \<subseteq> dom (jq_jobs q')"
    unfolding dom by (rule stored_workers [OF st w same(1,2,4,5) y(1)])
  have "jq_jobs q' i = None \<longleftrightarrow> jq_jobs q i = None" for i using dom by (metis domIff)
  then show "fresh_submits q'" using inv unfolding jq_inv_def fresh_submits_def same(4) by blast
  show "cancels_ok q'" using inv keeps unfolding jq_inv_def cancels_ok_def same(6) by blast
  have c: "counts_ok q" using inv by (simp add: jq_inv_def)
  have "jq_activeWorkers q' = int (length (filter worker_busy (jq_workers q')))"
    using c filter_length_update [OF w, of worker_busy y] same(10) unfolding counts_ok_def same(1) by linarith
  moreover have "\<not> jq_stopped q' \<longrightarrow> WorkerExited \<notin> set (jq_workers q')"
    using c y(2) unfolding counts_ok_def same(1,7) by (auto dest!: set_update_cases)
  ultimately show "counts_ok q'" using c same(3) unfolding counts_ok_def same(1,8,9) by auto
qed

lemma take_inv:
  assumes inv: "jq_inv q" and w: "w < length (jq_workers q)" "jq_workers q ! w = WorkerIdle" "jq_queue q = i # is"
  shows "jq_inv (add_active 1 (set_worker w (WorkerTaken i) (q\<lparr>jq_queue := is\<rparr>)))" (is "jq_inv ?q")
proof (rule worker_inv [OF inv w(1), where y = "WorkerTaken i"])
  have "i \<in> dom (jq_jobs q)" using inv w(3) by (auto simp: jq_inv_def stored_ids_def)
  then show "k \<in> dom (jq_jobs q)" if "worker_job (WorkerTaken i) = Some k" for k using that by simp
  have "places ?q = places q"
    using sum_list_update_add [OF w(1), of worker_place "WorkerTaken i"] by (simp add: places_def w(2,3))
  then show "places_inv (places ?q) (jq_jobs ?q)" using inv by (simp add: jq_inv_def)
qed (use w(2,3) in auto)

lemma quiet_worker_inv:
  assumes inv: "jq_inv q" and w: "w < length (jq_workers q)" "worker_place (jq_workers q ! w) = worker_place y"
    "worker_busy y = worker_busy (jq_workers q ! w)" "worker_job y = worker_job (jq_workers q ! w)" "y \<noteq> WorkerExited"
  shows "jq_inv (set_worker w y q)"
proof (rule worker_inv [OF inv w(1)])
  show "k \<in> dom (jq_jobs q)" if "worker_job y = Some k" for k
    using worker_stored [OF inv w(1)] that w(4) by auto
  have "places (set_worker w y q) = places q"
    using places_worker [OF w(1), of "set_worker w y q" y] w(2) by simp
  then show "places_inv (places (set_worker w y q)) (jq_jobs (set_worker w y q))" using inv by (simp add: jq_inv_def)
qed (use w(3,5) in simp_all)

lemma job_leave_inv:
  assumes inv: "jq_inv q" and w: "w < length (jq_workers q)" "jq_workers q ! w = WorkerLeaving i"
  shows "jq_inv (add_active (- 1) (set_worker w WorkerIdle q))" (is "jq_inv ?q")
proof (rule worker_inv [OF inv w(1), where y = WorkerIdle])
  have "places ?q = places q" using places_worker [OF w(1), of ?q WorkerIdle] w(2) by simp
  then show "places_inv (places ?q) (jq_jobs ?q)" using inv by (simp add: jq_inv_def)
qed (use w(2) in simp_all)

lemma exit_inv:
  assumes inv: "jq_inv q" and w: "w < length (jq_workers q)" "jq_workers q ! w = WorkerIdle" "jq_stopped q"
  shows "jq_inv (set_worker w WorkerExited q)" (is "jq_inv ?q")
proof (rule worker_inv [OF inv w(1), where y = WorkerExited])
  have "places ?q = places q" using places_worker [OF w(1), of ?q WorkerExited] w(2) by simp
  then show "places_inv (places ?q) (jq_jobs ?q)" using inv by (simp add: jq_inv_def)
qed (use w(2,3) in simp_all)

text \<open>A worker moves the job it holds: \<open>f\<close> is what it does to the job, \<open>N\<close> the new place, if any.\<close>

lemma move_inv:
  assumes inv: "jq_inv q" and w: "w < length (jq_workers q)" "worker_job (jq_workers q ! w) = Some i"
    "(i, p) \<in># worker_place (jq_workers q ! w)" "worker_place (jq_workers q ! w) = {#(i, p)#}"
    and y: "worker_busy y = worker_busy (jq_workers q ! w)" "worker_job y = None \<or> worker_job y = Some i" "y \<noteq> WorkerExited"
      "worker_place y = {#} \<or> (\<exists>p'. worker_place y = {#(i, p')#})"
    and f: "\<And>j. jq_jobs q i = Some j \<Longrightarrow> allowed p j \<Longrightarrow> job_ok i j \<Longrightarrow> job_ok i (f j) \<and>
        (jb_cancelled j \<longrightarrow> jb_cancelled (f j)) \<and> (\<forall>x. (i, x) \<in># worker_place y \<longrightarrow> allowed x (f j)) \<and>
        (jb_status (f j) = JobStatusPending \<longrightarrow> (i, Waiting) \<in># worker_place y) \<and>
        (jb_status (f j) = JobStatusRunning \<longrightarrow> (i, Executing) \<in># worker_place y)"
  shows "jq_inv (set_worker w y (update_job i f q))" (is "jq_inv ?q")
proof -
  obtain j where j: "jq_jobs q i = Some j" using worker_stored [OF inv w(1,2)] by blast
  have at: "(i, p) \<in># places q" by (rule worker_place_in [OF w(1,3)])
  have ok: "job_ok i j" "job_place (places q) i j" using inv_job [OF inv j] by simp_all
  have "allowed p j" using ok(2) at by (simp add: job_place_def)
  note f = f [OF j this ok(1)]
  have move: "places ?q + {#(i, p)#} = places q + worker_place y"
    using places_worker [OF w(1), of ?q y] unfolding w(4) by simp
  have "places_inv (places ?q) ((jq_jobs q)(i \<mapsto> f j))"
    by (rule places_move [where M = "places q" and N = "worker_place y" and p = p and j = j])
      (use inv at move y(4) j f in \<open>simp_all add: jq_inv_def\<close>)
  then have places: "places_inv (places ?q) (jq_jobs ?q)" by (simp add: j)
  show ?thesis
  proof (rule worker_inv [OF inv w(1), where y = y])
    show "k \<in> dom (jq_jobs q)" if "worker_job y = Some k" for k using that y(2) j by auto
    show "dom (jq_jobs ?q) = dom (jq_jobs q)" by (auto simp: j)
    show "\<exists>j'. jq_jobs ?q k = Some j' \<and> jb_cancelled j'" if "jq_jobs q k = Some a" "jb_cancelled a" for k a
      using that f j by auto
  qed (use y places in simp_all)
qed

lemma begin_inv:
  assumes "jq_inv q" "w < length (jq_workers q)" "jq_workers q ! w = WorkerStarting i"
  shows "jq_inv (set_worker w (WorkerRunning i) (update_job i (begin_job now) q))"
  by (rule move_inv [OF assms(1,2), where p = Waiting])
    (use assms(3) in \<open>auto simp: begin_job_def job_ok_def allowed_def\<close>)

lemma finish_inv:
  assumes "jq_inv q" "w < length (jq_workers q)" "jq_workers q ! w = WorkerReturned i err"
  shows "jq_inv (set_worker w (WorkerLeaving i) (update_job i (finish_job now err) q))"
  by (rule move_inv [OF assms(1,2), where p = Executing])
    (use assms(3) in \<open>auto simp: finish_job_def job_ok_def allowed_def Let_def split: option.splits\<close>)

lemma update_same: "jq_jobs q i = Some j \<Longrightarrow> update_job i (\<lambda>_. j) q = q"
  by (simp add: update_job_def fun_upd_idem)

lemma skip_inv:
  assumes "jq_inv q" "w < length (jq_workers q)" "jq_workers q ! w = WorkerTaken i" "jq_jobs q i = Some j"
    "jb_status j = JobStatusCancelled"
  shows "jq_inv (set_worker w (WorkerLeaving i) q)"
proof -
  have "jq_inv (set_worker w (WorkerLeaving i) (update_job i (\<lambda>_. j) q))"
    by (rule move_inv [OF assms(1,2), where p = Waiting]) (use assms(3-5) in \<open>auto\<close>)
  then show ?thesis by (simp only: update_same [OF assms(4)])
qed

text \<open>A job changes where it is: progress, and the two steps of \<open>Cancel\<close>.\<close>

lemma update_inv:
  assumes inv: "jq_inv q" and j: "jq_jobs q i = Some j"
    and f: "job_ok i (f j)" "job_place (places q) i (f j)" "jb_cancelled j \<longrightarrow> jb_cancelled (f j)"
    and c: "\<And>k. k \<in> set cs \<Longrightarrow> k \<in> set (jq_cancels q) \<or> k = i \<and> jb_cancelled (f j)"
  shows "jq_inv (update_job i f (q\<lparr>jq_cancels := cs\<rparr>))" (is "jq_inv ?q")
  unfolding jq_inv_def
proof (intro conjI)
  have pl: "places ?q = places q" by (simp add: places_def)
  have "places_inv (places q) ((jq_jobs q)(i \<mapsto> f j))"
    by (rule places_inv_update) (use inv j f in \<open>simp_all add: jq_inv_def\<close>)
  then show "places_inv (places ?q) (jq_jobs ?q)" by (simp add: pl j)
  have dom: "dom (jq_jobs ?q) = dom (jq_jobs q)" by (auto simp: j)
  have "stored_ids ?q = stored_ids q" by (simp add: stored_ids_def)
  then show "stored_ids ?q \<subseteq> dom (jq_jobs ?q)" using inv dom by (simp add: jq_inv_def)
  show "fresh_submits ?q" using inv j by (auto simp: jq_inv_def fresh_submits_def)
  show "cancels_ok ?q"
    unfolding cancels_ok_def
  proof
    fix k
    assume "k \<in> set (jq_cancels ?q)"
    then have "k \<in> set cs" by simp
    from c [OF this] show "\<exists>j. jq_jobs ?q k = Some j \<and> jb_cancelled j"
    proof
      assume "k \<in> set (jq_cancels q)"
      then obtain a where "jq_jobs q k = Some a" "jb_cancelled a" using inv by (auto simp: jq_inv_def cancels_ok_def)
      then show ?thesis using f(3) j by auto
    qed (use j in auto)
  qed
  show "counts_ok ?q" using inv by (simp add: jq_inv_def counts_ok_def)
qed

lemma progress_inv:
  assumes inv: "jq_inv q" and w: "w < length (jq_workers q)" "jq_workers q ! w = WorkerRunning i"
  shows "jq_inv (update_job i (update_progress n) q)"
proof -
  obtain j where j: "jq_jobs q i = Some j" using worker_stored [OF inv w(1)] w(2) by auto
  have ok: "job_ok i j" "job_place (places q) i j" using inv_job [OF inv j] by simp_all
  have "(i, Executing) \<in># places q" using worker_place_in [OF w(1)] w(2) by simp
  then have "jb_status j \<in> {JobStatusRunning, JobStatusCancelled}" using ok(2) by (auto simp: job_place_def allowed_def)
  then have ok': "job_ok i (update_progress n j)" "job_place (places q) i (update_progress n j)"
    using ok by (auto simp: job_ok_def job_place_def allowed_def update_progress_def split: place.splits)
  have "jq_inv (update_job i (update_progress n) (q\<lparr>jq_cancels := jq_cancels q\<rparr>))"
    by (rule update_inv [where j = j]) (use inv j ok' in \<open>simp_all add: update_progress_def\<close>)
  then show ?thesis by simp
qed

lemma cancel_inv:
  assumes inv: "jq_inv q" and "get_job q i = Inr j"
  shows "jq_inv (update_job i cancel_context (q\<lparr>jq_cancels := jq_cancels q @ [i]\<rparr>))"
proof -
  have j: "jq_jobs q i = Some j" using assms(2) by (auto simp: get_job_def split: option.splits)
  have "job_ok i (cancel_context j)" "job_place (places q) i (cancel_context j)"
    using inv_job [OF inv j] by (auto simp: job_ok_def job_place_def allowed_def cancel_context_def split: place.splits)
  then show ?thesis by (intro update_inv [where j = j]) (use inv j in \<open>auto simp: cancel_context_def\<close>)
qed

lemma cancelled_inv:
  assumes inv: "jq_inv q" and c: "jq_cancels q = xs @ i # ys"
  shows "jq_inv (update_job i cancel_status (q\<lparr>jq_cancels := xs @ ys\<rparr>))"
proof -
  obtain j where j: "jq_jobs q i = Some j" "jb_cancelled j" using inv c by (auto simp: jq_inv_def cancels_ok_def)
  have "job_ok i (cancel_status j)" "job_place (places q) i (cancel_status j)"
    using inv_job [OF inv j(1)] j(2)
    by (auto simp: job_ok_def job_place_def allowed_def cancel_status_def split: place.splits)
  then show ?thesis by (intro update_inv [where j = j]) (use inv j c in \<open>auto simp: cancel_status_def\<close>)
qed

text \<open>Submitting.\<close>

lemma fresh_place:
  assumes "jq_inv q" "fresh_id i q"
  shows "(i, p) \<notin># places q"
proof
  assume "(i, p) \<in># places q"
  then consider "i \<in> stored_ids q" | "i \<in> submit_id ` set (jq_submits q)" | "i \<in> fst ` set (jq_returned q)"
    unfolding places_def
  proof (elim union_iff [THEN iffD1, THEN disjE], goal_cases)
    case 1
    then show ?thesis by (auto simp: stored_ids_def dest: sum_list_memberD)
  next
    case 2
    then obtain x where x: "x \<in> set (jq_workers q)" "(i, p) \<in># worker_place x" by (auto dest: sum_list_memberD)
    from x(2) have "worker_job x = Some i" by (induction x rule: worker_place.induct) simp_all
    with x(1) 2(1) show ?thesis by (auto simp: stored_ids_def)
  next
    case 3
    then show ?thesis by (auto dest!: sum_list_memberD)
  next
    case 4
    then obtain x where x: "x \<in> set (jq_returned q)" "(i, p) \<in># return_place x" by (auto dest: sum_list_memberD)
    from x(2) have "fst x = i" by (induction x rule: return_place.induct) simp_all
    with x(1) 4(3) show ?thesis by force
  qed
  then show False
    using assms unfolding jq_inv_def fresh_id_def by cases (auto simp: domIff subset_iff)
qed

lemma add_place_inv:
  assumes "places_inv M jobs" "\<And>p. (i, p) \<notin># M" "jobs i = None"
  shows "places_inv (add_mset (i, Waiting) M) jobs"
proof -
  have "count (image_mset fst M) i = 0" using assms(2) by (force simp: count_eq_zero_iff)
  then have "count (image_mset fst (add_mset (i, Waiting) M)) k \<le> 1" for k
    using assms(1) by (cases "k = i") (simp_all add: places_inv_def)
  moreover have "job_place (add_mset (i, Waiting) M) k j" if "jobs k = Some j" for k j
    using assms(1,3) that by (auto simp: places_inv_def job_place_def)
  ultimately show ?thesis using assms(1) by (simp add: places_inv_def)
qed

lemma check_inv:
  assumes inv: "jq_inv q" and fresh: "fresh_id i q"
  shows "jq_inv (submit_check order (new_job i ty p prio now) q)" (is "jq_inv ?q")
proof -
  let ?j = "new_job i ty p prio now"
  have places: "places ?q = add_mset (i, Waiting) (places q)" and jobs: "jq_jobs ?q = jq_jobs q"
    by (auto simp: submit_check_def places_def new_job_def split: option.splits sum.splits)
  have none: "jq_jobs q i = None" using fresh by (simp add: fresh_id_def)
  have "places_inv (places ?q) (jq_jobs ?q)"
    unfolding places jobs using inv fresh_place [OF inv fresh] none by (intro add_place_inv) (simp_all add: jq_inv_def)
  moreover have "stored_ids ?q = stored_ids q"
    by (auto simp: submit_check_def stored_ids_def split: option.splits sum.splits)
  moreover have "fresh_submits ?q"
    using inv none by (auto simp: submit_check_def jq_inv_def fresh_submits_def new_job_def split: option.splits sum.splits)
  moreover have "cancels_ok ?q"
    using inv by (auto simp: submit_check_def jq_inv_def cancels_ok_def split: option.splits sum.splits)
  moreover have "counts_ok ?q"
    using inv by (auto simp: submit_check_def jq_inv_def counts_ok_def split: option.splits sum.splits)
  ultimately show ?thesis using inv by (simp add: jq_inv_def jobs)
qed

lemma submit_once:
  assumes "places_inv (places q) jobs"
  shows "count (mset (map submit_id (jq_submits q))) i \<le> 1"
proof -
  have "image_mset fst (sum_list (map (\<lambda>s. {#(submit_id s, Waiting)#}) xs)) = mset (map submit_id xs)" for xs
    by (induction xs) simp_all
  then have "count (mset (map submit_id (jq_submits q))) i \<le> count (image_mset fst (places q)) i"
    by (simp add: places_def)
  also have "\<dots> \<le> 1" using assms by (simp add: places_inv_def)
  finally show ?thesis .
qed

lemma store_inv:
  assumes inv: "jq_inv q" and s: "jq_submits q = xs @ Checked j # ys"
  shows "jq_inv (submit_store j (q\<lparr>jq_submits := xs @ Stored (jb_ID j) # ys\<rparr>))" (is "jq_inv ?q")
proof -
  let ?i = "jb_ID j"
  have fs: "fresh_submits q" and st: "stored_ids q \<subseteq> dom (jq_jobs q)" using inv by (simp_all add: jq_inv_def)
  have inset: "Checked j \<in> set (jq_submits q)" by (simp add: s)
  have fresh: "jq_jobs q ?i = None" "jb_status j = JobStatusPending" "jb_startedAt j = None"
    using fs inset unfolding fresh_submits_def by blast+
  have pl: "places ?q = places q" by (simp add: places_def submit_store_def s)
  have at: "(?i, Waiting) \<in># places q"
    by (simp add: places_def s)
  have old: "places_inv (places q) (jq_jobs q)" using inv by (simp add: jq_inv_def)
  have "p = Waiting" if "(?i, p) \<in># places q" for p using place_unique [OF old at that] .
  moreover have "allowed Waiting j" using fresh by (simp add: allowed_def)
  ultimately have "job_place (places q) ?i j" using at fresh unfolding job_place_def by auto
  moreover have "job_ok ?i j" by (simp add: job_ok_def fresh)
  ultimately have "places_inv (places ?q) (jq_jobs ?q)"
    using old unfolding pl by (simp add: submit_store_def places_inv_def)
  moreover have "stored_ids ?q \<subseteq> dom (jq_jobs ?q)"
  proof -
    have "stored_ids ?q = insert ?i (stored_ids q)" by (auto simp: stored_ids_def submit_store_def s)
    with st show ?thesis by (auto simp: submit_store_def)
  qed
  moreover have "fresh_submits ?q"
  proof -
    have "jb_ID k \<noteq> ?i" if "Checked k \<in> set xs \<union> set ys" for k
    proof
      assume k: "jb_ID k = ?i"
      have "count (mset (map submit_id (jq_submits q))) ?i \<le> 1" using submit_once [OF old] .
      then have "count (mset (map submit_id xs)) ?i = 0" "count (mset (map submit_id ys)) ?i = 0" by (simp_all add: s)
      then have "?i \<notin> submit_id ` set xs" "?i \<notin> submit_id ` set ys" by (simp_all only: count_eq_zero_iff set_mset_mset set_map not_False_eq_True)
      with that show False unfolding k [symmetric] by force
    qed
    moreover have "Checked k \<in> set (jq_submits q)" if "Checked k \<in> set (jq_submits ?q)" for k
      using that by (auto simp: submit_store_def s)
    moreover have "Checked k \<in> set xs \<union> set ys" if "Checked k \<in> set (jq_submits ?q)" for k
      using that by (auto simp: submit_store_def)
    moreover have "jq_jobs ?q k = (if k = ?i then Some j else jq_jobs q k)" for k by (simp add: submit_store_def)
    ultimately show ?thesis using fs unfolding fresh_submits_def by metis
  qed
  moreover have "cancels_ok ?q" using inv fresh(1) by (force simp: jq_inv_def cancels_ok_def submit_store_def)
  moreover have "counts_ok ?q" using inv by (simp add: jq_inv_def counts_ok_def submit_store_def)
  ultimately show ?thesis by (simp add: jq_inv_def)
qed

lemma enqueue_inv:
  assumes inv: "jq_inv q" and s: "jq_submits q = xs @ Stored i # ys"
  shows "jq_inv (submit_enqueue i (q\<lparr>jq_submits := xs @ ys\<rparr>))" (is "jq_inv ?q")
proof -
  have fs: "fresh_submits q" using inv by (simp add: jq_inv_def)
  have pl: "places ?q = places q" by (simp add: places_def submit_enqueue_def s ac_simps)
  have jobs: "jq_jobs ?q = jq_jobs q" by (simp add: submit_enqueue_def)
  have "stored_ids ?q \<subseteq> stored_ids q" by (auto simp: stored_ids_def submit_enqueue_def s)
  then have "stored_ids ?q \<subseteq> dom (jq_jobs ?q)" using inv by (auto simp: jq_inv_def jobs)
  moreover have "fresh_submits ?q" using fs unfolding fresh_submits_def s by (auto simp: submit_enqueue_def)
  moreover have "cancels_ok ?q" using inv by (simp add: jq_inv_def cancels_ok_def submit_enqueue_def)
  moreover have "counts_ok ?q" using inv by (simp add: jq_inv_def counts_ok_def submit_enqueue_def)
  ultimately show ?thesis using inv by (simp add: jq_inv_def pl jobs)
qed

lemma jq_step_inv:
  assumes "jq_inv q" "jq_step q q'"
  shows "jq_inv q'"
  using assms(2,1)
proof (cases rule: jq_step.cases)
  case (js_stop)
  with assms(1) show ?thesis
    by (simp add: jq_inv_def places_def stored_ids_def fresh_submits_def cancels_ok_def counts_ok_def)
qed (auto intro: check_inv store_inv enqueue_inv take_inv begin_inv progress_inv finish_inv job_leave_inv exit_inv cancel_inv
    cancelled_inv quiet_worker_inv skip_inv)

lemma start_inv: "jq_inv (start_workers (new_job_queue m n det))"
proof -
  have w: "sum_list (map worker_place (replicate m WorkerIdle)) = {#}" by (induction m) simp_all
  note w = w [unfolded map_replicate worker_place.simps]
  show ?thesis
    by (auto simp: jq_inv_def places_inv_def start_workers_def new_job_queue_def places_def w stored_ids_def
        fresh_submits_def cancels_ok_def counts_ok_def)
qed

lemma reachable_inv:
  assumes "jq_reachable m n det q"
  shows "jq_inv q \<and> jq_maxWorkers q = m \<and> jq_queueSize q = n \<and> jq_detector q = det"
proof -
  have "jq_step\<^sup>*\<^sup>* (start_workers (new_job_queue m n det)) q" using assms by (simp add: jq_reachable_def)
  then show ?thesis
  proof (induction rule: rtranclp_induct)
    case base
    then show ?case by (simp add: start_inv) (simp add: start_workers_def new_job_queue_def)
  next
    case (step a b)
    from step.hyps(2) have "jq_maxWorkers b = jq_maxWorkers a \<and> jq_queueSize b = jq_queueSize a \<and> jq_detector b = jq_detector a"
      by (cases rule: jq_step.cases)
        (auto simp: submit_check_def submit_store_def submit_enqueue_def split: option.splits sum.splits)
    with step.IH jq_step_inv [OF _ step.hyps(2)] show ?case by simp
  qed
qed

end
