(* ===== verification/Job_Runs.thy ===== *)
theory Job_Runs
  imports Job_Queue
begin

text \<open>
  Runs of the job queue: what holds in every reachable state, what becomes of a job the queue refuses, when
  the conflict check keeps jobs on one package apart, and two runs in which it and \<open>CancelJob\<close> do not.
\<close>

subsection \<open>One place for every job\<close>

definition worker_ids :: "worker_state \<Rightarrow> string multiset" where
  "worker_ids x = image_mset fst (worker_place x)"

lemma worker_job_ids: "worker_job x = Some i \<Longrightarrow> worker_place x = {#(i, Waiting)#} \<or> worker_place x = {#(i, Executing)#}"
  by (induction x rule: worker_job.induct) simp_all

lemma image_sum_list: "image_mset f (sum_list (map g xs)) = sum_list (map (\<lambda>x. image_mset f (g x)) xs)"
  by (induction xs) simp_all

lemma queue_ids: "sum_list (map (\<lambda>i. {#i#}) xs) = mset xs"
  by (induction xs) simp_all

lemma ids_once:
  assumes "jq_inv q"
  shows "count (mset (jq_queue q) + sum_list (map worker_ids (jq_workers q))) i \<le> 1"
proof -
  have "count (mset (jq_queue q) + sum_list (map worker_ids (jq_workers q))) i \<le> count (image_mset fst (places q)) i"
    by (simp add: places_def image_sum_list queue_ids image_mset.compositionality comp_def worker_ids_def [abs_def])
  also have "\<dots> \<le> 1" using assms by (simp add: jq_inv_def places_inv_def)
  finally show ?thesis .
qed

lemma queue_distinct: "jq_inv q \<Longrightarrow> distinct (jq_queue q)"
proof -
  assume "jq_inv q"
  note once = ids_once [OF this]
  have le: "count (mset (jq_queue q)) i \<le> 1" for i using once [of i] by simp
  have "count (mset (jq_queue q)) i = (if i \<in> set (jq_queue q) then 1 else 0)" for i
    using le [of i] count_greater_zero_iff [of "mset (jq_queue q)" i] by (auto simp: count_eq_zero_iff simp del: count_greater_zero_iff)
  then show ?thesis by (simp add: distinct_count_atmost_1)
qed

lemma worker_ids_count:
  assumes "w < length ws" "worker_job (ws ! w) = Some i"
  shows "1 \<le> count (sum_list (map worker_ids ws)) i"
proof -
  have "i \<in># worker_ids (ws ! w)" using worker_job_ids [OF assms(2)] by (auto simp: worker_ids_def)
  then have "i \<in># sum_list (map worker_ids ws)" using assms(1) by (intro sum_list_member) simp_all
  then show ?thesis by (simp add: Suc_le_eq)
qed

lemma one_worker:
  assumes "jq_inv q" "w < length (jq_workers q)" "worker_job (jq_workers q ! w) = Some i"
  shows "i \<notin> set (jq_queue q)" "\<And>v. v < length (jq_workers q) \<Longrightarrow> worker_job (jq_workers q ! v) = Some i \<Longrightarrow> v = w"
proof -
  note once = ids_once [OF assms(1), of i]
  show "i \<notin> set (jq_queue q)"
  proof
    assume "i \<in> set (jq_queue q)"
    then have "1 \<le> count (mset (jq_queue q)) i" by (simp add: Suc_le_eq)
    with once worker_ids_count [OF assms(2,3)] show False by (simp only: count_union)
  qed
  fix v
  assume v: "v < length (jq_workers q)" "worker_job (jq_workers q ! v) = Some i"
  show "v = w"
  proof (rule ccontr)
    let ?ws = "(jq_workers q)[w := WorkerIdle]"
    assume "v \<noteq> w"
    then have "1 \<le> count (sum_list (map worker_ids ?ws)) i" using v by (intro worker_ids_count [of v]) simp_all
    moreover have "sum_list (map worker_ids ?ws) + worker_ids (jq_workers q ! w) = sum_list (map worker_ids (jq_workers q))"
      using sum_list_update_add [OF assms(2), of worker_ids WorkerIdle] by (simp add: worker_ids_def)
    moreover have "count (worker_ids (jq_workers q ! w)) i = 1" using worker_job_ids [OF assms(3)] by (auto simp: worker_ids_def)
    ultimately have "2 \<le> count (sum_list (map worker_ids (jq_workers q))) i"
      by (metis add_le_mono count_union order_refl one_add_one)
    with once show False by (simp only: count_union)
  qed
qed

lemma executing_worker:
  assumes "(i, Executing) \<in># places q"
  shows "\<exists>w < length (jq_workers q). jq_workers q ! w = WorkerRunning i \<or> (\<exists>e. jq_workers q ! w = WorkerReturned i e)"
proof -
  have "(i, Executing) \<notin># return_place x" for x by (induction x rule: return_place.induct) simp_all
  then have "(i, Executing) \<in># sum_list (map worker_place (jq_workers q))"
    using assms by (auto simp: places_def dest: sum_list_memberD)
  then obtain x where x: "x \<in> set (jq_workers q)" "(i, Executing) \<in># worker_place x" by (auto dest: sum_list_memberD)
  from x(2) have "x = WorkerRunning i \<or> (\<exists>e. x = WorkerReturned i e)" by (induction x rule: worker_place.induct) simp_all
  with x(1) show ?thesis by (metis in_set_conv_nth)
qed

lemma returned_grows: "jq_step q q' \<Longrightarrow> set (jq_returned q) \<subseteq> set (jq_returned q')"
  by (cases rule: jq_step.cases)
    (auto simp: submit_check_def submit_store_def submit_enqueue_def split: option.splits sum.splits)

lemma refused_place: "(i, Some e) \<in> set (jq_returned q) \<Longrightarrow> (i, Waiting) \<in># places q"
  using sum_list_member [of "(i, Some e)" "jq_returned q" "(i, Waiting)" return_place] by (simp add: places_def)

subsection \<open>The queue can always be drained\<close>

fun worker_work :: "worker_state \<Rightarrow> nat" where
  "worker_work (WorkerTaken i) = 5"
| "worker_work (WorkerStarting i) = 4"
| "worker_work (WorkerRunning i) = 3"
| "worker_work (WorkerReturned i e) = 2"
| "worker_work (WorkerLeaving i) = 1"
| "worker_work _ = 0"

fun submit_work :: "submit_state \<Rightarrow> nat" where
  "submit_work (Checked j) = 8"
| "submit_work (Stored i) = 7"

definition work_left :: "job_queue \<Rightarrow> nat" where
  "work_left q = 6 * length (jq_queue q) + sum_list (map worker_work (jq_workers q)) + sum_list (map submit_work (jq_submits q))"

lemma worker_less:
  assumes "w < length (jq_workers q)" "worker_work x < worker_work (jq_workers q ! w)"
    "jq_workers q' = (jq_workers q)[w := x]" "jq_queue q' = jq_queue q" "jq_submits q' = jq_submits q"
  shows "work_left q' < work_left q"
  using sum_list_update_add [OF assms(1), of worker_work x] assms(2) by (simp add: work_left_def assms(3-5))

lemma advances:
  "jq_step q q' \<Longrightarrow> work_left q' < work_left q \<and> jq_stopped q' = jq_stopped q \<Longrightarrow>
    \<exists>q'. jq_step q q' \<and> work_left q' < work_left q \<and> jq_stopped q' = jq_stopped q"
  by blast

lemma worker_advances:
  assumes inv: "jq_inv q" and w: "w < length (jq_workers q)" "0 < worker_work (jq_workers q ! w)"
  shows "\<exists>q'. jq_step q q' \<and> work_left q' < work_left q \<and> jq_stopped q' = jq_stopped q"
proof (cases "jq_workers q ! w")
  case (WorkerTaken i)
  obtain j where j: "jq_jobs q i = Some j" using worker_stored [OF inv w(1)] WorkerTaken by auto
  show ?thesis
  proof (cases "jb_status j = JobStatusCancelled")
    case True
    from js_skip [OF w(1) WorkerTaken j this] show ?thesis
      by (rule advances) (simp add: worker_less [OF w(1), of "WorkerLeaving i"] WorkerTaken)
  next
    case False
    from js_pass [OF w(1) WorkerTaken j this] show ?thesis
      by (rule advances) (simp add: worker_less [OF w(1), of "WorkerStarting i"] WorkerTaken)
  qed
next
  case (WorkerStarting i)
  from js_begin [OF w(1) this] show ?thesis
    by (rule advances) (simp add: worker_less [OF w(1), of "WorkerRunning i"] WorkerStarting)
next
  case (WorkerRunning i)
  from js_return [OF w(1) this, of None] show ?thesis
    by (rule advances) (simp add: worker_less [OF w(1), of "WorkerReturned i None"] WorkerRunning)
next
  case (WorkerReturned i e)
  from js_finish [OF w(1) this] show ?thesis
    by (rule advances) (simp add: worker_less [OF w(1), of "WorkerLeaving i"] WorkerReturned)
next
  case (WorkerLeaving i)
  from js_leave [OF w(1) this] show ?thesis
    by (rule advances) (simp add: worker_less [OF w(1), of WorkerIdle] WorkerLeaving)
qed (use w(2) in simp_all)

lemma submit_advances:
  assumes "jq_submits q = x # xs"
  shows "\<exists>q'. jq_step q q' \<and> work_left q' < work_left q \<and> jq_stopped q' = jq_stopped q"
proof (cases x)
  case (Checked j)
  then have "jq_submits q = [] @ Checked j # xs" using assms by simp
  from js_store [OF this] show ?thesis
    by (rule advances) (simp add: work_left_def submit_store_def assms Checked)
next
  case (Stored i)
  then have "jq_submits q = [] @ Stored i # xs" using assms by simp
  from js_enqueue [OF this] show ?thesis
    by (rule advances) (simp add: work_left_def submit_enqueue_def assms Stored)
qed

lemma work_advances:
  assumes inv: "jq_inv q" and m: "0 < jq_maxWorkers q" "\<not> jq_stopped q" and work: "0 < work_left q"
  shows "\<exists>q'. jq_step q q' \<and> work_left q' < work_left q \<and> jq_stopped q' = jq_stopped q"
proof (cases "jq_submits q")
  case (Cons x xs)
  then show ?thesis by (rule submit_advances)
next
  case Nil
  from inv have c: "length (jq_workers q) = jq_maxWorkers q" "WorkerExited \<notin> set (jq_workers q)"
    using m(2) by (simp_all add: jq_inv_def counts_ok_def)
  show ?thesis
  proof (cases "\<exists>w < length (jq_workers q). 0 < worker_work (jq_workers q ! w)")
    case True
    then show ?thesis using worker_advances [OF inv] by blast
  next
    case False
    then have idle: "x = WorkerIdle" if "x \<in> set (jq_workers q)" for x
      using that c(2) by (cases x) (auto simp: in_set_conv_nth)
    have "worker_work x = 0" if "x \<in> set (jq_workers q)" for x by (simp add: idle [OF that])
    then have "sum_list (map worker_work (jq_workers q)) = 0" by (simp add: sum_list_eq_0_iff)
    with work Nil have "jq_queue q \<noteq> []" by (simp add: work_left_def)
    then obtain i "is" where i: "jq_queue q = i # is" by (meson neq_Nil_conv)
    have w: "0 < length (jq_workers q)" "jq_workers q ! 0 = WorkerIdle" using m(1) c(1) idle by simp_all
    have "sum_list (map worker_work ((jq_workers q)[0 := WorkerTaken i])) = 5 + sum_list (map worker_work (jq_workers q))"
      using sum_list_update_add [OF w(1), of worker_work "WorkerTaken i"] w(2) by simp
    then show ?thesis
      by (intro advances [OF js_take [OF w i]]) (simp add: work_left_def i)
  qed
qed

lemma drain:
  "jq_inv q \<Longrightarrow> 0 < jq_maxWorkers q \<Longrightarrow> \<not> jq_stopped q \<Longrightarrow>
    \<exists>r. jq_step\<^sup>*\<^sup>* q r \<and> work_left r = 0 \<and> \<not> jq_stopped r"
proof (induction "work_left q" arbitrary: q rule: less_induct)
  case less
  show ?case
  proof (cases "work_left q = 0")
    case True
    then show ?thesis using less.prems(3) by blast
  next
    case False
    then obtain q' where q': "jq_step q q'" "work_left q' < work_left q" "jq_stopped q' = jq_stopped q"
      using work_advances [OF less.prems] by auto
    from q'(1) have "jq_maxWorkers q' = jq_maxWorkers q"
      by (cases rule: jq_step.cases)
        (auto simp: submit_check_def submit_store_def submit_enqueue_def split: option.splits sum.splits)
    with less.hyps [OF q'(2) jq_step_inv [OF less.prems(1) q'(1)]] less.prems q'
    obtain r where "jq_step\<^sup>*\<^sup>* q' r" "work_left r = 0" "\<not> jq_stopped r" by auto
    with q'(1) show ?thesis by (meson converse_rtranclp_into_rtranclp)
  qed
qed

lemma drained:
  assumes inv: "jq_inv r" "\<not> jq_stopped r" and "work_left r = 0"
  shows "jq_queue r = []" "jq_submits r = []" "\<And>x. x \<in> set (jq_workers r) \<Longrightarrow> x = WorkerIdle"
    "\<And>i p. (i, p) \<in># places r \<Longrightarrow> \<exists>e. (i, Some e) \<in> set (jq_returned r)"
proof -
  show e: "jq_queue r = []" "jq_submits r = []"
    using assms(3) by (auto simp: work_left_def sum_list_eq_0_iff) (metis list.set_intros(1) neq_Nil_conv submit_work.elims zero_neq_numeral)
  have "WorkerExited \<notin> set (jq_workers r)" using inv by (simp add: jq_inv_def counts_ok_def)
  moreover have "worker_work x = 0" if "x \<in> set (jq_workers r)" for x
    using assms(3) that by (auto simp: work_left_def sum_list_eq_0_iff)
  ultimately show idle: "x = WorkerIdle" if "x \<in> set (jq_workers r)" for x using that by (cases x) force+
  fix i p
  assume "(i, p) \<in># places r"
  moreover have "(i, p) \<notin># sum_list (map worker_place (jq_workers r))"
  proof
    assume "(i, p) \<in># sum_list (map worker_place (jq_workers r))"
    then obtain x where "x \<in> set (jq_workers r)" "(i, p) \<in># worker_place x" by (auto dest: sum_list_memberD)
    then show False using idle [of x] by simp
  qed
  ultimately have "(i, p) \<in># sum_list (map return_place (jq_returned r))" by (simp add: places_def e)
  then obtain x where x: "x \<in> set (jq_returned r)" "(i, p) \<in># return_place x" by (auto dest: sum_list_memberD)
  from x(2) have "\<exists>e. x = (i, Some e)" by (induction x rule: return_place.induct) simp_all
  with x(1) show "\<exists>e. (i, Some e) \<in> set (jq_returned r)" by blast
qed

subsection \<open>Submitting one job after the other\<close>

text \<open>No check starts while another job is between its check and the queue.\<close>

definition serial_step :: "job_queue \<Rightarrow> job_queue \<Rightarrow> bool" where
  "serial_step q q' \<longleftrightarrow> jq_step q q' \<and> (length (jq_submits q) < length (jq_submits q') \<longrightarrow> jq_submits q = [])"

definition live_job :: "job_queue \<Rightarrow> string \<Rightarrow> job \<Rightarrow> bool" where
  "live_job q i j \<longleftrightarrow> jq_jobs q i = Some j \<and> job_active j \<and> \<not> jb_cancelled j"

definition apart :: "package_service \<Rightarrow> job_queue \<Rightarrow> bool" where
  "apart svc q \<longleftrightarrow> length (jq_submits q) \<le> 1 \<and>
     (\<forall>i a k b. live_job q i a \<longrightarrow> live_job q k b \<longrightarrow> i \<noteq> k \<longrightarrow> touched svc a \<inter> touched svc b = {}) \<and>
     (\<forall>j i a. Checked j \<in> set (jq_submits q) \<longrightarrow> live_job q i a \<longrightarrow> touched svc j \<inter> touched svc a = {})"

lemma apart_keeps:
  assumes "apart svc q" "length (jq_submits q') \<le> length (jq_submits q)" "set (jq_submits q') \<subseteq> set (jq_submits q)"
    and "\<And>i a. live_job q' i a \<Longrightarrow> \<exists>b. live_job q i b \<and> touched svc b = touched svc a"
  shows "apart svc q'"
  unfolding apart_def
proof (intro conjI allI impI)
  show "length (jq_submits q') \<le> 1" using assms(1,2) by (simp add: apart_def)
  show "touched svc a \<inter> touched svc b = {}" if "live_job q' i a" "live_job q' k b" "i \<noteq> k" for i a k b
    using assms(4) [OF that(1)] assms(4) [OF that(2)] that(3) assms(1) unfolding apart_def by metis
  show "touched svc j \<inter> touched svc a = {}" if "Checked j \<in> set (jq_submits q')" "live_job q' i a" for j i a
    using assms(4) [OF that(2)] that(1) assms(1,3) unfolding apart_def by (metis subsetD)
qed

lemma update_live:
  assumes "jq_jobs q i = Some j" "jb_Type (f j) = jb_Type j" "jb_PackageName (f j) = jb_PackageName j"
    "job_active (f j) \<Longrightarrow> \<not> jb_cancelled (f j) \<Longrightarrow> job_active j \<and> \<not> jb_cancelled j"
    "jq_jobs q' = (jq_jobs q)(i := map_option f (jq_jobs q i))"
  shows "live_job q' k a \<Longrightarrow> \<exists>b. live_job q k b \<and> touched svc b = touched svc a"
  using assms touched_same [OF assms(2,3), of svc] by (auto simp: live_job_def split: if_splits)

lemma worker_at:
  assumes "jq_inv q" "w < length (jq_workers q)" "worker_job (jq_workers q ! w) = Some i"
  obtains j where "jq_jobs q i = Some j" "job_ok i j"
    "\<And>p. (i, p) \<in># worker_place (jq_workers q ! w) \<Longrightarrow> allowed p j"
  using worker_stored [OF assms] inv_job [OF assms(1)] worker_place_in [OF assms(2)] unfolding job_place_def by blast

lemma check_apart:
  assumes inv: "jq_inv q" and det: "jq_detector q = Some svc" and ap: "apart svc q" and order: "set order = dom (jq_jobs q)"
    and serial: "length (jq_submits q) < length (jq_submits (submit_check order j q)) \<longrightarrow> jq_submits q = []"
  shows "apart svc (submit_check order j q)"
proof (cases "detect_job_conflicts svc j (list_jobs order q) = Inr None")
  case False
  then have "jq_submits (submit_check order j q) = jq_submits q" "jq_jobs (submit_check order j q) = jq_jobs q"
    by (auto simp: submit_check_def det split: sum.splits option.splits)
  then show ?thesis by (intro apart_keeps [OF ap]) (auto simp: live_job_def)
next
  case True
  let ?q = "submit_check order j q"
  have q: "jq_submits ?q = jq_submits q @ [Checked j]" "jq_jobs ?q = jq_jobs q" by (simp_all add: submit_check_def det True)
  with serial have none: "jq_submits q = []" by simp
  have "touched svc j \<inter> touched svc a = {}" if "live_job q i a" for i a
  proof -
    have "a \<in> set (list_jobs order q)"
      using that order by (force simp: live_job_def list_jobs_def map_filter_def)
    then show ?thesis using True that unfolding detect_none live_job_def by blast
  qed
  moreover have "live_job ?q = live_job q" by (simp add: live_job_def fun_eq_iff q(2))
  ultimately show ?thesis using ap by (simp add: apart_def q(1) none)
qed

lemma store_apart:
  assumes inv: "jq_inv q" and ap: "apart svc q" and s: "jq_submits q = xs @ Checked j # ys"
  shows "apart svc (submit_store j (q\<lparr>jq_submits := xs @ Stored (jb_ID j) # ys\<rparr>))" (is "apart svc ?q")
proof -
  have e: "xs = []" "ys = []" using ap by (auto simp: apart_def s)
  have new: "Checked j \<in> set (jq_submits q)" by (simp add: s)
  have live: "live_job ?q i a \<longleftrightarrow> (if i = jb_ID j then a = j \<and> job_active j \<and> \<not> jb_cancelled j else live_job q i a)" for i a
    by (auto simp: live_job_def submit_store_def)
  have "touched svc a \<inter> touched svc b = {}" if "live_job ?q i a" "live_job ?q k b" "i \<noteq> k" for i a k b
    using that ap new unfolding live apart_def by (metis inf_commute)
  then show ?thesis by (simp add: apart_def e submit_store_def)
qed

lemma serial_apart:
  assumes inv: "jq_inv q" and det: "jq_detector q = Some svc" and ap: "apart svc q" and st: "serial_step q q'"
  shows "apart svc q'"
proof -
  have "jq_step q q'" using st by (simp add: serial_step_def)
  then show ?thesis
  proof (cases rule: jq_step.cases)
    case (js_check i order ty p prio now)
    show ?thesis unfolding js_check(1)
      by (rule check_apart [OF inv det ap js_check(4)]) (use st js_check(1) in \<open>simp add: serial_step_def\<close>)
  next
    case (js_store xs j ys)
    then show ?thesis using store_apart [OF inv ap] by simp
  next
    case (js_enqueue xs i ys)
    then show ?thesis by (intro apart_keeps [OF ap]) (auto simp: submit_enqueue_def live_job_def split: if_splits)
  next
    case (js_begin w i now)
    then obtain j where j: "jq_jobs q i = Some j" "job_ok i j" "allowed Waiting j"
      using worker_at [OF inv js_begin(2), of i] by auto
    have "job_active j" if "\<not> jb_cancelled j" using j(2,3) that by (auto simp: job_ok_def allowed_def job_active_def)
    then have "\<exists>b. live_job q k b \<and> touched svc b = touched svc a" if "live_job q' k a" for k a
      using that by (intro update_live [OF j(1), where f = "begin_job now" and q' = q']) (auto simp: js_begin(1) begin_job_def)
    then show ?thesis by (intro apart_keeps [OF ap]) (simp_all add: js_begin(1))
  next
    case (js_progress w i n)
    then obtain j where j: "jq_jobs q i = Some j" using worker_at [OF inv js_progress(2), of i] by auto
    then have "\<exists>b. live_job q k b \<and> touched svc b = touched svc a" if "live_job q' k a" for k a
      using that by (intro update_live [OF j, where f = "update_progress n" and q' = q'])
        (auto simp: js_progress(1) update_progress_def job_active_def)
    then show ?thesis by (intro apart_keeps [OF ap]) (simp_all add: js_progress(1))
  next
    case (js_finish w i err now)
    then obtain j where j: "jq_jobs q i = Some j" using worker_at [OF inv js_finish(2), of i] by auto
    have "\<not> job_active (finish_job now err j)" "jb_Type (finish_job now err j) = jb_Type j"
      "jb_PackageName (finish_job now err j) = jb_PackageName j"
      by (auto simp: finish_job_def job_active_def Let_def split: option.splits)
    then have "\<exists>b. live_job q k b \<and> touched svc b = touched svc a" if "live_job q' k a" for k a
      using that by (intro update_live [OF j, where f = "finish_job now err" and q' = q']) (simp_all add: js_finish(1))
    then show ?thesis by (intro apart_keeps [OF ap]) (simp_all add: js_finish(1))
  next
    case (js_cancel i j)
    then have j: "jq_jobs q i = Some j" by (auto simp: get_job_def split: option.splits)
    then have "\<exists>b. live_job q k b \<and> touched svc b = touched svc a" if "live_job q' k a" for k a
      using that by (intro update_live [OF j, where f = cancel_context and q' = q']) (auto simp: js_cancel(1) cancel_context_def)
    then show ?thesis by (intro apart_keeps [OF ap]) (simp_all add: js_cancel(1))
  next
    case (js_cancelled xs i ys)
    then obtain j where j: "jq_jobs q i = Some j" using inv by (auto simp: jq_inv_def cancels_ok_def)
    then have "\<exists>b. live_job q k b \<and> touched svc b = touched svc a" if "live_job q' k a" for k a
      using that by (intro update_live [OF j, where f = cancel_status and q' = q'])
        (auto simp: js_cancelled(1) cancel_status_def job_active_def)
    then show ?thesis by (intro apart_keeps [OF ap]) (simp_all add: js_cancelled(1))
  qed (intro apart_keeps [OF ap]; simp add: live_job_def; fail)+
qed

subsection \<open>Submitting as a whole\<close>

lemma reach_step: "jq_reachable m n det q \<Longrightarrow> jq_step q q' \<Longrightarrow> jq_reachable m n det q'"
  unfolding jq_reachable_def by (rule rtranclp.rtrancl_into_rtrancl)

lemma submit_serial:
  assumes "fresh_id i q" "distinct order" "set order = dom (jq_jobs q)" "jq_submits q = []"
  shows "serial_step\<^sup>*\<^sup>* q (submit order (new_job i ty p prio now) q)"
proof -
  let ?j = "new_job i ty p prio now"
  let ?q1 = "submit_check order ?j q"
  have s1: "serial_step q ?q1" using js_check [OF assms(1-3)] by (simp add: serial_step_def assms(4))
  show ?thesis
  proof (cases "jq_submits ?q1 = jq_submits q")
    case True
    with s1 show ?thesis by (simp add: submit_def r_into_rtranclp)
  next
    case False
    then have q1: "?q1 = q\<lparr>jq_submits := [Checked ?j]\<rparr>"
      using assms(4) by (auto simp: submit_check_def split: option.splits sum.splits)
    have e: "q\<lparr>jq_jobs := x, jq_submits := []\<rparr> = q\<lparr>jq_jobs := x\<rparr>" for x using assms(4) by (cases q) simp
    let ?q2 = "submit_store ?j (?q1\<lparr>jq_submits := [] @ Stored (jb_ID ?j) # []\<rparr>)"
    have s2: "serial_step ?q1 ?q2"
      unfolding serial_step_def by (rule conjI, rule js_store) (simp_all add: q1 submit_store_def)
    let ?q3 = "submit_enqueue (jb_ID ?j) (?q2\<lparr>jq_submits := [] @ []\<rparr>)"
    have s3: "serial_step ?q2 ?q3"
      unfolding serial_step_def by (rule conjI, rule js_enqueue) (simp_all add: submit_store_def submit_enqueue_def)
    have "?q3 = submit_enqueue (jb_ID ?j) (submit_store ?j q)"
      by (simp add: q1 submit_store_def e)
    then have "?q3 = submit order ?j q" using False by (simp add: submit_def)
    with s1 s2 s3 show ?thesis by (metis rtranclp.rtrancl_into_rtrancl rtranclp.rtrancl_refl)
  qed
qed

lemma serial_reachable:
  "serial_step\<^sup>*\<^sup>* (start_workers (new_job_queue m n det)) q \<Longrightarrow> jq_reachable m n det q"
proof -
  assume "serial_step\<^sup>*\<^sup>* (start_workers (new_job_queue m n det)) q"
  then have "jq_step\<^sup>*\<^sup>* (start_workers (new_job_queue m n det)) q"
    by (rule mono_rtranclp [rule_format, rotated]) (simp add: serial_step_def)
  then show ?thesis by (simp add: jq_reachable_def)
qed

lemma serial_apart_all:
  assumes "serial_step\<^sup>*\<^sup>* (start_workers (new_job_queue m n (Some svc))) q"
  shows "apart svc q"
  using assms
proof (induction rule: rtranclp_induct)
  case base
  show ?case by (simp add: apart_def live_job_def start_workers_def new_job_queue_def)
next
  case (step a b)
  from serial_reachable [OF step.hyps(1)] have "jq_inv a" "jq_detector a = Some svc" using reachable_inv by blast+
  then show ?case using step.IH step.hyps(2) by (rule serial_apart)
qed

subsection \<open>Properties\<close>

text \<open>
  Claim C17. In every interleaving the queue keeps its bounds and its counts, a job is executed by at most one
  worker and never again queued, a running job has its worker, a pending job has not been started, and a
  completed one has all its progress.
\<close>

theorem job_queue_invariant:
  assumes "jq_reachable m n det q"
  shows "length (jq_queue q) \<le> n \<and> distinct (jq_queue q) \<and>
    jq_activeWorkers q = int (length (filter worker_busy (jq_workers q))) \<and> jq_activeWorkers q \<le> int m \<and>
    (\<forall>w v i. w < m \<longrightarrow> v < m \<longrightarrow> worker_job (jq_workers q ! w) = Some i \<longrightarrow>
       i \<notin> set (jq_queue q) \<and> (worker_job (jq_workers q ! v) = Some i \<longrightarrow> v = w)) \<and>
    (\<forall>i j. jq_jobs q i = Some j \<longrightarrow> jb_ID j = i \<and>
       (jb_status j = JobStatusRunning \<longrightarrow> (\<exists>w < m. worker_job (jq_workers q ! w) = Some i)) \<and>
       (jb_status j = JobStatusPending \<longrightarrow> jb_startedAt j = None) \<and>
       (jb_status j = JobStatusCompleted \<longrightarrow> jb_progress j = 100 \<and> jb_completedAt j \<noteq> None))"
proof -
  from reachable_inv [OF assms] have inv: "jq_inv q" and m: "jq_maxWorkers q = m" "jq_queueSize q = n" by simp_all
  from inv have c: "length (jq_workers q) = m" "length (jq_queue q) \<le> n"
    "jq_activeWorkers q = int (length (filter worker_busy (jq_workers q)))"
    by (simp_all add: jq_inv_def counts_ok_def m)
  have job: "jb_ID j = i \<and> (jb_status j = JobStatusRunning \<longrightarrow> (\<exists>w < m. worker_job (jq_workers q ! w) = Some i)) \<and>
       (jb_status j = JobStatusPending \<longrightarrow> jb_startedAt j = None) \<and>
       (jb_status j = JobStatusCompleted \<longrightarrow> jb_progress j = 100 \<and> jb_completedAt j \<noteq> None)"
    if "jq_jobs q i = Some j" for i j
  proof -
    from inv_job [OF inv that] have ok: "job_ok i j" "job_place (places q) i j" by simp_all
    have "\<exists>w < m. worker_job (jq_workers q ! w) = Some i" if "jb_status j = JobStatusRunning"
      using executing_worker [of i q] ok(2) that unfolding c(1) job_place_def by fastforce
    moreover have "jb_startedAt j = None" if "jb_status j = JobStatusPending"
      using ok(2) that by (auto simp: job_place_def allowed_def)
    ultimately show ?thesis using ok(1) by (simp add: job_ok_def)
  qed
  have "length (filter worker_busy (jq_workers q)) \<le> m" using length_filter_le c(1) by metis
  with c(2,3) job queue_distinct [OF inv] one_worker [OF inv] c(1) show ?thesis by simp
qed

lemma start_reachable: "jq_reachable m n det (start_workers (new_job_queue m n det))"
  by (simp add: jq_reachable_def)

theorem job_queue_invariant_witness:
  "\<exists>q. jq_reachable 1 1 None q \<and> jq_queue q = [''a''] \<and> distinct (jq_queue q) \<and> length (jq_queue q) \<le> 1"
proof -
  let ?s = "start_workers (new_job_queue 1 1 None)"
  let ?q = "submit [] (new_job ''a'' JobTypeInstall ''app-misc/x'' JobPriorityNormal 0) ?s"
  have "serial_step\<^sup>*\<^sup>* ?s ?q" by (rule submit_serial) (simp_all add: fresh_id_def start_workers_def new_job_queue_def)
  then have r: "jq_reachable 1 1 None ?q" by (rule serial_reachable)
  have "jq_queue ?q = [''a'']"
    by (simp add: submit_def submit_check_def submit_store_def submit_enqueue_def new_job_def start_workers_def new_job_queue_def)
  with job_queue_invariant [OF r] r show ?thesis by blast
qed


definition demo_job :: "string \<Rightarrow> string \<Rightarrow> job" where
  "demo_job i p = new_job i JobTypeRemove p JobPriorityNormal 0"

definition demo_queue :: "nat \<Rightarrow> package_service \<Rightarrow> job_queue" where
  "demo_queue n svc = submit [''1''] (demo_job ''2'' ''b/y'')
     (submit [] (demo_job ''1'' ''a/x'') (start_workers (new_job_queue 1 n (Some svc))))"

lemma demo_first:
  "submit [] (demo_job ''1'' ''a/x'') (start_workers (new_job_queue 1 (Suc n) (Some svc))) =
    (start_workers (new_job_queue 1 (Suc n) (Some svc)))
      \<lparr>jq_jobs := [''1'' \<mapsto> demo_job ''1'' ''a/x''], jq_queue := [''1''], jq_returned := [(''1'', None)]\<rparr>"
  by (simp add: submit_def submit_check_def submit_store_def submit_enqueue_def demo_job_def new_job_def start_workers_def
      new_job_queue_def detect_job_conflicts_def list_jobs_def filter_active_jobs_def map_filter_def)

lemma demo_apart: "detect_job_conflicts svc (demo_job ''2'' ''b/y'') [demo_job ''1'' ''a/x''] = Inr None"
proof -
  have "extract_package_name ''a/x'' = ''a/x''" "extract_package_name ''b/y'' = ''b/y''" by code_simp+
  then show ?thesis by (simp add: detect_none touched_def get_affected_packages_def demo_job_def new_job_def)
qed

lemma demo_queue_eq:
  "demo_queue (Suc n) svc = submit_enqueue ''2'' (submit_store (demo_job ''2'' ''b/y'')
     ((start_workers (new_job_queue 1 (Suc n) (Some svc)))
      \<lparr>jq_jobs := [''1'' \<mapsto> demo_job ''1'' ''a/x''], jq_queue := [''1''], jq_returned := [(''1'', None)]\<rparr>))"
  unfolding demo_queue_def demo_first
  by (simp add: submit_def submit_check_def start_workers_def new_job_queue_def list_jobs_def map_filter_def demo_apart)
    (simp add: demo_job_def new_job_def)

lemma demo_queue_serial:
  "serial_step\<^sup>*\<^sup>* (start_workers (new_job_queue 1 (Suc n) (Some svc))) (demo_queue (Suc n) svc)"
proof -
  let ?s = "start_workers (new_job_queue 1 (Suc n) (Some svc))"
  have "serial_step\<^sup>*\<^sup>* ?s (submit [] (demo_job ''1'' ''a/x'') ?s)"
    unfolding demo_job_def by (rule submit_serial) (simp_all add: fresh_id_def start_workers_def new_job_queue_def)
  moreover have "serial_step\<^sup>*\<^sup>* (submit [] (demo_job ''1'' ''a/x'') ?s) (demo_queue (Suc n) svc)"
    unfolding demo_queue_def demo_first unfolding demo_job_def
    by (rule submit_serial) (simp_all add: fresh_id_def start_workers_def new_job_queue_def)
  ultimately show ?thesis by (rule rtranclp_trans)
qed

lemma demo_queue_jobs:
  "jq_jobs (demo_queue (Suc n) svc) = [''1'' \<mapsto> demo_job ''1'' ''a/x'', ''2'' \<mapsto> demo_job ''2'' ''b/y'']"
  by (simp add: demo_queue_eq submit_enqueue_def submit_store_def demo_job_def new_job_def)




text \<open>The runs of the next two properties, as lists of their states.\<close>

definition run_state :: "package_service option \<Rightarrow> nat \<Rightarrow> (string \<rightharpoonup> job) \<Rightarrow> string list \<Rightarrow> int \<Rightarrow> worker_state list \<Rightarrow>
   submit_state list \<Rightarrow> string list \<Rightarrow> (string \<times> string option) list \<Rightarrow> job_queue" where
  "run_state det m jobs queue act ws subs cs ret =
     \<lparr>jq_maxWorkers = m, jq_queueSize = m, jq_detector = det, jq_jobs = jobs, jq_queue = queue, jq_activeWorkers = act,
      jq_stopped = False, jq_workers = ws, jq_submits = subs, jq_cancels = cs, jq_returned = ret\<rparr>"

lemmas run_defs = run_state_def submit_check_def submit_store_def submit_enqueue_def update_job_def set_worker_def
  add_active_def fresh_id_def list_jobs_def map_filter_def detect_job_conflicts_def filter_active_jobs_def get_job_def

lemma new_job_ID [simp]: "jb_ID (new_job i ty p prio now) = i" "jb_status (new_job i ty p prio now) = JobStatusPending"
  by (simp_all add: new_job_def)

text \<open>
  Two concurrent calls of \<open>Submit\<close> for the same package both pass the check, because the check and
  the storing of the job are not one critical section: from the empty queue both jobs get to run at once,
  whatever the package and whatever the package service answers.
\<close>

theorem concurrent_submits_conflict:
  "\<exists>q a b. jq_reachable 2 2 (Some svc) q \<and> jq_jobs q ''a'' = Some a \<and> jq_jobs q ''b'' = Some b \<and>
     jb_status a = JobStatusRunning \<and> jb_status b = JobStatusRunning \<and> jb_PackageName a = p \<and> jb_PackageName b = p \<and>
     jq_workers q = [WorkerRunning ''a'', WorkerRunning ''b''] \<and> jq_returned q = [(''a'', None), (''b'', None)]"
proof -
  let ?A = "new_job ''a'' JobTypeInstall p JobPriorityNormal 0"
  let ?B = "new_job ''b'' JobTypeInstall p JobPriorityNormal 0"
  let ?R = "run_state (Some svc) 2"
  let ?I = "[WorkerIdle, WorkerIdle]"
  let ?J = "[''a'' \<mapsto> ?A, ''b'' \<mapsto> ?B]"
  let ?ret = "[(''a'', None), (''b'', None)]"
  have start: "start_workers (new_job_queue 2 2 (Some svc)) = ?R (\<lambda>_. None) [] 0 ?I [] [] []"
    by (simp add: start_workers_def new_job_queue_def run_defs numeral_2_eq_2)
  have 0: "jq_reachable 2 2 (Some svc) (?R (\<lambda>_. None) [] 0 ?I [] [] [])" using start_reachable start by metis
  have 1: "jq_step (?R (\<lambda>_. None) [] 0 ?I [] [] []) (?R (\<lambda>_. None) [] 0 ?I [Checked ?A] [] [])"
    using js_check [of "''a''" "?R (\<lambda>_. None) [] 0 ?I [] [] []" "[]"] by (simp add: run_defs)
  have 2: "jq_step (?R (\<lambda>_. None) [] 0 ?I [Checked ?A] [] []) (?R (\<lambda>_. None) [] 0 ?I [Checked ?A, Checked ?B] [] [])"
    using js_check [of "''b''" "?R (\<lambda>_. None) [] 0 ?I [Checked ?A] [] []" "[]"] by (simp add: run_defs)
  have 3: "jq_step (?R (\<lambda>_. None) [] 0 ?I [Checked ?A, Checked ?B] [] [])
      (?R [''a'' \<mapsto> ?A] [] 0 ?I [Stored ''a'', Checked ?B] [] [])"
    using js_store [of "?R (\<lambda>_. None) [] 0 ?I [Checked ?A, Checked ?B] [] []" "[]"] by (simp add: run_defs)
  have 4: "jq_step (?R [''a'' \<mapsto> ?A] [] 0 ?I [Stored ''a'', Checked ?B] [] []) (?R ?J [] 0 ?I [Stored ''a'', Stored ''b''] [] [])"
    using js_store [of "?R [''a'' \<mapsto> ?A] [] 0 ?I [Stored ''a'', Checked ?B] [] []" "[Stored ''a'']"] by (simp add: run_defs)
  have 5: "jq_step (?R ?J [] 0 ?I [Stored ''a'', Stored ''b''] [] []) (?R ?J [''a''] 0 ?I [Stored ''b''] [] [(''a'', None)])"
    using js_enqueue [of "?R ?J [] 0 ?I [Stored ''a'', Stored ''b''] [] []" "[]"] by (simp add: run_defs)
  have 6: "jq_step (?R ?J [''a''] 0 ?I [Stored ''b''] [] [(''a'', None)]) (?R ?J [''a'', ''b''] 0 ?I [] [] ?ret)"
    using js_enqueue [of "?R ?J [''a''] 0 ?I [Stored ''b''] [] [(''a'', None)]" "[]"] by (simp add: run_defs)
  have 7: "jq_step (?R ?J [''a'', ''b''] 0 ?I [] [] ?ret) (?R ?J [''b''] 1 [WorkerTaken ''a'', WorkerIdle] [] [] ?ret)"
    using js_take [of 0 "?R ?J [''a'', ''b''] 0 ?I [] [] ?ret"] by (simp add: run_defs)
  have 8: "jq_step (?R ?J [''b''] 1 [WorkerTaken ''a'', WorkerIdle] [] [] ?ret)
      (?R ?J [] 2 [WorkerTaken ''a'', WorkerTaken ''b''] [] [] ?ret)"
    using js_take [of 1 "?R ?J [''b''] 1 [WorkerTaken ''a'', WorkerIdle] [] [] ?ret"] by (simp add: run_defs)
  have 9: "jq_step (?R ?J [] 2 [WorkerTaken ''a'', WorkerTaken ''b''] [] [] ?ret)
      (?R ?J [] 2 [WorkerStarting ''a'', WorkerTaken ''b''] [] [] ?ret)"
    using js_pass [of 0 "?R ?J [] 2 [WorkerTaken ''a'', WorkerTaken ''b''] [] [] ?ret"] by (simp add: run_defs)
  have 10: "jq_step (?R ?J [] 2 [WorkerStarting ''a'', WorkerTaken ''b''] [] [] ?ret)
      (?R ?J [] 2 [WorkerStarting ''a'', WorkerStarting ''b''] [] [] ?ret)"
    using js_pass [of 1 "?R ?J [] 2 [WorkerStarting ''a'', WorkerTaken ''b''] [] [] ?ret"] by (simp add: run_defs)
  have 11: "jq_step (?R ?J [] 2 [WorkerStarting ''a'', WorkerStarting ''b''] [] [] ?ret)
      (?R (?J(''a'' \<mapsto> begin_job 0 ?A)) [] 2 [WorkerRunning ''a'', WorkerStarting ''b''] [] [] ?ret)"
    using js_begin [of 0 "?R ?J [] 2 [WorkerStarting ''a'', WorkerStarting ''b''] [] [] ?ret" "''a''" 0]
    by (simp add: run_defs fun_upd_twist)
  have 12: "jq_step (?R (?J(''a'' \<mapsto> begin_job 0 ?A)) [] 2 [WorkerRunning ''a'', WorkerStarting ''b''] [] [] ?ret)
      (?R (?J(''a'' \<mapsto> begin_job 0 ?A, ''b'' \<mapsto> begin_job 0 ?B)) [] 2 [WorkerRunning ''a'', WorkerRunning ''b''] [] [] ?ret)"
    using js_begin [of 1 "?R (?J(''a'' \<mapsto> begin_job 0 ?A)) [] 2 [WorkerRunning ''a'', WorkerStarting ''b''] [] [] ?ret" "''b''" 0]
    by (simp add: run_defs fun_upd_twist)
  note r = 0 [THEN reach_step, OF 1, THEN reach_step, OF 2, THEN reach_step, OF 3, THEN reach_step, OF 4,
      THEN reach_step, OF 5, THEN reach_step, OF 6, THEN reach_step, OF 7, THEN reach_step, OF 8, THEN reach_step, OF 9,
      THEN reach_step, OF 10, THEN reach_step, OF 11, THEN reach_step, OF 12]
  show ?thesis
    by (intro exI conjI, rule r) (simp_all add: run_state_def begin_job_def new_job_def, simp_all)
qed

text \<open>
  A cancelled job can still complete: when \<open>CancelJob\<close> runs between the test at the start of
  \<open>executeJob\<close> and the assignment of the status, it returns without an error, but the worker overwrites the
  status and the job ends as completed although its context is cancelled.
\<close>

theorem cancelled_job_completes:
  "\<exists>q r j k. jq_reachable 1 1 None q \<and> jq_jobs q ''a'' = Some j \<and> jb_status j = JobStatusCancelled \<and> jq_cancels q = [] \<and>
     jq_step\<^sup>*\<^sup>* q r \<and> jq_cancels r = [] \<and> jq_jobs r ''a'' = Some k \<and> jb_status k = JobStatusCompleted \<and> jb_cancelled k"
proof -
  let ?A = "new_job ''a'' JobTypeInstall p JobPriorityNormal 0"
  let ?R = "run_state None 1"
  let ?ret = "[(''a'', None)]"
  let ?C = "cancel_context ?A"
  let ?D = "cancel_status ?C"
  let ?E = "begin_job 0 ?D"
  have start: "start_workers (new_job_queue 1 1 None) = ?R (\<lambda>_. None) [] 0 [WorkerIdle] [] [] []"
    by (simp add: start_workers_def new_job_queue_def run_defs)
  have 0: "jq_reachable 1 1 None (?R (\<lambda>_. None) [] 0 [WorkerIdle] [] [] [])" using start_reachable start by metis
  have 1: "jq_step (?R (\<lambda>_. None) [] 0 [WorkerIdle] [] [] []) (?R (\<lambda>_. None) [] 0 [WorkerIdle] [Checked ?A] [] [])"
    using js_check [of "''a''" "?R (\<lambda>_. None) [] 0 [WorkerIdle] [] [] []" "[]"] by (simp add: run_defs)
  have 2: "jq_step (?R (\<lambda>_. None) [] 0 [WorkerIdle] [Checked ?A] [] []) (?R [''a'' \<mapsto> ?A] [] 0 [WorkerIdle] [Stored ''a''] [] [])"
    using js_store [of "?R (\<lambda>_. None) [] 0 [WorkerIdle] [Checked ?A] [] []" "[]"] by (simp add: run_defs)
  have 3: "jq_step (?R [''a'' \<mapsto> ?A] [] 0 [WorkerIdle] [Stored ''a''] [] []) (?R [''a'' \<mapsto> ?A] [''a''] 0 [WorkerIdle] [] [] ?ret)"
    using js_enqueue [of "?R [''a'' \<mapsto> ?A] [] 0 [WorkerIdle] [Stored ''a''] [] []" "[]"] by (simp add: run_defs)
  have 4: "jq_step (?R [''a'' \<mapsto> ?A] [''a''] 0 [WorkerIdle] [] [] ?ret) (?R [''a'' \<mapsto> ?A] [] 1 [WorkerTaken ''a''] [] [] ?ret)"
    using js_take [of 0 "?R [''a'' \<mapsto> ?A] [''a''] 0 [WorkerIdle] [] [] ?ret"] by (simp add: run_defs)
  have 5: "jq_step (?R [''a'' \<mapsto> ?A] [] 1 [WorkerTaken ''a''] [] [] ?ret) (?R [''a'' \<mapsto> ?A] [] 1 [WorkerStarting ''a''] [] [] ?ret)"
    using js_pass [of 0 "?R [''a'' \<mapsto> ?A] [] 1 [WorkerTaken ''a''] [] [] ?ret"] by (simp add: run_defs)
  have 6: "jq_step (?R [''a'' \<mapsto> ?A] [] 1 [WorkerStarting ''a''] [] [] ?ret)
      (?R [''a'' \<mapsto> ?C] [] 1 [WorkerStarting ''a''] [] [''a''] ?ret)"
    using js_cancel [of "?R [''a'' \<mapsto> ?A] [] 1 [WorkerStarting ''a''] [] [] ?ret" "''a''"] by (simp add: run_defs)
  have 7: "jq_step (?R [''a'' \<mapsto> ?C] [] 1 [WorkerStarting ''a''] [] [''a''] ?ret)
      (?R [''a'' \<mapsto> ?D] [] 1 [WorkerStarting ''a''] [] [] ?ret)"
    using js_cancelled [of "?R [''a'' \<mapsto> ?C] [] 1 [WorkerStarting ''a''] [] [''a''] ?ret" "[]" "''a''"] by (simp add: run_defs)
  have 8: "jq_step (?R [''a'' \<mapsto> ?D] [] 1 [WorkerStarting ''a''] [] [] ?ret) (?R [''a'' \<mapsto> ?E] [] 1 [WorkerRunning ''a''] [] [] ?ret)"
    using js_begin [of 0 "?R [''a'' \<mapsto> ?D] [] 1 [WorkerStarting ''a''] [] [] ?ret" "''a''" 0] by (simp add: run_defs)
  have 9: "jq_step (?R [''a'' \<mapsto> ?E] [] 1 [WorkerRunning ''a''] [] [] ?ret) (?R [''a'' \<mapsto> ?E] [] 1 [WorkerReturned ''a'' None] [] [] ?ret)"
    using js_return [of 0 "?R [''a'' \<mapsto> ?E] [] 1 [WorkerRunning ''a''] [] [] ?ret"] by (simp add: run_defs)
  have 10: "jq_step (?R [''a'' \<mapsto> ?E] [] 1 [WorkerReturned ''a'' None] [] [] ?ret)
      (?R [''a'' \<mapsto> finish_job 0 None ?E] [] 1 [WorkerLeaving ''a''] [] [] ?ret)"
    using js_finish [of 0 "?R [''a'' \<mapsto> ?E] [] 1 [WorkerReturned ''a'' None] [] [] ?ret" "''a''" None 0] by (simp add: run_defs)
  note q = 0 [THEN reach_step, OF 1, THEN reach_step, OF 2, THEN reach_step, OF 3, THEN reach_step, OF 4,
      THEN reach_step, OF 5, THEN reach_step, OF 6, THEN reach_step, OF 7]
  have r: "jq_step\<^sup>*\<^sup>* (?R [''a'' \<mapsto> ?D] [] 1 [WorkerStarting ''a''] [] [] ?ret)
      (?R [''a'' \<mapsto> finish_job 0 None ?E] [] 1 [WorkerLeaving ''a''] [] [] ?ret)"
    using 8 9 10 by (meson converse_rtranclp_into_rtranclp rtranclp.rtrancl_refl)
  show ?thesis
    by (rule exI, rule exI, rule exI, rule exI, rule conjI [OF q], intro conjI, rule_tac [4] r)
      (simp_all add: run_state_def begin_job_def new_job_def finish_job_def cancel_context_def cancel_status_def, simp_all)
qed

text \<open>
  Claim C29. As long as the queue is not stopped and has a worker, every state can be run to one in which the
  queue is empty, all workers are idle and every job that was accepted has completed, failed or been cancelled.
\<close>

theorem job_queue_drains:
  assumes "jq_reachable m n det q" "0 < m" "\<not> jq_stopped q"
  shows "\<exists>r. jq_step\<^sup>*\<^sup>* q r \<and> jq_queue r = [] \<and> jq_submits r = [] \<and> jq_activeWorkers r = 0 \<and>
    list_all (\<lambda>x. x = WorkerIdle) (jq_workers r) \<and>
    (\<forall>i j. jq_jobs r i = Some j \<longrightarrow> i \<notin> fst ` {(k, e) \<in> set (jq_returned r). e \<noteq> None} \<longrightarrow>
       jb_status j \<in> {JobStatusCompleted, JobStatusFailed, JobStatusCancelled})"
proof -
  from reachable_inv [OF assms(1)] assms(2) have "jq_inv q" "0 < jq_maxWorkers q" by simp_all
  from drain [OF this assms(3)] obtain r where r: "jq_step\<^sup>*\<^sup>* q r" "work_left r = 0" "\<not> jq_stopped r" by blast
  have "jq_reachable m n det r" using assms(1) r(1) unfolding jq_reachable_def by (rule rtranclp_trans)
  then have inv: "jq_inv r" using reachable_inv by blast
  note d = drained [OF inv r(3,2)]
  have "\<not> worker_busy x" if "x \<in> set (jq_workers r)" for x by (simp add: d(3) [OF that])
  then have "filter worker_busy (jq_workers r) = []" by (simp add: filter_empty_conv)
  then have act: "jq_activeWorkers r = 0" using inv by (simp add: jq_inv_def counts_ok_def)
  have "jb_status j \<in> {JobStatusCompleted, JobStatusFailed, JobStatusCancelled}"
    if "jq_jobs r i = Some j" "i \<notin> fst ` {(k, e) \<in> set (jq_returned r). e \<noteq> None}" for i j
  proof -
    have "(i, p) \<notin># places r" for p using d(4) [of i p] that(2) by force
    then have "jb_status j \<noteq> JobStatusPending" "jb_status j \<noteq> JobStatusRunning"
      using inv_job [OF inv that(1)] by (auto simp: job_place_def)
    then show ?thesis by (cases "jb_status j") simp_all
  qed
  with r(1) d(1-3) act show ?thesis by (intro exI [where x = r]) (simp add: list_all_iff)
qed

theorem job_queue_drains_witness:
  "\<exists>r. jq_step\<^sup>*\<^sup>* (demo_queue 1 (\<lambda>_. Inl [])) r \<and> jq_queue r = []"
proof -
  let ?q = "demo_queue (Suc 0) (\<lambda>_. Inl [])"
  have r: "jq_reachable 1 (Suc 0) (Some (\<lambda>_. Inl [])) ?q" by (rule serial_reachable [OF demo_queue_serial])
  have "\<not> jq_stopped ?q"
    by (simp add: demo_queue_eq submit_enqueue_def submit_store_def start_workers_def new_job_queue_def)
  from job_queue_drains [OF r _ this] show ?thesis by auto
qed

end
