(* ===== verification/Masks.thy ===== *)
theory Masks
  imports Packages
begin

text \<open>
  Package masks: the manager of \<open>internal/mask/manager.go\<close> and the atoms of its files
  (\<open>internal/config/atom.go\<close>), which are not those of \<open>internal/pkg/atom.go\<close>. The files come as lists of lines, a
  profile as its parents and the lines of its two files. \<open>IsPackageMasked\<close> is the predicate the resolver
  theories take as the argument \<open>rv_masked\<close>.
\<close>

subsection \<open>Atoms of configuration files\<close>

record package_atom =
  pt_Operator :: string
  pt_Category :: string
  pt_Name :: string
  pt_Version :: string
  pt_Slot :: string
  pt_Repository :: string
  pt_Raw :: string

text \<open>\<open>strings.Index\<close>: the first occurrence of a substring.\<close>

fun index_sub :: "string \<Rightarrow> string \<Rightarrow> nat option" where
  "index_sub [] p = (if p = [] then Some 0 else None)"
| "index_sub (c # s) p = (if has_prefix (c # s) p then Some 0 else map_option Suc (index_sub s p))"

definition mask_operators :: "string list" where
  "mask_operators = [''>='', ''<='', ''>'', ''<'', ''~'', ''=*'', ''='']"

definition split_operator :: "string \<Rightarrow> string \<times> string" where
  "split_operator s =
     (case List.find (has_prefix s) mask_operators of None \<Rightarrow> ([], s) | Some op \<Rightarrow> (op, trim_prefix s op))"

definition split_name_version :: "string \<Rightarrow> string \<Rightarrow> string \<times> string" where
  "split_name_version op nv =
     (if op \<noteq> [] then
        (case split_dash nv of Some (n, v) \<Rightarrow> if 0 < length n then (n, v) else (nv, []) | None \<Rightarrow> (nv, []))
      else (nv, []))"

definition split_slot_repository :: "string \<Rightarrow> string \<times> string \<times> string" where
  "split_slot_repository raw =
     (let (a, repo) = (case index_sub raw ''::'' of Some i \<Rightarrow> (take i raw, drop (i + 2) raw) | None \<Rightarrow> (raw, []));
          (a', slot) = (case index_byte a CHR '':'' of Some i \<Rightarrow> (take i a, drop (Suc i) a) | None \<Rightarrow> (a, []))
      in (a', slot, repo))"

definition split_wildcard_operator :: "string \<Rightarrow> string \<times> string" where
  "split_wildcard_operator s =
     (let (op, a) = split_operator s in
      if op = ''='' \<and> has_suffix a ''*'' then (''=*'', trim_suffix a ''*'') else (op, a))"

definition parse_package_pattern :: "string \<Rightarrow> package_atom" where
  "parse_package_pattern raw =
     (let (a, slot, repo) = split_slot_repository raw; (op, body) = split_wildcard_operator a
      in case splitn2_byte CHR ''/'' body of
           [category, nv] \<Rightarrow>
             (let (n, v) = split_name_version op nv in
              \<lparr>pt_Operator = op, pt_Category = category, pt_Name = n, pt_Version = v, pt_Slot = slot, pt_Repository = repo,
               pt_Raw = raw\<rparr>)
         | _ \<Rightarrow> \<lparr>pt_Operator = op, pt_Category = [], pt_Name = [], pt_Version = [], pt_Slot = slot, pt_Repository = repo,
                pt_Raw = raw\<rparr>)"

definition match_pattern :: "string \<Rightarrow> string \<Rightarrow> bool" where
  "match_pattern p v =
     (if p = ''*'' then True else if p = v then True
      else if has_suffix p ''*'' then has_prefix v (trim_suffix p ''*'')
      else if has_prefix p ''*'' then has_suffix v (trim_prefix p ''*'')
      else False)"

definition match_slot :: "string \<Rightarrow> string \<Rightarrow> bool" where
  "match_slot a p =
     (if a = ''*'' then True
      else let as = splitn2_byte CHR ''/'' a; ps = splitn2_byte CHR ''/'' p in
        if as ! 0 \<noteq> ps ! 0 \<and> as ! 0 \<noteq> ''*'' then False
        else if 1 < length as \<and> 1 < length ps then as ! 1 = ps ! 1 \<or> as ! 1 = ''*''
        else True)"

text \<open>The last \<open>-r\<close> with nothing but digits behind it.\<close>

fun revision_at :: "string \<Rightarrow> nat option" where
  "revision_at [] = None"
| "revision_at (c # s) =
     (case revision_at s of
        Some i \<Rightarrow> Some (Suc i)
      | None \<Rightarrow> if c = CHR ''-'' \<and> has_prefix s ''r'' \<and> 1 < length s \<and> list_all is_digit (drop 1 s) then Some 0 else None)"

definition cut_revision :: "string \<Rightarrow> string" where
  "cut_revision v = (case revision_at v of Some i \<Rightarrow> if 0 < i then take i v else v | None \<Rightarrow> v)"

definition pattern_matches_version :: "coregex \<Rightarrow> package_atom \<Rightarrow> string \<Rightarrow> bool" where
  "pattern_matches_version rx a v =
     (if v = [] then pt_Operator a = []
      else let cmp = compare_version_strings rx v (pt_Version a) in
        if pt_Operator a = ''='' then cmp = 0
        else if pt_Operator a = ''>='' then 0 \<le> cmp
        else if pt_Operator a = ''<='' then cmp \<le> 0
        else if pt_Operator a = ''>'' then 0 < cmp
        else if pt_Operator a = ''<'' then cmp < 0
        else if pt_Operator a = ''~'' then compare_version_strings rx (cut_revision v) (cut_revision (pt_Version a)) = 0
        else if pt_Operator a = ''=*'' then has_prefix v (pt_Version a)
        else True)"

definition pattern_matches :: "coregex \<Rightarrow> package_atom \<Rightarrow> string \<Rightarrow> string \<Rightarrow> string \<Rightarrow> string \<Rightarrow> bool" where
  "pattern_matches rx a category n v slot =
     (if \<not> match_pattern (pt_Category a) category then False
      else if \<not> match_pattern (pt_Name a) n then False
      else if pt_Slot a \<noteq> [] \<and> slot \<noteq> [] \<and> \<not> match_slot (pt_Slot a) slot then False
      else if pt_Operator a \<noteq> [] \<and> pt_Version a \<noteq> [] \<and> \<not> pattern_matches_version rx a v then False
      else True)"

datatype atom_specificity =
  SpecificityWildcard | SpecificityWildcardSlot | SpecificityCP | SpecificityRange | SpecificitySlot
| SpecificityVersionPrefix | SpecificityRevision | SpecificityExact

definition get_specificity :: "package_atom \<Rightarrow> atom_specificity" where
  "get_specificity a =
     (if CHR ''*'' \<in> set (pt_Category a) \<or> CHR ''*'' \<in> set (pt_Name a) then
        (if pt_Slot a \<noteq> [] then SpecificityWildcardSlot else SpecificityWildcard)
      else if pt_Operator a = ''='' then SpecificityExact
      else if pt_Operator a = ''~'' then SpecificityRevision
      else if pt_Operator a = ''=*'' then SpecificityVersionPrefix
      else if pt_Operator a \<in> {''>='', ''<='', ''>'', ''<''} then SpecificityRange
      else if pt_Slot a \<noteq> [] then SpecificitySlot
      else SpecificityCP)"

subsection \<open>Entries\<close>

record mask_entry =
  me_Atom :: "package_atom option"
  me_Source :: string
  me_SourceFile :: string
  me_IsNegation :: bool

fun load_mask_file :: "string \<Rightarrow> string \<Rightarrow> string list \<Rightarrow> mask_entry list" where
  "load_mask_file path source [] = []"
| "load_mask_file path source (l # ls) =
     (let line = trim_space l in
      if line = [] \<or> has_prefix line ''#'' then load_mask_file path source ls
      else let neg = has_prefix line ''-''; line1 = (if neg then drop 1 line else line); a = parse_package_pattern line1 in
        if pt_Category a = [] \<or> pt_Name a = [] then load_mask_file path source ls
        else \<lparr>me_Atom = Some a, me_Source = source, me_SourceFile = path, me_IsNegation = neg\<rparr> # load_mask_file path source ls)"

text \<open>
  The cascade of profiles: the entries of the parents, then the own masks, then the own unmasks as negations.
  The recursion follows the parents; fuel stands for the stack.
\<close>

record profile_dir =
  pd_parents :: "string list"
  pd_masks :: "mask_entry list"
  pd_unmasks :: "mask_entry list"

fun load_cascade :: "nat \<Rightarrow> (string \<Rightarrow> profile_dir) \<Rightarrow> string \<Rightarrow> mask_entry list option" where
  "load_cascade 0 fs p = None"
| "load_cascade (Suc n) fs p =
     (if list_all (\<lambda>q. load_cascade n fs q \<noteq> None) (pd_parents (fs p))
      then Some (concat (map (\<lambda>q. the (load_cascade n fs q)) (pd_parents (fs p))) @ pd_masks (fs p) @
        map (\<lambda>e. e\<lparr>me_IsNegation := True\<rparr>) (pd_unmasks (fs p)))
      else None)"

subsection \<open>The manager\<close>

record mask_manager =
  mm_repoMasks :: "mask_entry list"
  mm_profileMasks :: "mask_entry list"
  mm_userMasks :: "mask_entry list"
  mm_userUnmasks :: "mask_entry list"
  mm_maskIndex :: "string \<rightharpoonup> mask_entry list"
  mm_unmaskIndex :: "string \<rightharpoonup> mask_entry list"

definition index_add :: "string \<Rightarrow> mask_entry \<Rightarrow> (string \<rightharpoonup> mask_entry list) \<Rightarrow> (string \<rightharpoonup> mask_entry list)" where
  "index_add k e m = m(k \<mapsto> (case m k of Some es \<Rightarrow> es | None \<Rightarrow> []) @ [e])"

definition atom_key :: "package_atom \<Rightarrow> string" where
  "atom_key a = pt_Category a @ ''/'' @ pt_Name a"

definition add_to_unmask_index :: "mask_entry \<Rightarrow> mask_manager \<Rightarrow> mask_manager" where
  "add_to_unmask_index e m =
     (case me_Atom e of None \<Rightarrow> m | Some a \<Rightarrow> m\<lparr>mm_unmaskIndex := index_add (atom_key a) e (mm_unmaskIndex m)\<rparr>)"

definition add_to_mask_index :: "mask_entry \<Rightarrow> mask_manager \<Rightarrow> mask_manager" where
  "add_to_mask_index e m =
     (case me_Atom e of
        None \<Rightarrow> m
      | Some a \<Rightarrow>
          if me_IsNegation e then m\<lparr>mm_unmaskIndex := index_add (atom_key a) e (mm_unmaskIndex m)\<rparr>
          else m\<lparr>mm_maskIndex := index_add (atom_key a) e (mm_maskIndex m)\<rparr>)"

definition build_mask_index :: "mask_manager \<Rightarrow> mask_manager" where
  "build_mask_index m =
     fold add_to_unmask_index (mm_userUnmasks m)
       (fold add_to_mask_index (mm_userMasks m)
         (fold add_to_mask_index (mm_profileMasks m) (fold add_to_mask_index (mm_repoMasks m) m)))"

text \<open>\<open>NewMaskManager\<close>; a source that cannot be read leaves its list empty.\<close>

definition new_mask_manager :: "mask_entry list \<Rightarrow> mask_entry list \<Rightarrow> mask_entry list \<Rightarrow> mask_entry list \<Rightarrow> mask_manager" where
  "new_mask_manager repo profile user unmask =
     build_mask_index \<lparr>mm_repoMasks = repo, mm_profileMasks = profile, mm_userMasks = user, mm_userUnmasks = unmask,
       mm_maskIndex = (\<lambda>_. None), mm_unmaskIndex = (\<lambda>_. None)\<rparr>"

text \<open>The loop over the entries of a key, shared by the three queries.\<close>

definition first_match ::
  "coregex \<Rightarrow> (string \<rightharpoonup> mask_entry list) \<Rightarrow> string \<Rightarrow> string \<Rightarrow> string \<Rightarrow> string \<Rightarrow> mask_entry option" where
  "first_match rx idx category n v slot =
     (case idx (category @ ''/'' @ n) of
        None \<Rightarrow> None
      | Some es \<Rightarrow> List.find (\<lambda>e. case me_Atom e of Some a \<Rightarrow> pattern_matches rx a category n v slot | None \<Rightarrow> False) es)"

definition is_unmasked :: "coregex \<Rightarrow> mask_manager \<Rightarrow> string \<Rightarrow> string \<Rightarrow> string \<Rightarrow> string \<Rightarrow> bool" where
  "is_unmasked rx m category n v slot \<longleftrightarrow> first_match rx (mm_unmaskIndex m) category n v slot \<noteq> None"

definition is_masked :: "coregex \<Rightarrow> mask_manager \<Rightarrow> string \<Rightarrow> string \<Rightarrow> string \<Rightarrow> string \<Rightarrow> bool" where
  "is_masked rx m category n v slot =
     (if is_unmasked rx m category n v slot then False else first_match rx (mm_maskIndex m) category n v slot \<noteq> None)"

definition get_mask_atom :: "coregex \<Rightarrow> mask_manager \<Rightarrow> string \<Rightarrow> string \<Rightarrow> string \<Rightarrow> string \<Rightarrow> package_atom option" where
  "get_mask_atom rx m category n v slot =
     (if is_unmasked rx m category n v slot then None
      else Option.bind (first_match rx (mm_maskIndex m) category n v slot) me_Atom)"

definition get_mask_reason :: "coregex \<Rightarrow> mask_manager \<Rightarrow> string \<Rightarrow> string \<Rightarrow> string \<Rightarrow> string \<Rightarrow> string \<times> string" where
  "get_mask_reason rx m category n v slot =
     (if is_unmasked rx m category n v slot then ([], [])
      else case first_match rx (mm_maskIndex m) category n v slot of
        Some e \<Rightarrow> (case me_Atom e of Some a \<Rightarrow> (pt_Raw a, me_Source e) | None \<Rightarrow> ([], []))
      | None \<Rightarrow> ([], []))"

definition is_package_masked :: "coregex \<Rightarrow> mask_manager \<Rightarrow> package option \<Rightarrow> bool" where
  "is_package_masked rx m p =
     (case p of
        None \<Rightarrow> False
      | Some p \<Rightarrow>
          (case splitn2_byte CHR ''/'' (p_Name p) of
             [category, n] \<Rightarrow> is_masked rx m category n (p_Version p) (sl_Name (p_Slot p))
           | _ \<Rightarrow> False))"

subsection \<open>What the index holds\<close>

definition entries_at :: "(string \<rightharpoonup> mask_entry list) \<Rightarrow> string \<Rightarrow> mask_entry list" where
  "entries_at idx k = (case idx k of Some es \<Rightarrow> es | None \<Rightarrow> [])"

definition keyed :: "string \<Rightarrow> mask_entry \<Rightarrow> bool" where
  "keyed k e \<longleftrightarrow> (case me_Atom e of Some a \<Rightarrow> atom_key a = k | None \<Rightarrow> False)"

definition applies :: "coregex \<Rightarrow> string \<Rightarrow> string \<Rightarrow> string \<Rightarrow> string \<Rightarrow> mask_entry \<Rightarrow> bool" where
  "applies rx category n v slot e \<longleftrightarrow>
     (case me_Atom e of Some a \<Rightarrow> atom_key a = category @ ''/'' @ n \<and> pattern_matches rx a category n v slot | None \<Rightarrow> False)"

lemma entries_add [simp]: "entries_at (index_add k e m) j = entries_at m j @ (if j = k then [e] else [])"
  by (simp add: entries_at_def index_add_def)

lemma add_mask_entries:
  "entries_at (mm_maskIndex (add_to_mask_index e m)) k =
    entries_at (mm_maskIndex m) k @ filter (keyed k) (if me_IsNegation e then [] else [e])"
  "entries_at (mm_unmaskIndex (add_to_mask_index e m)) k =
    entries_at (mm_unmaskIndex m) k @ filter (keyed k) (if me_IsNegation e then [e] else [])"
  by (auto simp: add_to_mask_index_def keyed_def split: option.split)

lemma add_unmask_entries:
  "entries_at (mm_maskIndex (add_to_unmask_index e m)) k = entries_at (mm_maskIndex m) k"
  "entries_at (mm_unmaskIndex (add_to_unmask_index e m)) k = entries_at (mm_unmaskIndex m) k @ filter (keyed k) [e]"
  by (auto simp: add_to_unmask_index_def keyed_def split: option.split)

lemma fold_mask_entries:
  "entries_at (mm_maskIndex (fold add_to_mask_index es m)) k =
     entries_at (mm_maskIndex m) k @ filter (keyed k) (filter (\<lambda>e. \<not> me_IsNegation e) es)"
  "entries_at (mm_unmaskIndex (fold add_to_mask_index es m)) k =
     entries_at (mm_unmaskIndex m) k @ filter (keyed k) (filter me_IsNegation es)"
  by (induction es arbitrary: m) (simp_all add: add_mask_entries)

lemma fold_unmask_entries:
  "entries_at (mm_maskIndex (fold add_to_unmask_index es m)) k = entries_at (mm_maskIndex m) k"
  "entries_at (mm_unmaskIndex (fold add_to_unmask_index es m)) k = entries_at (mm_unmaskIndex m) k @ filter (keyed k) es"
  by (induction es arbitrary: m) (simp_all add: add_unmask_entries)

lemma manager_entries:
  "entries_at (mm_maskIndex (new_mask_manager repo profile user unmask)) k =
     filter (keyed k) (filter (\<lambda>e. \<not> me_IsNegation e) (repo @ profile @ user))"
  "entries_at (mm_unmaskIndex (new_mask_manager repo profile user unmask)) k =
     filter (keyed k) (filter me_IsNegation (repo @ profile @ user) @ unmask)"
  unfolding new_mask_manager_def build_mask_index_def mask_manager.simps fold_mask_entries fold_unmask_entries
  by (simp_all add: entries_at_def)

lemma first_match_entries:
  "first_match rx idx category n v slot =
     List.find (applies rx category n v slot) (filter (keyed (category @ ''/'' @ n)) (entries_at idx (category @ ''/'' @ n)))"
  if "list_all (keyed (category @ ''/'' @ n)) (entries_at idx (category @ ''/'' @ n))"
proof -
  have "List.find (\<lambda>e. case me_Atom e of Some a \<Rightarrow> pattern_matches rx a category n v slot | None \<Rightarrow> False) es =
      List.find (applies rx category n v slot) es" if "list_all (keyed (category @ ''/'' @ n)) es" for es
    using that by (induction es) (auto simp: applies_def keyed_def split: option.splits)
  moreover have "filter (keyed (category @ ''/'' @ n)) (entries_at idx (category @ ''/'' @ n)) = entries_at idx (category @ ''/'' @ n)"
    using that by (simp add: filter_id_conv list_all_iff)
  ultimately have "List.find (\<lambda>e. case me_Atom e of Some a \<Rightarrow> pattern_matches rx a category n v slot | None \<Rightarrow> False)
      (entries_at idx (category @ ''/'' @ n)) =
     List.find (applies rx category n v slot) (filter (keyed (category @ ''/'' @ n)) (entries_at idx (category @ ''/'' @ n)))"
    using that by simp
  moreover have "first_match rx idx category n v slot =
      List.find (\<lambda>e. case me_Atom e of Some a \<Rightarrow> pattern_matches rx a category n v slot | None \<Rightarrow> False)
        (entries_at idx (category @ ''/'' @ n))"
    by (cases "idx (category @ ''/'' @ n)") (simp_all add: first_match_def entries_at_def)
  ultimately show ?thesis by (simp only:)
qed

lemma applies_keyed: "applies rx category n v slot e \<Longrightarrow> keyed (category @ ''/'' @ n) e"
  by (auto simp: applies_def keyed_def split: option.splits)

lemma found_iff: "List.find P xs \<noteq> None \<longleftrightarrow> list_ex P xs"
  by (induction xs) auto

lemma matches_manager:
  "first_match rx (mm_maskIndex (new_mask_manager repo profile user unmask)) category n v slot =
     List.find (applies rx category n v slot) (filter (keyed (category @ ''/'' @ n)) (filter (\<lambda>e. \<not> me_IsNegation e) (repo @ profile @ user)))"
  "first_match rx (mm_unmaskIndex (new_mask_manager repo profile user unmask)) category n v slot =
     List.find (applies rx category n v slot) (filter (keyed (category @ ''/'' @ n)) (filter me_IsNegation (repo @ profile @ user) @ unmask))"
  by (subst first_match_entries; auto simp: manager_entries list_all_iff)+

lemma list_ex_keyed:
  "list_ex (applies rx category n v slot) (filter (keyed (category @ ''/'' @ n)) es) = list_ex (applies rx category n v slot) es"
  using applies_keyed by (auto simp: list_ex_iff)

lemma manager_masked:
  "is_masked rx (new_mask_manager repo profile user unmask) category n v slot \<longleftrightarrow>
      list_ex (\<lambda>e. \<not> me_IsNegation e \<and> applies rx category n v slot e) (repo @ profile @ user) \<and>
      \<not> list_ex (\<lambda>e. me_IsNegation e \<and> applies rx category n v slot e) (repo @ profile @ user) \<and>
      \<not> list_ex (applies rx category n v slot) unmask"
proof -
  have filt: "list_ex (applies rx category n v slot) (filter P es) = list_ex (\<lambda>e. P e \<and> applies rx category n v slot e) es" for P es
    by (auto simp: list_ex_iff)
  show ?thesis
    unfolding is_masked_def is_unmasked_def matches_manager found_iff list_ex_keyed list_ex_append filt by auto
qed

subsection \<open>Patterns as text\<close>

definition pattern_text :: "string \<Rightarrow> string \<Rightarrow> string \<Rightarrow> string \<Rightarrow> string \<Rightarrow> string \<Rightarrow> string" where
  "pattern_text op category n v slot repo =
     (if op = ''=*'' then ''='' else op) @ category @ ''/'' @ n @ (if op \<noteq> [] then ''-'' @ v else []) @
     (if op = ''=*'' then ''*'' else []) @ (if slot \<noteq> [] then '':'' @ slot else []) @ (if repo \<noteq> [] then ''::'' @ repo else [])"

definition plain_part :: "string \<Rightarrow> bool" where
  "plain_part s \<longleftrightarrow> s \<noteq> [] \<and> list_all (\<lambda>c. c \<notin> set '':/*><=~'') s"

lemma index_colons:
  "CHR '':'' \<notin> set s \<Longrightarrow> index_sub s ''::'' = None"
  "CHR '':'' \<notin> set s \<Longrightarrow> index_sub (s @ ''::'' @ r) ''::'' = Some (length s)"
  "CHR '':'' \<notin> set s \<Longrightarrow> CHR '':'' \<notin> set t \<Longrightarrow> t \<noteq> [] \<Longrightarrow> index_sub (s @ '':'' @ t) ''::'' = None"
  "CHR '':'' \<notin> set s \<Longrightarrow> CHR '':'' \<notin> set t \<Longrightarrow> t \<noteq> [] \<Longrightarrow>
    index_sub (s @ '':'' @ t @ ''::'' @ r) ''::'' = Some (Suc (length s + length t))"
proof -
  show none: "CHR '':'' \<notin> set s \<Longrightarrow> index_sub s ''::'' = None" for s by (induction s) auto
  show some: "CHR '':'' \<notin> set s \<Longrightarrow> index_sub (s @ ''::'' @ r) ''::'' = Some (length s)" for s by (induction s) auto
  show "CHR '':'' \<notin> set s \<Longrightarrow> CHR '':'' \<notin> set t \<Longrightarrow> t \<noteq> [] \<Longrightarrow> index_sub (s @ '':'' @ t) ''::'' = None"
    using none [of t] by (induction s) (cases t; auto)+
  show "CHR '':'' \<notin> set s \<Longrightarrow> CHR '':'' \<notin> set t \<Longrightarrow> t \<noteq> [] \<Longrightarrow>
      index_sub (s @ '':'' @ t @ ''::'' @ r) ''::'' = Some (Suc (length s + length t))"
    using some [of t] by (induction s) (cases t; auto)+
qed

lemma split_slot_repo:
  assumes "CHR '':'' \<notin> set body" "CHR '':'' \<notin> set slot"
  shows "split_slot_repository (body @ (if slot \<noteq> [] then '':'' @ slot else []) @ (if repo \<noteq> [] then ''::'' @ repo else [])) =
    (body, slot, repo)"
proof -
  have no: "index_byte body CHR '':'' = None" using assms(1) index_byte_None by blast
  note [simp] = no split_slot_repository_def
  show ?thesis
  proof (cases "slot = []"; cases "repo = []")
    assume "slot = []" "repo = []"
    then show ?thesis using index_colons(1) [OF assms(1)] by simp
  next
    assume "slot = []" "repo \<noteq> []"
    then show ?thesis using index_colons(2) [OF assms(1), of repo] by simp
  next
    assume "slot \<noteq> []" "repo = []"
    then show ?thesis using index_colons(3) [OF assms] index_byte_append [OF assms(1)] by simp
  next
    assume "slot \<noteq> []" "repo \<noteq> []"
    then show ?thesis using index_colons(4) [OF assms, of repo] index_byte_append [OF assms(1)] by (simp add: numeral_3_eq_3)
  qed
qed

lemma plain_partD:
  assumes "plain_part s"
  shows "s \<noteq> []" "CHR '':'' \<notin> set s" "CHR ''/'' \<notin> set s" "last s \<noteq> CHR ''*''" "hd s \<notin> set ''*><=~''"
proof -
  have p: "\<forall>c \<in> set s. c \<notin> set '':/*><=~''" and ne: "s \<noteq> []" using assms by (auto simp: plain_part_def list_all_iff)
  then show "s \<noteq> []" "CHR '':'' \<notin> set s" "CHR ''/'' \<notin> set s" by auto
  show "last s \<noteq> CHR ''*''" using p ne last_in_set [OF ne] by auto
  show "hd s \<notin> set ''*><=~''" using p ne hd_in_set [OF ne] by auto
qed

lemma split_operator_text:
  assumes "c \<notin> set ''*><=~''" "op \<in> set ([] # mask_operators)"
  shows "split_operator ((if op = ''=*'' then ''='' else op) @ c # s) = (if op = ''=*'' then ''='' else op, c # s)"
proof -
  from assms(2) consider "op = []" | "op = ''>=''" | "op = ''<=''" | "op = ''>''" | "op = ''<''" | "op = ''~''" | "op = ''=*''" | "op = ''=''"
    by (auto simp: mask_operators_def)
  then show ?thesis
    by cases (use assms(1) in \<open>auto simp: split_operator_def mask_operators_def trim_prefix_def\<close>)
qed

subsection \<open>Properties\<close>

text \<open>
  Claim C32. A package is masked exactly when a mask of any of the three sources has its very category and
  name and matches version and slot, no negated entry of any source does, and no user unmask does. The order
  of the sources does not matter: a negation in a profile also cancels a mask of the user. \<open>GetMaskAtom\<close> and
  \<open>GetMaskReason\<close> answer for the same packages.
\<close>

theorem masked_exact:
  "(is_masked rx (new_mask_manager repo profile user unmask) category n v slot \<longleftrightarrow>
      list_ex (\<lambda>e. \<not> me_IsNegation e \<and> applies rx category n v slot e) (repo @ profile @ user) \<and>
      \<not> list_ex (\<lambda>e. me_IsNegation e \<and> applies rx category n v slot e) (repo @ profile @ user) \<and>
      \<not> list_ex (applies rx category n v slot) unmask) \<and>
   (get_mask_atom rx (new_mask_manager repo profile user unmask) category n v slot \<noteq> None \<longleftrightarrow>
      is_masked rx (new_mask_manager repo profile user unmask) category n v slot)"
proof
  let ?m = "new_mask_manager repo profile user unmask"
  let ?A = "applies rx category n v slot"
  show "is_masked rx ?m category n v slot \<longleftrightarrow>
      list_ex (\<lambda>e. \<not> me_IsNegation e \<and> ?A e) (repo @ profile @ user) \<and>
      \<not> list_ex (\<lambda>e. me_IsNegation e \<and> ?A e) (repo @ profile @ user) \<and> \<not> list_ex ?A unmask"
    by (rule manager_masked)
  have "Option.bind (List.find ?A es) me_Atom \<noteq> None \<longleftrightarrow> List.find ?A es \<noteq> None" for es
    by (induction es) (auto simp: applies_def split: option.splits)
  then show "get_mask_atom rx ?m category n v slot \<noteq> None \<longleftrightarrow> is_masked rx ?m category n v slot"
    unfolding is_masked_def get_mask_atom_def matches_manager by (simp only: if_split) simp
qed

text \<open>
  Masks with wildcards have no effect: the index holds them under their pattern, and no package is
  looked up under a name with an asterisk, although the pattern itself matches.
\<close>

theorem wildcard_masks_ignored:
  assumes "CHR ''*'' \<notin> set (category @ n)"
    and "list_all (\<lambda>e. case me_Atom e of None \<Rightarrow> True | Some a \<Rightarrow> get_specificity a \<in> {SpecificityWildcard, SpecificityWildcardSlot})
      (repo @ profile @ user)"
  shows "\<not> is_masked rx (new_mask_manager repo profile user unmask) category n v slot"
proof -
  have "\<not> applies rx category n v slot e" if "e \<in> set (repo @ profile @ user)" for e
  proof (cases "me_Atom e")
    case (Some a)
    with assms(2) that have "get_specificity a \<in> {SpecificityWildcard, SpecificityWildcardSlot}"
      unfolding list_all_iff by force
    then have "CHR ''*'' \<in> set (pt_Category a) \<or> CHR ''*'' \<in> set (pt_Name a)"
      by (auto simp: get_specificity_def split: if_splits)
    moreover have "CHR ''*'' \<in> set (pt_Category a) \<or> CHR ''*'' \<in> set (pt_Name a) \<longleftrightarrow> CHR ''*'' \<in> set (atom_key a)"
      by (simp add: atom_key_def)
    moreover have "CHR ''*'' \<notin> set (category @ ''/'' @ n)" using assms(1) by simp
    ultimately have "atom_key a \<noteq> category @ ''/'' @ n" by metis
    with Some show ?thesis by (simp add: applies_def)
  qed (simp add: applies_def)
  then have "\<not> list_ex (\<lambda>e. \<not> me_IsNegation e \<and> applies rx category n v slot e) (repo @ profile @ user)"
    by (auto simp: list_ex_iff)
  with manager_masked show ?thesis by blast
qed

theorem wildcard_masks_ignored_witness:
  "pattern_matches ref_coregex (parse_package_pattern ''dev-*/*'') ''dev-lang'' ''go'' ''1.22'' ''0'' \<and>
   \<not> is_masked ref_coregex (new_mask_manager [] [] (load_mask_file ''f'' ''user'' [''dev-*/*'']) []) ''dev-lang'' ''go'' ''1.22'' ''0''"
proof
  have a: "parse_package_pattern ''dev-*/*'' = \<lparr>pt_Operator = [], pt_Category = ''dev-*'', pt_Name = ''*'', pt_Version = [],
      pt_Slot = [], pt_Repository = [], pt_Raw = ''dev-*/*''\<rparr>" by code_simp
  show "pattern_matches ref_coregex (parse_package_pattern ''dev-*/*'') ''dev-lang'' ''go'' ''1.22'' ''0''"
    unfolding a by (simp add: pattern_matches_def match_pattern_def has_prefix_def has_suffix_def trim_suffix_def)
  show "\<not> is_masked ref_coregex (new_mask_manager [] [] (load_mask_file ''f'' ''user'' [''dev-*/*'']) []) ''dev-lang'' ''go'' ''1.22'' ''0''"
    by (rule wildcard_masks_ignored) code_simp+
qed

lemma cascade_Suc:
  "load_cascade (Suc n) fs p \<noteq> None \<longleftrightarrow> (\<forall>q \<in> set (pd_parents (fs p)). load_cascade n fs q \<noteq> None)"
  by (simp only: load_cascade.simps list_all_iff) simp

lemma cascade_more: "load_cascade n fs p \<noteq> None \<Longrightarrow> n \<le> m \<Longrightarrow> load_cascade m fs p \<noteq> None"
proof (induction n arbitrary: m p)
  case (Suc n)
  obtain k where m: "m = Suc k" "n \<le> k" using Suc.prems(2) by (cases m) simp_all
  have "load_cascade k fs q \<noteq> None" if "q \<in> set (pd_parents (fs p))" for q
    using Suc.IH [OF _ m(2)] Suc.prems(1) that unfolding cascade_Suc by blast
  then show ?case unfolding m cascade_Suc by blast
qed simp

lemma cascade_fuel:
  assumes "\<And>q. q \<in> set qs \<Longrightarrow> \<exists>n. load_cascade n fs q \<noteq> None"
  shows "\<exists>n. \<forall>q \<in> set qs. load_cascade n fs q \<noteq> None"
  using assms
proof (induction qs)
  case (Cons q qs)
  obtain a where a: "load_cascade a fs q \<noteq> None" using Cons.prems [of q] by auto
  have "\<exists>n. \<forall>r \<in> set qs. load_cascade n fs r \<noteq> None"
    by (rule Cons.IH) (rule Cons.prems, simp)
  then obtain b where b: "\<forall>r \<in> set qs. load_cascade b fs r \<noteq> None" by blast
  have "load_cascade (max a b) fs r \<noteq> None" if "r \<in> set (q # qs)" for r
  proof (cases "r = q")
    case True
    show ?thesis unfolding True by (rule cascade_more [OF a]) simp
  next
    case False
    with that b have "load_cascade b fs r \<noteq> None" by simp
    then show ?thesis by (rule cascade_more) simp
  qed
  then show ?case by blast
qed simp

text \<open>
  The cascade of profiles is loaded exactly when no chain of parents goes on forever: a profile that
  is its own ancestor is loaded without end.
\<close>

theorem cascade_termination:
  "(\<exists>n. load_cascade n fs p \<noteq> None) \<longleftrightarrow> p \<in> Wellfounded.acc {(q, p). q \<in> set (pd_parents (fs p))}"
proof
  let ?r = "{(q, p). q \<in> set (pd_parents (fs p))}"
  assume "\<exists>n. load_cascade n fs p \<noteq> None"
  then obtain n where "load_cascade n fs p \<noteq> None" by blast
  then show "p \<in> Wellfounded.acc ?r"
  proof (induction n arbitrary: p)
    case (Suc n)
    show ?case
      by (rule accI) (use Suc in \<open>simp only: cascade_Suc mem_Collect_eq prod.case, blast\<close>)
  qed simp
next
  let ?r = "{(q, p). q \<in> set (pd_parents (fs p))}"
  assume "p \<in> Wellfounded.acc ?r"
  then show "\<exists>n. load_cascade n fs p \<noteq> None"
  proof (induction rule: acc.induct)
    case (accI p)
    then obtain n where "\<forall>q \<in> set (pd_parents (fs p)). load_cascade n fs q \<noteq> None"
      using cascade_fuel [of "pd_parents (fs p)" fs] by auto
    then have "load_cascade (Suc n) fs p \<noteq> None" unfolding cascade_Suc .
    then show ?case by blast
  qed
qed

text \<open>
  \<open>ParseAtom\<close> of the configuration files reads back every pattern that is written with its operator,
  category, name, version, slot and repository.
\<close>

theorem package_pattern_roundtrip:
  assumes "op \<in> set ([] # mask_operators)" "plain_part category" "plain_part n" "CHR '':'' \<notin> set slot"
    and "if op = [] then v = [] else plain_part v \<and> is_digit (hd v) \<and> split_dash v = None"
  shows "parse_package_pattern (pattern_text op category n v slot repo) =
    \<lparr>pt_Operator = op, pt_Category = category, pt_Name = n, pt_Version = v, pt_Slot = slot, pt_Repository = repo,
     pt_Raw = pattern_text op category n v slot repo\<rparr>"
proof -
  let ?op = "if op = ''=*'' then ''='' else op"
  let ?nv = "n @ (if op \<noteq> [] then ''-'' @ v else [])"
  let ?star = "if op = ''=*'' then ''*'' else []"
  let ?rest = "category @ ''/'' @ ?nv @ ?star"
  note c = plain_partD [OF assms(2)] and n = plain_partD [OF assms(3)]
  have v: "op \<noteq> [] \<Longrightarrow> v \<noteq> [] \<and> CHR '':'' \<notin> set v \<and> CHR ''/'' \<notin> set v \<and> last v \<noteq> CHR ''*''"
    using assms(5) plain_partD [of v] by (auto split: if_splits)
  have op: "CHR '':'' \<notin> set ?op" using assms(1) by (auto simp: mask_operators_def)
  have colon: "CHR '':'' \<notin> set (?op @ ?rest)" using op c(2) n(2) v by auto
  have raw: "pattern_text op category n v slot repo =
      (?op @ ?rest) @ (if slot \<noteq> [] then '':'' @ slot else []) @ (if repo \<noteq> [] then ''::'' @ repo else [])"
    by (simp add: pattern_text_def)
  have sop: "split_operator (?op @ ?rest) = (?op, ?rest)"
    using split_operator_text [OF c(5) assms(1), of "tl category @ ''/'' @ ?nv @ ?star"]
    by (simp only: append_Cons [symmetric] hd_Cons_tl [OF c(1)])
  have suffix: "has_suffix ?rest ''*'' \<longleftrightarrow> op = ''=*''" if "?op = ''=''"
  proof (cases "op = ''=*''")
    case True
    have "has_suffix ((category @ ''/'' @ ?nv) @ ''*'') ''*''" by (rule has_suffix_append)
    with True show ?thesis by simp
  next
    case False
    with that have "op = ''=''" by simp
    with v have "last ?rest \<noteq> CHR ''*''" by simp
    with False show ?thesis by (simp add: has_suffix_single)
  qed
  have op2: "(if ?op = ''='' \<and> has_suffix ?rest ''*'' then (''=*'', trim_suffix ?rest ''*'') else (?op, ?rest)) =
      (op, category @ ''/'' @ ?nv)"
  proof (cases "op = ''=*''")
    case True
    have "trim_suffix ((category @ ''/'' @ ?nv) @ ''*'') ''*'' = category @ ''/'' @ ?nv" by (rule trim_suffix_append)
    with True suffix show ?thesis by simp
  next
    case False
    with suffix show ?thesis by auto
  qed
  have nv: "split_name_version op ?nv = (n, v)"
    using split_dash_append [of v n] assms(5) v n(1) by (auto simp: split_name_version_def split: if_splits)
  have parts: "splitn2_byte CHR ''/'' (category @ ''/'' @ ?nv) = [category, ?nv]"
    using splitn2_byte_append [OF c(3)] by simp
  have sr: "split_slot_repository (pattern_text op category n v slot repo) = (?op @ ?rest, slot, repo)"
    unfolding raw by (rule split_slot_repo [OF colon assms(4)])
  have so: "split_wildcard_operator (?op @ ?rest) = (op, category @ ''/'' @ ?nv)"
    unfolding split_wildcard_operator_def sop Let_def prod.case by (rule op2)
  show ?thesis unfolding parse_package_pattern_def sr so Let_def prod.case parts list.case nv ..
qed

theorem package_pattern_roundtrip_witness:
  "parse_package_pattern ''=dev-lang/go-1.22*:0::gentoo'' =
    \<lparr>pt_Operator = ''=*'', pt_Category = ''dev-lang'', pt_Name = ''go'', pt_Version = ''1.22'', pt_Slot = ''0'',
     pt_Repository = ''gentoo'', pt_Raw = ''=dev-lang/go-1.22*:0::gentoo''\<rparr>"
proof -
  have t: "pattern_text ''=*'' ''dev-lang'' ''go'' ''1.22'' ''0'' ''gentoo'' = ''=dev-lang/go-1.22*:0::gentoo''"
    by (simp add: pattern_text_def)
  have "''=*'' \<in> set ([] # mask_operators)" "plain_part ''dev-lang''" "plain_part ''go''" "CHR '':'' \<notin> set ''0''"
    "if ''=*'' = [] then ''1.22'' = [] else plain_part ''1.22'' \<and> is_digit (hd ''1.22'') \<and> split_dash ''1.22'' = None"
    by code_simp+
  from package_pattern_roundtrip [OF this, of "''gentoo''"] show ?thesis unfolding t .
qed

end
