(* ===== verification/Src_Uri.thy ===== *)
theory Src_Uri
  imports Masks
begin

text \<open>
  \<open>SRC_URI\<close> (\<open>internal/repo/srcuri_parser.go\<close>): tokens, USE conditions, the arrow and the expansion of variables in
  file names. \<open>order\<close> is the order in which the loop over the map of variables visits it. \<open>None\<close> as the result of
  a function means that it does not return.
\<close>

subsection \<open>Values\<close>

record src_uri_entry =
  su_URL :: string
  su_Filename :: string
  su_UseFlag :: string
  su_Negate :: bool

text \<open>\<open>activeFlags\<close> is nil (include everything) or a map.\<close>

record src_uri_parser =
  sp_vars :: "string \<rightharpoonup> string"
  sp_activeFlags :: "(string \<rightharpoonup> bool) option"

definition new_src_uri_parser :: "(string \<rightharpoonup> string) \<Rightarrow> (string \<rightharpoonup> bool) option \<Rightarrow> src_uri_parser" where
  "new_src_uri_parser vars flags = \<lparr>sp_vars = vars, sp_activeFlags = flags\<rparr>"

subsection \<open>Tokens\<close>

definition src_white :: "char \<Rightarrow> bool" where
  "src_white c \<longleftrightarrow> c = CHR '' '' \<or> c = CHR 0x09 \<or> c = CHR 0x0A \<or> c = CHR 0x0D"

definition flush_src :: "string \<Rightarrow> string list" where
  "flush_src cur = (if cur \<noteq> [] then [cur] else [])"

function src_tokens :: "string \<Rightarrow> string \<Rightarrow> string list" where
  "src_tokens [] cur = flush_src cur"
| "src_tokens (c # s) cur =
     (if c = CHR ''('' then flush_src cur @ ''('' # src_tokens s []
      else if c = CHR '')'' then flush_src cur @ '')'' # src_tokens s []
      else if src_white c then flush_src cur @ src_tokens (dropWhile src_white s) []
      else if c = CHR ''-'' \<and> has_prefix s ''>'' then flush_src cur @ ''->'' # src_tokens (tl s) []
      else src_tokens s (cur @ [c]))"
  by pat_completeness auto
termination
  by (relation "measure (length \<circ> fst)") (auto simp: length_dropWhile_le le_imp_less_Suc)

definition tokenize_src_uri :: "string \<Rightarrow> string list" where
  "tokenize_src_uri s = (let content = trim_space s in if content = [] then [] else src_tokens content [])"

definition src_alnum :: "char \<Rightarrow> bool" where
  "src_alnum c \<longleftrightarrow> is_lower c \<or> is_upper c \<or> is_digit c"

definition valid_src_flag :: "string \<Rightarrow> bool" where
  "valid_src_flag name =
     (case name of [] \<Rightarrow> False
      | first # rest \<Rightarrow> src_alnum first \<and> list_all (\<lambda>c. src_alnum c \<or> c \<in> set ''+_@-'') rest)"

definition is_use_condition :: "string \<Rightarrow> bool" where
  "is_use_condition t =
     (if \<not> has_suffix t ''?'' then False
      else let flag = trim_prefix (trim_suffix t ''?'') ''!'' in 0 < length flag \<and> valid_src_flag flag)"

definition parse_use_condition :: "string \<Rightarrow> string \<times> bool" where
  "parse_use_condition t =
     (let flag = trim_suffix t ''?'' in if has_prefix flag ''!'' then (trim_prefix flag ''!'', True) else (flag, False))"

definition is_src_url :: "string \<Rightarrow> bool" where
  "is_src_url t \<longleftrightarrow> list_ex (has_prefix (to_lower t)) [''http://'', ''https://'', ''ftp://'', ''mirror://'']"

subsection \<open>File names\<close>

text \<open>\<open>strings.SplitN\<close> with a positive bound, and \<open>path.Base\<close>.\<close>

fun split_byte_n :: "nat \<Rightarrow> char \<Rightarrow> string \<Rightarrow> string list" where
  "split_byte_n 0 c s = []"
| "split_byte_n (Suc 0) c s = [s]"
| "split_byte_n (Suc (Suc n)) c s =
     (case index_byte s c of None \<Rightarrow> [s] | Some i \<Rightarrow> take i s # split_byte_n (Suc n) c (drop (Suc i) s))"

definition path_base :: "string \<Rightarrow> string" where
  "path_base p =
     (if p = [] then ''.''
      else let q = dropWhile (\<lambda>c. c = CHR ''/'') (rev p); b = rev (takeWhile (\<lambda>c. c \<noteq> CHR ''/'') q)
        in if b = [] then ''/'' else b)"

definition cut_at :: "char \<Rightarrow> string \<Rightarrow> string" where
  "cut_at c s = (case index_byte s c of Some i \<Rightarrow> take i s | None \<Rightarrow> s)"

definition extract_filename :: "string \<Rightarrow> string" where
  "extract_filename url =
     (let parts = split_byte_n 4 CHR ''/'' url in
      if has_prefix (to_lower url) ''mirror://'' \<and> 4 \<le> length parts then path_base (parts ! 3)
      else path_base (cut_at CHR ''#'' (cut_at CHR ''?'' url)))"

text \<open>\<open>strings.ReplaceAll\<close> for a pattern that is not empty.\<close>

function replace_all :: "string \<Rightarrow> string \<Rightarrow> string \<Rightarrow> string" where
  "replace_all [] old new = []"
| "replace_all (c # s) old new =
     (if old \<noteq> [] \<and> has_prefix (c # s) old then new @ replace_all (drop (length old) (c # s)) old new
      else c # replace_all s old new)"
  by pat_completeness auto
termination
  by (relation "measure (\<lambda>(s, old, new). length s)") auto

text \<open>One pass over \<open>${\<close> from \<open>start\<close> on. The result of a replacement is looked at again.\<close>

definition default_value :: "(string \<rightharpoonup> string) \<Rightarrow> string \<Rightarrow> nat \<Rightarrow> string" where
  "default_value vars content i =
     (case vars (take i content) of Some v \<Rightarrow> if v \<noteq> [] then v else drop (i + 2) content | None \<Rightarrow> drop (i + 2) content)"

partial_function (option) expand_default :: "(string \<rightharpoonup> string) \<Rightarrow> nat \<Rightarrow> string \<Rightarrow> string option" where
  "expand_default vars start r =
     (case index_sub (drop start r) ''${'' of
        None \<Rightarrow> Some r
      | Some d \<Rightarrow>
          (case index_sub (drop (d + start) r) ''}'' of
             None \<Rightarrow> Some r
           | Some e \<Rightarrow>
               (let idx = d + start; fin = e + idx; content = take (fin - (idx + 2)) (drop (idx + 2) r) in
                case index_sub content '':-'' of
                  Some i \<Rightarrow> expand_default vars start (take idx r @ default_value vars content i @ drop (Suc fin) r)
                | None \<Rightarrow> expand_default vars (Suc fin) r)))"

declare expand_default.simps [code]

lemma index_sub_Some: "index_sub s p = Some i \<Longrightarrow> i + length p \<le> length s \<and> has_prefix (drop i s) p"
proof (induction s arbitrary: i)
  case (Cons c s)
  then show ?case by (cases i) (auto simp: has_prefix_def split: if_splits dest: arg_cong [of _ _ length])
qed (auto simp: has_prefix_def split: if_splits)

function remove_unexpanded :: "string \<Rightarrow> string" where
  "remove_unexpanded r =
     (case index_sub r ''${'' of
        None \<Rightarrow> r
      | Some idx \<Rightarrow>
          (case index_sub (drop idx r) ''}'' of
             None \<Rightarrow> r
           | Some e \<Rightarrow> remove_unexpanded (take idx r @ drop (Suc (e + idx)) r)))"
  by pat_completeness auto
termination
  by (relation "measure length") (auto dest!: index_sub_Some)

declare remove_unexpanded.simps [simp del]

definition expand_variables :: "string list \<Rightarrow> (string \<rightharpoonup> string) \<Rightarrow> string \<Rightarrow> string option" where
  "expand_variables order vars s =
     map_option remove_unexpanded
       (expand_default vars 0 (fold (\<lambda>k r. replace_all r (''${'' @ k @ ''}'') (the (vars k))) order s))"

subsection \<open>The parser\<close>

text \<open>
  The rest of the tokens stands for the index; an error is the token and its position, of \<open>ntok\<close> tokens. The fuel
  stands for the length of the rest.
\<close>

type_synonym src_result = "((string \<times> nat) + src_uri_entry list \<times> string list) option"

definition src_condition_met :: "src_uri_parser \<Rightarrow> string \<Rightarrow> bool \<Rightarrow> bool" where
  "src_condition_met p flag neg =
     (case sp_activeFlags p of
        None \<Rightarrow> True
      | Some m \<Rightarrow> (let active = flag_on m flag in if neg then \<not> active else active))"

definition parse_url_entry ::
  "src_uri_parser \<Rightarrow> string list \<Rightarrow> string \<Rightarrow> string list \<Rightarrow> string \<Rightarrow> bool \<Rightarrow> (src_uri_entry \<times> string list) option" where
  "parse_url_entry p order t ts flag neg =
     (let entry = \<lambda>name. \<lparr>su_URL = t, su_Filename = name, su_UseFlag = flag, su_Negate = neg\<rparr> in
      case ts of
        arrow # name # ts' \<Rightarrow>
          if arrow = ''->'' then map_option (\<lambda>n. (entry n, ts')) (expand_variables order (sp_vars p) name)
          else Some (entry (extract_filename t), ts)
      | _ \<Rightarrow> Some (entry (extract_filename t), ts))"

fun src_add ::
  "src_uri_entry list \<Rightarrow> (string \<times> nat) + src_uri_entry list \<times> string list \<Rightarrow> (string \<times> nat) + src_uri_entry list \<times> string list" where
  "src_add es (Inl e) = Inl e"
| "src_add es (Inr (es', rest)) = Inr (es @ es', rest)"

definition src_prepend :: "src_uri_entry list \<Rightarrow> src_result \<Rightarrow> src_result" where
  "src_prepend es r = map_option (src_add es) r"

definition src_then :: "src_result \<Rightarrow> (src_uri_entry list \<Rightarrow> string list \<Rightarrow> src_result) \<Rightarrow> src_result" where
  "src_then r g = (case r of Some (Inr (es, rest)) \<Rightarrow> g es rest | _ \<Rightarrow> r)"

fun parse_src :: "nat \<Rightarrow> src_uri_parser \<Rightarrow> string list \<Rightarrow> nat \<Rightarrow> string list \<Rightarrow> string \<Rightarrow> bool \<Rightarrow> src_result" where
  "parse_src 0 p order ntok ts flag neg = None"
| "parse_src (Suc n) p order ntok [] flag neg = Some (Inr ([], []))"
| "parse_src (Suc n) p order ntok (t # ts) flag neg =
     (if t = '')'' then Some (Inr ([], ts))
      else if is_use_condition t then
        (let (f, m) = parse_use_condition t in
         case ts of
           [] \<Rightarrow> Some (Inl (t, ntok - length (t # ts)))
         | u # us \<Rightarrow>
             if u \<noteq> ''('' then Some (Inl (t, ntok - length (t # ts)))
             else src_then (parse_src n p order ntok us f m) (\<lambda>es rest.
               src_prepend (if src_condition_met p f m then es else []) (parse_src n p order ntok rest flag neg)))
      else if t = ''('' then
        src_then (parse_src n p order ntok ts flag neg) (\<lambda>es rest. src_prepend es (parse_src n p order ntok rest flag neg))
      else if is_src_url t then
        (case parse_url_entry p order t ts flag neg of
           None \<Rightarrow> None
         | Some (e, rest) \<Rightarrow> src_prepend [e] (parse_src n p order ntok rest flag neg))
      else parse_src n p order ntok ts flag neg)"

definition parse_src_uri :: "src_uri_parser \<Rightarrow> string list \<Rightarrow> string \<Rightarrow> ((string \<times> nat) + src_uri_entry list) option" where
  "parse_src_uri p order s =
     (let tokens = tokenize_src_uri s in
      if tokens = [] then Some (Inr [])
      else map_option (map_sum id fst) (parse_src (Suc (length tokens)) p order (length tokens) tokens [] False))"

definition parse_src_uri_with ::
  "string \<Rightarrow> (string \<rightharpoonup> bool) option \<Rightarrow> (string \<rightharpoonup> string) \<Rightarrow> string list \<Rightarrow> ((string \<times> nat) + src_uri_entry list) option" where
  "parse_src_uri_with content flags vars order = parse_src_uri (new_src_uri_parser vars flags) order content"

subsection \<open>Termination\<close>

definition plain_vars :: "(string \<rightharpoonup> string) \<Rightarrow> bool" where
  "plain_vars vars \<longleftrightarrow> (\<forall>k v. vars k = Some v \<longrightarrow> CHR ''$'' \<notin> set v)"

abbreviation dollars :: "string \<Rightarrow> nat" where
  "dollars s \<equiv> count_list s CHR ''$''"

lemma dollars_none: "CHR ''$'' \<notin> set v \<Longrightarrow> dollars v = 0"
  by (simp add: count_list_0_iff)

lemma dollars_drop: "dollars (drop n s) \<le> dollars s"
  by (metis append_take_drop_id count_list_append le_add2)

lemma dollars_take_drop: "dollars (take n s) + dollars (drop n s) = dollars s"
  by (metis append_take_drop_id count_list_append)

lemma default_value_dollars: "plain_vars vars \<Longrightarrow> dollars (default_value vars content i) \<le> dollars content"
  using dollars_drop [of "i + 2" content] dollars_none
  by (auto simp: default_value_def plain_vars_def split: option.split)

text \<open>A replacement takes at least one dollar away.\<close>

lemma replaced_dollars:
  assumes "plain_vars vars" "has_prefix (drop idx r) ''${''" "idx + 2 \<le> fin" "fin < length r"
  shows "dollars (take idx r @ default_value vars (take (fin - (idx + 2)) (drop (idx + 2) r)) i @ drop (Suc fin) r) < dollars r"
proof -
  let ?c = "take (fin - (idx + 2)) (drop (idx + 2) r)"
  obtain tl where tl: "drop idx r = ''${'' @ tl" using assms(2) by (auto simp only: has_prefix_iff)
  have "drop (idx + 2) r = drop 2 (drop idx r)" by (simp only: drop_drop add.commute)
  also have "\<dots> = tl" by (simp add: tl)
  finally have tl2: "drop (idx + 2) r = tl" .
  have "drop (fin - (idx + 2)) tl = drop fin r" using assms(3) tl2 by (metis drop_drop le_add_diff_inverse2)
  then have "dollars ?c + dollars (drop fin r) = dollars tl" using dollars_take_drop [of "fin - (idx + 2)" tl] tl2 by simp
  moreover have "dollars (drop (Suc fin) r) \<le> dollars (drop fin r)"
    using dollars_drop [of 1 "drop fin r"] by simp
  moreover have "dollars r = dollars (take idx r) + Suc (dollars tl)"
    using dollars_take_drop [of idx r] tl by simp
  ultimately show ?thesis using default_value_dollars [OF assms(1), of ?c i] by simp
qed

lemma index_brace: "index_sub (drop idx r) ''}'' = Some e \<Longrightarrow> has_prefix (drop idx r) ''${'' \<Longrightarrow> 2 \<le> e"
  by (cases "drop idx r"; cases "tl (drop idx r)") (auto simp: has_prefix_def split: if_splits)

lemma expand_default_returns:
  assumes "plain_vars vars"
  shows "\<exists>s. expand_default vars start r = Some s"
proof (induction "(dollars r, length r - start)" arbitrary: r start rule: wf_induct_rule [OF wf_lex_prod [OF wf_less_than wf_less_than]])
  case 1
  show ?case
  proof (cases "index_sub (drop start r) ''${''")
    case None
    then show ?thesis by (subst expand_default.simps) simp
  next
    case (Some d)
    note d = index_sub_Some [OF Some]
    let ?idx = "d + start"
    have pre: "has_prefix (drop ?idx r) ''${''" using d by (simp add: add.commute)
    show ?thesis
    proof (cases "index_sub (drop ?idx r) ''}''")
      case None
      with Some show ?thesis by (subst expand_default.simps) simp
    next
      case e: (Some e)
      note le = index_brace [OF e pre] and f = index_sub_Some [OF e]
      let ?fin = "e + ?idx" and ?c = "take (e + ?idx - (?idx + 2)) (drop (?idx + 2) r)"
      have fin: "?idx + 2 \<le> ?fin" "?fin < length r" using le f by auto
      show ?thesis
      proof (cases "index_sub ?c '':-''")
        case None
        have "\<exists>s. expand_default vars (Suc ?fin) r = Some s" by (rule 1) (use fin in auto)
        with Some e None show ?thesis by (subst expand_default.simps) (simp add: Let_def)
      next
        case i: (Some i)
        let ?r = "take ?idx r @ default_value vars ?c i @ drop (Suc ?fin) r"
        have "\<exists>s. expand_default vars start ?r = Some s"
          by (rule 1) (use replaced_dollars [OF assms pre fin, of i] in auto)
        with Some e i show ?thesis by (subst expand_default.simps) (simp add: Let_def)
      qed
    qed
  qed
qed

lemma expand_variables_returns: "plain_vars vars \<Longrightarrow> \<exists>s. expand_variables order vars r = Some s"
  using expand_default_returns [of vars 0] by (auto simp: expand_variables_def)

lemma src_prepend_Some: "src_prepend es x = Some r \<longleftrightarrow> (\<exists>y. x = Some y \<and> r = src_add es y)"
  by (auto simp: src_prepend_def)

lemma src_then_simps [simp]:
  "src_then (Some (Inl e)) g = Some (Inl e)"
  "src_then (Some (Inr (es, rest))) g = g es rest"
  by (simp_all add: src_then_def)

lemma src_then_Some:
  "src_then r g = Some x \<longleftrightarrow> (\<exists>e. r = Some (Inl e) \<and> x = Inl e) \<or> (\<exists>es rest. r = Some (Inr (es, rest)) \<and> g es rest = Some x)"
  by (auto simp: src_then_def split: option.splits sum.splits)

lemma src_step_mono:
  "src_then r (\<lambda>es rest. src_prepend (h es) (g rest)) = Some x \<Longrightarrow> (\<And>x. r = Some x \<Longrightarrow> r' = Some x) \<Longrightarrow>
    (\<And>rest x. g rest = Some x \<Longrightarrow> g' rest = Some x) \<Longrightarrow> src_then r' (\<lambda>es rest. src_prepend (h es) (g' rest)) = Some x"
  unfolding src_then_Some src_prepend_Some by blast

lemma src_prepend_mono: "src_prepend es r = Some x \<Longrightarrow> (\<And>x. r = Some x \<Longrightarrow> r' = Some x) \<Longrightarrow> src_prepend es r' = Some x"
  unfolding src_prepend_Some by blast

lemma parse_url_entry_rest: "parse_url_entry p order t ts flag neg = Some (e, rest) \<Longrightarrow> length rest \<le> length ts"
  by (auto simp: parse_url_entry_def split: list.splits if_splits)

lemma parse_url_entry_returns: "plain_vars (sp_vars p) \<Longrightarrow> \<exists>e rest. parse_url_entry p order t ts flag neg = Some (e, rest)"
  using expand_variables_returns [of "sp_vars p" order] by (auto simp: parse_url_entry_def split: list.split)

lemma parse_src_returns:
  assumes "plain_vars (sp_vars p)" "length ts < n"
  shows "\<exists>r. parse_src n p order k ts flag neg = Some r \<and> (\<forall>es rest. r = Inr (es, rest) \<longrightarrow> length rest \<le> length ts)"
  using assms(2)
proof (induction n arbitrary: ts flag neg)
  case (Suc n)
  have again: "\<exists>r. src_prepend es (parse_src n p order k rest flag neg) = Some r \<and>
      (\<forall>es rest. r = Inr (es, rest) \<longrightarrow> length rest \<le> Suc (length us))"
    if "length rest \<le> length us" "length us < n" for es rest us
  proof -
    obtain r where r: "parse_src n p order k rest flag neg = Some r" "\<forall>es rest'. r = Inr (es, rest') \<longrightarrow> length rest' \<le> length rest"
      using Suc.IH [of rest flag neg] \<open>length rest \<le> length us\<close> \<open>length us < n\<close> by auto
    then show ?thesis using \<open>length rest \<le> length us\<close> by (cases r) (auto simp: src_prepend_def)
  qed
  show ?case
  proof (cases ts)
    case (Cons t us)
    then have us: "length us < n" using Suc.prems by simp
    consider "t = '')''" | "t \<noteq> '')''" "is_use_condition t" | "t \<noteq> '')''" "\<not> is_use_condition t" "t = ''(''"
      | "t \<noteq> '')''" "\<not> is_use_condition t" "t \<noteq> ''(''" "is_src_url t"
      | "t \<noteq> '')''" "\<not> is_use_condition t" "t \<noteq> ''(''" "\<not> is_src_url t" by blast
    then show ?thesis
    proof cases
      case 1
      with Cons show ?thesis by simp
    next
      case 2
      obtain f m where fm: "parse_use_condition t = (f, m)" by fastforce
      show ?thesis
      proof (cases "us \<noteq> [] \<and> hd us = ''(''")
        case True
        then obtain vs where vs: "us = ''('' # vs" by (cases us) auto
        obtain r where r: "parse_src n p order k vs f m = Some r" "\<forall>es rest. r = Inr (es, rest) \<longrightarrow> length rest \<le> length vs"
          using Suc.IH [of vs f m] us vs by auto
        show ?thesis
        proof (cases r)
          case (Inr x)
          obtain es rest where x: "x = (es, rest)" by fastforce
          have "length rest \<le> length us" using r(2) Inr x vs by simp
          from again [OF this us, of "if src_condition_met p f m then es else []"] show ?thesis using Cons 2 fm vs r(1) Inr x by simp
        qed (use Cons 2 fm vs r in simp)
      next
        case False
        with Cons 2 fm show ?thesis by (cases us) simp_all
      qed
    next
      case 3
      obtain r where r: "parse_src n p order k us flag neg = Some r" "\<forall>es rest. r = Inr (es, rest) \<longrightarrow> length rest \<le> length us"
        using Suc.IH [of us flag neg] us by auto
      show ?thesis
      proof (cases r)
        case (Inr x)
        obtain es rest where x: "x = (es, rest)" by fastforce
        have "length rest \<le> length us" using r(2) Inr x by simp
        from again [OF this us, of es] show ?thesis using Cons 3 r(1) Inr x by simp
      qed (use Cons 3 r in simp)
    next
      case 4
      obtain e rest where e: "parse_url_entry p order t us flag neg = Some (e, rest)"
        using parse_url_entry_returns [OF assms(1)] by blast
      from again [OF parse_url_entry_rest [OF e] us, of "[e]"] show ?thesis using Cons 4 e by simp
    next
      case 5
      from Suc.IH [OF us, of flag neg] show ?thesis using Cons 5 by fastforce
    qed
  qed simp
qed simp

lemma parse_src_more: "parse_src n p order k ts flag neg = Some r \<Longrightarrow> parse_src (Suc n) p order k ts flag neg = Some r"
proof (induction n arbitrary: ts flag neg r)
  case (Suc n)
  show ?case
  proof (cases ts)
    case (Cons t us)
    consider "t = '')''" | "t \<noteq> '')''" "is_use_condition t" | "t \<noteq> '')''" "\<not> is_use_condition t" "t = ''(''"
      | "t \<noteq> '')''" "\<not> is_use_condition t" "t \<noteq> ''(''" "is_src_url t"
      | "t \<noteq> '')''" "\<not> is_use_condition t" "t \<noteq> ''(''" "\<not> is_src_url t" by blast
    then show ?thesis
    proof cases
      case 1
      with Cons Suc.prems show ?thesis by simp
    next
      case 2
      obtain f m where fm: "parse_use_condition t = (f, m)" by fastforce
      show ?thesis
      proof (cases "us \<noteq> [] \<and> hd us = ''(''")
        case True
        then obtain vs where vs: "us = ''('' # vs" by (cases us) auto
        from Suc.prems have "src_then (parse_src n p order k vs f m) (\<lambda>es rest.
            src_prepend (if src_condition_met p f m then es else []) (parse_src n p order k rest flag neg)) = Some r"
          using 2 by (simp add: Cons fm vs)
        then have "src_then (parse_src (Suc n) p order k vs f m) (\<lambda>es rest.
            src_prepend (if src_condition_met p f m then es else []) (parse_src (Suc n) p order k rest flag neg)) = Some r"
          by (rule src_step_mono) (rule Suc.IH, assumption)+
        then show ?thesis using 2 unfolding Cons vs by (subst parse_src.simps) (simp add: fm)
      next
        case False
        with Suc.prems 2 fm show ?thesis by (cases us) (simp_all add: Cons)
      qed
    next
      case 3
      from Suc.prems have "src_then (parse_src n p order k us flag neg) (\<lambda>es rest.
          src_prepend es (parse_src n p order k rest flag neg)) = Some r"
        using 3 by (simp add: Cons)
      then have "src_then (parse_src (Suc n) p order k us flag neg) (\<lambda>es rest.
          src_prepend es (parse_src (Suc n) p order k rest flag neg)) = Some r"
        by (rule src_step_mono) (rule Suc.IH, assumption)+
      then show ?thesis using 3 unfolding Cons by (subst parse_src.simps) simp
    next
      case 4
      then obtain e rest where e: "parse_url_entry p order t us flag neg = Some (e, rest)"
          "src_prepend [e] (parse_src n p order k rest flag neg) = Some r"
        using Suc.prems by (auto simp: Cons split: option.splits)
      then have "src_prepend [e] (parse_src (Suc n) p order k rest flag neg) = Some r"
        by (blast intro: src_prepend_mono Suc.IH)
      with 4 e(1) show ?thesis unfolding Cons by (subst parse_src.simps) simp
    next
      case 5
      then have "parse_src n p order k us flag neg = Some r" using Suc.prems by (simp add: Cons)
      from Suc.IH [OF this] 5 show ?thesis unfolding Cons by (subst parse_src.simps) simp
    qed
  qed (use Suc.prems in simp)
qed simp

text \<open>The result with enough fuel, and its equations.\<close>

definition src_parsed ::
  "src_uri_parser \<Rightarrow> string list \<Rightarrow> nat \<Rightarrow> string list \<Rightarrow> string \<Rightarrow> bool \<Rightarrow> (string \<times> nat) + src_uri_entry list \<times> string list" where
  "src_parsed p order k ts flag neg = the (parse_src (Suc (length ts)) p order k ts flag neg)"

lemma parse_src_parsed:
  assumes "plain_vars (sp_vars p)" "length ts < n"
  shows "parse_src n p order k ts flag neg = Some (src_parsed p order k ts flag neg)"
proof -
  obtain r where "parse_src (Suc (length ts)) p order k ts flag neg = Some r"
    using parse_src_returns [OF assms(1), of ts "Suc (length ts)"] by blast
  then have r: "parse_src (Suc (length ts)) p order k ts flag neg = Some (src_parsed p order k ts flag neg)"
    by (simp add: src_parsed_def)
  have "parse_src (Suc (length ts) + m) p order k ts flag neg = Some (src_parsed p order k ts flag neg)" for m
    by (induction m) (use r in simp, simp only: add_Suc_right parse_src_more)
  from this [of "n - Suc (length ts)"] assms(2) show ?thesis by simp
qed

lemma src_parsed_rest:
  assumes "plain_vars (sp_vars p)" "src_parsed p order k ts flag neg = Inr (es, rest)"
  shows "length rest \<le> length ts"
  using parse_src_returns [OF assms(1), of ts "Suc (length ts)" order k flag neg] parse_src_parsed [OF assms(1), of ts "Suc (length ts)"]
    assms(2) by auto

lemma src_step_parsed:
  assumes "plain_vars (sp_vars p)" "length us < n"
  shows "src_then (parse_src n p order k us f m) (\<lambda>es rest. src_prepend (h es) (parse_src n p order k rest flag neg)) =
    Some (case src_parsed p order k us f m of Inl e \<Rightarrow> Inl e | Inr (es, rest) \<Rightarrow> src_add (h es) (src_parsed p order k rest flag neg))"
proof -
  have "parse_src n p order k rest flag neg = Some (src_parsed p order k rest flag neg)"
    if "src_parsed p order k us f m = Inr (es, rest)" for es rest
    using src_parsed_rest [OF assms(1) that] assms(2) by (intro parse_src_parsed [OF assms(1)]) simp
  then show ?thesis
    by (auto simp: parse_src_parsed [OF assms] src_prepend_def split: sum.split)
qed

lemma paren_not_condition [simp]: "\<not> is_use_condition ''(''" "\<not> is_use_condition '')''" "\<not> is_src_url ''(''" "\<not> is_src_url '')''"
  by code_simp+

lemma src_parsed_end [simp]: "src_parsed p order k [] flag neg = Inr ([], [])" "src_parsed p order k ('')'' # ts) flag neg = Inr ([], ts)"
  by (simp_all add: src_parsed_def)

lemma src_parsed_condition:
  assumes "plain_vars (sp_vars p)" "is_use_condition t" "parse_use_condition t = (f, m)"
  shows "src_parsed p order k (t # ''('' # us) flag neg =
    (case src_parsed p order k us f m of Inl e \<Rightarrow> Inl e
     | Inr (es, rest) \<Rightarrow> src_add (if src_condition_met p f m then es else []) (src_parsed p order k rest flag neg))"
proof -
  have "t \<noteq> '')''" using assms(2) by auto
  with assms(2,3) src_step_parsed [OF assms(1), of us "Suc (Suc (length us))" order k f m "\<lambda>es. if src_condition_met p f m then es else []" flag neg]
  show ?thesis by (simp add: src_parsed_def [of p order k "t # ''('' # us"])
qed

lemma src_parsed_group:
  assumes "plain_vars (sp_vars p)"
  shows "src_parsed p order k (''('' # us) flag neg =
    (case src_parsed p order k us flag neg of Inl e \<Rightarrow> Inl e | Inr (es, rest) \<Rightarrow> src_add es (src_parsed p order k rest flag neg))"
  using src_step_parsed [OF assms, of us "Suc (length us)" order k flag neg "\<lambda>es. es" flag neg]
  by (simp add: src_parsed_def [of p order k "''('' # us"])

lemma src_parsed_url:
  assumes "plain_vars (sp_vars p)" "is_src_url t" "\<not> is_use_condition t" "parse_url_entry p order t ts flag neg = Some (e, rest)"
  shows "src_parsed p order k (t # ts) flag neg = src_add [e] (src_parsed p order k rest flag neg)"
proof -
  have "t \<noteq> '')''" "t \<noteq> ''(''" using assms(2) by auto
  moreover have "parse_src (Suc (length ts)) p order k rest flag neg = Some (src_parsed p order k rest flag neg)"
    using parse_url_entry_rest [OF assms(4)] by (intro parse_src_parsed [OF assms(1)]) simp
  ultimately show ?thesis
    using assms(2-4) by (simp add: src_parsed_def [of p order k "t # ts"] src_prepend_def)
qed

lemma src_parsed_skip:
  assumes "plain_vars (sp_vars p)" "\<not> is_src_url t" "\<not> is_use_condition t" "t \<noteq> '')''" "t \<noteq> ''(''"
  shows "src_parsed p order k (t # ts) flag neg = src_parsed p order k ts flag neg"
  using assms(2-) parse_src_parsed [OF assms(1), of ts "Suc (length ts)"] by (simp add: src_parsed_def [of p order k "t # ts"])

subsection \<open>Expressions\<close>

datatype src_expr = SrcUri string "string option" | SrcIf bool string "src_expr list" | SrcAll "src_expr list"

fun src_toks :: "src_expr \<Rightarrow> string list" where
  "src_toks (SrcUri u name) = u # (case name of None \<Rightarrow> [] | Some f \<Rightarrow> [''->'', f])"
| "src_toks (SrcIf neg flag es) = ((if neg then ''!'' else []) @ flag @ ''?'') # ''('' # concat (map src_toks es) @ ['')'']"
| "src_toks (SrcAll es) = ''('' # concat (map src_toks es) @ ['')'']"

definition src_text :: "src_expr list \<Rightarrow> string" where
  "src_text es = join '' '' (concat (map src_toks es))"

text \<open>What an expression asks for: the files whose conditions all hold; an entry carries its innermost condition.\<close>

fun src_entries :: "src_uri_parser \<Rightarrow> string list \<Rightarrow> string \<Rightarrow> bool \<Rightarrow> src_expr \<Rightarrow> src_uri_entry list" where
  "src_entries p order flag neg (SrcUri u name) =
     [\<lparr>su_URL = u, su_Filename = (case name of None \<Rightarrow> extract_filename u | Some f \<Rightarrow> the (expand_variables order (sp_vars p) f)),
       su_UseFlag = flag, su_Negate = neg\<rparr>]"
| "src_entries p order flag neg (SrcIf m f es) =
     (if src_condition_met p f m then concat (map (src_entries p order f m) es) else [])"
| "src_entries p order flag neg (SrcAll es) = concat (map (src_entries p order flag neg) es)"

definition plain_src_token :: "string \<Rightarrow> bool" where
  "plain_src_token t \<longleftrightarrow> t \<noteq> [] \<and> list_all (\<lambda>c. \<not> is_space c \<and> c \<noteq> CHR ''('' \<and> c \<noteq> CHR '')'') t \<and> index_sub t ''->'' = None"

fun src_wf :: "src_expr \<Rightarrow> bool" where
  "src_wf (SrcUri u name) \<longleftrightarrow> is_src_url u \<and> plain_src_token u \<and> (case name of None \<Rightarrow> True | Some f \<Rightarrow> plain_src_token f)"
| "src_wf (SrcIf m f es) \<longleftrightarrow> valid_src_flag f \<and> list_all src_wf es"
| "src_wf (SrcAll es) \<longleftrightarrow> list_all src_wf es"

lemma to_lower_colon: "to_lower_char c = CHR '':'' \<Longrightarrow> c = CHR '':''"
proof (cases "is_upper c")
  case True
  then have "byte (to_lower_char c) = byte c + 32" "byte c \<le> 90" "65 \<le> byte c"
    by (simp_all add: to_lower_char_def is_upper_def byte_def)
  moreover assume "to_lower_char c = CHR '':''"
  ultimately show ?thesis by (simp add: byte_def)
qed (simp add: to_lower_char_def)

lemma url_colon: "is_src_url u \<Longrightarrow> CHR '':'' \<in> set u"
proof -
  assume "is_src_url u"
  then have "CHR '':'' \<in> set (to_lower u)" by (auto simp: is_src_url_def has_prefix_iff)
  then obtain c where "c \<in> set u" "to_lower_char c = CHR '':''" by (auto simp: to_lower_def)
  with to_lower_colon [of c] show ?thesis by simp
qed

lemma colon_not_condition: "CHR '':'' \<in> set t \<Longrightarrow> \<not> is_use_condition t"
proof
  assume c: "CHR '':'' \<in> set t" and "is_use_condition t"
  then have q: "has_suffix t ''?''" and v: "valid_src_flag (trim_prefix (trim_suffix t ''?'') ''!'')"
    by (auto simp: is_use_condition_def Let_def split: if_splits)
  from q obtain x where x: "t = x @ ''?''" by (auto simp: has_suffix_iff)
  then have "CHR '':'' \<in> set x" using c by auto
  moreover have "trim_suffix t ''?'' = x" unfolding x by (rule trim_suffix_append)
  moreover have "CHR '':'' \<in> set (trim_prefix x ''!'')" if "CHR '':'' \<in> set x"
    using that by (cases x) (auto simp: trim_prefix_def)
  ultimately have "CHR '':'' \<in> set (trim_prefix (trim_suffix t ''?'') ''!'')" by simp
  moreover have "\<not> src_alnum CHR '':''" by code_simp
  ultimately show False using v by (auto simp: valid_src_flag_def list_all_iff split: list.splits)
qed

lemmas url_not_condition = url_colon [THEN colon_not_condition]

lemma condition_text:
  assumes "valid_src_flag f"
  shows "is_use_condition ((if m then ''!'' else []) @ f @ ''?'')" "parse_use_condition ((if m then ''!'' else []) @ f @ ''?'') = (f, m)"
proof -
  let ?t = "(if m then ''!'' else []) @ f"
  have suffix: "has_suffix (?t @ ''?'') ''?''" "trim_suffix (?t @ ''?'') ''?'' = ?t"
    by (rule has_suffix_append, rule trim_suffix_append)
  have "\<not> src_alnum CHR ''!''" by code_simp
  then have f: "f \<noteq> []" "\<not> has_prefix f ''!''" using assms by (auto simp: valid_src_flag_def split: list.splits)
  have pre: "trim_prefix ?t ''!'' = f" "has_prefix ?t ''!'' \<longleftrightarrow> m" using f by (auto simp: trim_prefix_def)
  have t: "(if m then ''!'' else []) @ f @ ''?'' = ?t @ ''?''" by simp
  show "is_use_condition ((if m then ''!'' else []) @ f @ ''?'')"
    unfolding t is_use_condition_def suffix Let_def pre using suffix(1) f(1) assms by simp
  show "parse_use_condition ((if m then ''!'' else []) @ f @ ''?'') = (f, m)"
    unfolding t parse_use_condition_def suffix Let_def pre by simp
qed

definition no_arrow :: "string list \<Rightarrow> bool" where
  "no_arrow ts \<longleftrightarrow> (case ts of [] \<Rightarrow> True | t # us \<Rightarrow> t \<noteq> ''->'')"

lemma arrow_not [simp]: "\<not> is_src_url ''->''" "\<not> is_use_condition ''->''"
  by code_simp+

lemma no_arrow_toks: "src_wf e \<Longrightarrow> no_arrow (src_toks e @ ts)"
proof (cases e)
  case (SrcIf m f es)
  assume "src_wf e"
  with SrcIf condition_text(1) [of f m] have "(if m then ''!'' else []) @ f @ ''?'' \<noteq> ''->''" by fastforce
  with SrcIf show ?thesis by (simp add: no_arrow_def)
qed (auto simp: no_arrow_def)

lemma src_add_add [simp]: "src_add xs (src_add ys r) = src_add (xs @ ys) r"
  by (cases "(xs, r)" rule: src_add.cases) auto

lemma src_add_Nil [simp]: "src_add [] r = r"
  by (cases "([] :: src_uri_entry list, r)" rule: src_add.cases) auto

lemma parsed_list:
  assumes "\<And>e ts. e \<in> set es \<Longrightarrow> no_arrow ts \<Longrightarrow>
      src_parsed p order k (src_toks e @ ts) flag neg = src_add (src_entries p order flag neg e) (src_parsed p order k ts flag neg)"
    and "list_all src_wf es" "no_arrow ts"
  shows "src_parsed p order k (concat (map src_toks es) @ ts) flag neg =
    src_add (concat (map (src_entries p order flag neg) es)) (src_parsed p order k ts flag neg)"
  using assms
proof (induction es)
  case (Cons e es)
  have "no_arrow (concat (map src_toks es) @ ts)"
    using Cons.prems(2,3) no_arrow_toks by (cases es) auto
  with Cons.prems(1) [of e "concat (map src_toks es) @ ts"] Cons.IH Cons.prems show ?case by simp
qed simp

lemma parsed_expr:
  assumes "plain_vars (sp_vars p)" "src_wf e" "no_arrow ts"
  shows "src_parsed p order k (src_toks e @ ts) flag neg = src_add (src_entries p order flag neg e) (src_parsed p order k ts flag neg)"
  using assms(2,3)
proof (induction e arbitrary: ts flag neg rule: src_toks.induct)
  case (1 u name)
  then have u: "is_src_url u" "\<not> is_use_condition u" using url_not_condition by auto
  show ?case
  proof (cases name)
    case None
    have "parse_url_entry p order u ts flag neg = Some (\<lparr>su_URL = u, su_Filename = extract_filename u, su_UseFlag = flag, su_Negate = neg\<rparr>, ts)"
      using 1(2) by (auto simp: parse_url_entry_def no_arrow_def Let_def split: list.splits)
    from src_parsed_url [OF assms(1) u this] None show ?thesis by simp
  next
    case (Some f)
    obtain s where s: "expand_variables order (sp_vars p) f = Some s" using expand_variables_returns [OF assms(1)] by blast
    then have "parse_url_entry p order u (''->'' # f # ts) flag neg =
        Some (\<lparr>su_URL = u, su_Filename = s, su_UseFlag = flag, su_Negate = neg\<rparr>, ts)"
      by (simp add: parse_url_entry_def Let_def)
    from src_parsed_url [OF assms(1) u this] Some s show ?thesis by simp
  qed
next
  case (2 m f es)
  have f: "valid_src_flag f" and wf: "list_all src_wf es" using 2(2) by simp_all
  have wf': "src_wf e" if "e \<in> set es" for e using wf that by (simp add: list_all_iff)
  have "src_parsed p order k (concat (map src_toks es) @ '')'' # ts) f m = Inr (concat (map (src_entries p order f m) es), ts)"
    by (subst parsed_list [OF _ wf]) (auto simp: no_arrow_def intro: 2(1) wf')
  with src_parsed_condition [OF assms(1) condition_text [OF f, of m]] show ?case by simp
next
  case (3 es)
  have wf: "list_all src_wf es" using 3(2) by simp
  have wf': "src_wf e" if "e \<in> set es" for e using wf that by (simp add: list_all_iff)
  have "src_parsed p order k (concat (map src_toks es) @ '')'' # ts) flag neg = Inr (concat (map (src_entries p order flag neg) es), ts)"
    by (subst parsed_list [OF _ wf]) (auto simp: no_arrow_def intro: 3(1) wf')
  with src_parsed_group [OF assms(1)] show ?case by simp
qed

subsection \<open>Text\<close>

lemma white_space: "src_white c \<Longrightarrow> is_space c"
  by (auto simp: src_white_def is_space_def byte_def)

lemma src_tokens_plain:
  assumes "list_all (\<lambda>c. \<not> is_space c \<and> c \<noteq> CHR ''('' \<and> c \<noteq> CHR '')'') t" "index_sub t ''->'' = None" "s = [] \<or> hd s = CHR '' ''"
  shows "src_tokens (t @ s) cur = src_tokens s (cur @ t)"
  using assms(1,2)
proof (induction t arbitrary: cur)
  case (Cons c t)
  have "\<not> src_white c" using Cons.prems(1) white_space by auto
  moreover have "\<not> (c = CHR ''-'' \<and> has_prefix (t @ s) ''>'')"
    using Cons.prems(2) assms(3) by (cases t; cases s) (auto split: if_splits)
  ultimately have "src_tokens ((c # t) @ s) cur = src_tokens (t @ s) (cur @ [c])" using Cons.prems(1) by auto
  then show ?case using Cons.IH [of "cur @ [c]"] Cons.prems by (simp split: if_splits)
qed simp

definition src_token :: "string \<Rightarrow> bool" where
  "src_token t \<longleftrightarrow> plain_src_token t \<or> t \<in> {''('', '')'', ''->''}"

lemma src_token_head: "src_token t \<Longrightarrow> t \<noteq> [] \<and> \<not> is_space (hd t) \<and> \<not> is_space (last t)"
proof (cases "plain_src_token t")
  case True
  then have "t \<noteq> []" "\<And>c. c \<in> set t \<Longrightarrow> \<not> is_space c" by (auto simp: plain_src_token_def list_all_iff)
  then show ?thesis by simp
next
  case False
  moreover assume "src_token t"
  ultimately consider "t = ''(''" | "t = '')''" | "t = ''->''" by (auto simp: src_token_def)
  then show ?thesis by cases (simp_all add: is_space_def byte_def)
qed

lemma src_tokens_token:
  assumes "src_token t" "s = [] \<or> hd s = CHR '' ''"
  shows "src_tokens (t @ s) [] = t # src_tokens s []"
proof (cases "plain_src_token t")
  case True
  then have t: "t \<noteq> []" "src_tokens (t @ s) [] = src_tokens s t"
    using src_tokens_plain [of t s "[]"] assms(2) by (auto simp: plain_src_token_def)
  have "src_tokens s t = t # src_tokens s []"
    using assms(2) t(1) by (cases s) (auto simp: flush_src_def src_white_def)
  with t show ?thesis by simp
next
  case False
  with assms(1) consider "t = ''(''" | "t = '')''" | "t = ''->''" by (auto simp: src_token_def)
  then show ?thesis by cases (auto simp: flush_src_def src_white_def)
qed

lemma join_head: "src_token t \<Longrightarrow> join sep (t # ts) \<noteq> [] \<and> hd (join sep (t # ts)) = hd t"
  using src_token_head [of t] by (cases ts) auto

lemma src_tokens_join: "list_all src_token ts \<Longrightarrow> src_tokens (join '' '' ts) [] = ts"
proof (induction ts)
  case (Cons t ts)
  show ?case
  proof (cases ts)
    case Nil
    with src_tokens_token [of t "[]"] Cons.prems show ?thesis by (simp add: flush_src_def)
  next
    case (Cons u us)
    let ?j = "join '' '' (u # us)"
    have u: "src_token u" using Cons.prems Cons by simp
    have "\<not> src_white (hd ?j)" "?j \<noteq> []"
      using join_head [OF u, of "'' ''" us] src_token_head [OF u] white_space by auto
    then have "dropWhile src_white ?j = ?j" by (cases ?j) auto
    moreover have "src_white CHR '' ''" by (simp add: src_white_def)
    ultimately have "src_tokens (CHR '' '' # ?j) [] = src_tokens ?j []" by (simp add: flush_src_def src_white_def)
    with src_tokens_token [of t "CHR '' '' # ?j"] Cons.IH Cons.prems Cons show ?thesis by simp
  qed
qed (simp add: flush_src_def)

lemma join_last: "list_all src_token (t # ts) \<Longrightarrow> last (join sep (t # ts)) = last (last (t # ts))"
proof (induction ts arbitrary: t)
  case (Cons u ts)
  with join_head [of u sep ts] show ?case by simp
qed simp

lemma tokenize_src_join:
  assumes "list_all src_token ts"
  shows "tokenize_src_uri (join '' '' ts) = ts"
proof (cases ts)
  case (Cons t us)
  have "src_token (last ts)" using assms Cons by (metis last_in_set list.distinct(1) list_all_iff)
  then have "tight (join '' '' ts)"
    using join_head [of t "'' ''" us] src_token_head [of t] src_token_head [of "last ts"] join_last [of t us "'' ''"] assms Cons
    by (auto simp: tight_def)
  from trim_space_tight [OF this] src_tokens_join [OF assms] join_head [of t "'' ''" us] assms Cons show ?thesis
    by (simp add: tokenize_src_uri_def Let_def)
qed (simp add: tokenize_src_uri_def trim_space_def)

lemma valid_flag_chars: "valid_src_flag f \<Longrightarrow> c \<in> set f \<Longrightarrow> src_alnum c \<or> c \<in> set ''+_@-''"
  by (auto simp: valid_src_flag_def list_all_iff split: list.splits)

lemma no_greater_arrow: "CHR ''>'' \<notin> set t \<Longrightarrow> index_sub t ''->'' = None"
proof (induction t)
  case (Cons c t)
  then show ?case by (cases t) auto
qed simp

lemma alnum_plain: "src_alnum c \<Longrightarrow> \<not> is_space c \<and> c \<noteq> CHR ''('' \<and> c \<noteq> CHR '')'' \<and> c \<noteq> CHR ''>''"
  by (auto simp: src_alnum_def is_lower_def is_upper_def is_digit_def is_space_def byte_def)

lemma condition_token:
  assumes f: "valid_src_flag f"
  shows "plain_src_token ((if m then ''!'' else []) @ f @ ''?'')"
proof -
  have c: "\<not> is_space c \<and> c \<noteq> CHR ''('' \<and> c \<noteq> CHR '')'' \<and> c \<noteq> CHR ''>''" if "c \<in> set ((if m then ''!'' else []) @ f @ ''?'')" for c
  proof (cases "c \<in> set f")
    case True
    with valid_flag_chars [OF f True] alnum_plain [of c] show ?thesis by (auto simp: is_space_def byte_def)
  next
    case False
    with that show ?thesis by (auto simp: is_space_def byte_def split: if_splits)
  qed
  then have "index_sub ((if m then ''!'' else []) @ f @ ''?'') ''->'' = None" by (intro no_greater_arrow) blast
  with c show ?thesis unfolding plain_src_token_def list_all_iff by blast
qed

lemma toks_tokens: "src_wf e \<Longrightarrow> list_all src_token (src_toks e)"
proof (induction e rule: src_toks.induct)
  case (1 u name)
  then show ?case by (auto simp: src_token_def split: option.splits)
next
  case (2 m f es)
  then show ?case using condition_token [of f m] by (simp add: list_all_iff src_token_def)
next
  case (3 es)
  then show ?case by (simp add: list_all_iff src_token_def)
qed

subsection \<open>Properties\<close>

text \<open>
  Claim C38. Parsing the text of a \<open>SRC_URI\<close> expression gives the files whose USE conditions all hold, each with its URL,
  its file name (after the arrow, or from the URL) and its innermost condition; with nil flags it gives all files.
\<close>

theorem src_uri_parsed:
  assumes "plain_vars (sp_vars p)" "list_all src_wf es"
  shows "parse_src_uri p order (src_text es) = Some (Inr (concat (map (src_entries p order [] False) es)))"
proof -
  let ?ts = "concat (map src_toks es)"
  have "list_all src_token ?ts" using assms(2) toks_tokens by (auto simp: list_all_iff)
  then have tok: "tokenize_src_uri (src_text es) = ?ts" unfolding src_text_def by (rule tokenize_src_join)
  show ?thesis
  proof (cases "?ts = []")
    case True
    then have "es = []" by (cases es; cases "hd es") auto
    with tok True show ?thesis by (simp add: parse_src_uri_def)
  next
    case False
    have "src_parsed p order (length ?ts) (?ts @ []) [] False = src_add (concat (map (src_entries p order [] False) es)) (Inr ([], []))"
      by (subst parsed_list [OF parsed_expr]) (use assms in \<open>auto simp: list_all_iff no_arrow_def\<close>)
    then have "parse_src (Suc (length ?ts)) p order (length ?ts) ?ts [] False =
        Some (Inr (concat (map (src_entries p order [] False) es), []))"
      using parse_src_parsed [OF assms(1), of ?ts "Suc (length ?ts)" order "length ?ts" "[]" False] by simp
    then show ?thesis unfolding parse_src_uri_def tok Let_def using False by (simp only: if_False) simp
  qed
qed

theorem src_uri_parsed_witness:
  "parse_src_uri \<lparr>sp_vars = [''P'' \<mapsto> ''foo-1''], sp_activeFlags = Some [''ssl'' \<mapsto> True]\<rparr> [''P'']
     ''https://a.org/x.tgz -> ${P}.tgz ssl? ( !doc? ( mirror://gnu/foo/ssl.tgz ) ) doc? ( https://a.org/doc.tgz )'' =
   Some (Inr [\<lparr>su_URL = ''https://a.org/x.tgz'', su_Filename = ''foo-1.tgz'', su_UseFlag = [], su_Negate = False\<rparr>,
     \<lparr>su_URL = ''mirror://gnu/foo/ssl.tgz'', su_Filename = ''ssl.tgz'', su_UseFlag = ''doc'', su_Negate = True\<rparr>])"
proof -
  let ?es = "[SrcUri ''https://a.org/x.tgz'' (Some ''${P}.tgz''), SrcIf False ''ssl'' [SrcIf True ''doc'' [SrcUri ''mirror://gnu/foo/ssl.tgz'' None]],
      SrcIf False ''doc'' [SrcUri ''https://a.org/doc.tgz'' None]]"
  let ?p = "\<lparr>sp_vars = [''P'' \<mapsto> ''foo-1''], sp_activeFlags = Some [''ssl'' \<mapsto> True]\<rparr>"
  have tx: "src_text ?es =
      ''https://a.org/x.tgz -> ${P}.tgz ssl? ( !doc? ( mirror://gnu/foo/ssl.tgz ) ) doc? ( https://a.org/doc.tgz )''" by code_simp
  have "plain_vars (sp_vars ?p)" by (simp add: plain_vars_def)
  moreover have "list_all src_wf ?es" by code_simp
  moreover have "concat (map (src_entries ?p [''P''] [] False) ?es) =
     [\<lparr>su_URL = ''https://a.org/x.tgz'', su_Filename = ''foo-1.tgz'', su_UseFlag = [], su_Negate = False\<rparr>,
     \<lparr>su_URL = ''mirror://gnu/foo/ssl.tgz'', su_Filename = ''ssl.tgz'', su_UseFlag = ''doc'', su_Negate = True\<rparr>]" by code_simp
  ultimately show ?thesis using src_uri_parsed [of ?p ?es "[''P'']"] unfolding tx by simp
qed

text \<open>
  Unless the value of a variable contains a dollar sign, the parser returns on every text, however its
  parentheses are nested, and for every order in which the variables are visited.
\<close>

theorem src_uri_total:
  assumes "plain_vars (sp_vars p)"
  shows "parse_src_uri p order s \<noteq> None"
proof -
  have "parse_src (Suc (length ts)) p order k ts [] False \<noteq> None" for k ts
    using parse_src_parsed [OF assms, of ts "Suc (length ts)" order k "[]" False] by simp
  then show ?thesis by (auto simp: parse_src_uri_def Let_def)
qed

theorem src_uri_total_witness:
  "plain_vars [''P'' \<mapsto> ''foo-1''] \<and>
   parse_src_uri \<lparr>sp_vars = [''P'' \<mapsto> ''foo-1''], sp_activeFlags = None\<rparr> [''P''] '') a? ( ( https://a.org/x -> ${P:-${Q}}'' \<noteq> None"
proof
  show v: "plain_vars [''P'' \<mapsto> ''foo-1'']" by (simp add: plain_vars_def)
  show "parse_src_uri \<lparr>sp_vars = [''P'' \<mapsto> ''foo-1''], sp_activeFlags = None\<rparr> [''P''] '') a? ( ( https://a.org/x -> ${P:-${Q}}'' \<noteq> None"
    by (rule src_uri_total) (simp add: v)
qed

text \<open>
  A variable whose value is a default expansion of itself makes the expansion run forever: the replacement is
  looked at again.
\<close>

lemma expand_loop_step:
  "r \<in> {''${X:-a}'', ''${X:-b}''} \<Longrightarrow>
     index_sub (drop 0 r) ''${'' = Some 0 \<and> index_sub (drop (0 + 0) r) ''}'' = Some 6 \<and>
     index_sub (take (6 + 0 - (0 + 2)) (drop (0 + 2) r)) '':-'' = Some 1 \<and>
     take 0 r @ default_value [''X'' \<mapsto> ''${X:-a}''] (take (6 + 0 - (0 + 2)) (drop (0 + 2) r)) 1 @ drop (Suc (6 + 0)) r = ''${X:-a}''"
  by (elim insertE emptyE; simp; code_simp)

lemma expand_default_loops: "expand_default [''X'' \<mapsto> ''${X:-a}''] 0 ''${X:-b}'' = None"
proof -
  have "\<not> (vars = [''X'' \<mapsto> ''${X:-a}''] \<and> start = 0 \<and> r \<in> {''${X:-a}'', ''${X:-b}''})"
    if a: "expand_default vars start r = Some y" for vars start r y
  proof (rule expand_default.raw_induct [OF _ a], rule notI)
    fix f :: "(string \<rightharpoonup> string) \<Rightarrow> nat \<Rightarrow> string \<Rightarrow> string option" and vars start r y
    assume ih: "\<And>vars start r y. f vars start r = Some y \<Longrightarrow>
        \<not> (vars = [''X'' \<mapsto> ''${X:-a}''] \<and> start = 0 \<and> r \<in> {''${X:-a}'', ''${X:-b}''})"
      and body: "(case index_sub (drop start r) ''${'' of
        None \<Rightarrow> Some r
      | Some d \<Rightarrow>
          (case index_sub (drop (d + start) r) ''}'' of
             None \<Rightarrow> Some r
           | Some e \<Rightarrow>
               (let idx = d + start; fin = e + idx; content = take (fin - (idx + 2)) (drop (idx + 2) r) in
                case index_sub content '':-'' of
                  Some i \<Rightarrow> f vars start (take idx r @ default_value vars content i @ drop (Suc fin) r)
                | None \<Rightarrow> f vars (Suc fin) r))) = Some y"
      and v: "vars = [''X'' \<mapsto> ''${X:-a}''] \<and> start = 0 \<and> r \<in> {''${X:-a}'', ''${X:-b}''}"
    then have r: "r \<in> {''${X:-a}'', ''${X:-b}''}" by blast
    from body have "f vars 0 ''${X:-a}'' = Some y"
      using expand_loop_step [OF r] v by (simp only: option.case Let_def) simp
    with ih v show False by blast
  qed
  from this [of "[''X'' \<mapsto> ''${X:-a}'']" 0 "''${X:-b}''"] show ?thesis
    by (cases "expand_default [''X'' \<mapsto> ''${X:-a}''] 0 ''${X:-b}''") auto
qed

text \<open>Entries of EAPI 8 with the prefix \<open>fetch+\<close> are no URL for the parser and are skipped without an error.\<close>

lemma restricted_uri_dropped:
  assumes "plain_vars (sp_vars p)" "plain_src_token (''fetch+https://'' @ u)"
  shows "parse_src_uri p order (''fetch+https://'' @ u) = Some (Inr [])"
proof -
  let ?t = "''fetch+https://'' @ u"
  have "src_token ?t" unfolding src_token_def using assms(2) by blast
  then have "list_all src_token [?t]" by (simp only: list.pred_inject simp_thms)
  then have "tokenize_src_uri (join '' '' [?t]) = [?t]" by (rule tokenize_src_join)
  then have tok: "tokenize_src_uri ?t = [?t]" by (simp only: join.simps)
  have "\<not> is_src_url ?t" by (simp add: is_src_url_def to_lower_def to_lower_char_def is_upper_def byte_def)
  moreover have "\<not> is_use_condition ?t" by (rule colon_not_condition) simp
  ultimately have "src_parsed p order (length [?t]) [?t] [] False = Inr ([], [])"
    using src_parsed_skip [OF assms(1), of ?t order "length [?t]" "[]"] by simp
  then have "parse_src (Suc (length [?t])) p order (length [?t]) [?t] [] False = Some (Inr ([], []))"
    using parse_src_parsed [OF assms(1), of "[?t]" "Suc (length [?t])" order "length [?t]" "[]" False] by simp
  then show ?thesis unfolding parse_src_uri_def tok Let_def by simp
qed

end
