(* ===== verification/Suggest.thy ===== *)
theory Suggest
  imports Go_Prelude "HOL-Library.Char_ord" "HOL-Library.List_Lexorder" "HOL-Library.Product_Lexorder"
begin

text \<open>
  Suggestions for a mistyped command (\<open>internal/cli/suggest.go\<close>). \<open>levenshtein\<close> keeps two rows of the matrix
  of Wagner and Fischer; a row is a list, one entry longer than the runes of the shorter string. The order of
  \<open>sort.Slice\<close> is that of the pairs of distance and command.
\<close>

subsection \<open>The algorithm\<close>

definition min3 :: "nat \<Rightarrow> nat \<Rightarrow> nat \<Rightarrow> nat" where
  "min3 a b c = (if a \<le> b \<and> a \<le> c then a else if b \<le> c then b else c)"

text \<open>The inner loop: \<open>left\<close> is \<open>currRow[i-1]\<close>, the list \<open>prevRow\<close> from position \<open>i-1\<close> on.\<close>

fun fill_row :: "nat \<Rightarrow> nat \<Rightarrow> nat list \<Rightarrow> nat list \<Rightarrow> nat list" where
  "fill_row b left (a # as) (p0 # p1 # ps) =
     (let cost = (if a \<noteq> b then 1 else 0); v = min3 (p1 + 1) (left + 1) (p0 + cost)
      in v # fill_row b v as (p1 # ps))"
| "fill_row b left as ps = []"

fun fill_rows :: "nat list \<Rightarrow> nat list \<Rightarrow> nat \<Rightarrow> nat list \<Rightarrow> nat list" where
  "fill_rows as [] j prev = prev"
| "fill_rows as (b # bs) j prev = fill_rows as bs (Suc j) (j # fill_row b j as prev)"

definition levenshtein :: "string \<Rightarrow> string \<Rightarrow> nat" where
  "levenshtein a b =
     (if length a = 0 then length b
      else if length b = 0 then length a
      else let (a, b) = (if length a > length b then (b, a) else (a, b));
               ra = utf8_runes a; rb = utf8_runes b
           in fill_rows ra rb 1 [0..<Suc (length ra)] ! length ra)"

definition suggest_command :: "string \<Rightarrow> string list \<Rightarrow> int \<Rightarrow> string list" where
  "suggest_command input commands threshold =
     (if input = [] \<or> length commands = 0 \<or> threshold < 0 then []
      else map snd (sort (filter (\<lambda>(d, c). int d \<le> threshold) (map (\<lambda>c. (levenshtein input c, c)) commands))))"

subsection \<open>Edit distance\<close>

text \<open>One edit inserts, deletes or replaces one element.\<close>

inductive edit :: "'a list \<Rightarrow> 'a list \<Rightarrow> bool" where
  edit_insert: "edit (us @ vs) (us @ c # vs)"
| edit_delete: "edit (us @ c # vs) (us @ vs)"
| edit_replace: "edit (us @ c # vs) (us @ d # vs)"

fun distance :: "'a list \<Rightarrow> 'a list \<Rightarrow> nat" where
  "distance [] ys = length ys"
| "distance (x # xs) [] = Suc (length xs)"
| "distance (x # xs) (y # ys) =
     min3 (distance xs (y # ys) + 1) (distance (x # xs) ys + 1) (distance xs ys + (if x \<noteq> y then 1 else 0))"

lemma min3_le: "min3 a b c \<le> n \<longleftrightarrow> a \<le> n \<or> b \<le> n \<or> c \<le> n"
  by (auto simp: min3_def)

lemma min3_cases: "min3 a b c = a \<or> min3 a b c = b \<or> min3 a b c = c"
  by (simp add: min3_def)

lemma le_min3: "n \<le> min3 a b c \<longleftrightarrow> n \<le> a \<and> n \<le> b \<and> n \<le> c"
  by (auto simp: min3_def)

lemma distance_Nil [simp]: "distance xs [] = length xs"
  by (cases xs) simp_all

lemma min3_zero [simp]: "min3 a b 0 = 0"
  by (simp add: min3_def)

lemma min3_Suc_mono: "a \<le> Suc a' \<Longrightarrow> b \<le> Suc b' \<Longrightarrow> c \<le> Suc c' \<Longrightarrow> min3 a b c \<le> Suc (min3 a' b' c')"
  by (auto simp: min3_def)

lemma distance_refl [simp]: "distance xs xs = 0"
  by (induction xs) simp_all

lemma edit_Cons: "edit xs ys \<Longrightarrow> edit (c # xs) (c # ys)"
  by (induction rule: edit.induct)
    (metis append_Cons edit_insert, metis append_Cons edit_delete, metis append_Cons edit_replace)

lemma edits_Cons: "(edit ^^ n) xs ys \<Longrightarrow> (edit ^^ n) (c # xs) (c # ys)"
proof (induction n arbitrary: ys)
  case (Suc n)
  then show ?case by (auto intro: edit_Cons)
qed simp

lemma edits_insert: "(edit ^^ length ys) [] ys"
proof (induction ys)
  case (Cons y ys)
  have "edit (([] :: 'a list) @ ys) ([] @ y # ys)" by (rule edit_insert)
  with Cons show ?case by auto
qed simp

lemma edits_delete: "(edit ^^ length xs) xs []"
proof (induction xs)
  case (Cons x xs)
  have "edit (([] :: 'a list) @ x # xs) ([] @ xs)" by (rule edit_delete)
  with Cons show ?case by (metis append_Nil length_Cons relpowp_Suc_I2)
qed simp

lemma distance_edits: "(edit ^^ distance xs ys) xs ys"
proof (induction xs ys rule: distance.induct)
  case (1 ys)
  show ?case by (simp add: edits_insert)
next
  case (2 x xs)
  show ?case using edits_delete [of "x # xs"] by simp
next
  case (3 x xs y ys)
  let ?n = "distance (x # xs) (y # ys)"
  consider "?n = Suc (distance xs (y # ys))" | "?n = Suc (distance (x # xs) ys)" | "x \<noteq> y" "?n = Suc (distance xs ys)"
    | "x = y" "?n = distance xs ys"
    using min3_cases [of "distance xs (y # ys) + 1" "distance (x # xs) ys + 1" "distance xs ys + (if x \<noteq> y then 1 else 0)"]
    by (cases "x = y") (simp_all only: distance.simps if_True if_False not_True_eq_False not_False_eq_True, auto)
  then show ?case
  proof cases
    case 1
    have "edit (x # xs) xs" using edit_delete [of "[]" x xs] by simp
    with "3.IH"(1) show ?thesis unfolding 1 by (rule relpowp_Suc_I2 [rotated])
  next
    case 2
    have "edit ys (y # ys)" using edit_insert [of "[]" ys y] by simp
    with "3.IH"(2) show ?thesis unfolding 2 by (rule relpowp_Suc_I)
  next
    case 3
    have "edit (x # ys) (y # ys)" using edit_replace [of "[]" x ys y] by simp
    with edits_Cons [OF "3.IH"(3), of x] show ?thesis unfolding 3(2) by (rule relpowp_Suc_I)
  next
    case 4
    with edits_Cons [OF "3.IH"(3), of x] show ?thesis by simp
  qed
qed

lemma distance_drop: "distance (x # xs) ys \<le> Suc (distance xs ys)"
  by (cases ys) (simp_all add: min3_le)

lemma distance_insert: "distance xs (us @ c # vs) \<le> Suc (distance xs (us @ vs))"
proof (induction us arbitrary: xs)
  case Nil
  show ?case by (cases xs) (simp_all add: min3_le)
next
  case (Cons u us)
  note us = Cons
  show ?case
  proof (induction xs)
    case (Cons x xs)
    show ?case
      unfolding append_Cons distance.simps
      by (rule min3_Suc_mono) (use Cons us [of "x # xs"] us [of xs] in simp_all)
  qed simp
qed

lemma distance_delete: "distance xs (us @ vs) \<le> Suc (distance xs (us @ c # vs))"
proof (induction us arbitrary: xs)
  case Nil
  show ?case
  proof (induction xs)
    case (Cons x xs)
    with distance_drop [of x xs vs] show ?case by (auto simp: min3_def)
  qed simp
next
  case (Cons u us)
  note us = Cons
  show ?case
  proof (induction xs)
    case (Cons x xs)
    show ?case
      unfolding append_Cons distance.simps
      by (rule min3_Suc_mono) (use Cons us [of "x # xs"] us [of xs] in simp_all)
  qed simp
qed

lemma distance_replace: "distance xs (us @ d # vs) \<le> Suc (distance xs (us @ c # vs))"
proof (induction us arbitrary: xs)
  case Nil
  show ?case
  proof (induction xs)
    case (Cons x xs)
    then show ?case unfolding append_Nil distance.simps by (intro min3_Suc_mono) simp_all
  qed simp
next
  case (Cons u us)
  note us = Cons
  show ?case
  proof (induction xs)
    case (Cons x xs)
    show ?case
      unfolding append_Cons distance.simps
      by (rule min3_Suc_mono) (use Cons us [of "x # xs"] us [of xs] in simp_all)
  qed simp
qed

lemma distance_edit: "edit ys zs \<Longrightarrow> distance xs zs \<le> Suc (distance xs ys)"
  by (induction rule: edit.induct) (rule distance_insert distance_delete distance_replace)+

lemma distance_least: "(edit ^^ n) xs ys \<Longrightarrow> distance xs ys \<le> n"
proof (induction n arbitrary: ys)
  case (Suc n)
  then obtain zs where "(edit ^^ n) xs zs" "edit zs ys" by auto
  with Suc.IH [of zs] distance_edit [of zs ys xs] show ?case by simp
qed simp

lemma edits_iff: "distance xs ys \<le> n \<longleftrightarrow> (\<exists>m \<le> n. (edit ^^ m) xs ys)"
  using distance_edits distance_least le_trans by blast

lemma edit_rev: "edit xs ys \<Longrightarrow> edit (rev xs) (rev ys)"
proof (induction rule: edit.induct)
  case (edit_insert us vs c)
  then show ?case using edit.edit_insert [of "rev vs" "rev us" c] by simp
next
  case (edit_delete us c vs)
  then show ?case using edit.edit_delete [of "rev vs" c "rev us"] by simp
next
  case (edit_replace us c vs d)
  then show ?case using edit.edit_replace [of "rev vs" c "rev us" d] by simp
qed

lemma edit_sym: "edit xs ys \<Longrightarrow> edit ys xs"
  by (induction rule: edit.induct) (rule edit.intros)+

lemma edits_rev: "(edit ^^ n) xs ys \<Longrightarrow> (edit ^^ n) (rev xs) (rev ys)"
proof (induction n arbitrary: ys)
  case (Suc n)
  then show ?case by (auto intro: edit_rev)
qed simp

lemma edits_sym: "(edit ^^ n) xs ys \<Longrightarrow> (edit ^^ n) ys xs"
proof (induction n arbitrary: ys)
  case (Suc n)
  then obtain zs where "(edit ^^ n) zs xs" "edit zs ys" by auto
  then show ?case using edit_sym by (metis relpowp_Suc_I2)
qed simp

lemma distance_rev: "distance (rev xs) (rev ys) = distance xs ys"
proof -
  have "distance (rev xs) (rev ys) \<le> distance xs ys" for xs ys :: "'a list"
    by (rule distance_least [OF edits_rev [OF distance_edits]])
  from this [of xs ys] this [of "rev xs" "rev ys"] show ?thesis by simp
qed

lemma distance_sym: "distance xs ys = distance ys xs"
  using distance_least [OF edits_sym [OF distance_edits]] le_antisym by metis

subsection \<open>The rows of the matrix\<close>

text \<open>\<open>row as bs\<close>: the distances of all prefixes of \<open>as\<close> from \<open>bs\<close>, from the \<open>k\<close>-th prefix on.\<close>

definition row :: "nat \<Rightarrow> nat list \<Rightarrow> nat list \<Rightarrow> nat list" where
  "row k as bs = map (\<lambda>i. distance (rev (take i as)) (rev bs)) [k..<Suc (length as)]"

lemma row_step: "k \<le> length as \<Longrightarrow> row k as bs = distance (rev (take k as)) (rev bs) # row (Suc k) as bs"
  unfolding row_def by (subst upt_conv_Cons) simp_all

lemma row_end: "row (Suc (length as)) as bs = []"
  by (simp add: row_def)

lemma fill_row_correct:
  "k \<le> length as \<Longrightarrow>
    fill_row b (distance (rev (take k as)) (rev (bs @ [b]))) (drop k as) (row k as bs) = row (Suc k) as (bs @ [b])"
proof (induction "length as - k" arbitrary: k)
  case 0
  then have "k = length as" by simp
  then show ?case by (simp add: row_end)
next
  case (Suc n)
  then have k: "k < length as" by simp
  have d: "drop k as = as ! k # drop (Suc k) as" using k by (simp add: Cons_nth_drop_Suc)
  have t: "rev (take (Suc k) as) = as ! k # rev (take k as)" using k by (simp add: take_Suc_conv_app_nth)
  have r: "row k as bs = distance (rev (take k as)) (rev bs) # distance (rev (take (Suc k) as)) (rev bs) # row (Suc (Suc k)) as bs"
    using k by (simp add: row_step)
  have v: "distance (rev (take (Suc k) as)) (rev (bs @ [b])) =
      min3 (distance (rev (take (Suc k) as)) (rev bs) + 1) (distance (rev (take k as)) (rev (bs @ [b])) + 1)
        (distance (rev (take k as)) (rev bs) + (if as ! k \<noteq> b then 1 else 0))"
  proof -
    have swap: "min3 x y z = min3 y x z" for x y z by (auto simp: min3_def)
    show ?thesis unfolding t rev_append by (simp add: swap [of "Suc (distance (rev (take k as)) (b # rev bs))"])
  qed
  have IH: "fill_row b (distance (rev (take (Suc k) as)) (rev (bs @ [b]))) (drop (Suc k) as) (row (Suc k) as bs) =
      row (Suc (Suc k)) as (bs @ [b])"
    using Suc by (intro Suc.hyps(1)) simp_all
  have "row (Suc k) as bs = distance (rev (take (Suc k) as)) (rev bs) # row (Suc (Suc k)) as bs" using k by (simp add: row_step)
  with IH have "fill_row b (distance (rev (take k as)) (rev (bs @ [b]))) (drop k as) (row k as bs) =
      distance (rev (take (Suc k) as)) (rev (bs @ [b])) # row (Suc (Suc k)) as (bs @ [b])"
    unfolding d r fill_row.simps Let_def v [symmetric] by simp
  also have "\<dots> = row (Suc k) as (bs @ [b])" using k by (simp add: row_step)
  finally show ?case .
qed

lemma fill_rows_correct: "j = Suc (length cs) \<Longrightarrow> fill_rows as bs j (row 0 as cs) = row 0 as (cs @ bs)"
proof (induction as bs j "row 0 as cs" arbitrary: cs rule: fill_rows.induct)
  case (2 as b bs j)
  have "j # fill_row b j as (row 0 as cs) = row 0 as (cs @ [b])"
    using fill_row_correct [of 0 as b cs] by (simp add: "2.prems" row_step)
  with "2.hyps"(1) [of "cs @ [b]"] "2.prems" show ?case by simp
qed simp

lemma row_last: "row 0 as bs ! length as = distance as bs"
proof -
  have "row 0 as bs ! length as = distance (rev as) (rev bs)" by (simp add: row_def del: upt_Suc)
  then show ?thesis by (simp add: distance_rev)
qed

lemma levenshtein_distance:
  assumes "a \<noteq> []" "b \<noteq> []"
  shows "levenshtein a b = distance (utf8_runes a) (utf8_runes b)"
proof -
  have start: "[0..<Suc (length as)] = row 0 as []" for as
    by (auto simp: row_def intro!: nth_equalityI)
  have "fill_rows as bs 1 [0..<Suc (length as)] ! length as = distance as bs" for as bs
    unfolding start using fill_rows_correct [of 1 "[]" as bs] row_last by simp
  then show ?thesis using assms by (simp add: levenshtein_def distance_sym del: upt_Suc)
qed

subsection \<open>Properties\<close>

text \<open>
  Claim C33. \<open>levenshtein\<close> computes the edit distance: for two non-empty strings its result is the least
  number of insertions, deletions and replacements of runes that turn the one into the other.
\<close>

theorem levenshtein_least_edits:
  assumes "a \<noteq> []" "b \<noteq> []"
  shows "levenshtein a b = (LEAST n. (edit ^^ n) (utf8_runes a) (utf8_runes b))"
  unfolding levenshtein_distance [OF assms]
  by (rule Least_equality [symmetric]) (rule distance_edits, rule distance_least)

theorem levenshtein_least_edits_witness:
  "(LEAST n. (edit ^^ n) (utf8_runes ''emrge'') (utf8_runes ''emerge'')) = 1"
proof -
  have "levenshtein ''emrge'' ''emerge'' = 1" by code_simp
  moreover have "levenshtein ''emrge'' ''emerge'' = (LEAST n. (edit ^^ n) (utf8_runes ''emrge'') (utf8_runes ''emerge''))"
    by (rule levenshtein_least_edits) simp_all
  ultimately show ?thesis by (simp only:)
qed

text \<open>
  For an ordinary input \<open>SuggestCommand\<close> returns exactly the commands within the threshold, the
  closest first and equal distances in alphabetical order.
\<close>

theorem suggestions_exact:
  assumes "input \<noteq> []" "0 \<le> threshold" "[] \<notin> set commands"
  shows "set (suggest_command input commands threshold) =
      {c \<in> set commands. int (distance (utf8_runes input) (utf8_runes c)) \<le> threshold} \<and>
    sorted (map (\<lambda>c. (distance (utf8_runes input) (utf8_runes c), c)) (suggest_command input commands threshold))"
proof -
  let ?key = "\<lambda>c. (levenshtein input c, c)"
  let ?xs = "sort (filter (\<lambda>(d, c). int d \<le> threshold) (map ?key commands))"
  have key: "?key c = (distance (utf8_runes input) (utf8_runes c), c)" if "c \<in> set commands" for c
  proof -
    have "c \<noteq> []" using that assms(3) by blast
    then show ?thesis by (simp add: levenshtein_distance assms(1))
  qed
  have res: "suggest_command input commands threshold = map snd ?xs"
    using assms(1,2) by (cases commands) (simp_all add: suggest_command_def)
  have elem: "x = (distance (utf8_runes input) (utf8_runes (snd x)), snd x)" if "x \<in> set ?xs" for x
    using that key by auto
  have "map (\<lambda>c. (distance (utf8_runes input) (utf8_runes c), c)) (map snd ?xs) = ?xs"
    unfolding map_map using elem by (intro map_idI) simp
  then have "sorted (map (\<lambda>c. (distance (utf8_runes input) (utf8_runes c), c)) (suggest_command input commands threshold))"
    unfolding res by (simp only: sorted_sort)
  moreover have "set (map snd ?xs) = {c \<in> set commands. int (levenshtein input c) \<le> threshold}" by force
  moreover have "\<dots> = {c \<in> set commands. int (distance (utf8_runes input) (utf8_runes c)) \<le> threshold}"
    using key by auto
  ultimately show ?thesis unfolding res by simp
qed

theorem suggestions_exact_witness:
  "set (suggest_command ''emrge'' [''search'', ''emerge'', ''info''] 2) =
    {c \<in> {''search'', ''emerge'', ''info''}. int (distance (utf8_runes ''emrge'') (utf8_runes c)) \<le> 2}"
  using suggestions_exact [of "''emrge''" 2 "[''search'', ''emerge'', ''info'']"] by simp

end
