(* ===== verification/Memory_Cache.thy ===== *)
theory Memory_Cache
  imports Go_Prelude "HOL-Library.AList"
begin

text \<open>
  The metadata cache in memory (\<open>internal/cache/memory.go\<close>, \<open>internal/cache/entry.go\<close>). The map is an association
  list with distinct keys, \<open>None\<close> when it is nil. \<open>lastAccess\<close> is written and never read, so it is left out. The
  operations are first given as one goroutine sees them and then as the steps between two locks.
\<close>

subsection \<open>Entries\<close>

record cache_entry =
  ce_Category :: string
  ce_Name :: string
  ce_Version :: string
  ce_EAPI :: string
  ce_Slot :: string
  ce_SubSlot :: string
  ce_Keywords :: "string list"
  ce_IUSE :: "string list"
  ce_Use :: "string list"
  ce_License :: string
  ce_Description :: string
  ce_Homepage :: string
  ce_Depend :: string
  ce_RDepend :: string
  ce_BDepend :: string
  ce_PDepend :: string
  ce_SrcURI :: "string list"
  ce_EbuildMtime :: int
  ce_CachedAt :: int

definition make_key :: "string \<Rightarrow> string \<Rightarrow> string \<Rightarrow> string" where
  "make_key category n v = category @ ''/'' @ n @ ''-'' @ v"

definition entry_key :: "cache_entry \<Rightarrow> string" where
  "entry_key e = ce_Category e @ ''/'' @ ce_Name e @ ''-'' @ ce_Version e"

definition entry_is_valid :: "cache_entry \<Rightarrow> int \<Rightarrow> bool" where
  "entry_is_valid e mtime \<longleftrightarrow> ce_EbuildMtime e = mtime"

text \<open>\<open>Put\<close> stamps an entry that has the zero time.\<close>

definition stamp_entry :: "int \<Rightarrow> cache_entry \<Rightarrow> cache_entry" where
  "stamp_entry now e = (if ce_CachedAt e = 0 then e\<lparr>ce_CachedAt := now\<rparr> else e)"

subsection \<open>The cache\<close>

type_synonym entries = "(string \<times> cache_entry) list"

datatype cache_error = ErrNotFound | ErrInvalidEntry | ErrCacheClosed

record memory_cache =
  mc_maxEntries :: nat
  mc_closed :: bool
  mc_entries :: "entries option"
  mc_order :: "string list"
  mc_hits :: int
  mc_misses :: int

definition new_memory_cache :: "int \<Rightarrow> memory_cache" where
  "new_memory_cache n =
     \<lparr>mc_maxEntries = nat (if n \<le> 0 then 100000 else n), mc_closed = False, mc_entries = Some [], mc_order = [],
      mc_hits = 0, mc_misses = 0\<rparr>"

text \<open>Reading a nil map finds nothing.\<close>

definition cached :: "memory_cache \<Rightarrow> entries" where
  "cached c = (case mc_entries c of Some es \<Rightarrow> es | None \<Rightarrow> [])"

definition remove_from_order :: "string \<Rightarrow> string list \<Rightarrow> string list" where
  "remove_from_order k order = remove1 k order"

definition move_to_end :: "string \<Rightarrow> string list \<Rightarrow> string list" where
  "move_to_end k order = remove_from_order k order @ [k]"

definition evict_oldest :: "entries \<Rightarrow> string list \<Rightarrow> entries \<times> string list" where
  "evict_oldest es order = (case order of [] \<Rightarrow> (es, []) | k # ks \<Rightarrow> (AList.delete k es, ks))"

text \<open>The loop of \<open>Put\<close>: with an empty order it would never end.\<close>

partial_function (option) evict_loop :: "nat \<Rightarrow> entries \<Rightarrow> string list \<Rightarrow> (entries \<times> string list) option" where
  "evict_loop n es order =
     (if n \<le> length es then (let (es', order') = evict_oldest es order in evict_loop n es' order') else Some (es, order))"

declare evict_loop.simps [code]

text \<open>The locked sections. A store into a nil map panics, which the second component says.\<close>

definition get_lookup :: "string \<Rightarrow> memory_cache \<Rightarrow> cache_entry option" where
  "get_lookup k c = map_of (cached c) k"

definition count_miss :: "memory_cache \<Rightarrow> memory_cache" where
  "count_miss c = c\<lparr>mc_misses := mc_misses c + 1\<rparr>"

definition get_touch :: "string \<Rightarrow> memory_cache \<Rightarrow> memory_cache" where
  "get_touch k c = c\<lparr>mc_order := move_to_end k (mc_order c), mc_hits := mc_hits c + 1\<rparr>"

definition put_locked :: "cache_entry \<Rightarrow> memory_cache \<Rightarrow> (memory_cache \<times> bool) option" where
  "put_locked e c =
     (let k = entry_key e in
      if get_lookup k c \<noteq> None
      then Some (c\<lparr>mc_entries := Some (AList.update k e (cached c)), mc_order := move_to_end k (mc_order c)\<rparr>, False)
      else Option.bind (evict_loop (mc_maxEntries c) (cached c) (mc_order c)) (\<lambda>(es, order).
        if mc_entries c = None then Some (c\<lparr>mc_order := order\<rparr>, True)
        else Some (c\<lparr>mc_entries := Some (AList.update k e es), mc_order := order @ [k]\<rparr>, False)))"

definition delete_locked :: "string \<Rightarrow> memory_cache \<Rightarrow> memory_cache" where
  "delete_locked k c =
     (if get_lookup k c = None then c
      else c\<lparr>mc_entries := map_option (AList.delete k) (mc_entries c), mc_order := remove_from_order k (mc_order c)\<rparr>)"

definition stale_entry :: "string \<Rightarrow> int \<Rightarrow> string \<times> cache_entry \<Rightarrow> bool" where
  "stale_entry pre mtime x \<longleftrightarrow> has_prefix (fst x) pre \<and> ce_EbuildMtime (snd x) < mtime"

definition invalidate_locked :: "string \<Rightarrow> int \<Rightarrow> memory_cache \<Rightarrow> memory_cache" where
  "invalidate_locked pre mtime c =
     (let ks = map fst (filter (stale_entry pre mtime) (cached c)) in
      c\<lparr>mc_entries := map_option (\<lambda>es. fold AList.delete ks es) (mc_entries c),
        mc_order := fold remove_from_order ks (mc_order c)\<rparr>)"

definition invalidate_all_locked :: "memory_cache \<Rightarrow> memory_cache" where
  "invalidate_all_locked c = c\<lparr>mc_entries := Some [], mc_order := [], mc_hits := 0, mc_misses := 0\<rparr>"

definition close_locked :: "memory_cache \<Rightarrow> memory_cache" where
  "close_locked c = c\<lparr>mc_entries := None, mc_order := []\<rparr>"

subsection \<open>The methods without interruption\<close>

definition cache_get :: "string \<Rightarrow> string \<Rightarrow> string \<Rightarrow> memory_cache \<Rightarrow> memory_cache \<times> (cache_error + cache_entry)" where
  "cache_get category n v c =
     (if mc_closed c then (c, Inl ErrCacheClosed)
      else let k = make_key category n v in
        (case get_lookup k c of
           None \<Rightarrow> (count_miss c, Inl ErrNotFound)
         | Some e \<Rightarrow> (get_touch k c, Inr e)))"

definition cache_put :: "int \<Rightarrow> cache_entry option \<Rightarrow> memory_cache \<Rightarrow> (memory_cache \<times> cache_error option) option" where
  "cache_put now e c =
     (if mc_closed c then Some (c, Some ErrCacheClosed)
      else case e of
        None \<Rightarrow> Some (c, Some ErrInvalidEntry)
      | Some e \<Rightarrow> map_option (\<lambda>(c', panic). (c', None)) (put_locked (stamp_entry now e) c))"

fun put_entries :: "int \<Rightarrow> cache_entry option list \<Rightarrow> memory_cache \<Rightarrow> (memory_cache \<times> cache_error option) option" where
  "put_entries now [] c = Some (c, None)"
| "put_entries now (e # es) c =
     (case cache_put now e c of
        None \<Rightarrow> None
      | Some (c', Some err) \<Rightarrow> Some (c', Some err)
      | Some (c', None) \<Rightarrow> put_entries now es c')"

definition cache_put_batch :: "int \<Rightarrow> cache_entry option list \<Rightarrow> memory_cache \<Rightarrow> (memory_cache \<times> cache_error option) option" where
  "cache_put_batch now es c = (if mc_closed c then Some (c, Some ErrCacheClosed) else put_entries now es c)"

definition cache_delete :: "string \<Rightarrow> string \<Rightarrow> string \<Rightarrow> memory_cache \<Rightarrow> memory_cache \<times> cache_error option" where
  "cache_delete category n v c =
     (if mc_closed c then (c, Some ErrCacheClosed) else (delete_locked (make_key category n v) c, None))"

definition cache_invalidate :: "string \<Rightarrow> string \<Rightarrow> int \<Rightarrow> memory_cache \<Rightarrow> memory_cache \<times> cache_error option" where
  "cache_invalidate category n mtime c =
     (if mc_closed c then (c, Some ErrCacheClosed)
      else (invalidate_locked (category @ ''/'' @ n @ ''-'') mtime c, None))"

definition cache_invalidate_all :: "memory_cache \<Rightarrow> memory_cache \<times> cache_error option" where
  "cache_invalidate_all c = (if mc_closed c then (c, Some ErrCacheClosed) else (invalidate_all_locked c, None))"

definition cache_close :: "memory_cache \<Rightarrow> memory_cache" where
  "cache_close c = (if mc_closed c then c else close_locked (c\<lparr>mc_closed := True\<rparr>))"

subsection \<open>Eviction\<close>

text \<open>What every interleaving keeps, and what holds when no two calls overlap.\<close>

definition order_covers :: "entries \<Rightarrow> string list \<Rightarrow> bool" where
  "order_covers es order \<longleftrightarrow> distinct (map fst es) \<and> fst ` set es \<subseteq> set order"

definition order_exact :: "entries \<Rightarrow> string list \<Rightarrow> bool" where
  "order_exact es order \<longleftrightarrow> distinct (map fst es) \<and> distinct order \<and> set order = fst ` set es"

definition lru_of :: "entries \<Rightarrow> string list \<Rightarrow> (string \<times> cache_entry) list" where
  "lru_of es order = map (\<lambda>k. (k, the (map_of es k))) order"

lemma order_exact_covers: "order_exact es order \<Longrightarrow> order_covers es order"
  by (simp add: order_exact_def order_covers_def)

lemma order_exact_length: "order_exact es order \<Longrightarrow> length order = length es"
  unfolding order_exact_def by (metis distinct_card length_map list.set_map)

lemma fst_delete: "fst ` set (AList.delete k es) = fst ` set es - {k}"
  by (simp only: delete_keys [THEN arg_cong [of _ _ set], simplified])

lemma fst_update: "fst ` set (AList.update k e es) = insert k (fst ` set es)"
  by (simp add: dom_update)

lemma length_update: "length (AList.update k e es) = (if k \<in> fst ` set es then length es else Suc (length es))"
  by (induction es) auto

lemma length_delete: "length (AList.delete k es) \<le> length es"
  by (simp add: AList.length_delete_le)

lemma covers_update:
  "order_covers es order \<Longrightarrow> k \<in> set order' \<Longrightarrow> set order \<subseteq> insert k (set order') \<Longrightarrow> order_covers (AList.update k e es) order'"
  unfolding order_covers_def by (auto simp: distinct_update fst_update)

lemma covers_delete: "order_covers es order \<Longrightarrow> set order - {k} \<subseteq> set order' \<Longrightarrow> order_covers (AList.delete k es) order'"
  unfolding order_covers_def by (auto simp: distinct_delete fst_delete)

lemma order_covers_Nil [simp]: "order_covers [] order"
  by (simp add: order_covers_def)

lemma order_covers_empty: "order_covers es [] \<longleftrightarrow> es = []"
  by (auto simp: order_covers_def)

lemma evict_loop_unfold:
  "evict_loop n es order = (if n \<le> length es then (case order of [] \<Rightarrow> evict_loop n es [] | k # ks \<Rightarrow> evict_loop n (AList.delete k es) ks)
     else Some (es, order))"
  by (subst evict_loop.simps) (simp add: evict_oldest_def split: list.split)

lemma evict_loop_room: "length es < n \<Longrightarrow> evict_loop n es order = Some (es, order)"
  by (subst evict_loop.simps) simp

lemma evict_loop_covers:
  assumes "0 < n" "order_covers es order"
  shows "\<exists>es' order'. evict_loop n es order = Some (es', order') \<and> order_covers es' order' \<and> length es' < n"
  using assms(2)
proof (induction order arbitrary: es)
  case Nil
  with assms(1) show ?case by (subst evict_loop_unfold) (simp add: order_covers_empty)
next
  case (Cons k ks)
  show ?case
  proof (cases "n \<le> length es")
    case True
    have "order_covers (AList.delete k es) ks" by (rule covers_delete [OF Cons.prems]) auto
    from Cons.IH [OF this] True show ?thesis by (subst evict_loop_unfold) simp
  next
    case False
    with Cons.prems show ?thesis by (subst evict_loop_unfold) simp
  qed
qed

lemma exact_delete: "order_exact es (k # ks) \<Longrightarrow> order_exact (AList.delete k es) ks"
  unfolding order_exact_def by (auto simp: distinct_delete fst_delete)

lemma lru_of_delete: "k \<notin> set order \<Longrightarrow> lru_of (AList.delete k es) order = lru_of es order"
  by (simp add: lru_of_def delete_conv')

lemma lru_of_update: "k \<notin> set order \<Longrightarrow> lru_of (AList.update k e es) order = lru_of es order"
  by (simp add: lru_of_def update_conv')

lemma evict_loop_exact:
  assumes "0 < n" "order_exact es order"
  shows "\<exists>es' order'. evict_loop n es order = Some (es', order') \<and> order_exact es' order' \<and> length es' < n \<and>
    order' = drop (Suc (length es) - n) order \<and> lru_of es' order' = drop (Suc (length es) - n) (lru_of es order)"
  using assms(2)
proof (induction order arbitrary: es)
  case Nil
  then have "es = []" by (simp add: order_exact_def)
  with assms(1) show ?case by (subst evict_loop_unfold) (simp add: order_exact_def)
next
  case (Cons k ks)
  show ?case
  proof (cases "n \<le> length es")
    case True
    have len: "length es = Suc (length (AList.delete k es))"
      using order_exact_length [OF Cons.prems] order_exact_length [OF exact_delete [OF Cons.prems]] by simp
    have new: "k \<notin> set ks" using Cons.prems by (simp add: order_exact_def)
    have "lru_of es (k # ks) = (k, the (map_of es k)) # lru_of (AList.delete k es) ks"
      using lru_of_delete [OF new, of es] by (simp add: lru_of_def)
    moreover have "Suc (length es) - n = Suc (Suc (length (AList.delete k es)) - n)" using True len by simp
    ultimately show ?thesis
      using Cons.IH [OF exact_delete [OF Cons.prems]] True by (subst evict_loop_unfold) simp
  next
    case False
    with Cons.prems show ?thesis by (subst evict_loop_unfold) simp
  qed
qed

subsection \<open>The least recently used list\<close>

text \<open>
  The specification: a closed cache is \<open>None\<close>, an open one the list of its entries in the order of their last
  use.
\<close>

datatype cache_op =
  OpGet string string string | OpPut int "cache_entry option" | OpPutBatch int "cache_entry option list"
| OpDelete string string string | OpInvalidate string string int | OpInvalidateAll | OpClose

datatype cache_reply = Done "cache_error option" | Found cache_entry

definition lru_put :: "nat \<Rightarrow> cache_entry \<Rightarrow> entries \<Rightarrow> entries" where
  "lru_put n e l =
     (let k = entry_key e in
      if k \<in> fst ` set l then AList.delete k l @ [(k, e)] else drop (Suc (length l) - n) l @ [(k, e)])"

fun lru_puts :: "nat \<Rightarrow> int \<Rightarrow> cache_entry option list \<Rightarrow> entries \<Rightarrow> entries \<times> cache_reply" where
  "lru_puts n now [] l = (l, Done None)"
| "lru_puts n now (None # es) l = (l, Done (Some ErrInvalidEntry))"
| "lru_puts n now (Some e # es) l = lru_puts n now es (lru_put n (stamp_entry now e) l)"

fun lru_do :: "nat \<Rightarrow> cache_op \<Rightarrow> entries option \<Rightarrow> entries option \<times> cache_reply" where
  "lru_do n OpClose l = (None, Done None)"
| "lru_do n op None = (None, Done (Some ErrCacheClosed))"
| "lru_do n (OpGet category name v) (Some l) =
     (let k = make_key category name v in
      case map_of l k of None \<Rightarrow> (Some l, Done (Some ErrNotFound)) | Some e \<Rightarrow> (Some (AList.delete k l @ [(k, e)]), Found e))"
| "lru_do n (OpPut now e) (Some l) = map_prod Some id (lru_puts n now [e] l)"
| "lru_do n (OpPutBatch now es) (Some l) = map_prod Some id (lru_puts n now es l)"
| "lru_do n (OpDelete category name v) (Some l) = (Some (AList.delete (make_key category name v) l), Done None)"
| "lru_do n (OpInvalidate category name mtime) (Some l) =
     (Some (filter (\<lambda>x. \<not> stale_entry (category @ ''/'' @ name @ ''-'') mtime x) l), Done None)"
| "lru_do n OpInvalidateAll (Some l) = (Some [], Done None)"

fun cache_do :: "cache_op \<Rightarrow> memory_cache \<Rightarrow> (memory_cache \<times> cache_reply) option" where
  "cache_do (OpGet category name v) c =
     Some (map_prod id (\<lambda>r. case r of Inl err \<Rightarrow> Done (Some err) | Inr e \<Rightarrow> Found e) (cache_get category name v c))"
| "cache_do (OpPut now e) c = map_option (map_prod id Done) (cache_put now e c)"
| "cache_do (OpPutBatch now es) c = map_option (map_prod id Done) (cache_put_batch now es c)"
| "cache_do (OpDelete category name v) c = Some (map_prod id Done (cache_delete category name v c))"
| "cache_do (OpInvalidate category name mtime) c = Some (map_prod id Done (cache_invalidate category name mtime c))"
| "cache_do OpInvalidateAll c = Some (map_prod id Done (cache_invalidate_all c))"
| "cache_do OpClose c = Some (cache_close c, Done None)"

fun cache_run :: "cache_op list \<Rightarrow> memory_cache \<Rightarrow> (memory_cache \<times> cache_reply list) option" where
  "cache_run [] c = Some (c, [])"
| "cache_run (op # ops) c =
     Option.bind (cache_do op c) (\<lambda>(c', r). map_option (\<lambda>(c'', rs). (c'', r # rs)) (cache_run ops c'))"

fun lru_run :: "nat \<Rightarrow> cache_op list \<Rightarrow> entries option \<Rightarrow> entries option \<times> cache_reply list" where
  "lru_run n [] l = (l, [])"
| "lru_run n (op # ops) l = (let (l', r) = lru_do n op l; (l'', rs) = lru_run n ops l' in (l'', r # rs))"

definition lru_abs :: "memory_cache \<Rightarrow> entries option" where
  "lru_abs c = (if mc_closed c then None else Some (lru_of (cached c) (mc_order c)))"

definition cache_inv :: "memory_cache \<Rightarrow> bool" where
  "cache_inv c \<longleftrightarrow> 0 < mc_maxEntries c \<and> (mc_entries c = None \<longleftrightarrow> mc_closed c) \<and> order_exact (cached c) (mc_order c) \<and>
     length (cached c) \<le> mc_maxEntries c"

lemma map_of_lru: "order_exact es order \<Longrightarrow> map_of (lru_of es order) = map_of es"
proof
  fix k
  assume e: "order_exact es order"
  show "map_of (lru_of es order) k = map_of es k"
  proof (cases "k \<in> set order")
    case True
    moreover from True e have "map_of es k \<noteq> None" by (simp add: order_exact_def map_of_eq_None_iff)
    ultimately show ?thesis
      by (auto simp: lru_of_def map_of_map_restrict)
  next
    case False
    with e have "k \<notin> fst ` set es" by (simp add: order_exact_def)
    with False show ?thesis by (simp add: lru_of_def map_of_map_restrict map_of_eq_None_iff [THEN iffD2])
  qed
qed

lemma fst_lru [simp]: "fst ` set (lru_of es order) = set order"
  by (force simp: lru_of_def)

lemma length_lru [simp]: "length (lru_of es order) = length order"
  by (simp add: lru_of_def)

lemma lru_of_remove: "distinct order \<Longrightarrow> lru_of es (remove1 k order) = AList.delete k (lru_of es order)"
proof (induction order)
  case (Cons j order)
  then show ?case by (cases "j = k") (auto simp: lru_of_def image_iff intro!: delete_id [symmetric])
qed (simp add: lru_of_def)

lemma lru_of_append: "lru_of es (xs @ ys) = lru_of es xs @ lru_of es ys"
  by (simp add: lru_of_def)

lemma exact_move: "order_exact es order \<Longrightarrow> k \<in> set order \<Longrightarrow> order_exact es (move_to_end k order)"
  unfolding order_exact_def move_to_end_def remove_from_order_def by (auto simp: set_remove1_eq)

lemma lru_of_move:
  "order_exact es order \<Longrightarrow> lru_of es (move_to_end k order) = AList.delete k (lru_of es order) @ [(k, the (map_of es k))]"
  unfolding order_exact_def move_to_end_def remove_from_order_def lru_of_append
  by (simp add: lru_of_remove) (simp add: lru_of_def)

lemma exact_remove: "order_exact es order \<Longrightarrow> order_exact (AList.delete k es) (remove1 k order)"
  unfolding order_exact_def by (auto simp: set_remove1_eq distinct_delete fst_delete)

lemma lru_remove:
  assumes "order_exact es order"
  shows "lru_of (AList.delete k es) (remove1 k order) = AList.delete k (lru_of es order)"
proof -
  have d: "distinct order" using assms by (simp add: order_exact_def)
  then have "k \<notin> set (remove1 k order)" by (simp add: set_remove1_eq)
  from lru_of_delete [OF this] lru_of_remove [OF d] show ?thesis by simp
qed

subsection \<open>Every method refines its specification\<close>

abbreviation lru_list :: "memory_cache \<Rightarrow> entries" where
  "lru_list c \<equiv> lru_of (cached c) (mc_order c)"

definition open_as :: "nat \<Rightarrow> entries \<Rightarrow> memory_cache \<Rightarrow> bool" where
  "open_as n l c \<longleftrightarrow> cache_inv c \<and> \<not> mc_closed c \<and> mc_maxEntries c = n \<and> lru_list c = l"

lemma open_lookup: "open_as n l c \<Longrightarrow> get_lookup k c = map_of l k"
  by (auto simp: open_as_def cache_inv_def get_lookup_def map_of_lru)

lemma open_abs: "open_as n l c \<Longrightarrow> lru_abs c = Some l"
  by (auto simp: open_as_def lru_abs_def)

lemma open_touch:
  assumes "open_as n l c" "map_of l k = Some e"
  shows "open_as n (AList.delete k l @ [(k, e)]) (get_touch k c)"
proof -
  have ex: "order_exact (cached c) (mc_order c)" using assms(1) by (simp add: open_as_def cache_inv_def)
  have e: "map_of (cached c) k = Some e"
    using assms open_lookup [OF assms(1), of k] by (simp add: get_lookup_def)
  then have "k \<in> set (mc_order c)" using ex by (auto simp: order_exact_def dest: map_of_SomeD intro: rev_image_eqI)
  from exact_move [OF ex this] lru_of_move [OF ex, of k] e assms(1) show ?thesis
    by (simp add: open_as_def cache_inv_def get_touch_def cached_def)
qed

lemma lru_of_last: "order_exact es order \<Longrightarrow> k \<notin> set order \<Longrightarrow> lru_of (AList.update k e es) (order @ [k]) = lru_of es order @ [(k, e)]"
  by (simp add: lru_of_append lru_of_update) (simp add: lru_of_def update_conv')

lemma exact_last: "order_exact es order \<Longrightarrow> k \<notin> set order \<Longrightarrow> order_exact (AList.update k e es) (order @ [k])"
  unfolding order_exact_def by (auto simp: distinct_update fst_update)

lemma cached_store: "cached (c\<lparr>mc_entries := Some es, mc_order := order\<rparr>) = es"
  by (simp add: cached_def)

lemma open_put:
  assumes "open_as n l c"
  shows "\<exists>c'. put_locked e c = Some (c', False) \<and> open_as n (lru_put n e l) c'"
proof -
  let ?k = "entry_key e"
  have c: "0 < n" "mc_entries c = Some (cached c)" "order_exact (cached c) (mc_order c)" "length (cached c) \<le> n"
      "mc_maxEntries c = n" "lru_list c = l" "\<not> mc_closed c"
    using assms by (auto simp: open_as_def cache_inv_def cached_def)
  have keys: "fst ` set l = set (mc_order c)" "set (mc_order c) = fst ` set (cached c)"
    using c(3,6) by (auto simp: order_exact_def simp flip: c(6))
  show ?thesis
  proof (cases "map_of l ?k")
    case None
    then have new: "?k \<notin> set (mc_order c)" using keys(1) by (simp add: map_of_eq_None_iff)
    obtain es order where ev: "evict_loop n (cached c) (mc_order c) = Some (es, order)" and ex: "order_exact es order"
      and len: "length es < n" and order: "order = drop (Suc (length (cached c)) - n) (mc_order c)"
      and lru: "lru_of es order = drop (Suc (length (cached c)) - n) l"
      using evict_loop_exact [OF c(1,3)] c(6) by auto
    have k: "?k \<notin> set order" using new order by (auto dest: in_set_dropD)
    have len': "length (cached c) = length l" using order_exact_length [OF c(3)] c(6) by (auto simp flip: c(6))
    have "put_locked e c = Some (c\<lparr>mc_entries := Some (AList.update ?k e es), mc_order := order @ [?k]\<rparr>, False)"
      using ev c None open_lookup [OF assms] by (simp add: put_locked_def Let_def)
    moreover have "lru_put n e l = lru_of (AList.update ?k e es) (order @ [?k])"
      using lru_of_last [OF ex k] lru len' None by (simp add: lru_put_def map_of_eq_None_iff)
    moreover have "length (AList.update ?k e es) \<le> n" using len by (simp add: length_update)
    ultimately show ?thesis
      using exact_last [OF ex k] c by (simp add: open_as_def cache_inv_def cached_def)
  next
    case (Some old)
    have "?k \<in> fst ` set l" using Some by (metis map_of_eq_None_iff option.distinct(1))
    then have old: "?k \<in> fst ` set l" "?k \<in> set (mc_order c)" "?k \<in> fst ` set (cached c)" using keys by simp_all
    let ?es = "AList.update ?k e (cached c)" and ?order = "move_to_end ?k (mc_order c)"
    have "put_locked e c = Some (c\<lparr>mc_entries := Some ?es, mc_order := ?order\<rparr>, False)"
      using Some open_lookup [OF assms] by (simp add: put_locked_def Let_def)
    moreover have ex: "order_exact ?es (mc_order c)"
      using c(3) old by (auto simp: order_exact_def distinct_update fst_update)
    moreover have "lru_of ?es ?order = AList.delete ?k l @ [(?k, e)]"
    proof -
      have d: "distinct (mc_order c)" using c(3) by (simp add: order_exact_def)
      then have "?k \<notin> set (remove1 ?k (mc_order c))" by (simp add: set_remove1_eq)
      from lru_of_update [OF this, of e "cached c"] lru_of_remove [OF d, of "cached c" ?k] c(6) show ?thesis
        by (simp add: move_to_end_def remove_from_order_def lru_of_append) (simp add: lru_of_def update_conv')
    qed
    moreover have "length ?es \<le> n" using c(4) old(3) by (simp add: length_update)
    ultimately show ?thesis
      using exact_move [OF ex old(2)] c(1,5,7) old(1) by (simp add: open_as_def cache_inv_def cached_store lru_put_def Let_def)
  qed
qed

lemma open_delete:
  assumes "open_as n l c"
  shows "open_as n (AList.delete k l) (delete_locked k c)"
proof (cases "map_of l k")
  case None
  then have "AList.delete k l = l" by (simp add: map_of_eq_None_iff)
  with None assms open_lookup [OF assms] show ?thesis by (simp add: delete_locked_def)
next
  case (Some e)
  have inv: "cache_inv c" "\<not> mc_closed c" "mc_maxEntries c = n" "lru_list c = l" using assms by (simp_all add: open_as_def)
  then obtain es where es: "mc_entries c = Some es" by (auto simp: cache_inv_def)
  then have ce: "cached c = es" by (simp add: cached_def)
  have ex: "order_exact es (mc_order c)" and len: "length es \<le> n" using inv by (auto simp: cache_inv_def ce)
  have d: "delete_locked k c = c\<lparr>mc_entries := Some (AList.delete k es), mc_order := remove1 k (mc_order c)\<rparr>"
    using Some open_lookup [OF assms, of k] by (simp add: delete_locked_def es remove_from_order_def)
  have "length (AList.delete k es) \<le> n" using len length_delete [of k es] by simp
  moreover have "lru_of (AList.delete k es) (remove1 k (mc_order c)) = AList.delete k l"
    using lru_remove [OF ex, of k] inv(4) by (simp add: ce)
  ultimately show ?thesis
    using inv exact_remove [OF ex, of k] unfolding d by (simp add: open_as_def cache_inv_def cached_def)
qed

lemma fold_remove:
  assumes "order_exact es order"
  shows "order_exact (fold AList.delete ks es) (fold remove_from_order ks order) \<and>
    lru_of (fold AList.delete ks es) (fold remove_from_order ks order) = fold AList.delete ks (lru_of es order)"
  using assms
proof (induction ks arbitrary: es order)
  case (Cons k ks)
  from Cons.IH [OF exact_remove [OF Cons.prems, of k]] lru_remove [OF Cons.prems, of k] show ?case
    by (simp add: remove_from_order_def)
qed simp

lemma fold_delete_filter: "fold AList.delete ks l = filter (\<lambda>x. fst x \<notin> set ks) l"
  by (induction ks arbitrary: l) (auto simp: AList.delete_eq intro!: filter_cong)

lemma set_lru:
  assumes "order_exact es order"
  shows "set (lru_of es order) = set es"
proof -
  have "distinct (map fst es)" using assms by (simp add: order_exact_def)
  then have "x \<in> set es \<longleftrightarrow> map_of es (fst x) = Some (snd x)" for x by (simp add: map_of_eq_Some_iff)
  moreover have "x \<in> set (lru_of es order) \<longleftrightarrow> map_of es (fst x) = Some (snd x)" for x
  proof -
    have "distinct (map fst (lru_of es order))" using assms by (simp add: lru_of_def order_exact_def comp_def)
    then show ?thesis by (simp add: map_of_eq_Some_iff flip: map_of_lru [OF assms])
  qed
  ultimately show ?thesis by blast
qed

lemma open_invalidate:
  assumes "open_as n l c"
  shows "open_as n (filter (\<lambda>x. \<not> stale_entry pre mtime x) l) (invalidate_locked pre mtime c)"
proof -
  have inv: "cache_inv c" "\<not> mc_closed c" "mc_maxEntries c = n" "lru_list c = l" using assms by (simp_all add: open_as_def)
  then obtain es where es: "mc_entries c = Some es" by (auto simp: cache_inv_def)
  then have ce: "cached c = es" by (simp add: cached_def)
  have ex: "order_exact es (mc_order c)" and len: "length es \<le> n" using inv by (auto simp: cache_inv_def ce)
  let ?ks = "map fst (filter (stale_entry pre mtime) es)"
  have "stale_entry pre mtime x \<longleftrightarrow> fst x \<in> set ?ks" if "x \<in> set l" for x
    using that set_lru [OF ex] inv(4) ex by (auto simp: order_exact_def distinct_map inj_on_def ce)
  then have l: "fold AList.delete ?ks l = filter (\<lambda>x. \<not> stale_entry pre mtime x) l"
    unfolding fold_delete_filter by (intro filter_cong) auto
  have d: "invalidate_locked pre mtime c =
      c\<lparr>mc_entries := Some (fold AList.delete ?ks es), mc_order := fold remove_from_order ?ks (mc_order c)\<rparr>"
    by (simp add: invalidate_locked_def Let_def es ce)
  have "length (fold AList.delete ?ks es) \<le> n"
    using len unfolding fold_delete_filter by (meson le_trans length_filter_le)
  then show ?thesis
    using inv fold_remove [OF ex, of ?ks] unfolding d ce by (simp add: open_as_def cache_inv_def cached_def l)
qed

lemma open_puts:
  assumes "open_as n l c"
  shows "\<exists>c' r. put_entries now es c = Some (c', r) \<and> snd (lru_puts n now es l) = Done r \<and> open_as n (fst (lru_puts n now es l)) c'"
  using assms
proof (induction es arbitrary: c l)
  case (Cons e es)
  have nc: "\<not> mc_closed c" using Cons.prems by (simp add: open_as_def)
  show ?case
  proof (cases e)
    case None
    with nc Cons.prems show ?thesis by (simp add: cache_put_def)
  next
    case (Some x)
    obtain c' where c': "put_locked (stamp_entry now x) c = Some (c', False)" "open_as n (lru_put n (stamp_entry now x) l) c'"
      using open_put [OF Cons.prems] by blast
    from Cons.IH [OF c'(2)] c'(1) nc Some show ?thesis by (simp add: cache_put_def)
  qed
qed simp

text \<open>A closed cache holds nothing and refuses everything.\<close>

definition cache_as :: "nat \<Rightarrow> entries option \<Rightarrow> memory_cache \<Rightarrow> bool" where
  "cache_as n l c \<longleftrightarrow> (case l of None \<Rightarrow> mc_closed c | Some l \<Rightarrow> open_as n l c)"

lemma cache_as_abs: "cache_as n l c \<Longrightarrow> lru_abs c = l"
  by (auto simp: cache_as_def lru_abs_def open_as_def split: option.splits)

lemma do_open:
  assumes "open_as n l c"
  shows "\<exists>c'. cache_do op c = Some (c', snd (lru_do n op (Some l))) \<and> cache_as n (fst (lru_do n op (Some l))) c'"
proof -
  have nc: "\<not> mc_closed c" using assms by (simp add: open_as_def)
  show ?thesis
  proof (cases op)
    case (OpGet category name v)
    show ?thesis
    proof (cases "map_of l (make_key category name v)")
      case None
      moreover have "open_as n l (count_miss c)"
        using assms by (simp add: open_as_def cache_inv_def count_miss_def cached_def)
      ultimately show ?thesis using OpGet nc open_lookup [OF assms] by (simp add: cache_get_def cache_as_def)
    next
      case (Some e)
      with OpGet nc open_lookup [OF assms] open_touch [OF assms Some] show ?thesis
        by (simp add: cache_get_def cache_as_def Let_def)
    qed
  next
    case (OpPut now e)
    obtain c' r where r: "put_entries now [e] c = Some (c', r)" "snd (lru_puts n now [e] l) = Done r"
      "open_as n (fst (lru_puts n now [e] l)) c'" using open_puts [OF assms] by blast
    have q: "cache_put now e c = put_entries now [e] c"
      by (cases "cache_put now e c") (auto split: option.split)
    have "cache_put now e c = Some (c', r)" unfolding q by (rule r(1))
    with r(2,3) OpPut show ?thesis by (simp add: cache_as_def)
  next
    case (OpPutBatch now es)
    with open_puts [OF assms, of now es] nc show ?thesis by (auto simp: cache_put_batch_def cache_as_def)
  next
    case (OpDelete category name v)
    with open_delete [OF assms] nc show ?thesis by (simp add: cache_delete_def cache_as_def)
  next
    case (OpInvalidate category name mtime)
    with open_invalidate [OF assms] nc show ?thesis by (simp add: cache_invalidate_def cache_as_def)
  next
    case OpInvalidateAll
    have "open_as n [] (invalidate_all_locked c)"
      using assms by (simp add: open_as_def cache_inv_def invalidate_all_locked_def cached_def order_exact_def lru_of_def)
    with OpInvalidateAll nc show ?thesis by (simp add: cache_invalidate_all_def cache_as_def)
  next
    case OpClose
    with nc show ?thesis by (simp add: cache_close_def close_locked_def cache_as_def)
  qed
qed

lemma do_closed:
  assumes "mc_closed c"
  shows "\<exists>c'. cache_do op c = Some (c', snd (lru_do n op None)) \<and> cache_as n (fst (lru_do n op None)) c'"
  using assms
  by (cases op) (simp_all add: cache_get_def cache_put_def cache_put_batch_def cache_delete_def cache_invalidate_def
    cache_invalidate_all_def cache_close_def cache_as_def)

lemma do_as:
  assumes "cache_as n l c"
  shows "\<exists>c'. cache_do op c = Some (c', snd (lru_do n op l)) \<and> cache_as n (fst (lru_do n op l)) c'"
  using assms do_open [of n _ c op] do_closed [of c op n] by (cases l) (simp_all add: cache_as_def)

lemma run_as:
  assumes "cache_as n l c"
  shows "\<exists>c'. cache_run ops c = Some (c', snd (lru_run n ops l)) \<and> cache_as n (fst (lru_run n ops l)) c'"
  using assms
proof (induction ops arbitrary: l c)
  case (Cons op ops)
  obtain c' where c': "cache_do op c = Some (c', snd (lru_do n op l))" "cache_as n (fst (lru_do n op l)) c'"
    using do_as [OF Cons.prems] by blast
  from Cons.IH [OF c'(2)] c'(1) show ?case by (auto simp: Let_def split: prod.split)
qed simp

lemma new_cache_as: "cache_as (mc_maxEntries (new_memory_cache m)) (Some []) (new_memory_cache m)"
  by (simp add: cache_as_def open_as_def cache_inv_def new_memory_cache_def cached_def order_exact_def lru_of_def)

text \<open>
  Claim C34. When no two calls overlap, the cache is the list of its entries in the order of their last use: every
  history of calls returns, with the replies the list gives, an entry is evicted only when the cache is full and
  then the one that was not used for the longest time, and a closed cache refuses everything. In particular the
  eviction loop always ends.
\<close>

theorem cache_refines_lru:
  "map_option (\<lambda>(c, rs). (lru_abs c, rs)) (cache_run ops (new_memory_cache m)) =
     Some (lru_run (mc_maxEntries (new_memory_cache m)) ops (Some []))"
  using run_as [OF new_cache_as, of ops m] cache_as_abs by fastforce

subsection \<open>Overlapping calls\<close>

text \<open>
  A call is listed from its test of \<open>closed\<close> to its last locked section; \<open>Get\<close> has two sections. \<open>run_call\<close> is one
  section: what is left of the call and whether it panics.
\<close>

datatype cache_call =
  CallGet string | CallTouch string cache_entry | CallPut cache_entry | CallDelete string | CallInvalidate string int
| CallInvalidateAll | CallClose

record cache_system =
  cs_cache :: memory_cache
  cs_calls :: "cache_call list"
  cs_panics :: nat

fun run_call :: "cache_call \<Rightarrow> memory_cache \<Rightarrow> (memory_cache \<times> cache_call list \<times> bool) option" where
  "run_call (CallGet k) c =
     Some (case get_lookup k c of None \<Rightarrow> (count_miss c, [], False) | Some e \<Rightarrow> (c, [CallTouch k e], False))"
| "run_call (CallTouch k e) c = Some (get_touch k c, [], False)"
| "run_call (CallPut e) c = map_option (\<lambda>(c', panic). (c', [], panic)) (put_locked e c)"
| "run_call (CallDelete k) c = Some (delete_locked k c, [], False)"
| "run_call (CallInvalidate pre mtime) c = Some (invalidate_locked pre mtime c, [], False)"
| "run_call CallInvalidateAll c = Some (invalidate_all_locked c, [], False)"
| "run_call CallClose c = Some (close_locked c, [], False)"

fun starts_call :: "cache_call \<Rightarrow> bool" where
  "starts_call (CallTouch k e) = False"
| "starts_call CallClose = False"
| "starts_call k = True"

inductive cache_step :: "cache_system \<Rightarrow> cache_system \<Rightarrow> bool" where
  cs_begin: "\<not> mc_closed (cs_cache s) \<Longrightarrow> starts_call k \<Longrightarrow> cache_step s (s\<lparr>cs_calls := cs_calls s @ [k]\<rparr>)"
| cs_close: "\<not> mc_closed (cs_cache s) \<Longrightarrow>
    cache_step s (s\<lparr>cs_cache := (cs_cache s)\<lparr>mc_closed := True\<rparr>, cs_calls := cs_calls s @ [CallClose]\<rparr>)"
| cs_run: "cs_calls s = xs @ k # ys \<Longrightarrow> run_call k (cs_cache s) = Some (c, ks, panic) \<Longrightarrow>
    cache_step s (s\<lparr>cs_cache := c, cs_calls := xs @ ks @ ys, cs_panics := cs_panics s + (if panic then 1 else 0)\<rparr>)"

definition cache_reachable :: "int \<Rightarrow> cache_system \<Rightarrow> bool" where
  "cache_reachable m s \<longleftrightarrow>
     cache_step\<^sup>*\<^sup>* \<lparr>cs_cache = new_memory_cache m, cs_calls = [], cs_panics = 0\<rparr> s"

definition shared_inv :: "nat \<Rightarrow> memory_cache \<Rightarrow> bool" where
  "shared_inv n c \<longleftrightarrow> 0 < n \<and> mc_maxEntries c = n \<and> order_covers (cached c) (mc_order c) \<and> length (cached c) \<le> n"

lemma ex_bool [simp]: "\<exists>p. p" "\<exists>p. \<not> p"
  by blast+

lemma shared_put:
  assumes "shared_inv n c"
  shows "\<exists>c' panic. put_locked e c = Some (c', panic) \<and> shared_inv n c' \<and> (panic \<longleftrightarrow> mc_entries c = None)"
proof (cases "get_lookup (entry_key e) c")
  case None
  obtain es order where ev: "evict_loop n (cached c) (mc_order c) = Some (es, order)" "order_covers es order" "length es < n"
    using evict_loop_covers [of n "cached c" "mc_order c"] assms by (auto simp: shared_inv_def)
  have up: "order_covers (AList.update (entry_key e) e es) (order @ [entry_key e])"
    by (rule covers_update [OF ev(2)]) auto
  have len: "length (AList.update (entry_key e) e es) \<le> n" using ev(3) by (simp add: length_update)
  show ?thesis
  proof (cases "mc_entries c")
    case None': None
    with None ev assms have "put_locked e c = Some (c\<lparr>mc_order := order\<rparr>, True)"
      by (simp add: put_locked_def Let_def shared_inv_def)
    moreover have "shared_inv n (c\<lparr>mc_order := order\<rparr>)" using assms None' by (simp add: shared_inv_def cached_def)
    ultimately show ?thesis using None' by blast
  next
    case (Some es')
    with None ev assms have
      "put_locked e c = Some (c\<lparr>mc_entries := Some (AList.update (entry_key e) e es), mc_order := order @ [entry_key e]\<rparr>, False)"
      by (simp add: put_locked_def Let_def shared_inv_def)
    with Some up len assms show ?thesis by (simp add: shared_inv_def cached_store)
  qed
next
  case (Some old)
  then have k: "entry_key e \<in> fst ` set (cached c)" "mc_entries c \<noteq> None"
    by (auto simp: get_lookup_def cached_def dest: map_of_SomeD intro: rev_image_eqI split: option.splits)
  have "order_covers (AList.update (entry_key e) e (cached c)) (move_to_end (entry_key e) (mc_order c))"
    using assms
    by (intro covers_update [of _ "mc_order c"])
      (auto simp: shared_inv_def move_to_end_def remove_from_order_def intro: in_set_remove1 [THEN iffD2])
  moreover have "length (AList.update (entry_key e) e (cached c)) \<le> n" using assms k by (simp add: length_update shared_inv_def)
  moreover have "put_locked e c = Some (c\<lparr>mc_entries := Some (AList.update (entry_key e) e (cached c)),
      mc_order := move_to_end (entry_key e) (mc_order c)\<rparr>, False)"
    using Some by (simp add: put_locked_def Let_def)
  ultimately show ?thesis using k assms by (simp add: shared_inv_def cached_store)
qed

lemma covers_remove: "order_covers es order \<Longrightarrow> order_covers (AList.delete k es) (remove1 k order)"
  by (rule covers_delete) (auto intro: in_set_remove1 [THEN iffD2])

lemma covers_fold:
  "order_covers es order \<Longrightarrow> order_covers (fold AList.delete ks es) (fold remove_from_order ks order)"
  by (induction ks arbitrary: es order) (simp_all add: remove_from_order_def covers_remove)

lemma shared_run:
  assumes "shared_inv n c"
  shows "\<exists>c' ks panic. run_call k c = Some (c', ks, panic) \<and> shared_inv n c'"
proof (cases k)
  case (CallGet j)
  with assms show ?thesis by (cases "get_lookup j c") (auto simp: count_miss_def shared_inv_def cached_def)
next
  case (CallTouch j e)
  have "order_covers (cached c) (move_to_end j (mc_order c))"
    using assms unfolding shared_inv_def order_covers_def move_to_end_def remove_from_order_def
    by (auto intro: in_set_remove1 [THEN iffD2])
  with CallTouch assms show ?thesis by (auto simp: get_touch_def shared_inv_def cached_def)
next
  case (CallPut e)
  with shared_put [OF assms, of e] show ?thesis by auto
next
  case (CallDelete j)
  have "length (AList.delete j (cached c)) \<le> n" using assms length_delete [of j "cached c"] by (simp add: shared_inv_def)
  with CallDelete assms covers_remove [of "cached c" "mc_order c" j] show ?thesis
    by (cases "mc_entries c") (simp_all add: delete_locked_def shared_inv_def cached_def remove_from_order_def get_lookup_def)
next
  case (CallInvalidate pre mtime)
  have "length (fold AList.delete ks (cached c)) \<le> n" for ks
    using assms unfolding fold_delete_filter shared_inv_def by (meson le_trans length_filter_le)
  with CallInvalidate assms covers_fold [of "cached c" "mc_order c"] show ?thesis
    by (cases "mc_entries c") (simp_all add: invalidate_locked_def Let_def shared_inv_def cached_def)
next
  case CallInvalidateAll
  with assms show ?thesis by (simp add: invalidate_all_locked_def shared_inv_def cached_def)
next
  case CallClose
  with assms show ?thesis by (simp add: close_locked_def shared_inv_def cached_def)
qed

lemma cache_step_inv: "cache_step s t \<Longrightarrow> shared_inv n (cs_cache s) \<Longrightarrow> shared_inv n (cs_cache t)"
proof (induction rule: cache_step.induct)
  case (cs_close s)
  then show ?case by (simp add: shared_inv_def cached_def)
next
  case (cs_run s xs k ys c ks panic)
  with shared_run [of n "cs_cache s" k] show ?case by auto
qed simp

lemma reachable_shared:
  assumes "cache_reachable m s"
  shows "shared_inv (mc_maxEntries (new_memory_cache m)) (cs_cache s)"
  using assms unfolding cache_reachable_def
proof (induction rule: rtranclp_induct)
  case base
  show ?case by (simp add: shared_inv_def new_memory_cache_def cached_def)
next
  case (step s t)
  then show ?case using cache_step_inv by blast
qed

lemma reachable_run:
  assumes "cache_reachable m s" "cs_calls s = xs @ k # ys" "run_call k (cs_cache s) = Some (c, ks, panic)"
  shows "cache_reachable m (s\<lparr>cs_cache := c, cs_calls := xs @ ks @ ys, cs_panics := cs_panics s + (if panic then 1 else 0)\<rparr>)"
  using assms(1) cs_run [OF assms(2,3)] unfolding cache_reachable_def by (rule rtranclp.rtrancl_into_rtrancl)

lemma reachable_begin:
  assumes "cache_reachable m s" "\<not> mc_closed (cs_cache s)" "starts_call k"
  shows "cache_reachable m (s\<lparr>cs_calls := cs_calls s @ [k]\<rparr>)"
  using assms(1) cs_begin [OF assms(2,3)] unfolding cache_reachable_def by (rule rtranclp.rtrancl_into_rtrancl)

lemma reachable_close:
  assumes "cache_reachable m s" "\<not> mc_closed (cs_cache s)"
  shows "cache_reachable m (s\<lparr>cs_cache := (cs_cache s)\<lparr>mc_closed := True\<rparr>, cs_calls := cs_calls s @ [CallClose]\<rparr>)"
  using assms(1) cs_close [OF assms(2)] unfolding cache_reachable_def by (rule rtranclp.rtrancl_into_rtrancl)

lemma reachable_start: "cache_reachable m \<lparr>cs_cache = new_memory_cache m, cs_calls = [], cs_panics = 0\<rparr>"
  by (simp add: cache_reachable_def)

text \<open>A system that does nothing but one whole call.\<close>

lemma reachable_call:
  assumes "cache_reachable m \<lparr>cs_cache = c, cs_calls = ks, cs_panics = n\<rparr>" "\<not> mc_closed c" "starts_call k"
    and "run_call k c = Some (c', ks', False)"
  shows "cache_reachable m \<lparr>cs_cache = c', cs_calls = ks @ ks', cs_panics = n\<rparr>"
  using reachable_run [OF reachable_begin [OF assms(1) _ assms(3)], of ks k "[]" c' ks' False] assms(2,4) by simp

text \<open>
  Claim C35. However the calls of several goroutines overlap, the cache never holds more than its bound, every key
  of the map is in the order, and no call hangs: in particular the eviction loop ends although the order can
  contain keys that are no longer in the map.
\<close>

theorem cache_bounded:
  assumes "cache_reachable m s"
  shows "length (cached (cs_cache s)) \<le> mc_maxEntries (new_memory_cache m) \<and>
    distinct (map fst (cached (cs_cache s))) \<and> fst ` set (cached (cs_cache s)) \<subseteq> set (mc_order (cs_cache s)) \<and>
    list_all (\<lambda>k. run_call k (cs_cache s) \<noteq> None) (cs_calls s)"
proof -
  note inv = reachable_shared [OF assms]
  have "run_call k (cs_cache s) \<noteq> None" for k using shared_run [OF inv, of k] by auto
  with inv show ?thesis by (simp add: shared_inv_def order_covers_def list_all_iff)
qed

definition sample_entry :: "string \<Rightarrow> cache_entry" where
  "sample_entry n =
     \<lparr>ce_Category = ''c'', ce_Name = n, ce_Version = ''1'', ce_EAPI = ''8'', ce_Slot = ''0'', ce_SubSlot = [], ce_Keywords = [],
      ce_IUSE = [], ce_Use = [], ce_License = [], ce_Description = [], ce_Homepage = [], ce_Depend = [], ce_RDepend = [],
      ce_BDepend = [], ce_PDepend = [], ce_SrcURI = [], ce_EbuildMtime = 5, ce_CachedAt = 7\<rparr>"

lemma sample_run:
  "put_locked (sample_entry ''a'') (new_memory_cache 1) =
     Some ((new_memory_cache 1)\<lparr>mc_entries := Some [(''c/a-1'', sample_entry ''a'')], mc_order := [''c/a-1'']\<rparr>, False)"
  by code_simp

theorem cache_bounded_witness:
  "\<exists>s. cache_reachable 1 s \<and> cs_calls s = [CallPut (sample_entry ''b'')] \<and> cached (cs_cache s) = [(''c/a-1'', sample_entry ''a'')] \<and>
     length (cached (cs_cache s)) \<le> 1 \<and> run_call (CallPut (sample_entry ''b'')) (cs_cache s) \<noteq> None"
proof -
  let ?c = "(new_memory_cache 1)\<lparr>mc_entries := Some [(''c/a-1'', sample_entry ''a'')], mc_order := [''c/a-1'']\<rparr>"
  let ?s = "\<lparr>cs_cache = ?c, cs_calls = [CallPut (sample_entry ''b'')], cs_panics = 0\<rparr>"
  have "cache_reachable 1 \<lparr>cs_cache = ?c, cs_calls = [] @ [], cs_panics = 0\<rparr>"
    by (rule reachable_call [OF reachable_start, of _ "CallPut (sample_entry ''a'')"])
      (simp_all add: sample_run, simp add: new_memory_cache_def)
  from reachable_begin [OF this, of "CallPut (sample_entry ''b'')"] have r: "cache_reachable 1 ?s"
    by (simp add: new_memory_cache_def)
  from cache_bounded [OF this] have "length (cached ?c) \<le> 1 \<and> run_call (CallPut (sample_entry ''b'')) ?c \<noteq> None"
    by (simp add: new_memory_cache_def)
  moreover have "cached ?c = [(''c/a-1'', sample_entry ''a'')]" by (simp add: cached_def)
  ultimately show ?thesis by (intro exI [where x = ?s] conjI r) simp_all
qed

text \<open>
  Claim C36. A \<open>Put\<close> that has tested \<open>closed\<close> just before \<open>Close\<close> panics: \<open>Close\<close> sets the map to nil and the store
  into a nil map crashes the process. This is the only way to panic, and it can happen for every entry and bound.
\<close>

theorem put_after_close_panics:
  "(\<exists>s. cache_reachable m s \<and> cs_calls s = [CallPut e] \<and> run_call (CallPut e) (cs_cache s) = Some (cs_cache s, [], True)) \<and>
   (run_call k c = Some (c', ks, True) \<longleftrightarrow>
     (case k of CallPut e' \<Rightarrow> mc_entries c = None \<and> ks = [] \<and> put_locked e' c = Some (c', True) | _ \<Rightarrow> False))"
proof
  let ?c = "new_memory_cache m"
  let ?sa = "\<lparr>cs_cache = ?c, cs_calls = [CallPut e], cs_panics = 0\<rparr>"
  let ?sb = "\<lparr>cs_cache = ?c\<lparr>mc_closed := True\<rparr>, cs_calls = [CallPut e, CallClose], cs_panics = 0\<rparr>"
  let ?s = "\<lparr>cs_cache = close_locked (?c\<lparr>mc_closed := True\<rparr>), cs_calls = [CallPut e], cs_panics = 0\<rparr>"
  have open0: "\<not> mc_closed ?c" by (simp add: new_memory_cache_def)
  have "cache_reachable m ?sa" using reachable_begin [OF reachable_start, of m "CallPut e"] open0 by simp
  from reachable_close [OF this] have s1: "cache_reachable m ?sb" using open0 by simp
  have "cache_reachable m (?sb\<lparr>cs_cache := close_locked (?c\<lparr>mc_closed := True\<rparr>), cs_calls := [CallPut e] @ [] @ [],
      cs_panics := cs_panics ?sb + (if False then 1 else 0)\<rparr>)"
    by (rule reachable_run [OF s1, where k = CallClose]) simp_all
  then have r: "cache_reachable m ?s" by simp
  have n: "mc_entries (cs_cache ?s) = None" by (simp add: close_locked_def)
  have "put_locked e (cs_cache ?s) = Some (cs_cache ?s, True)"
    by (simp add: put_locked_def get_lookup_def cached_def close_locked_def Let_def new_memory_cache_def evict_loop_room)
  with r show "\<exists>s. cache_reachable m s \<and> cs_calls s = [CallPut e] \<and> run_call (CallPut e) (cs_cache s) = Some (cs_cache s, [], True)"
    by (intro exI [where x = ?s]) simp
  have "put_locked e' c = Some (c', True) \<Longrightarrow> mc_entries c = None" for e'
    by (auto simp: put_locked_def Let_def split: if_splits Option.bind_splits prod.splits)
  then show "run_call k c = Some (c', ks, True) \<longleftrightarrow>
     (case k of CallPut e' \<Rightarrow> mc_entries c = None \<and> ks = [] \<and> put_locked e' c = Some (c', True) | _ \<Rightarrow> False)"
    by (cases k) (auto split: option.splits)
qed

definition with_entries :: "int \<Rightarrow> int \<Rightarrow> entries \<Rightarrow> string list \<Rightarrow> memory_cache" where
  "with_entries m h es order =
     (new_memory_cache m)\<lparr>mc_entries := Some es, mc_order := order, mc_hits := h\<rparr>"

lemma with_entries_simps [simp]:
  "mc_closed (with_entries m h es order) = False"
  "mc_maxEntries (with_entries m h es order) = mc_maxEntries (new_memory_cache m)"
  "mc_entries (with_entries m h es order) = Some es"
  "mc_order (with_entries m h es order) = order"
  "cached (with_entries m h es order) = es"
  by (simp_all add: with_entries_def new_memory_cache_def cached_def)

lemma with_entries_put:
  assumes "map_of es (entry_key e) = None" "evict_loop (mc_maxEntries (new_memory_cache m)) es order = Some (es', order')"
  shows "put_locked e (with_entries m h es order) =
    Some (with_entries m h (AList.update (entry_key e) e es') (order' @ [entry_key e]), False)"
  using assms by (simp add: put_locked_def get_lookup_def Let_def) (simp add: with_entries_def)

lemma with_entries_touch: "get_touch k (with_entries m h es order) = with_entries m (h + 1) es (remove1 k order @ [k])"
  by (simp add: get_touch_def move_to_end_def remove_from_order_def) (simp add: with_entries_def)

lemma with_entries_delete:
  "map_of es k \<noteq> None \<Longrightarrow> delete_locked k (with_entries m h es order) = with_entries m h (AList.delete k es) (remove1 k order)"
  by (simp add: delete_locked_def get_lookup_def remove_from_order_def) (auto simp: with_entries_def)

text \<open>
  A \<open>Get\<close> that overlaps a \<open>Delete\<close> of its key breaks the order: it puts the deleted key back into the
  order, and later the oldest occurrence of the key evicts the entry that was stored last, while an entry that
  was not used for longer stays.
\<close>

theorem race_evicts_recent:
  assumes "entry_key x \<noteq> entry_key y" "entry_key x \<noteq> entry_key z" "entry_key y \<noteq> entry_key z"
  shows "\<exists>s c'. cache_reachable 2 s \<and> cs_calls s = [] \<and> mc_order (cs_cache s) = [entry_key x, entry_key y, entry_key x] \<and>
    get_lookup (entry_key x) (cs_cache s) = Some x \<and> get_lookup (entry_key y) (cs_cache s) = Some y \<and>
    put_locked z (cs_cache s) = Some (c', False) \<and> get_lookup (entry_key x) c' = None \<and>
    get_lookup (entry_key y) c' = Some y \<and> get_lookup (entry_key z) c' = Some z"
proof -
  let ?x = "entry_key x" and ?y = "entry_key y" and ?z = "entry_key z"
  let ?S = "\<lambda>c ks. \<lparr>cs_cache = c, cs_calls = ks, cs_panics = 0\<rparr>"
  have two: "mc_maxEntries (new_memory_cache 2) = 2" by (simp add: new_memory_cache_def)
  note call = reachable_call [where m = 2 and n = 0]
  note put = with_entries_put [where m = 2, unfolded two, OF _ evict_loop_room]
  have "cache_reachable 2 (?S (with_entries 2 0 [] []) [])"
    using reachable_start [of 2] by (simp add: with_entries_def new_memory_cache_def)
  from call [OF this _ _, of "CallPut x" "with_entries 2 0 [(?x, x)] [?x]" "[]"]
  have "cache_reachable 2 (?S (with_entries 2 0 [(?x, x)] [?x]) [])" by (simp add: put)
  from call [OF this _ _, of "CallGet ?x" "with_entries 2 0 [(?x, x)] [?x]" "[CallTouch ?x x]"]
  have "cache_reachable 2 (?S (with_entries 2 0 [(?x, x)] [?x]) [CallTouch ?x x])" by (simp add: get_lookup_def)
  from call [OF this _ _, of "CallDelete ?x" "with_entries 2 0 [] []" "[]"]
  have "cache_reachable 2 (?S (with_entries 2 0 [] []) [CallTouch ?x x])" by (simp add: with_entries_delete)
  from reachable_run [OF this, of "[]" "CallTouch ?x x" "[]" "with_entries 2 1 [] [?x]" "[]" False]
  have "cache_reachable 2 (?S (with_entries 2 1 [] [?x]) [])" by (simp add: with_entries_touch)
  from call [OF this _ _, of "CallPut y" "with_entries 2 1 [(?y, y)] [?x, ?y]" "[]"]
  have "cache_reachable 2 (?S (with_entries 2 1 [(?y, y)] [?x, ?y]) [])" by (simp add: put)
  from call [OF this _ _, of "CallPut x" "with_entries 2 1 [(?y, y), (?x, x)] [?x, ?y, ?x]" "[]"]
  have r: "cache_reachable 2 (?S (with_entries 2 1 [(?y, y), (?x, x)] [?x, ?y, ?x]) [])" using assms(1) by (simp add: put)
  have "evict_loop 2 [(?y, y), (?x, x)] [?x, ?y, ?x] = Some ([(?y, y)], [?y, ?x])"
    using assms(1) by (subst evict_loop_unfold) (simp add: evict_loop_room)
  from with_entries_put [where m = 2, unfolded two, OF _ this, of z 1]
  have p: "put_locked z (with_entries 2 1 [(?y, y), (?x, x)] [?x, ?y, ?x]) =
      Some (with_entries 2 1 [(?y, y), (?z, z)] [?y, ?x, ?z], False)" using assms by simp
  show ?thesis
    by (intro exI [where x = "?S (with_entries 2 1 [(?y, y), (?x, x)] [?x, ?y, ?x]) []"]
      exI [where x = "with_entries 2 1 [(?y, y), (?z, z)] [?y, ?x, ?z]"])
      (use assms r p in \<open>simp add: get_lookup_def\<close>)
qed

theorem race_evicts_recent_witness:
  "\<exists>s c'. cache_reachable 2 s \<and> cs_calls s = [] \<and> mc_order (cs_cache s) = [''c/a-1'', ''c/b-1'', ''c/a-1''] \<and>
    put_locked (sample_entry ''d'') (cs_cache s) = Some (c', False) \<and> get_lookup ''c/a-1'' c' = None \<and>
    get_lookup ''c/b-1'' c' = Some (sample_entry ''b'')"
proof -
  have k: "entry_key (sample_entry n) = ''c/'' @ n @ ''-1''" for n by (simp add: entry_key_def sample_entry_def)
  have "\<exists>s c'. cache_reachable 2 s \<and> cs_calls s = [] \<and> mc_order (cs_cache s) = [''c/a-1'', ''c/b-1'', ''c/a-1''] \<and>
    get_lookup ''c/a-1'' (cs_cache s) = Some (sample_entry ''a'') \<and> get_lookup ''c/b-1'' (cs_cache s) = Some (sample_entry ''b'') \<and>
    put_locked (sample_entry ''d'') (cs_cache s) = Some (c', False) \<and> get_lookup ''c/a-1'' c' = None \<and>
    get_lookup ''c/b-1'' c' = Some (sample_entry ''b'') \<and> get_lookup ''c/d-1'' c' = Some (sample_entry ''d'')"
    using race_evicts_recent [of "sample_entry ''a''" "sample_entry ''b''" "sample_entry ''d''"] unfolding k by simp
  then show ?thesis by blast
qed

end
