(* ===== verification/Ver_Helpers.thy ===== *)
theory Ver_Helpers
  imports Versions Go_Format
begin

text \<open>
  The version functions of ebuilds (\<open>internal/ebuild/helpers_version.go\<close>): \<open>ver_cut\<close>, \<open>ver_rs\<close> and \<open>ver_test\<close>, and the
  two of them that run inside eclasses (\<open>internal/ebuild/eclass_bridge.go\<close>). A function returns what it prints, a
  false exit or a death.
\<close>

subsection \<open>Splitting\<close>

definition ver_alnum :: "char \<Rightarrow> bool" where
  "ver_alnum c \<longleftrightarrow> is_digit c \<or> is_lower c \<or> is_upper c"

definition ver_alpha :: "char \<Rightarrow> bool" where
  "ver_alpha c \<longleftrightarrow> is_lower c \<or> is_upper c"

definition ver_component :: "string \<Rightarrow> string" where
  "ver_component v = (if v \<noteq> [] \<and> is_digit (hd v) then takeWhile is_digit v else takeWhile ver_alpha v)"

lemma ver_component_progress: "v \<noteq> [] \<Longrightarrow> ver_alnum (hd v) \<Longrightarrow> ver_component v \<noteq> []"
  by (cases v) (auto simp: ver_component_def ver_alnum_def ver_alpha_def)

lemma ver_component_append: "ver_component v @ drop (length (ver_component v)) v = v"
  by (simp add: ver_component_def flip: dropWhile_eq_drop)

function ver_split :: "string \<Rightarrow> string list" where
  "ver_split v =
     (if v = [] then []
      else let sep = takeWhile (\<lambda>c. \<not> ver_alnum c) v; v1 = dropWhile (\<lambda>c. \<not> ver_alnum c) v; c = ver_component v1
        in sep # c # ver_split (drop (length c) v1))"
  by pat_completeness auto
termination
proof (relation "measure length")
  fix v :: string and sep v1 c
  assume v: "v \<noteq> []" "sep = takeWhile (\<lambda>c. \<not> ver_alnum c) v" "v1 = dropWhile (\<lambda>c. \<not> ver_alnum c) v" "c = ver_component v1"
  have "length (drop (length c) v1) < length v"
  proof (cases "v1 = v")
    case True
    have "ver_alnum (hd (dropWhile (\<lambda>c. \<not> ver_alnum c) v))"
      using hd_dropWhile [of "\<lambda>c. \<not> ver_alnum c" v] v(1) True unfolding v(3) by force
    then have "ver_alnum (hd v)" unfolding v(3) [symmetric] True .
    then have "c \<noteq> []" unfolding v(4) True by (rule ver_component_progress [OF v(1)])
    then have "0 < length c" "0 < length v" using v(1) by simp_all
    then show ?thesis unfolding True length_drop by (rule diff_less)
  next
    case False
    have "v = sep @ v1" using v(2,3) by simp
    moreover from this False have "sep \<noteq> []" by auto
    ultimately have "length v1 < length v" by (cases sep) auto
    then show ?thesis by simp
  qed
  then show "(drop (length c) v1, v) \<in> measure length" by simp
qed simp

declare ver_split.simps [simp del]

definition split_version_parts :: "string \<Rightarrow> string list" where
  "split_version_parts version =
     (let comp = ver_split version in
      filter (\<lambda>c. c \<noteq> []) (map (\<lambda>i. comp ! i) (filter odd [0..<length comp])))"

subsection \<open>Ranges\<close>

text \<open>\<open>strconv.Atoi\<close> with signs.\<close>

definition atoi_signed :: "string \<Rightarrow> int option" where
  "atoi_signed s =
     (case s of
        [] \<Rightarrow> None
      | c # t \<Rightarrow>
          if c = CHR ''-'' then
            (if t \<noteq> [] \<and> list_all is_digit t \<and> digits_value t \<le> 2 ^ 63 then Some (- digits_value t) else None)
          else if c = CHR ''+'' then atoi t
          else atoi s)"

text \<open>Arithmetic of \<open>int\<close> wraps around at 64 bits.\<close>

definition int64 :: "int \<Rightarrow> int" where
  "int64 x = (x + 2 ^ 63) mod 2 ^ 64 - 2 ^ 63"

definition parse_ver_range :: "string \<Rightarrow> int \<Rightarrow> string + int \<times> int" where
  "parse_ver_range spec maxp =
     (if CHR ''-'' \<in> set spec then
        (let parts = splitn2_byte CHR ''-'' spec; a = parts ! 0; b = parts ! 1 in
         case (if a \<noteq> [] then atoi_signed a else Some 1) of
           None \<Rightarrow> Inl (''invalid start: '' @ a)
         | Some start \<Rightarrow>
             (case (if b \<noteq> [] then atoi_signed b else Some maxp) of
                None \<Rightarrow> Inl (''invalid end: '' @ b)
              | Some fin \<Rightarrow> Inr (start, fin)))
      else
        (case atoi_signed spec of
           None \<Rightarrow> Inl (''invalid range: '' @ spec)
         | Some n \<Rightarrow> Inr (n, n)))"

subsection \<open>The functions\<close>

text \<open>The bounds of the loop of \<open>verCutImpl\<close>.\<close>

definition ver_cut_bounds :: "int \<Rightarrow> int \<Rightarrow> int \<Rightarrow> int \<Rightarrow> int \<times> int" where
  "ver_cut_bounds len maxp start fin =
     (let fin = (if fin > maxp then maxp else fin);
          arr_start = (if start = 0 then 0 else int64 (start * 2 - 1));
          arr_len = int64 (int64 (fin * 2) - arr_start);
          arr_len = (if int64 (arr_start + arr_len) > len then len - arr_start else arr_len)
      in (arr_start, int64 (arr_start + arr_len)))"

definition ver_cut_impl :: "string \<Rightarrow> string \<Rightarrow> string + string" where
  "ver_cut_impl spec version =
     (let comp = ver_split version; maxp = int (length comp div 2) in
      if length comp = 0 then Inr []
      else case parse_ver_range spec maxp of
        Inl e \<Rightarrow> Inl e
      | Inr (start, fin) \<Rightarrow>
          if start > maxp then Inr []
          else let (lo, hi) = ver_cut_bounds (int (length comp)) maxp start fin
            in Inr (concat (map (\<lambda>i. comp ! nat i) [lo..hi - 1])))"

definition ver_rs_impl :: "string \<Rightarrow> string \<Rightarrow> string \<Rightarrow> string" where
  "ver_rs_impl spec sep version =
     (let comp = ver_split version; maxp = int (length comp div 2) - 1 in
      if length comp = 0 \<or> maxp < 1 then version
      else case parse_ver_range spec maxp of
        Inl e \<Rightarrow> version
      | Inr (start, fin) \<Rightarrow>
          concat (fold (\<lambda>i comp. if i * 2 < int (length comp) \<and> \<not> (i * 2 = 0 \<and> comp ! 0 = []) then comp[nat (i * 2) := sep] else comp)
            [start..min fin maxp] comp))"

datatype helper_result = Printed string | Exits bool | Dies string

definition ver_cut :: "string list \<Rightarrow> helper_result" where
  "ver_cut args =
     (if length args < 2 then Dies ''ver_cut: requires range and version arguments''
      else case ver_cut_impl (args ! 0) (args ! 1) of
        Inl e \<Rightarrow> Dies (''ver_cut: '' @ e)
      | Inr s \<Rightarrow> Printed s)"

definition ver_rs :: "string list \<Rightarrow> helper_result" where
  "ver_rs args =
     (if length args < 3 then Dies ''ver_rs: requires range, separator, and version arguments''
      else Printed (ver_rs_impl (args ! 0) (args ! 1) (args ! 2)))"

text \<open>The same commands inside an eclass: the version defaults to \<open>PV\<close>.\<close>

definition eclass_ver_cut :: "string \<Rightarrow> string list \<Rightarrow> helper_result" where
  "eclass_ver_cut pv args =
     (if length args < 1 then Dies ''ver_cut: requires range argument''
      else let version = (if 2 \<le> length args then args ! 1 else pv) in
        if version = [] then Dies ''ver_cut: no version (PV not set)''
        else case ver_cut_impl (args ! 0) version of
          Inl e \<Rightarrow> Dies (''ver_cut: '' @ e)
        | Inr s \<Rightarrow> Printed s)"

definition eclass_ver_rs :: "string \<Rightarrow> string list \<Rightarrow> helper_result" where
  "eclass_ver_rs pv args =
     (if length args < 2 then Dies ''ver_rs: requires range and separator arguments''
      else let version = (if 3 \<le> length args then args ! 2 else pv) in
        if version = [] then Dies ''ver_rs: no version (PV not set)''
        else Printed (ver_rs_impl (args ! 0) (args ! 1) version))"

definition ver_test :: "coregex \<Rightarrow> string \<Rightarrow> string \<Rightarrow> string list \<Rightarrow> helper_result" where
  "ver_test rx pvr pv args =
     (let run = \<lambda>v1 op v2. let cmp = compare_version_strings rx v1 v2 in
        if op = ''-eq'' then Exits (cmp = 0)
        else if op = ''-ne'' then Exits (cmp \<noteq> 0)
        else if op = ''-lt'' then Exits (cmp < 0)
        else if op = ''-le'' then Exits (cmp \<le> 0)
        else if op = ''-gt'' then Exits (cmp > 0)
        else if op = ''-ge'' then Exits (cmp \<ge> 0)
        else Dies (''ver_test: unknown operator: '' @ op)
      in case args of
        [v1, op, v2] \<Rightarrow> run v1 op v2
      | [op, v2] \<Rightarrow> run (if pvr = [] then pv else pvr) op v2
      | _ \<Rightarrow> Dies ''ver_test: requires 2 or 3 arguments'')"

subsection \<open>Pairs of separator and component\<close>

fun ver_pairs :: "string list \<Rightarrow> (string \<times> string) list" where
  "ver_pairs (s # c # r) = (s, c) # ver_pairs r"
| "ver_pairs _ = []"

definition ver_flat :: "(string \<times> string) list \<Rightarrow> string list" where
  "ver_flat ps = concat (map (\<lambda>(s, c). [s, c]) ps)"

lemma ver_flat_simps [simp]: "ver_flat [] = []" "ver_flat ((s, c) # ps) = s # c # ver_flat ps" "length (ver_flat ps) = 2 * length ps"
  by (simp_all add: ver_flat_def, induction ps) auto

lemma ver_split_step:
  "v \<noteq> [] \<Longrightarrow> ver_split v = takeWhile (\<lambda>c. \<not> ver_alnum c) v # ver_component (dropWhile (\<lambda>c. \<not> ver_alnum c) v) #
     ver_split (drop (length (ver_component (dropWhile (\<lambda>c. \<not> ver_alnum c) v))) (dropWhile (\<lambda>c. \<not> ver_alnum c) v))"
  by (subst ver_split.simps) (simp add: Let_def)

lemma ver_split_Nil [simp]: "ver_split v = [] \<longleftrightarrow> v = []"
  by (subst ver_split.simps) (simp add: Let_def)

lemma ver_split_empty [simp]: "ver_split [] = []"
  by (subst ver_split.simps) simp

lemma takeWhile_all: "list_all P (takeWhile P xs)"
  by (induction xs) auto

lemma ver_split_flat: "ver_flat (ver_pairs (ver_split v)) = ver_split v"
proof (induction v rule: ver_split.induct)
  case (1 v)
  show ?case
  proof (cases "v = []")
    case True
    then show ?thesis by simp
  next
    case False
    from 1 [OF False refl refl refl] show ?thesis by (simp add: ver_split_step [OF False])
  qed
qed

lemma ver_split_concat: "concat (ver_split v) = v"
proof (induction v rule: ver_split.induct)
  case (1 v)
  show ?case
  proof (cases "v = []")
    case True
    then show ?thesis by simp
  next
    case False
    from 1 [OF False refl refl refl] show ?thesis by (simp add: ver_split_step [OF False] ver_component_append)
  qed
qed

lemma ver_split_length: "length (ver_split v) \<le> 2 * length v"
proof (induction v rule: ver_split.induct)
  case (1 v)
  show ?case
  proof (cases "v = []")
    case True
    then show ?thesis by simp
  next
    case False
    let ?v1 = "dropWhile (\<lambda>c. \<not> ver_alnum c) v"
    let ?r = "drop (length (ver_component ?v1)) ?v1"
    have "concat (ver_split v) = takeWhile (\<lambda>c. \<not> ver_alnum c) v @ ver_component ?v1 @ ?r"
      by (simp add: ver_split_concat ver_component_append)
    have "length ?r < length v"
    proof (cases "takeWhile (\<lambda>c. \<not> ver_alnum c) v = []")
      case True
      then have v1: "?v1 = v" by (metis append_Nil takeWhile_dropWhile_id)
      then have "ver_alnum (hd v)" using False True by (cases v) (auto split: if_splits)
      then have "0 < length (ver_component v)" using ver_component_progress False by blast
      with False show ?thesis unfolding v1 by (simp add: diff_less)
    next
      case t: False
      have "length v = length (takeWhile (\<lambda>c. \<not> ver_alnum c) v) + length ?v1" by (metis length_append takeWhile_dropWhile_id)
      moreover have "0 < length (takeWhile (\<lambda>c. \<not> ver_alnum c) v)" using t by simp
      ultimately show ?thesis unfolding length_drop by linarith
    qed
    with 1 [OF False refl refl refl] show ?thesis by (simp add: ver_split_step [OF False])
  qed
qed

text \<open>Separators have no letter or digit; a component is all digits or all letters.\<close>

lemma ver_split_shape:
  "(s, c) \<in> set (ver_pairs (ver_split v)) \<Longrightarrow>
     list_all (\<lambda>c. \<not> ver_alnum c) s \<and> (list_all is_digit c \<or> list_all ver_alpha c)"
proof (induction v rule: ver_split.induct)
  case (1 v)
  show ?case
  proof (cases "v = []")
    case True
    with 1(2) show ?thesis by simp
  next
    case False
    let ?v1 = "dropWhile (\<lambda>c. \<not> ver_alnum c) v"
    let ?r = "drop (length (ver_component ?v1)) ?v1"
    from 1(2) consider "s = takeWhile (\<lambda>c. \<not> ver_alnum c) v" "c = ver_component ?v1" | "(s, c) \<in> set (ver_pairs (ver_split ?r))"
      unfolding ver_split_step [OF False] by auto
    then show ?thesis
    proof cases
      case 1
      then show ?thesis by (simp add: ver_component_def takeWhile_all)
    next
      case 2
      then show ?thesis by (rule 1(1) [OF False refl refl refl])
    qed
  qed
qed

lemma flat_take: "take (2 * k) (ver_flat ps) = ver_flat (take k ps)"
proof (induction ps arbitrary: k)
  case (Cons p ps)
  then show ?case by (cases p; cases k) auto
qed simp

lemma flat_drop: "drop (2 * k) (ver_flat ps) = ver_flat (drop k ps)"
proof (induction ps arbitrary: k)
  case (Cons p ps)
  then show ?case by (cases p; cases k) auto
qed simp

lemma flat_update: "k < length ps \<Longrightarrow> (ver_flat ps)[2 * k := s] = ver_flat (ps[k := (s, snd (ps ! k))])"
proof (induction ps arbitrary: k)
  case (Cons p ps)
  then show ?case by (cases p; cases k) auto
qed simp

lemma flat_nth: "k < length ps \<Longrightarrow> ver_flat ps ! (2 * k) = fst (ps ! k)"
proof (induction ps arbitrary: k)
  case (Cons p ps)
  then show ?case by (cases p; cases k) auto
qed simp

subsection \<open>Numbers\<close>

lemma atoi_nat: "int n \<le> max_int \<Longrightarrow> atoi_signed (nat_string n) = Some (int n)"
proof -
  assume n: "int n \<le> max_int"
  obtain c t where s: "nat_string n = c # t" by (cases "nat_string n") auto
  have "is_digit c" using nat_string_digits [of n] s by simp
  then have "c \<noteq> CHR ''-''" "c \<noteq> CHR ''+''" by (auto simp: is_digit_def)
  then have "atoi_signed (nat_string n) = atoi (nat_string n)" by (simp add: atoi_signed_def s)
  then show ?thesis using n by (simp add: atoi_def nat_string_digits nat_string_value)
qed

lemma range_nat:
  assumes "int i \<le> max_int" "int j \<le> max_int"
  shows "parse_ver_range (nat_string i @ ''-'' @ nat_string j) m = Inr (int i, int j)"
proof -
  have "splitn2_byte CHR ''-'' (nat_string i @ ''-'' @ nat_string j) = [nat_string i, nat_string j]"
    using splitn2_byte_append [OF nat_string_no_minus [of i], of "nat_string j"] by simp
  then show ?thesis using atoi_nat assms by (simp add: parse_ver_range_def)
qed

lemma int64_small: "- (2 ^ 63) \<le> x \<Longrightarrow> x < 2 ^ 63 \<Longrightarrow> int64 x = x"
  by (simp add: int64_def)

subsection \<open>Properties\<close>

text \<open>The specification of \<open>ver_cut\<close>: components \<open>i\<close> to \<open>j\<close> with the separators between them, from 0 with the first one.\<close>

definition cut_text :: "nat \<Rightarrow> nat \<Rightarrow> (string \<times> string) list \<Rightarrow> string" where
  "cut_text i j ps =
     (if i = 0 then concat (map (\<lambda>(s, c). s @ c) (take j ps))
      else case drop (i - 1) (take j ps) of [] \<Rightarrow> [] | (s, c) # r \<Rightarrow> c @ concat (map (\<lambda>(s, c). s @ c) r))"

text \<open>The specification of \<open>ver_rs\<close>: the separators in front of components \<open>i + 1\<close> to \<open>j + 1\<close> are replaced.\<close>

definition rs_pairs :: "int \<Rightarrow> int \<Rightarrow> string \<Rightarrow> (string \<times> string) list \<Rightarrow> (string \<times> string) list" where
  "rs_pairs a b sep ps =
     map (\<lambda>k. (if a \<le> int k \<and> int k \<le> b \<and> \<not> (k = 0 \<and> fst (ps ! 0) = []) then sep else fst (ps ! k), snd (ps ! k)))
       [0..<length ps]"

lemma concat_flat: "concat (ver_flat ps) = concat (map (\<lambda>(s, c). s @ c) ps)"
  by (induction ps) auto

lemma cut_slice:
  assumes "0 \<le> lo" "hi \<le> int (length xs)"
  shows "map (\<lambda>i. xs ! nat i) [lo..hi - 1] = drop (nat lo) (take (nat hi) xs)"
proof (rule nth_equalityI)
  show "length (map (\<lambda>i. xs ! nat i) [lo..hi - 1]) = length (drop (nat lo) (take (nat hi) xs))"
    using assms by (auto simp: min_def)
next
  fix k
  assume "k < length (map (\<lambda>i. xs ! nat i) [lo..hi - 1])"
  then have k: "int k < hi - lo" by simp
  then have "nat lo + k < nat hi" "nat lo + k < length xs" "nat (lo + int k) = nat lo + k" using assms by linarith+
  then show "map (\<lambda>i. xs ! nat i) [lo..hi - 1] ! k = drop (nat lo) (take (nat hi) xs) ! k"
    using k nth_upto [of lo k "hi - 1"] by simp
qed

lemma cut_drop:
  assumes "0 < i"
  shows "drop (2 * i - 1) (take (2 * m) (ver_flat ps)) = tl (ver_flat (drop (i - 1) (take m ps)))"
proof -
  have "drop (2 * i - 1) xs = tl (drop (2 * (i - 1)) xs)" for xs :: "string list"
    using assms by (cases i) (simp_all add: drop_Suc tl_drop)
  then show ?thesis by (simp only: flat_take flat_drop)
qed

lemma cut_bounds:
  assumes "i \<le> n" "n < 2 ^ 60" "int j \<le> max_int"
  shows "ver_cut_bounds (int (2 * n)) (int n) (int i) (int j) = (if i = 0 then 0 else 2 * int i - 1, 2 * int (min j n))"
proof -
  let ?f = "int (min j n)"
  have f: "(if int j > int n then int n else int j) = ?f" by simp
  have b: "0 \<le> ?f" "?f \<le> 2 ^ 60" "int n \<le> 2 ^ 60" "int i \<le> 2 ^ 60" using assms by simp_all
  let ?s = "if i = 0 then 0 else 2 * int i - 1"
  have s: "(if int i = 0 then 0 else int64 (int i * 2 - 1)) = ?s" using b by (simp add: int64_small)
  have s': "- 1 \<le> ?s" "?s \<le> 2 ^ 62" using b by auto
  have e: "int64 (?f * 2) = 2 * ?f" using b by (simp add: int64_small)
  have l: "int64 (2 * ?f - ?s) = 2 * ?f - ?s" using b s' by (intro int64_small) auto
  have h: "int64 (?s + (2 * ?f - ?s)) = 2 * ?f" using b by (simp add: int64_small)
  have "\<not> 2 * ?f > int (2 * n)" by simp
  with h show ?thesis unfolding ver_cut_bounds_def f s e Let_def l by (simp only: if_False h)
qed

text \<open>
  Claim C39. \<open>ver_cut i-j\<close> prints components \<open>i\<close> to \<open>j\<close> of the version with the separators between them, as Algorithm
  12.3.13 of the PMS asks: nothing when the version is shorter than \<open>i\<close>, up to its end when it is shorter than \<open>j\<close>. No
  index is out of range.
\<close>

theorem ver_cut_exact:
  assumes "int i \<le> max_int" "int j \<le> max_int" "length v < 2 ^ 60"
  shows "ver_cut [nat_string i @ ''-'' @ nat_string j, v] = Printed (cut_text i j (ver_pairs (ver_split v)))"
proof (cases "v = []")
  case True
  then show ?thesis by (simp add: ver_cut_def ver_cut_impl_def cut_text_def)
next
  case False
  let ?ps = "ver_pairs (ver_split v)"
  let ?n = "length ?ps"
  have len: "length (ver_split v) = 2 * ?n" using ver_split_flat [of v] by (metis ver_flat_simps(3))
  have n: "?n < 2 ^ 60" using ver_split_length [of v] len assms(3) by linarith
  have ne: "length (ver_split v) \<noteq> 0" "length (ver_split v) div 2 = ?n" using False len by auto
  have "ver_cut_impl (nat_string i @ ''-'' @ nat_string j) v = Inr (cut_text i j ?ps)"
  proof (cases "?n < i")
    case True
    then have "cut_text i j ?ps = []" by (simp add: cut_text_def)
    with True ne show ?thesis unfolding ver_cut_impl_def Let_def range_nat [OF assms(1,2)] by simp
  next
    case False
    let ?lo = "if i = 0 then 0 else 2 * int i - 1" and ?hi = "2 * int (min j ?n)"
    have hi: "nat ?hi = 2 * min j ?n" by simp
    have "map (\<lambda>i. ver_split v ! nat i) [?lo..?hi - 1] = drop (nat ?lo) (take (2 * min j ?n) (ver_split v))"
      using cut_slice [of ?lo ?hi "ver_split v"] len by (simp add: hi)
    also have "\<dots> = (if i = 0 then ver_flat (take j ?ps) else tl (ver_flat (drop (i - 1) (take j ?ps))))"
    proof (cases "i = 0")
      case True
      have "take (2 * min j ?n) (ver_split v) = ver_flat (take (min j ?n) ?ps)" by (metis flat_take ver_split_flat)
      with True show ?thesis by (simp add: min_def)
    next
      case False
      then have "nat ?lo = 2 * i - 1" by simp
      moreover have "take (min j ?n) ?ps = take j ?ps" by (simp add: min_def)
      ultimately show ?thesis using False cut_drop [of i "min j ?n" ?ps] by (simp add: ver_split_flat)
    qed
    finally have m: "concat (map (\<lambda>i. ver_split v ! nat i) [?lo..?hi - 1]) = cut_text i j ?ps"
      by (auto simp: cut_text_def concat_flat split: list.split)
    have cb: "ver_cut_bounds (int (length (ver_split v))) (int ?n) (int i) (int j) = (?lo, ?hi)"
      unfolding len by (rule cut_bounds) (use False n assms in auto)
    have "\<not> int i > int ?n" using False by simp
    then show ?thesis
      using ne(1) unfolding ver_cut_impl_def Let_def ne(2) range_nat [OF assms(1,2)] by (simp only: sum.case prod.case cb m if_False)
  qed
  then show ?thesis by (simp add: ver_cut_def)
qed

theorem ver_cut_exact_witness:
  "ver_cut [''2-4'', ''1.2_alpha3-r1''] = Printed ''2_alpha3''"
proof -
  have "''2-4'' = nat_string 2 @ ''-'' @ nat_string 4" by code_simp
  moreover have "cut_text 2 4 (ver_pairs (ver_split ''1.2_alpha3-r1'')) = ''2_alpha3''" by code_simp
  ultimately show ?thesis using ver_cut_exact [of 2 4 "''1.2_alpha3-r1''"] by (simp add: max_int_def)
qed

lemma rs_pairs_none: "b < a \<Longrightarrow> rs_pairs a b sep ps = ps"
  unfolding rs_pairs_def by (rule nth_equalityI) auto

lemma rs_pairs_nth:
  "k < length ps \<Longrightarrow> rs_pairs a b sep ps ! k =
    (if a \<le> int k \<and> int k \<le> b \<and> \<not> (k = 0 \<and> fst (ps ! 0) = []) then sep else fst (ps ! k), snd (ps ! k))"
  by (auto simp: rs_pairs_def)

lemma rs_pairs_step:
  assumes "0 \<le> a" "a \<le> b" "b < int (length ps)"
  shows "rs_pairs (a + 1) b sep (if a = 0 \<and> fst (ps ! 0) = [] then ps else ps[nat a := (sep, snd (ps ! nat a))]) = rs_pairs a b sep ps"
proof (rule nth_equalityI)
  fix k
  assume k: "k < length (rs_pairs (a + 1) b sep (if a = 0 \<and> fst (ps ! 0) = [] then ps else ps[nat a := (sep, snd (ps ! nat a))]))"
  then have "k < length ps" by (simp add: rs_pairs_def split: if_splits)
  then show "rs_pairs (a + 1) b sep (if a = 0 \<and> fst (ps ! 0) = [] then ps else ps[nat a := (sep, snd (ps ! nat a))]) ! k =
      rs_pairs a b sep ps ! k"
    using assms by (cases "int k = a") (auto simp: rs_pairs_nth nth_list_update prod_eq_iff)
qed (simp add: rs_pairs_def)

lemma rs_fold:
  assumes "0 \<le> a" "b < int (length ps)"
  shows "fold (\<lambda>i comp. if i * 2 < int (length comp) \<and> \<not> (i * 2 = 0 \<and> comp ! 0 = []) then comp[nat (i * 2) := sep] else comp)
     [a..b] (ver_flat ps) = ver_flat (rs_pairs a b sep ps)"
  using assms
proof (induction "nat (b + 1 - a)" arbitrary: a ps)
  case 0
  then show ?case by (simp add: rs_pairs_none)
next
  case (Suc n)
  let ?ps = "if a = 0 \<and> fst (ps ! 0) = [] then ps else ps[nat a := (sep, snd (ps ! nat a))]"
  have ab: "a \<le> b" using Suc.hyps(2) by linarith
  have k: "nat a < length ps" using ab Suc.prems by linarith
  have zero: "ver_flat ps ! 0 = fst (ps ! 0)" using flat_nth [of 0 ps] k by (cases ps) auto
  have "nat (a * 2) = 2 * nat a" using Suc.prems by linarith
  moreover have "a * 2 < int (length (ver_flat ps))" using ab Suc.prems by simp
  ultimately have step: "(if a * 2 < int (length (ver_flat ps)) \<and> \<not> (a * 2 = 0 \<and> ver_flat ps ! 0 = []) then (ver_flat ps)[nat (a * 2) := sep]
      else ver_flat ps) = ver_flat ?ps"
    using flat_update [OF k, of sep] zero by simp
  have "fold (\<lambda>i comp. if i * 2 < int (length comp) \<and> \<not> (i * 2 = 0 \<and> comp ! 0 = []) then comp[nat (i * 2) := sep] else comp)
      [a + 1..b] (ver_flat ?ps) = ver_flat (rs_pairs (a + 1) b sep ?ps)"
    by (rule Suc.hyps(1)) (use Suc.hyps(2) Suc.prems in auto)
  then show ?case
    unfolding rs_pairs_step [OF Suc.prems(1) ab Suc.prems(2)] upto_rec1 [OF ab] fold_simps step .
qed



text \<open>
  What the shell functions of the PMS do differently: \<open>ver_cut\<close> with one argument takes \<open>PV\<close> (here only inside
  an eclass), and \<open>ver_rs\<close> takes any number of pairs of a range and a separator, of which only the first is used, the
  second range being taken for the version.
\<close>

lemma ver_functions_diverge:
  "ver_cut [''1-2''] = Dies ''ver_cut: requires range and version arguments'' \<and>
   ver_rs [''1'', ''_'', ''2'', ''-'', ''1.2.3''] = Printed ''2''"
  by code_simp

text \<open>Components are separated as in the documentation of the function.\<close>

lemma ver_split_example: "ver_split ''1.2_alpha3-r1'' = [[], ''1'', ''.'', ''2'', ''_'', ''alpha'', [], ''3'', ''-'', ''r'', [], ''1'']"
  by code_simp

text \<open>\<open>ver_test\<close> decides with the comparison of versions, and its six operators are consistent.\<close>

lemma ver_test_consistent:
  "ver_test rx pvr pv [v, ''-ne'', w] = (case ver_test rx pvr pv [v, ''-eq'', w] of Exits b \<Rightarrow> Exits (\<not> b) | r \<Rightarrow> r) \<and>
   ver_test rx pvr pv [v, ''-ge'', w] = (case ver_test rx pvr pv [v, ''-lt'', w] of Exits b \<Rightarrow> Exits (\<not> b) | r \<Rightarrow> r) \<and>
   ver_test rx pvr pv [v, ''-le'', w] = (case ver_test rx pvr pv [v, ''-gt'', w] of Exits b \<Rightarrow> Exits (\<not> b) | r \<Rightarrow> r) \<and>
   ver_test rx pvr pv [''-eq'', w] = ver_test rx pvr pv [if pvr = [] then pv else pvr, ''-eq'', w]"
  by (auto simp: ver_test_def Let_def)

end
