(* ===== verification/Slot_Collisions.thy ===== *)
theory Slot_Collisions
  imports Graph_Conflicts
begin

text \<open>
  Slot collisions (\<open>internal/solver/slot_collision.go\<close>): packages of the graph that want the same slot, what kind of
  conflict that is, and the USE changes suggested to solve it. The orders \<open>ks\<close> and \<open>slots\<close> are those in which the
  loops over the maps of nodes and of groups visit them. The reports for the terminal are left out.
\<close>

subsection \<open>Data\<close>

datatype slot_collision_type =
  CollisionTypeVersion | CollisionTypeUnspecific | CollisionTypeSpecific | CollisionTypeSubslot

fun collision_type_string :: "slot_collision_type \<Rightarrow> string" where
  "collision_type_string CollisionTypeVersion = ''version conflict''"
| "collision_type_string CollisionTypeUnspecific = ''unspecific conflict''"
| "collision_type_string CollisionTypeSpecific = ''USE flag conflict''"
| "collision_type_string CollisionTypeSubslot = ''subslot conflict''"

record parent_atom =
  pa_Parent :: "package option"
  pa_Atom :: string
  pa_Constraint :: pkg_constraint
  pa_IsCommandLine :: bool

record slot_collision =
  sc_SlotAtom :: string
  sc_Packages :: "package list"
  sc_Parents :: "string \<Rightarrow> parent_atom list"
  sc_CollisionType :: slot_collision_type
  sc_IsVersionConflict :: bool
  sc_IsUnspecific :: bool

text \<open>The only map of flag changes the code builds has one entry.\<close>

record use_change =
  uc_Package :: package
  uc_FlagChanges :: "string \<times> bool"
  uc_Reason :: string

record collision_solution =
  cs_UseChanges :: "use_change list"
  cs_SelectedPackages :: "string \<times> package"
  cs_Description :: string

subsection \<open>Detection\<close>

definition get_slot_atom :: "package \<Rightarrow> string" where
  "get_slot_atom p = extract_base_name (p_Name p) @ '':'' @ sl_Name (p_Slot p)"

fun group_by_slot :: "dep_graph \<Rightarrow> string list \<Rightarrow> (string \<Rightarrow> package list) \<Rightarrow> string \<Rightarrow> package list" where
  "group_by_slot g [] m = m"
| "group_by_slot g (k # ks) m =
     group_by_slot g ks
       (case g_nodes g k of None \<Rightarrow> m | Some node \<Rightarrow> map_append m (get_slot_atom (n_Package node)) (n_Package node))"

definition collect_parent_atoms :: "dep_graph \<Rightarrow> package \<Rightarrow> parent_atom list" where
  "collect_parent_atoms g p =
     (case get_node (p_Name p) g of
        None \<Rightarrow> []
      | Some node \<Rightarrow>
          List.map_filter (\<lambda>e. map_option (\<lambda>parent. \<lparr>pa_Parent = Some (n_Package parent), pa_Atom = constraint_string (e_Constraint e),
              pa_Constraint = e_Constraint e, pa_IsCommandLine = False\<rparr>) (get_node (e_From e) g)) (n_Dependents node) @
          (if p_Name p \<in> set (g_roots g)
           then [\<lparr>pa_Parent = None, pa_Atom = p_Name p, pa_Constraint = zero_constraint, pa_IsCommandLine = True\<rparr>] else []))"

definition check_subslot_conflict :: "package list \<Rightarrow> bool" where
  "check_subslot_conflict ps =
     (case ps of
        p # q # rest \<Rightarrow>
          (let base = sl_Subslot (p_Slot p) in
           list_ex (\<lambda>r. sl_Subslot (p_Slot r) \<noteq> base \<and> sl_Subslot (p_Slot r) \<noteq> [] \<and> base \<noteq> []) (q # rest))
      | _ \<Rightarrow> False)"

definition excludes :: "coregex \<Rightarrow> parent_atom \<Rightarrow> package \<Rightarrow> bool" where
  "excludes rx pa q \<longleftrightarrow> c_Version (pa_Constraint pa) \<noteq> None \<and> \<not> satisfies rx (c_Version (pa_Constraint pa)) (p_Version q)"

fun check_version_conflict :: "coregex \<Rightarrow> (string \<Rightarrow> parent_atom list) \<Rightarrow> package list \<Rightarrow> bool" where
  "check_version_conflict rx parents [] = False"
| "check_version_conflict rx parents (p # ps) =
     (list_ex (\<lambda>q. list_ex (\<lambda>pa. excludes rx pa q) (parents (full_name p)) \<or> list_ex (\<lambda>pa. excludes rx pa p) (parents (full_name q))) ps \<or>
      check_version_conflict rx parents ps)"

text \<open>The loop over the map of parents visits exactly the full names of the packages.\<close>

definition check_unspecific_conflict :: "(string \<Rightarrow> parent_atom list) \<Rightarrow> package list \<Rightarrow> bool" where
  "check_unspecific_conflict parents ps =
     list_all (\<lambda>p. list_all (\<lambda>pa. c_Version (pa_Constraint pa) = None \<and> c_Condition (pa_Constraint pa) = []) (parents (full_name p))) ps"

definition determine_collision_type :: "coregex \<Rightarrow> (string \<Rightarrow> parent_atom list) \<Rightarrow> package list \<Rightarrow> slot_collision_type" where
  "determine_collision_type rx parents ps =
     (if check_subslot_conflict ps then CollisionTypeSubslot
      else if check_version_conflict rx parents ps then CollisionTypeVersion
      else if check_unspecific_conflict parents ps then CollisionTypeUnspecific
      else CollisionTypeSpecific)"

definition analyze_slot_conflict :: "coregex \<Rightarrow> dep_graph \<Rightarrow> string \<Rightarrow> package list \<Rightarrow> slot_collision" where
  "analyze_slot_conflict rx g slot ps =
     (let parents = fold (\<lambda>p m. m(full_name p := collect_parent_atoms g p)) ps (\<lambda>_. []);
          ty = determine_collision_type rx parents ps
      in \<lparr>sc_SlotAtom = slot, sc_Packages = ps, sc_Parents = parents, sc_CollisionType = ty,
          sc_IsVersionConflict = (ty = CollisionTypeVersion), sc_IsUnspecific = (ty = CollisionTypeUnspecific)\<rparr>)"

definition detect_collisions :: "coregex \<Rightarrow> string list \<Rightarrow> string list \<Rightarrow> dep_graph \<Rightarrow> slot_collision list" where
  "detect_collisions rx ks slots g =
     (let m = group_by_slot g ks (\<lambda>_. []) in
      map (\<lambda>s. analyze_slot_conflict rx g s (m s)) (filter (\<lambda>s. \<not> length (m s) \<le> 1) slots))"

subsection \<open>Resolution\<close>

definition compute_use_flag_change :: "parent_atom \<Rightarrow> package \<Rightarrow> use_change option" where
  "compute_use_flag_change pa target =
     (let flag = c_Flag (pa_Constraint pa) in
      if flag = [] then None
      else
        let need = \<not> has_prefix flag ''-''; name = trim_prefix flag ''-'' in
        case pa_Parent pa of
          None \<Rightarrow> None
        | Some parent \<Rightarrow>
            (case p_UseFlags parent name of
               None \<Rightarrow> None
             | Some current \<Rightarrow>
                 if current = need then None
                 else Some \<lparr>uc_Package = parent, uc_FlagChanges = (name, need), uc_Reason = ''Required to use '' @ full_name target\<rparr>))"

definition compute_required_use_changes :: "slot_collision \<Rightarrow> package \<Rightarrow> use_change list" where
  "compute_required_use_changes c selected =
     concat (map (\<lambda>p.
       if full_name p = full_name selected then []
       else List.map_filter (\<lambda>pa.
              if pa_Parent pa = None then None
              else if c_Condition (pa_Constraint pa) = [] then None
              else compute_use_flag_change pa selected) (sc_Parents c (full_name p)))
       (sc_Packages c))"

text \<open>A slice nothing was appended to is nil.\<close>

definition check_configuration :: "slot_collision \<Rightarrow> package list \<Rightarrow> collision_solution option" where
  "check_configuration c config =
     (case config of
        [] \<Rightarrow> None
      | selected # _ \<Rightarrow>
          (let changes = compute_required_use_changes c selected in
           if changes = [] then None
           else Some \<lparr>cs_UseChanges = changes, cs_SelectedPackages = (sc_SlotAtom c, selected),
                  cs_Description = ''Use '' @ full_name selected @ '' and apply USE changes''\<rparr>))"

definition generate_configurations :: "slot_collision \<Rightarrow> package list list" where
  "generate_configurations c = map (\<lambda>p. [p]) (sc_Packages c)"

fun first_solution :: "slot_collision \<Rightarrow> package list list \<Rightarrow> collision_solution list" where
  "first_solution c [] = []"
| "first_solution c (config # configs) =
     (case check_configuration c config of Some s \<Rightarrow> [s] | None \<Rightarrow> first_solution c configs)"

definition resolve_collision :: "slot_collision \<Rightarrow> collision_solution list" where
  "resolve_collision c = (if sc_IsVersionConflict c then [] else first_solution c (generate_configurations c))"

subsection \<open>What is detected\<close>

lemma group_by_slot_app:
  "group_by_slot g ks m s =
     m s @ filter (\<lambda>p. get_slot_atom p = s) (List.map_filter (\<lambda>k. map_option n_Package (g_nodes g k)) ks)"
  by (induction ks arbitrary: m) (auto simp: List.map_filter_simps split: option.split)

definition slot_packages :: "dep_graph \<Rightarrow> string \<Rightarrow> string set" where
  "slot_packages g s = {k. \<exists>n. g_nodes g k = Some n \<and> get_slot_atom (n_Package n) = s}"

definition visits_slots :: "dep_graph \<Rightarrow> string list \<Rightarrow> bool" where
  "visits_slots g slots \<longleftrightarrow> distinct slots \<and> set slots = {s. slot_packages g s \<noteq> {}}"

lemma group_by_slot_names:
  assumes "wf_graph g" "enumerates ks (g_nodes g)"
  shows "distinct (map p_Name (group_by_slot g ks (\<lambda>_. []) s))"
    and "set (map p_Name (group_by_slot g ks (\<lambda>_. []) s)) = slot_packages g s"
proof -
  have "map p_Name (filter (\<lambda>p. get_slot_atom p = s) (List.map_filter (\<lambda>k. map_option n_Package (g_nodes g k)) xs)) =
      filter (\<lambda>k. \<exists>n. g_nodes g k = Some n \<and> get_slot_atom (n_Package n) = s) xs" for xs
    using assms(1) by (induction xs) (auto simp: map_filter_simps wf_graph_def split: option.splits)
  then have eq: "map p_Name (group_by_slot g ks (\<lambda>_. []) s) =
      filter (\<lambda>k. \<exists>n. g_nodes g k = Some n \<and> get_slot_atom (n_Package n) = s) ks"
    by (simp add: group_by_slot_app)
  have ks: "distinct ks" "set ks = dom (g_nodes g)" using assms(2) by (auto simp: enumerates_def)
  show "distinct (map p_Name (group_by_slot g ks (\<lambda>_. []) s))" unfolding eq using ks(1) by simp
  show "set (map p_Name (group_by_slot g ks (\<lambda>_. []) s)) = slot_packages g s"
    unfolding eq using ks(2) by (auto simp: slot_packages_def)
qed

lemma group_by_slot_length:
  assumes "wf_graph g" "enumerates ks (g_nodes g)"
  shows "length (group_by_slot g ks (\<lambda>_. []) s) = card (slot_packages g s)"
  using group_by_slot_names [OF assms, of s] by (metis distinct_card length_map)

lemma detect_collisions_iff:
  assumes "wf_graph g" "enumerates ks (g_nodes g)"
  shows "c \<in> set (detect_collisions rx ks slots g) \<longleftrightarrow>
    (\<exists>s \<in> set slots. 1 < card (slot_packages g s) \<and> c = analyze_slot_conflict rx g s (group_by_slot g ks (\<lambda>_. []) s))"
  by (auto simp: detect_collisions_def group_by_slot_length [OF assms] not_le)

lemma analyze_slot_conflict_sel [simp]:
  "sc_SlotAtom (analyze_slot_conflict rx g s ps) = s"
  "sc_Packages (analyze_slot_conflict rx g s ps) = ps"
  by (simp_all add: analyze_slot_conflict_def Let_def)

lemma parents_of_fold:
  "fold (\<lambda>p m. m(full_name p := collect_parent_atoms g p)) ps m f = m f \<or>
   (\<exists>p \<in> set ps. full_name p = f \<and> fold (\<lambda>p m. m(full_name p := collect_parent_atoms g p)) ps m f = collect_parent_atoms g p)"
proof (induction ps arbitrary: m)
  case Nil
  then show ?case by simp
next
  case (Cons p ps)
  show ?case using Cons.IH [of "m(full_name p := collect_parent_atoms g p)"] by (auto split: if_splits)
qed

text \<open>A parent of a detected collision is the command line or an edge into one of its packages.\<close>

lemma detected_parent:
  assumes "pa \<in> set (sc_Parents (analyze_slot_conflict rx g s ps) f)" "pa_Parent pa \<noteq> None"
  obtains p n e where "p \<in> set ps" "g_nodes g (p_Name p) = Some n" "e \<in> set (n_Dependents n)" "pa_Constraint pa = e_Constraint e"
proof -
  have "sc_Parents (analyze_slot_conflict rx g s ps) f = [] \<or>
      (\<exists>p \<in> set ps. sc_Parents (analyze_slot_conflict rx g s ps) f = collect_parent_atoms g p)"
    using parents_of_fold [of g ps "\<lambda>_. []" f] by (auto simp: analyze_slot_conflict_def Let_def)
  with assms(1) obtain p where p: "p \<in> set ps" "pa \<in> set (collect_parent_atoms g p)" by auto
  then obtain n where n: "g_nodes g (p_Name p) = Some n"
    by (cases "g_nodes g (p_Name p)") (auto simp: collect_parent_atoms_def get_node_def)
  with p(2) assms(2) obtain e where "e \<in> set (n_Dependents n)" "pa_Constraint pa = e_Constraint e"
    by (auto simp: collect_parent_atoms_def get_node_def map_filter_def split: option.splits if_splits)
  with p(1) n that show ?thesis by blast
qed

subsection \<open>What is solved\<close>

text \<open>An atom of a parent whose USE flag is in the wrong state.\<close>

definition wrong_flag :: "parent_atom \<Rightarrow> bool" where
  "wrong_flag pa \<longleftrightarrow>
     (let flag = c_Flag (pa_Constraint pa) in
      c_Condition (pa_Constraint pa) \<noteq> [] \<and> flag \<noteq> [] \<and>
      (\<exists>parent. pa_Parent pa = Some parent \<and> p_UseFlags parent (trim_prefix flag ''-'') = Some (has_prefix flag ''-'')))"

definition solved_by :: "slot_collision \<Rightarrow> package \<Rightarrow> bool" where
  "solved_by c sel \<longleftrightarrow>
     (\<exists>p \<in> set (sc_Packages c). full_name p \<noteq> full_name sel \<and> (\<exists>pa \<in> set (sc_Parents c (full_name p)). wrong_flag pa))"

lemma compute_use_flag_change_some:
  "pa_Parent pa \<noteq> None \<Longrightarrow> c_Condition (pa_Constraint pa) \<noteq> [] \<Longrightarrow>
   (compute_use_flag_change pa t \<noteq> None) = wrong_flag pa"
  by (auto simp: compute_use_flag_change_def wrong_flag_def Let_def split: option.splits)

lemma map_filter_Nil_iff: "List.map_filter f xs = [] \<longleftrightarrow> (\<forall>x \<in> set xs. f x = None)"
  by (induction xs) (auto simp: map_filter_simps split: option.splits)

lemma compute_required_use_changes_Nil: "compute_required_use_changes c sel = [] \<longleftrightarrow> \<not> solved_by c sel"
proof -
  let ?f = "\<lambda>pa. if pa_Parent pa = None then None else if c_Condition (pa_Constraint pa) = [] then None
      else compute_use_flag_change pa sel"
  let ?h = "\<lambda>p. if full_name p = full_name sel then [] else List.map_filter ?f (sc_Parents c (full_name p))"
  have "?f pa = None \<longleftrightarrow> \<not> wrong_flag pa" for pa
    using compute_use_flag_change_some [of pa sel] by (auto simp: wrong_flag_def Let_def)
  then have h: "?h p = [] \<longleftrightarrow>
      (full_name p \<noteq> full_name sel \<longrightarrow> (\<forall>pa \<in> set (sc_Parents c (full_name p)). \<not> wrong_flag pa))" for p
    by (simp add: map_filter_Nil_iff)
  have "concat (map ?h ps) = [] \<longleftrightarrow> (\<forall>p \<in> set ps. ?h p = [])" for ps by (induction ps) simp_all
  then show ?thesis unfolding compute_required_use_changes_def solved_by_def h by blast
qed

lemma first_solution_configs:
  "first_solution c (map (\<lambda>p. [p]) ps) =
     (case find (solved_by c) ps of None \<Rightarrow> [] | Some p \<Rightarrow> [the (check_configuration c [p])])"
  by (induction ps)
    (auto simp: check_configuration_def Let_def compute_required_use_changes_Nil split: option.splits)

lemma resolve_collision_empty:
  "resolve_collision c = [] \<longleftrightarrow> sc_IsVersionConflict c \<or> (\<forall>p \<in> set (sc_Packages c). \<not> solved_by c p)"
  by (auto simp: resolve_collision_def generate_configurations_def first_solution_configs find_None_iff
      find_Some_iff split: option.splits)

lemma no_flag_no_solution:
  assumes "\<And>p n e. p \<in> set ps \<Longrightarrow> g_nodes g (p_Name p) = Some n \<Longrightarrow> e \<in> set (n_Dependents n) \<Longrightarrow>
    c_Flag (e_Constraint e) = [] \<or> c_Condition (e_Constraint e) = []"
  shows "resolve_collision (analyze_slot_conflict rx g s ps) = []"
proof -
  have "\<not> wrong_flag pa" if "pa \<in> set (sc_Parents (analyze_slot_conflict rx g s ps) f)" for pa f
  proof (cases "pa_Parent pa")
    case None
    then show ?thesis by (simp add: wrong_flag_def Let_def)
  next
    case (Some p)
    with that assms show ?thesis
      by (elim detected_parent) (auto simp: wrong_flag_def Let_def)
  qed
  then show ?thesis by (auto simp: resolve_collision_empty solved_by_def)
qed

lemma distinct_singleton_list: "distinct xs \<and> set xs = {x} \<longleftrightarrow> xs = [x]"
  by (cases xs; cases "tl xs") auto

text \<open>Two fonts whose names end alike.\<close>

definition font_75 :: package where
  "font_75 = new_package ''media-fonts/font-bh-75dpi'' ''1.0.4'' ''0''"

definition font_100 :: package where
  "font_100 = new_package ''media-fonts/font-bh-100dpi'' ''1.0.4'' ''0''"

definition font_slot :: string where
  "font_slot = ''media-fonts/font-bh:0''"

lemma font_slot_atoms [simp]:
  "get_slot_atom font_75 = font_slot" "get_slot_atom font_100 = font_slot"
  by code_simp+

lemma font_full_names [simp]:
  "full_name font_75 = ''media-fonts/font-bh-75dpi-1.0.4''" "full_name font_100 = ''media-fonts/font-bh-100dpi-1.0.4''"
  by code_simp+

lemma font_fields [simp]:
  "p_Name font_75 = ''media-fonts/font-bh-75dpi''" "p_Name font_100 = ''media-fonts/font-bh-100dpi''"
  "p_Slot font_100 = p_Slot font_75"
  by (simp_all add: font_75_def font_100_def new_package_def)

lemma font_graph_nodes:
  "g_nodes font_graph k = Some n \<Longrightarrow>
   k \<in> set font_names \<and> n_Package n = (if k = ''media-fonts/font-bh-75dpi'' then font_75 else font_100)"
  by (auto simp: font_graph_def add_package_def new_dependency_graph_def font_names_def font_75_def font_100_def
      new_package_def Let_def split: if_splits)

text \<open>A program that uses one of the fonts by the constraint \<open>c\<close>, built without its flag \<open>X\<close>.\<close>

definition viewer :: package where
  "viewer = (new_package ''app-misc/viewer'' ''1'' ''0'')\<lparr>p_UseFlags := [''X'' \<mapsto> False]\<rparr>"

definition viewer_graph :: "pkg_constraint \<Rightarrow> dep_graph" where
  "viewer_graph c =
     (let g = add_package viewer True font_graph in
      case add_dependency ''app-misc/viewer'' ''media-fonts/font-bh-75dpi'' c EdgeTypeRuntime g of Inr g' \<Rightarrow> g' | Inl _ \<Rightarrow> g)"

lemma wf_viewer_graph: "wf_graph (viewer_graph c)"
  using wf_add_dependency [OF wf_add_package [OF built_wf [OF font_facts(1)]]] wf_add_package [OF built_wf [OF font_facts(1)]]
  by (auto simp: viewer_graph_def Let_def split: sum.split)

definition viewer_collision :: "pkg_constraint \<Rightarrow> slot_collision" where
  "viewer_collision c = analyze_slot_conflict ref_coregex (viewer_graph c) font_slot [font_75, font_100]"

lemma viewer_graph_simps:
  "g_roots (viewer_graph c) = [''media-fonts/font-bh-100dpi'', ''app-misc/viewer'']"
  "g_edges (viewer_graph c) =
     [\<lparr>e_From = ''app-misc/viewer'', e_To = ''media-fonts/font-bh-75dpi'', e_Constraint = c, e_Type = EdgeTypeRuntime\<rparr>]"
  "map_option n_Package (g_nodes (viewer_graph c) ''app-misc/viewer'') = Some viewer"
  "map_option n_Package (g_nodes (viewer_graph c) ''media-fonts/font-bh-75dpi'') = Some font_75"
  "map_option n_Package (g_nodes (viewer_graph c) ''media-fonts/font-bh-100dpi'') = Some font_100"
  by (simp_all add: viewer_graph_def viewer_def font_graph_def add_package_def add_dependency_def update_node_def
      new_dependency_graph_def font_75_def font_100_def new_package_def Let_def)

lemma viewer_parents:
  "collect_parent_atoms (viewer_graph c) font_75 =
     [\<lparr>pa_Parent = Some viewer, pa_Atom = constraint_string c, pa_Constraint = c, pa_IsCommandLine = False\<rparr>]"
  "collect_parent_atoms (viewer_graph c) font_100 =
     [\<lparr>pa_Parent = None, pa_Atom = ''media-fonts/font-bh-100dpi'', pa_Constraint = zero_constraint, pa_IsCommandLine = True\<rparr>]"
proof -
  have deps: "n_Dependents n = filter (\<lambda>e. e_To e = k) (g_edges (viewer_graph c))"
    if "g_nodes (viewer_graph c) k = Some n" for k n
    using wf_viewer_graph [of c] that by (simp add: wf_graph_def)
  obtain m n l where
    "g_nodes (viewer_graph c) ''app-misc/viewer'' = Some m" "n_Package m = viewer"
    "g_nodes (viewer_graph c) ''media-fonts/font-bh-75dpi'' = Some n"
    "g_nodes (viewer_graph c) ''media-fonts/font-bh-100dpi'' = Some l"
    using viewer_graph_simps(3-5) [of c] by auto
  with deps show
    "collect_parent_atoms (viewer_graph c) font_75 =
       [\<lparr>pa_Parent = Some viewer, pa_Atom = constraint_string c, pa_Constraint = c, pa_IsCommandLine = False\<rparr>]"
    "collect_parent_atoms (viewer_graph c) font_100 =
       [\<lparr>pa_Parent = None, pa_Atom = ''media-fonts/font-bh-100dpi'', pa_Constraint = zero_constraint, pa_IsCommandLine = True\<rparr>]"
    by (simp_all add: collect_parent_atoms_def get_node_def viewer_graph_simps map_filter_simps)
qed

lemma viewer_detected:
  "detect_collisions ref_coregex (''app-misc/viewer'' # font_names) [font_slot] (viewer_graph c) = [viewer_collision c]"
proof -
  have "get_slot_atom viewer \<noteq> font_slot" by code_simp
  then show ?thesis
    by (simp del: group_by_slot.simps add: detect_collisions_def group_by_slot_app font_names_def map_filter_simps
        viewer_graph_simps viewer_collision_def Let_def)
qed

text \<open>With the flag in the constraint the collision would be solved, by a change of the flag of the program.\<close>

lemma flag_collision_solved:
  fixes c :: pkg_constraint
  defines "c \<equiv> zero_constraint\<lparr>c_Condition := ''X'', c_Flag := ''X''\<rparr>"
  shows "sc_CollisionType (viewer_collision c) = CollisionTypeSpecific"
    and "resolve_collision (viewer_collision c) \<noteq> []"
proof -
  show ty: "sc_CollisionType (viewer_collision c) = CollisionTypeSpecific"
    by (simp add: viewer_collision_def analyze_slot_conflict_def determine_collision_type_def check_subslot_conflict_def
        excludes_def check_unspecific_conflict_def viewer_parents c_def zero_constraint_def Let_def)
  have "\<not> sc_IsVersionConflict (viewer_collision c)"
    using ty by (simp add: viewer_collision_def analyze_slot_conflict_def Let_def)
  moreover have "solved_by (viewer_collision c) font_100"
    by (simp add: viewer_collision_def analyze_slot_conflict_def solved_by_def wrong_flag_def viewer_parents c_def
        zero_constraint_def Let_def viewer_def trim_prefix_def has_prefix_def)
  ultimately show "resolve_collision (viewer_collision c) \<noteq> []"
    by (auto simp: resolve_collision_empty viewer_collision_def)
qed

subsection \<open>Properties\<close>

text \<open>
  A collision is reported for exactly the slots that two or more packages of the graph take, once
  each, with all the packages of the slot, whatever the order of the maps.
\<close>

theorem collisions_exact:
  assumes "wf_graph g" and "enumerates ks (g_nodes g)" and "visits_slots g slots"
  shows "distinct (map sc_SlotAtom (detect_collisions rx ks slots g)) \<and>
    set (map sc_SlotAtom (detect_collisions rx ks slots g)) = {s. 1 < card (slot_packages g s)} \<and>
    (\<forall>c \<in> set (detect_collisions rx ks slots g). p_Name ` set (sc_Packages c) = slot_packages g (sc_SlotAtom c))"
proof -
  note iff = detect_collisions_iff [OF assms(1,2), of _ rx slots]
  have map: "map sc_SlotAtom (detect_collisions rx ks slots g) = filter (\<lambda>s. 1 < card (slot_packages g s)) slots"
    by (simp add: detect_collisions_def group_by_slot_length [OF assms(1,2)] not_le o_def)
  have "1 < card (slot_packages g s) \<Longrightarrow> s \<in> set slots" for s
    using assms(3) by (auto simp: visits_slots_def)
  moreover have "distinct slots" using assms(3) by (simp add: visits_slots_def)
  moreover have "p_Name ` set (sc_Packages c) = slot_packages g (sc_SlotAtom c)"
    if c: "c \<in> set (detect_collisions rx ks slots g)" for c
  proof -
    obtain s where "c = analyze_slot_conflict rx g s (group_by_slot g ks (\<lambda>_. []) s)" using c by (auto simp: iff)
    then show ?thesis using group_by_slot_names(2) [OF assms(1,2), of s] by simp
  qed
  ultimately show ?thesis unfolding map by auto
qed

text \<open>The witness: two fonts whose names end alike, which depend on nothing.\<close>

theorem collisions_exact_witness:
  "map sc_SlotAtom (detect_collisions ref_coregex font_names [font_slot] font_graph) = [font_slot]"
proof -
  have "get_slot_atom (n_Package n) = font_slot" if "g_nodes font_graph k = Some n" for k n
    using font_graph_nodes [OF that] by simp
  then have "slot_packages font_graph s = (if s = font_slot then dom (g_nodes font_graph) else {})" for s
    by (auto simp: slot_packages_def)
  then have users: "slot_packages font_graph s = (if s = font_slot then set font_names else {})" for s
    using font_facts(2) by (simp add: enumerates_def)
  have visits: "visits_slots font_graph [font_slot]" by (auto simp: visits_slots_def users font_names_def)
  have "1 < card (slot_packages font_graph s) \<longleftrightarrow> s = font_slot" for s by (simp add: users font_names_def)
  with collisions_exact [OF built_wf [OF font_facts(1)] font_facts(2) visits, of ref_coregex]
  have "distinct (map sc_SlotAtom (detect_collisions ref_coregex font_names [font_slot] font_graph)) \<and>
      set (map sc_SlotAtom (detect_collisions ref_coregex font_names [font_slot] font_graph)) = {font_slot}" by simp
  then show ?thesis unfolding distinct_singleton_list .
qed

text \<open>
  Claim C37. A solution is suggested exactly when the collision is not one of versions and some package of it
  has a parent with a USE condition whose flag, which the parent has, is in the wrong state, while another package
  can be kept. At most one is suggested: the first package that can be kept.
\<close>

theorem collision_solved_exact:
  "length (resolve_collision c) \<le> 1 \<and>
   (resolve_collision c \<noteq> [] \<longleftrightarrow> \<not> sc_IsVersionConflict c \<and> list_ex (solved_by c) (sc_Packages c)) \<and>
   map cs_SelectedPackages (resolve_collision c) =
     (if sc_IsVersionConflict c then []
      else map (Pair (sc_SlotAtom c)) (case find (solved_by c) (sc_Packages c) of None \<Rightarrow> [] | Some p \<Rightarrow> [p]))"
proof -
  have "cs_SelectedPackages (the (check_configuration c [p])) = (sc_SlotAtom c, p)" if "solved_by c p" for p
    using that by (simp add: check_configuration_def Let_def compute_required_use_changes_Nil)
  moreover have "solved_by c p" if "find (solved_by c) (sc_Packages c) = Some p" for p
    using that by (auto simp: find_Some_iff)
  ultimately have "length (resolve_collision c) \<le> 1 \<and> map cs_SelectedPackages (resolve_collision c) =
     (if sc_IsVersionConflict c then []
      else map (Pair (sc_SlotAtom c)) (case find (solved_by c) (sc_Packages c) of None \<Rightarrow> [] | Some p \<Rightarrow> [p]))"
    by (auto simp: resolve_collision_def generate_configurations_def first_solution_configs split: option.split)
  then show ?thesis by (simp add: resolve_collision_empty list_ex_iff)
qed

text \<open>
  In a graph where no dependency with a USE condition carries a flag no collision is ever solved. The parser of
  constraints sets the conditions and leaves the flag empty.
\<close>

theorem flagless_never_solved:
  assumes "\<forall>k n e. g_nodes g k = Some n \<longrightarrow> e \<in> set (n_Dependents n) \<longrightarrow>
      c_Flag (e_Constraint e) = [] \<or> c_Condition (e_Constraint e) = []"
    and "c \<in> set (detect_collisions rx ks slots g)"
  shows "resolve_collision c = []"
proof -
  obtain s ps where "c = analyze_slot_conflict rx g s ps"
    using assms(2) by (auto simp: detect_collisions_def Let_def)
  then show ?thesis using assms(1) no_flag_no_solution [of ps g rx s] by blast
qed

text \<open>The witness: the same program with the condition that the parser leaves; the collision is detected, and not solved.\<close>

theorem flagless_never_solved_witness:
  "map resolve_collision (detect_collisions ref_coregex (''app-misc/viewer'' # font_names) [font_slot]
     (viewer_graph (zero_constraint\<lparr>c_Condition := ''X''\<rparr>))) = [[]]"
proof -
  let ?c = "zero_constraint\<lparr>c_Condition := ''X''\<rparr>"
  have "list_all (\<lambda>e. c_Flag (e_Constraint e) = []) (g_edges (viewer_graph ?c))"
    by (simp add: viewer_graph_simps zero_constraint_def)
  then have flags: "\<forall>k n e. g_nodes (viewer_graph ?c) k = Some n \<longrightarrow> e \<in> set (n_Dependents n) \<longrightarrow>
      c_Flag (e_Constraint e) = [] \<or> c_Condition (e_Constraint e) = []"
    using wf_viewer_graph [of ?c] by (auto simp: wf_graph_def list_all_iff)
  show ?thesis
    using flagless_never_solved [OF flags, of _ ref_coregex "''app-misc/viewer'' # font_names" "[font_slot]"] by (simp add: viewer_detected)
qed

end
