(* ===== verification/Spec2Isabelle.thy ===== *)
theory Spec2Isabelle
  imports Packages Required_Use Use_Flags Graph_Conflicts Resolve_Plan Scheduler_Live Xpak Ebuild_Meaning Depclean Job_Runs
    Src_Uri Suggest Memory_Cache Ver_Helpers Slot_Collisions
begin

text \<open>
  A model of \<^bold>\<open>grpm\<close>, a package manager for Gentoo written in Go. It reads a tree of ebuilds, resolves a
  request into an installation plan with a SAT solver, builds packages in parallel, installs them and keeps a
  daemon with a queue of jobs. This development models the parts that decide: versions, atoms and
  constraints, REQUIRED_USE and USE flags, dependency strings, the dependency graph, the encoding into SAT
  and its optimisation, the resolver, the explanation of failures, the search for orphans, the build
  scheduler, the job queue, and the metadata block of binary packages. Sources are under \<open>src/internal/\<close>; a
  definition has the name of the Go function in lower case, and the fields of a record carry a prefix.

  \<^bold>\<open>How the parts interact.\<close> An ebuild's dependency variables are parsed into dependencies
  (\<open>repo/ebuild_parser.go\<close>) whose atoms (\<open>pkg/atom.go\<close>) become constraints (\<open>pkg/constraint.go\<close>) over versions
  (\<open>pkg/version.go\<close>); \<open>repo/portage.go\<close> keeps those whose USE conditions are active
  (\<open>pkg/use_resolver.go\<close>). The resolver (\<open>solver/resolver.go\<close>) collects candidate packages from the
  repository, adds the installed ones, and gives versions, dependencies, blockers and requests to the SAT
  adapter (\<open>solver/gophersat_adapter.go\<close>), which numbers variables and builds clauses; it solves first with
  preferred versions forced, then by MAX-SAT, and reads the plan from the model. When there is no solution the
  tracer in the same file says why. The dependency graph (\<open>solver/graph.go\<close> and the cycle and
  conflict detectors) is a second view of the same packages. The scheduler (\<open>daemon/scheduler.go\<close>) builds the
  planned packages in the order of their dependencies; the job queue (\<open>daemon/job.go\<close>) takes the requests of
  the daemon's clients.

  \<^bold>\<open>The theories, in the order of their imports.\<close>
  \<^item> \<open>Go_Prelude\<close>, \<open>Go_Format\<close>, \<open>Go_Bytes\<close>: what Go code uses everywhere. A \<open>string\<close> is a list of bytes; the functions
    of the packages \<open>strings\<close>, \<open>strconv\<close> and \<open>unicode/utf8\<close> the code calls; maps with a default; 32-bit integers in
    both byte orders. \<open>Worklist\<close>: breadth-first search with its reachability theorem, used by the tracer and the
    orphan search. \<open>Worker_Pool\<close>: sums over the states of workers, used by the scheduler and the job queue.
  \<^item> \<open>Versions\<close> (\<open>pkg/version.go\<close>, \<open>CompareVersions\<close> of \<open>pkg/constraint.go\<close>): the parser, the comparison and the
    fallback comparison. The regular expression library is the argument of the locale \<open>coregex_lib\<close>, which is
    interpreted by a concrete matcher. The comparison is a total preorder, refines Algorithms 3.1 to 3.7 of the
    PMS, and every version text parses to its parts.
  \<^item> \<open>Constraints\<close>, \<open>Atoms\<close>, \<open>Packages\<close> (\<open>pkg/constraint.go\<close>, \<open>pkg/atom.go\<close>, \<open>pkg/package.go\<close>,
    \<open>pkg/dependency_service.go\<close>): operators and USE dependencies, the atom grammar with its errors and printer,
    matching, the dependency service. Parsing and printing are inverse; a parsed atom is well formed.
  \<^item> \<open>Required_Use\<close> (\<open>pkg/required_use.go\<close>): the evaluator over tokens against the meaning of the PMS.
  \<^item> \<open>Use_Flags\<close> (\<open>pkg/use_resolver.go\<close>, \<open>solver/useflag_solver.go\<close>): which source decides a flag.
  \<^item> \<open>Ebuild_Deps\<close>, \<open>Ebuild_Meaning\<close> (\<open>repo/ebuild_parser.go\<close> from \<open>parseDependencyString\<close> on, the loop over parsed
    dependencies of \<open>repo/portage.go\<close>): \<open>dep_expr\<close> is the abstract grammar; parsing a printed expression gives its
    dependencies, and the constraints the package gets mean what the expression means.
  \<^item> \<open>Dep_Graph\<close>, \<open>Graph_Conflicts\<close> (\<open>solver/graph.go\<close>, \<open>cycle_detector.go\<close>, \<open>conflict_detector.go\<close>): the graph with
    its well-formedness invariant, cycle detection by colouring, depths, slot and version conflicts.
    \<open>Slot_Collisions\<close> (\<open>solver/slot_collision.go\<close>): packages of the graph in one slot, the kind of the collision,
    and when a change of USE flags is suggested for it.
  \<^item> \<open>Sat_Adapter\<close>, \<open>Sat_Meaning\<close>, \<open>Sat_Optimal\<close> (\<open>solver/gophersat_adapter.go\<close>): the adapter's state, every
    operation that adds clauses, what the models of the clauses are (\<open>models m g\<close>), and the penalty that
    \<open>SolveOptimal\<close> minimises. The solver is an argument; the locale of its laws (sound and complete) is
    interpreted by search over all assignments. \<open>Unsat_Tracer\<close>: the dead packages and the explanation.
  \<^item> \<open>Resolver\<close>, \<open>Resolver_Encoding\<close>, \<open>Resolve_Plan\<close> (\<open>solver/resolver.go\<close>): collecting, encoding and reading the
    plan. \<open>installation_ok\<close> is the abstract specification: which sets of candidates are valid. The models of the
    encoding are exactly these, and a plan comes from one.
  \<^item> \<open>Depclean\<close> (\<open>solver/depclean.go\<close>, \<open>PackageSet\<close> of \<open>state/sets.go\<close>): the orphans are what the world set does
    not reach.
  \<^item> \<open>Scheduler\<close>, \<open>Scheduler_Order\<close>, \<open>Scheduler_Run\<close>, \<open>Scheduler_Live\<close> (\<open>daemon/scheduler.go\<close>): the operations, the
    build order, the step relation \<open>sched_step\<close> of all goroutines with its invariants, and runs without failures.
  \<^item> \<open>Job_Conflicts\<close>, \<open>Job_Queue\<close>, \<open>Job_Runs\<close> (\<open>daemon/conflict_detector.go\<close>, \<open>daemon/job.go\<close>): jobs, the conflict
    check, the step relation \<open>jq_step\<close> with its invariant \<open>jq_inv\<close>, and what follows for runs.
  \<^item> \<open>Xpak\<close> (\<open>binpkg/xpak.go\<close>, \<open>encodeXPAK\<close> and \<open>createXPAK\<close> of \<open>binpkg/tbz2_writer.go\<close>, \<open>xpakToMetadata\<close> of
    \<open>binpkg/tbz2.go\<close>): reader and writer of the metadata block, on 32-bit words that wrap around.
  \<^item> \<open>Masks\<close> (\<open>mask/manager.go\<close>, \<open>config/atom.go\<close>): the patterns of configuration files, mask files, the cascade of
    profiles and the two indexes. \<open>applies\<close> is the abstract meaning of an entry; a package is masked exactly when
    some mask applies and no negation or unmask does.
  \<^item> \<open>Src_Uri\<close> (\<open>repo/srcuri_parser.go\<close>): \<open>src_expr\<close> is the abstract grammar of \<open>SRC_URI\<close>; parsing a printed expression
    gives the files whose conditions hold. The expansion of variables is a partial function, and it returns when no
    value contains a dollar sign.
  \<^item> \<open>Ver_Helpers\<close> (\<open>ebuild/helpers_version.go\<close>): \<open>ver_cut\<close> and \<open>ver_rs\<close> against the pairs of separator and
    component a version consists of, with indexes that wrap around at 64 bits.
  \<^item> \<open>Memory_Cache\<close> (\<open>cache/memory.go\<close>): the methods and, as the step relation \<open>cache_step\<close>, their locked sections.
    Without overlap every history is that of a list in the order of last use; with overlap the bound holds, no call
    hangs, and two races are shown.
  \<^item> \<open>Suggest\<close> (\<open>cli/suggest.go\<close>): edit distance in two rows against sequences of edits.

  \<^bold>\<open>How Go is modelled.\<close> A struct is a record, a pointer to a shared struct its key in a map, an error the left
  side of a sum, a panic its own value where one can happen. A loop over a map takes the order of the visit as
  an argument, and the theorems hold for every order. Goroutines are step relations: one step is what one
  goroutine does under one lock or one channel operation. Calls of the repository, the solver, the installed
  database, the mask manager and the regular expression library are arguments; what a theorem needs of them is
  a hypothesis of the theorem or a law of a locale. Log messages, callbacks, clocks and contexts cancelled from
  outside are left out.

  \<^bold>\<open>Fuel.\<close> Recursion that is not structural has fuel where its depth depends on the data. \<open>validate_fuel\<close>
  (tokens of a REQUIRED_USE expression), \<open>Suc (length ts)\<close> for \<open>parse_tokens\<close>, \<open>detect_fuel\<close> (nodes of the graph),
  \<open>explain_fuel\<close> (variables of the adapter), \<open>Suc (length ids)\<close> for \<open>kahn\<close>, the number of atoms for \<open>mark_loop\<close> and
  one more than the number of package keys for \<open>collect_package\<close> are proved to be enough: the theorems say that
  the function returns. The scheduler needs at most six steps for each task, the job queue nine for each job.

  \<^bold>\<open>Where the code is wrong.\<close> Some theorems state what the code does where it means something else: a refused
  build order, a job that is lost, a written package that cannot be read. They are named in the list of findings.

  \<^bold>\<open>Not modelled.\<close> Running ebuilds and eclasses (a shell interpreter of a third party and external programs),
  installing and removing files, the installed database and the repository on disk, downloads, synchronisation,
  signatures and archives, the SQLite cache, sandboxing, the gRPC server and the command line: their behaviour
  is that of the file system, the network, other programs or the kernel. The extraction of variables from the
  text of an ebuild rests on a third-party regular expression library. Virtual packages, the profile
  parser and the similarity search of package names are not modelled either.
\<close>

end
